(* ===== verification/Prelude.thy ===== *)
theory Prelude imports Main "HOL-Library.Word" "HOL-Library.List_Lexorder" begin

text \<open>
  Shared vocabulary of the development: bytes, Go slices that may be nil, Go's 64-bit
  \<^verbatim>\<open>int\<close>, slice expressions that panic when they are out of range, the byte order of
  \<^verbatim>\<open>bytes.Compare\<close> and the binary search of \<^verbatim>\<open>sort.Search\<close>.  Strings of bytes are lists of
  8-bit words, and the order that the library theory \<^verbatim>\<open>List_Lexorder\<close> puts on them is the
  one \<^verbatim>\<open>bytes.Compare\<close> computes (lemma \<^verbatim>\<open>bytes_compare_less\<close>), so that keys live in a
  linear order and the library's \<^verbatim>\<open>sorted\<close> applies to them.
\<close>

unbundle bit_operations_syntax

type_synonym byte = "8 word"
type_synonym bytes = "byte list"
type_synonym u16 = "16 word"
type_synonym u32 = "32 word"
type_synonym u64 = "64 word"

named_theorems go_defs "small definitions that the component proofs unfold"

text \<open>
  Go's \<^verbatim>\<open>error\<close> interface: the sentinel errors of every package of the program, those of
  the standard library that reach its results, and \<^verbatim>\<open>Panic\<close> for a run-time panic (an index
  or a slice bound out of range), which ends the call as an error would.  A result is
  \<^verbatim>\<open>error + 'a\<close>, \<^verbatim>\<open>Inl\<close> for the error.
\<close>

datatype error =
    Panic | OsError | os_ErrNotExist | os_ErrExist | io_EOF | io_ErrUnexpectedEOF | io_ErrShortWrite
  | byteutil_ErrShortBuffer | byteutil_ErrOverflow
  | varintx_ErrOverflow | varintx_ErrShortBuffer | varintx_ErrTruncated
  | bloomx_ErrCorrupt | bloomx_ErrInvalid
  | wal_ErrClosed | wal_ErrCorrupt | wal_ErrBadType | wal_ErrShortWrite | wal_PayloadTooLarge
  | sstable_ErrCorrupt | sstable_ErrClosed | sstable_ErrInvalid | sstable_ErrBadMagic
  | sstable_OutOfOrder
  | compact_ErrNoInputs | compact_NotSorted
  | manifest_ErrCorrupt
  | filelock_ErrLocked | filelock_ErrNotHeld | filelock_ErrInvalid | filelock_ErrTimeout
  | lsmkv_ErrClosed | lsmkv_ErrNotFound | lsmkv_ErrInvalid | lsmkv_ErrReadOnly

section \<open>Slices and Go's int\<close>

text \<open>A \<^verbatim>\<open>[]byte\<close> whose nil-ness the code tests: \<^verbatim>\<open>None\<close> is nil, which has length 0.\<close>

type_synonym slice = "bytes option"

definition sbytes :: "slice \<Rightarrow> bytes" where
  "sbytes s = (case s of None \<Rightarrow> [] | Some b \<Rightarrow> b)"

lemma sbytes_simps [simp]: "sbytes None = []" "sbytes (Some b) = b"
  by (simp_all add: sbytes_def)

text \<open>\<^verbatim>\<open>append([]byte(nil), b...)\<close>: appending no byte to nil leaves nil.\<close>

definition append_nil :: "bytes \<Rightarrow> slice" where
  "append_nil b = (if b = [] then None else Some b)"

lemma sbytes_append_nil [simp]: "sbytes (append_nil b) = b"
  by (simp add: append_nil_def)

text \<open>
  Go's \<^verbatim>\<open>int\<close> has 64 bits: an arithmetic result is reduced to the signed range, and the
  conversion \<^verbatim>\<open>int(x)\<close> of a \<^verbatim>\<open>uint64\<close> reads the same bits as two's complement.
\<close>

definition wrap_int :: "int \<Rightarrow> int" where
  "wrap_int n = signed_take_bit 63 n"

definition int_of_u64 :: "u64 \<Rightarrow> int" where
  "int_of_u64 x = sint x"

lemma wrap_int_id [simp]: "- (2 ^ 63) \<le> n \<Longrightarrow> n < 2 ^ 63 \<Longrightarrow> wrap_int n = n"
  by (simp add: wrap_int_def signed_take_bit_int_eq_self)

lemma int_of_u64_small: "uint x < 2 ^ 63 \<Longrightarrow> int_of_u64 x = uint x"
proof -
  assume x: "uint x < 2 ^ 63"
  have "sint x = signed_take_bit 63 (uint x)"
    by (simp add: sint_uint)
  also have "\<dots> = uint x"
    by (rule signed_take_bit_int_eq_self)
      (use x uint_ge_0 [of x] in \<open>simp_all del: uint_ge_0 add: order_trans [OF _ uint_ge_0]\<close>)
  finally show ?thesis by (simp add: int_of_u64_def)
qed

lemma int_of_u64_of_nat: "n < 2 ^ 63 \<Longrightarrow> int_of_u64 (of_nat n) = int n"
proof -
  assume n: "n < 2 ^ 63"
  have "uint (of_nat n :: u64) = int n"
    using n by (simp add: unsigned_of_nat take_bit_nat_eq_self uint_nat)
  then show ?thesis using n by (simp add: int_of_u64_small)
qed

text \<open>
  The slice expressions \<^verbatim>\<open>b[lo:]\<close> and \<^verbatim>\<open>b[lo:hi]\<close> with \<^verbatim>\<open>int\<close> operands.  \<^verbatim>\<open>None\<close> is the
  run-time panic.  The slices of the program that are cut this way have no spare capacity
  (they come from \<^verbatim>\<open>make\<close> or are checked against their length first).
\<close>

definition slice_from :: "bytes \<Rightarrow> int \<Rightarrow> bytes option" where
  "slice_from b lo = (if 0 \<le> lo \<and> lo \<le> int (length b) then Some (drop (nat lo) b) else None)"

definition slice_range :: "bytes \<Rightarrow> int \<Rightarrow> int \<Rightarrow> bytes option" where
  "slice_range b lo hi =
     (if 0 \<le> lo \<and> lo \<le> hi \<and> hi \<le> int (length b)
      then Some (take (nat hi - nat lo) (drop (nat lo) b)) else None)"

lemma slice_from_nat [simp]: "n \<le> length b \<Longrightarrow> slice_from b (int n) = Some (drop n b)"
  by (simp add: slice_from_def)

lemma slice_from_append [simp]: "slice_from (pre @ b) (int (length pre)) = Some b"
  by (simp add: slice_from_def)

lemma slice_range_append [simp]:
  "slice_range (pre @ b @ rest) (int (length pre)) (int (length pre) + int (length b)) = Some b"
  by (simp add: slice_range_def nat_add_distrib)

lemma slice_range_nat [simp]:
  "n \<le> m \<Longrightarrow> m \<le> length b \<Longrightarrow> slice_range b (int n) (int m) = Some (take (m - n) (drop n b))"
  by (simp add: slice_range_def)

section \<open>bytes.Compare\<close>

fun bytes_compare :: "bytes \<Rightarrow> bytes \<Rightarrow> int" where
  "bytes_compare [] [] = 0"
| "bytes_compare [] (b # bs) = -1"
| "bytes_compare (a # as) [] = 1"
| "bytes_compare (a # as) (b # bs) =
     (if a < b then -1 else if b < a then 1 else bytes_compare as bs)"

lemma bytes_compare_less [simp]: "bytes_compare a b < 0 \<longleftrightarrow> a < b"
  by (induction a b rule: bytes_compare.induct) auto

lemma bytes_compare_eq [simp]: "bytes_compare a b = 0 \<longleftrightarrow> a = b"
  by (induction a b rule: bytes_compare.induct) auto

lemma bytes_compare_swap: "bytes_compare b a = - bytes_compare a b"
  by (induction a b rule: bytes_compare.induct) auto

lemma bytes_compare_greater [simp]: "bytes_compare a b > 0 \<longleftrightarrow> b < a"
  using bytes_compare_less [of b a] by (simp add: bytes_compare_swap [of b a])

lemma bytes_compare_le [simp]: "bytes_compare a b \<le> 0 \<longleftrightarrow> a \<le> b"
  using bytes_compare_greater [of a b] by (metis not_less)

lemma bytes_compare_ge [simp]: "bytes_compare a b \<ge> 0 \<longleftrightarrow> b \<le> a"
  using bytes_compare_less [of a b] by (metis not_less)

section \<open>sort.Search\<close>

function sort_Search_loop :: "(nat \<Rightarrow> bool) \<Rightarrow> nat \<Rightarrow> nat \<Rightarrow> nat" where
  "sort_Search_loop f i j =
     (if i < j
      then (let h = (i + j) div 2
            in if \<not> f h then sort_Search_loop f (h + 1) j else sort_Search_loop f i h)
      else i)"
  by pat_completeness auto
termination
  by (relation "measure (\<lambda>(f, i, j). j - i)") auto

declare sort_Search_loop.simps [simp del]

definition sort_Search :: "nat \<Rightarrow> (nat \<Rightarrow> bool) \<Rightarrow> nat" where
  "sort_Search n f = sort_Search_loop f 0 n"

lemma sort_Search_loop_spec:
  assumes "i \<le> j" and "\<And>a b. a \<le> b \<Longrightarrow> b < n \<Longrightarrow> f a \<Longrightarrow> f b" and "j \<le> n"
    and "\<And>k. k < i \<Longrightarrow> \<not> f k" and "\<And>k. j \<le> k \<Longrightarrow> k < n \<Longrightarrow> f k"
  shows "sort_Search_loop f i j \<le> j \<and> (\<forall>k < sort_Search_loop f i j. \<not> f k)
    \<and> (\<forall>k. sort_Search_loop f i j \<le> k \<longrightarrow> k < n \<longrightarrow> f k)"
  using assms
proof (induction f i j rule: sort_Search_loop.induct)
  case (1 f i j)
  let ?h = "(i + j) div 2"
  show ?case
  proof (cases "i < j")
    case False
    with "1.prems"(1) have "j = i" by simp
    moreover have "sort_Search_loop f i i = i"
      by (simp add: sort_Search_loop.simps [of f i i])
    ultimately show ?thesis using "1.prems" by auto
  next
    case True
    then have h: "i \<le> ?h" "?h < j" by auto
    show ?thesis
    proof (cases "f ?h")
      case True
      have "sort_Search_loop f i ?h \<le> ?h \<and> (\<forall>k < sort_Search_loop f i ?h. \<not> f k)
          \<and> (\<forall>k. sort_Search_loop f i ?h \<le> k \<longrightarrow> k < n \<longrightarrow> f k)"
      proof (rule "1.IH"(2) [OF \<open>i < j\<close> refl])
        show "\<And>k. ?h \<le> k \<Longrightarrow> k < n \<Longrightarrow> f k" using "1.prems"(2) True by blast
        show "?h \<le> n" using h "1.prems"(3) by simp
        show "\<not> \<not> f ?h" using True by simp
      qed (use "1.prems" h in auto)
      with True \<open>i < j\<close> h show ?thesis
        by (simp add: sort_Search_loop.simps [of f i j] Let_def)
    next
      case False
      have "sort_Search_loop f (?h + 1) j \<le> j \<and> (\<forall>k < sort_Search_loop f (?h + 1) j. \<not> f k)
          \<and> (\<forall>k. sort_Search_loop f (?h + 1) j \<le> k \<longrightarrow> k < n \<longrightarrow> f k)"
      proof (rule "1.IH"(1) [OF \<open>i < j\<close> refl False])
        show "\<And>k. k < ?h + 1 \<Longrightarrow> \<not> f k"
          using "1.prems"(2,3) False h
          by (metis Suc_eq_plus1 dual_order.strict_trans1 less_Suc_eq_le)
      qed (use "1.prems" h in auto)
      with False \<open>i < j\<close> show ?thesis
        by (simp add: sort_Search_loop.simps [of f i j] Let_def)
    qed
  qed
qed

text \<open>For a monotone predicate the search returns the first index at which it holds, or n.\<close>

lemma sort_Search_first:
  assumes "\<And>a b. a \<le> b \<Longrightarrow> b < n \<Longrightarrow> f a \<Longrightarrow> f b"
  shows "sort_Search n f \<le> n" and "\<And>k. k < sort_Search n f \<Longrightarrow> \<not> f k"
    and "\<And>k. sort_Search n f \<le> k \<Longrightarrow> k < n \<Longrightarrow> f k"
  using sort_Search_loop_spec [of 0 n n f] assms by (auto simp: sort_Search_def)

section \<open>Interfaces\<close>

text \<open>
  A self-delimiting encoding: the decoder finds the encoded value in front of any suffix and
  says how many bytes it took.  The framing of the log and of the tables rests on these laws
  only.
\<close>

locale prefix_codec =
  fixes enc :: "'a \<Rightarrow> bytes" and dec :: "bytes \<Rightarrow> error + ('a \<times> nat)"
  assumes dec_enc: "dec (enc x @ rest) = Inr (x, length (enc x))"
begin

lemma dec_enc_nil: "dec (enc x) = Inr (x, length (enc x))"
  using dec_enc [of x "[]"] by simp

lemma dec_enc_at: "dec (drop (length pre) (pre @ enc x @ rest)) = Inr (x, length (enc x))"
  by (simp add: dec_enc)

lemma enc_prefix_free: "enc x @ r = enc y @ s \<Longrightarrow> x = y \<and> r = s"
proof -
  assume eq: "enc x @ r = enc y @ s"
  have "dec (enc x @ r) = dec (enc y @ s)" using eq by simp
  then have "x = y" by (simp add: dec_enc)
  with eq show ?thesis by simp
qed

lemma enc_inj: "inj enc"
  using enc_prefix_free [of _ "[]" _ "[]"] by (auto simp: inj_def)

end

text \<open>
  An \<^verbatim>\<open>io.ByteReader\<close> that reads a finite string: it yields the bytes that remain, one per
  call, and then an error.
\<close>

locale byte_reader =
  fixes readByte :: "'s \<Rightarrow> (error + byte) \<times> 's" and remaining :: "'s \<Rightarrow> bytes"
  assumes read_end: "remaining r = [] \<Longrightarrow> \<exists>e. readByte r = (Inl e, r)"
    and read_byte: "remaining r = c # cs \<Longrightarrow> \<exists>r'. readByte r = (Inr c, r') \<and> remaining r' = cs"
begin

lemma readByte_cases:
  "(\<exists>e. remaining r = [] \<and> readByte r = (Inl e, r)) \<or>
   (\<exists>c cs r'. remaining r = c # cs \<and> readByte r = (Inr c, r') \<and> remaining r' = cs)"
  by (cases "remaining r") (use read_end read_byte in blast)+

end

section \<open>Generic lemmas\<close>

lemma xor_cancel_left: "a XOR b = a XOR (c :: 'a :: len word) \<longleftrightarrow> b = c"
proof
  assume "a XOR b = a XOR c"
  then have "a XOR (a XOR b) = a XOR (a XOR c)" by simp
  then show "b = c" by (simp only: xor.assoc [symmetric] xor_self_eq xor.left_neutral)
qed simp

lemma xor_cancel_right: "b XOR a = c XOR (a :: 'a :: len word) \<longleftrightarrow> b = c"
  by (simp only: xor.commute [of _ a] xor_cancel_left)

lemma bit_less_exp:
  assumes "unat (w :: 'a :: len word) < 2 ^ m" and "bit w k"
  shows "k < m"
proof (rule ccontr)
  assume "\<not> k < m"
  then have "unat w < 2 ^ k"
    using assms(1) by (metis less_le_trans not_less one_le_numeral power_increasing)
  moreover have "bit (unat w) k" using assms(2) by (simp add: bit_unsigned_iff)
  ultimately show False by (simp add: bit_iff_odd)
qed

lemma bind_option_Some [simp]: "Option.bind (Some x) f = f x"
  by simp

lemma list_update_append_at [simp]:
  "(xs @ y # ys)[length xs := z] = xs @ z # ys"
  by (induction xs) auto

lemma take_drop_append_mid [simp]:
  "take (length ys) (drop (length xs) (xs @ ys @ zs)) = ys"
  by simp

end
