(* ===== verification/Prefixscan.thy ===== *)
theory Prefixscan imports Prelude "HOL-Library.Char_ord" begin

text \<open>
  \<^verbatim>\<open>internal/prefixscan\<close>: a cursor over a slice of sorted keys.  Go compares strings
  bytewise, which is the lexicographic order of character lists.
\<close>

record Iter =
  it_keys :: "string list"
  it_i :: nat

definition Iter_New :: "string list \<Rightarrow> Iter" where
  "Iter_New keys = \<lparr>it_keys = keys, it_i = 0\<rparr>"

function Seek_loop :: "string \<Rightarrow> Iter \<Rightarrow> Iter" where
  "Seek_loop prefix it =
     (if it_i it < length (it_keys it) \<and> it_keys it ! it_i it \<le> prefix
      then Seek_loop prefix (it\<lparr>it_i := it_i it + 1\<rparr>) else it)"
  by pat_completeness auto
termination by (relation "measure (\<lambda>(prefix, it). length (it_keys it) - it_i it)") auto

declare Seek_loop.simps [simp del]

definition Iter_Seek :: "string \<Rightarrow> Iter \<Rightarrow> Iter" where
  "Iter_Seek prefix it = Seek_loop prefix (it\<lparr>it_i := 0\<rparr>)"

definition Iter_Key :: "Iter \<Rightarrow> string" where
  "Iter_Key it = (if it_i it \<ge> length (it_keys it) then '''' else it_keys it ! it_i it)"

lemma Seek_loop_takeWhile:
  "it_i it \<le> length (it_keys it) \<Longrightarrow> Seek_loop prefix it =
    it\<lparr>it_i := it_i it + length (takeWhile (\<lambda>k. k \<le> prefix) (drop (it_i it) (it_keys it)))\<rparr>"
proof (induction prefix it rule: Seek_loop.induct)
  case (1 prefix it)
  show ?case
  proof (cases "it_i it < length (it_keys it)")
    case True
    then have "drop (it_i it) (it_keys it) = it_keys it ! it_i it # drop (Suc (it_i it)) (it_keys it)"
      by (simp add: Cons_nth_drop_Suc)
    then show ?thesis using 1 True by (subst Seek_loop.simps) simp
  qed (subst Seek_loop.simps, simp)
qed

lemma Iter_Key_Seek:
  "Iter_Key (Iter_Seek prefix it) =
    (case dropWhile (\<lambda>k. k \<le> prefix) (it_keys it) of [] \<Rightarrow> '''' | k # _ \<Rightarrow> k)"
proof -
  let ?n = "length (takeWhile (\<lambda>k. k \<le> prefix) (it_keys it))"
  have "Iter_Key (Iter_Seek prefix it) = (if length (it_keys it) \<le> ?n then '''' else it_keys it ! ?n)"
    by (simp add: Iter_Seek_def Seek_loop_takeWhile Iter_Key_def)
  moreover have "dropWhile (\<lambda>k. k \<le> prefix) (it_keys it) = drop ?n (it_keys it)"
    by (rule dropWhile_eq_drop)
  ultimately show ?thesis
    by (auto simp: Cons_nth_drop_Suc [symmetric] not_le split: list.splits)
qed

text \<open>C25: on sorted keys \<^verbatim>\<open>Seek\<close> positions at the first key greater than the prefix.  A key
  equal to it is always skipped, so the inclusive seek that the package's test asks for never
  happens.\<close>

theorem prefixscan_Seek_is_exclusive:
  assumes "sorted (it_keys it)" and "prefix \<noteq> ''''"
  shows "Iter_Key (Iter_Seek prefix it) =
      (case filter (\<lambda>k. prefix < k) (it_keys it) of [] \<Rightarrow> '''' | k # _ \<Rightarrow> k)
    \<and> Iter_Key (Iter_Seek prefix it) \<noteq> prefix"
proof -
  have "dropWhile (\<lambda>k. k \<le> p) ks = filter (\<lambda>k. p < k) ks" if "sorted ks" for p and ks :: "string list"
    using that by (induction ks) (auto simp: not_le intro!: filter_True [symmetric])
  with assms(1) have eq: "Iter_Key (Iter_Seek prefix it) =
      (case filter (\<lambda>k. prefix < k) (it_keys it) of [] \<Rightarrow> '''' | k # _ \<Rightarrow> k)"
    by (simp add: Iter_Key_Seek)
  have "k \<noteq> prefix" if "filter (\<lambda>k. prefix < k) (it_keys it) = k # ks" for k ks
  proof -
    from that have "k \<in> set (filter (\<lambda>k. prefix < k) (it_keys it))" by simp
    then show ?thesis by auto
  qed
  with assms(2) eq show ?thesis by (auto split: list.splits)
qed

theorem prefixscan_Seek_is_exclusive_witness:
  "Iter_Key (Iter_Seek ''ab'' (Iter_New [''ab'', ''abc'', ''b''])) = ''abc''"
proof -
  have "sorted (it_keys (Iter_New [''ab'', ''abc'', ''b'']))" by (simp add: Iter_New_def)
  from prefixscan_Seek_is_exclusive [OF this, of "''ab''"] show ?thesis
    by (simp add: Iter_New_def)
qed

end
