(* ===== verification/Binary.thy ===== *)
theory Binary imports Prelude begin

text \<open>
  What the program uses of the standard library's \<^verbatim>\<open>encoding/binary\<close>: the fixed-width
  little- and big-endian forms of unsigned integers.  \<^verbatim>\<open>le_put n x\<close> is the n bytes that
  \<^verbatim>\<open>LittleEndian.PutUint\<close> stores, \<^verbatim>\<open>le_get b\<close> the value that \<^verbatim>\<open>LittleEndian.Uint\<close> reads.
  The interface \<^verbatim>\<open>fixed_codec\<close> states what the file formats rely on and is interpreted on
  every width in use.
\<close>

unbundle bit_operations_syntax

fun le_put :: "nat \<Rightarrow> 'a :: len word \<Rightarrow> bytes" where
  "le_put 0 x = []"
| "le_put (Suc n) x = ucast x # le_put n (drop_bit 8 x)"

fun le_get :: "bytes \<Rightarrow> 'a :: len word" where
  "le_get [] = 0"
| "le_get (c # cs) = ucast c OR push_bit 8 (le_get cs)"

definition be_put :: "nat \<Rightarrow> 'a :: len word \<Rightarrow> bytes" where
  "be_put n x = rev (le_put n x)"

definition be_get :: "bytes \<Rightarrow> 'a :: len word" where
  "be_get b = le_get (rev b)"

lemma length_le_put [simp]: "length (le_put n x) = n"
  by (induction n arbitrary: x) auto

lemma length_be_put [simp]: "length (be_put n x) = n"
  by (simp add: be_put_def)

lemma le_get_le_put_bits: "bit (le_get (le_put n (x :: 'a :: len word)) :: 'a word) i \<longleftrightarrow> i < 8 * n \<and> bit x i"
proof (induction n arbitrary: x i)
  case 0
  then show ?case by simp
next
  case (Suc n)
  show ?case
  proof (cases "i < 8")
    case True
    then show ?thesis
      using bit_imp_le_length [of x i]
      by (auto simp: bit_or_iff bit_push_bit_iff bit_ucast_iff)
  next
    case False
    then show ?thesis
      using Suc.IH [of "drop_bit 8 x" "i - 8"]
      by (auto simp: bit_or_iff bit_push_bit_iff bit_ucast_iff bit_drop_bit_eq
          dest: bit_imp_le_length)
  qed
qed

lemma le_get_le_put: "LENGTH('a :: len) \<le> 8 * n \<Longrightarrow> le_get (le_put n x) = (x :: 'a word)"
  by (rule bit_word_eqI) (simp add: le_get_le_put_bits)

lemma bit_le_get_ge: "bit (le_get b :: 'a :: len word) i \<Longrightarrow> i < 8 * length b"
proof (induction b arbitrary: i)
  case (Cons c cs)
  then show ?case
    by (fastforce simp: bit_or_iff bit_push_bit_iff bit_ucast_iff dest: bit_imp_le_length)
qed simp

lemma le_put_le_get: "8 * length b \<le> LENGTH('a :: len) \<Longrightarrow> le_put (length b) (le_get b :: 'a word) = b"
proof (induction b)
  case (Cons c cs)
  let ?w = "le_get (c # cs) :: 'a word"
  have "ucast ?w = c"
  proof (rule bit_word_eqI)
    fix i assume "i < LENGTH(8)"
    then show "bit (ucast ?w :: byte) i = bit c i"
      using Cons.prems by (auto simp: bit_ucast_iff bit_or_iff bit_push_bit_iff)
  qed
  moreover have "drop_bit 8 ?w = le_get cs"
  proof (rule bit_word_eqI)
    fix i assume i: "i < LENGTH('a)"
    have "\<not> bit c (8 + i)" using bit_imp_le_length [of c "8 + i"] by auto
    then show "bit (drop_bit 8 ?w) i = bit (le_get cs :: 'a word) i"
      using Cons.prems bit_le_get_ge [of cs i, where 'a = 'a]
      by (auto simp: bit_drop_bit_eq bit_or_iff bit_push_bit_iff bit_ucast_iff)
  qed
  ultimately show ?case using Cons by (simp del: le_get.simps)
qed simp

lemma be_get_be_put: "LENGTH('a :: len) \<le> 8 * n \<Longrightarrow> be_get (be_put n x) = (x :: 'a word)"
  by (simp add: be_get_def be_put_def le_get_le_put)

lemma le_get_inj:
  "length a = length b \<Longrightarrow> 8 * length a \<le> LENGTH('w :: len) \<Longrightarrow>
     (le_get a :: 'w word) = le_get b \<Longrightarrow> a = b"
  by (metis le_put_le_get)

text \<open>The interface of a fixed-width field: its width, and reading back what was written.\<close>

locale fixed_codec =
  fixes put :: "'w \<Rightarrow> bytes" and get :: "bytes \<Rightarrow> 'w" and width :: nat
  assumes put_width: "length (put x) = width"
    and get_put: "get (put x) = x"
begin

lemma get_take: "get (take width (put x @ rest)) = x"
  by (simp add: put_width get_put)

lemma drop_put: "drop width (put x @ rest) = rest"
  by (simp add: put_width)

lemma get_at: "get (take width (drop (length pre) (pre @ put x @ rest))) = x"
  by (simp add: put_width get_put)

lemma put_inj: "put x = put y \<longleftrightarrow> x = y"
  by (metis get_put)

end

interpretation le16: fixed_codec "le_put 2 :: u16 \<Rightarrow> bytes" le_get 2
  by unfold_locales (simp_all add: le_get_le_put)

interpretation le32: fixed_codec "le_put 4 :: u32 \<Rightarrow> bytes" le_get 4
  by unfold_locales (simp_all add: le_get_le_put)

interpretation le64: fixed_codec "le_put 8 :: u64 \<Rightarrow> bytes" le_get 8
  by unfold_locales (simp_all add: le_get_le_put)

interpretation be16: fixed_codec "be_put 2 :: u16 \<Rightarrow> bytes" be_get 2
  by unfold_locales (simp_all add: be_get_be_put)

interpretation be32: fixed_codec "be_put 4 :: u32 \<Rightarrow> bytes" be_get 4
  by unfold_locales (simp_all add: be_get_be_put)

interpretation be64: fixed_codec "be_put 8 :: u64 \<Rightarrow> bytes" be_get 8
  by unfold_locales (simp_all add: be_get_be_put)

end
