(* ===== verification/Byteutil.thy ===== *)
theory Byteutil imports Binary begin

text \<open>
  \<^verbatim>\<open>internal/byteutil\<close>: the helpers of \<^verbatim>\<open>bytes.go\<close> on byte strings (fixed-width integers,
  shared prefixes, padding, ranges) and the \<^verbatim>\<open>Buffer\<close> and \<^verbatim>\<open>SliceReader\<close> of \<^verbatim>\<open>buffer.go\<close>.
  A function that stores into its argument returns the argument as it is left.  A buffer
  carries its capacity, since the growth policy is part of the code; the backing arrays that
  two slices may share are not modelled.
\<close>

unbundle bit_operations_syntax

section \<open>bytes.go\<close>

definition Compare :: "bytes \<Rightarrow> bytes \<Rightarrow> int" where
  "Compare a b = bytes_compare a b"

definition Equal :: "bytes \<Rightarrow> bytes \<Rightarrow> bool" where
  "Equal a b = (a = b)"

definition Clone :: "slice \<Rightarrow> slice" where
  "Clone b = (case b of None \<Rightarrow> None | Some bs \<Rightarrow> Some bs)"

definition CloneN :: "bytes \<Rightarrow> int \<Rightarrow> slice" where
  "CloneN b n =
     (if n \<le> 0 then None
      else let n = (if int (length b) < n then int (length b) else n) in Some (take (nat n) b))"

definition Concat :: "bytes list \<Rightarrow> bytes" where
  "Concat parts = foldl (\<lambda>out p. out @ p) [] parts"

text \<open>A slice with its capacity.  \<^verbatim>\<open>append\<close> within the capacity keeps it.\<close>

record capslice =
  cs_data :: bytes
  cs_cap :: nat

definition AppendGrow :: "capslice \<Rightarrow> bytes \<Rightarrow> capslice" where
  "AppendGrow dst src =
     (let need = length (cs_data dst) + length src
      in if need \<le> cs_cap dst then dst\<lparr>cs_data := cs_data dst @ src\<rparr>
         else
           let capNew = cs_cap dst * 3 div 2;
               capNew = (if capNew < need then need else capNew);
               capNew = (if capNew < 64 then 64 else capNew)
           in \<lparr>cs_data = cs_data dst @ src, cs_cap = capNew\<rparr>)"

definition PutU16LE :: "bytes \<Rightarrow> u16 \<Rightarrow> error + bytes" where
  "PutU16LE b v =
     (if length b < 2 then Inl byteutil_ErrShortBuffer else Inr (le_put 2 v @ drop 2 b))"

definition PutU32LE :: "bytes \<Rightarrow> u32 \<Rightarrow> error + bytes" where
  "PutU32LE b v =
     (if length b < 4 then Inl byteutil_ErrShortBuffer else Inr (le_put 4 v @ drop 4 b))"

definition PutU64LE :: "bytes \<Rightarrow> u64 \<Rightarrow> error + bytes" where
  "PutU64LE b v =
     (if length b < 8 then Inl byteutil_ErrShortBuffer else Inr (le_put 8 v @ drop 8 b))"

definition U16LE :: "bytes \<Rightarrow> error + u16" where
  "U16LE b = (if length b < 2 then Inl byteutil_ErrShortBuffer else Inr (le_get (take 2 b)))"

definition U32LE :: "bytes \<Rightarrow> error + u32" where
  "U32LE b = (if length b < 4 then Inl byteutil_ErrShortBuffer else Inr (le_get (take 4 b)))"

definition U64LE :: "bytes \<Rightarrow> error + u64" where
  "U64LE b = (if length b < 8 then Inl byteutil_ErrShortBuffer else Inr (le_get (take 8 b)))"

definition PutU16BE :: "bytes \<Rightarrow> u16 \<Rightarrow> error + bytes" where
  "PutU16BE b v =
     (if length b < 2 then Inl byteutil_ErrShortBuffer else Inr (be_put 2 v @ drop 2 b))"

definition PutU32BE :: "bytes \<Rightarrow> u32 \<Rightarrow> error + bytes" where
  "PutU32BE b v =
     (if length b < 4 then Inl byteutil_ErrShortBuffer else Inr (be_put 4 v @ drop 4 b))"

definition PutU64BE :: "bytes \<Rightarrow> u64 \<Rightarrow> error + bytes" where
  "PutU64BE b v =
     (if length b < 8 then Inl byteutil_ErrShortBuffer else Inr (be_put 8 v @ drop 8 b))"

definition U16BE :: "bytes \<Rightarrow> error + u16" where
  "U16BE b = (if length b < 2 then Inl byteutil_ErrShortBuffer else Inr (be_get (take 2 b)))"

definition U32BE :: "bytes \<Rightarrow> error + u32" where
  "U32BE b = (if length b < 4 then Inl byteutil_ErrShortBuffer else Inr (be_get (take 4 b)))"

definition U64BE :: "bytes \<Rightarrow> error + u64" where
  "U64BE b = (if length b < 8 then Inl byteutil_ErrShortBuffer else Inr (be_get (take 8 b)))"

function SharedPrefixLen_loop :: "bytes \<Rightarrow> bytes \<Rightarrow> nat \<Rightarrow> nat \<Rightarrow> nat" where
  "SharedPrefixLen_loop a b n i =
     (if i < n \<and> a ! i = b ! i then SharedPrefixLen_loop a b n (i + 1) else i)"
  by pat_completeness auto
termination
  by (relation "measure (\<lambda>(a, b, n, i). n - i)") auto

declare SharedPrefixLen_loop.simps [simp del]

definition SharedPrefixLen :: "bytes \<Rightarrow> bytes \<Rightarrow> nat" where
  "SharedPrefixLen a b =
     (let n = length a; n = (if length b < n then length b else n)
      in SharedPrefixLen_loop a b n 0)"

definition HasPrefix :: "bytes \<Rightarrow> bytes \<Rightarrow> bool" where
  "HasPrefix b prefix = (length prefix \<le> length b \<and> take (length prefix) b = prefix)"

definition HasSuffix :: "bytes \<Rightarrow> bytes \<Rightarrow> bool" where
  "HasSuffix b suffix =
     (length suffix \<le> length b \<and> drop (length b - length suffix) b = suffix)"

fun IsASCII :: "bytes \<Rightarrow> bool" where
  "IsASCII [] = True"
| "IsASCII (c # cs) = (if 0x80 \<le> c then False else IsASCII cs)"

definition PadRight :: "slice \<Rightarrow> nat \<Rightarrow> byte \<Rightarrow> slice" where
  "PadRight b n pad =
     (if n \<le> length (sbytes b) then Clone b
      else Some (sbytes b @ replicate (n - length (sbytes b)) pad))"

fun TrimRightZeros_loop :: "bytes \<Rightarrow> nat \<Rightarrow> nat" where
  "TrimRightZeros_loop b 0 = 0"
| "TrimRightZeros_loop b (Suc i) = (if b ! i = 0 then TrimRightZeros_loop b i else Suc i)"

definition TrimRightZeros :: "bytes \<Rightarrow> bytes" where
  "TrimRightZeros b = take (TrimRightZeros_loop b (length b)) b"

definition Fill :: "bytes \<Rightarrow> byte \<Rightarrow> bytes" where
  "Fill b v = map (\<lambda>_. v) b"

definition XORInto :: "bytes \<Rightarrow> bytes \<Rightarrow> bytes \<Rightarrow> error + bytes" where
  "XORInto dst a b =
     (if length a \<noteq> length b \<or> length dst < length a then Inl byteutil_ErrShortBuffer
      else Inr (map2 (XOR) a b @ drop (length a) dst))"

definition MinBytes :: "bytes \<Rightarrow> bytes \<Rightarrow> bytes" where
  "MinBytes a b = (if Compare a b \<le> 0 then a else b)"

definition MaxBytes :: "bytes \<Rightarrow> bytes \<Rightarrow> bytes" where
  "MaxBytes a b = (if Compare a b \<ge> 0 then a else b)"

definition InRange :: "bytes \<Rightarrow> slice \<Rightarrow> slice \<Rightarrow> bool" where
  "InRange key lo hi =
     (if lo \<noteq> None \<and> Compare key (sbytes lo) < 0 then False
      else if hi \<noteq> None \<and> Compare key (sbytes hi) \<ge> 0 then False
      else True)"

definition KeySuccessor :: "bytes \<Rightarrow> bytes" where
  "KeySuccessor k = k @ [0]"

definition EstimateSize :: "bytes list \<Rightarrow> nat" where
  "EstimateSize parts = foldl (\<lambda>n p. n + (4 + length p)) 0 parts"

text \<open>
  \<^verbatim>\<open>WriteAll\<close> loops until its \<^verbatim>\<open>io.Writer\<close> (a parameter) has taken every byte; a writer
  that takes none and reports no error keeps it going for ever, which is \<^verbatim>\<open>None\<close>.
\<close>

partial_function (option) WriteAll ::
  "('s \<Rightarrow> bytes \<Rightarrow> (nat \<times> error option) \<times> 's) \<Rightarrow> 's \<Rightarrow> bytes \<Rightarrow> (error option \<times> 's) option" where
  "WriteAll write w b =
     (if length b > 0 then
        (case write w b of
           ((n, Some e), w') \<Rightarrow> Some (Some e, w')
         | ((n, None), w') \<Rightarrow>
             if n \<le> length b then WriteAll write w' (drop n b) else Some (Some Panic, w'))
      else Some (None, w))"

section \<open>buffer.go\<close>

type_synonym Buffer = capslice

definition NewBuffer :: "int \<Rightarrow> Buffer" where
  "NewBuffer capHint =
     (let capHint = (if capHint < 0 then 0 else capHint)
      in \<lparr>cs_data = [], cs_cap = nat capHint\<rparr>)"

definition Buffer_Reset :: "Buffer \<Rightarrow> Buffer" where
  "Buffer_Reset b = b\<lparr>cs_data := []\<rparr>"

definition Buffer_Len :: "Buffer \<Rightarrow> nat" where
  "Buffer_Len b = length (cs_data b)"

definition Buffer_Cap :: "Buffer \<Rightarrow> nat" where
  "Buffer_Cap b = cs_cap b"

definition Buffer_Bytes :: "Buffer \<Rightarrow> bytes" where
  "Buffer_Bytes b = cs_data b"

definition Buffer_CloneBytes :: "Buffer \<Rightarrow> slice" where
  "Buffer_CloneBytes b = Clone (Some (cs_data b))"

definition Buffer_Grow :: "int \<Rightarrow> Buffer \<Rightarrow> Buffer" where
  "Buffer_Grow n b =
     (if n \<le> 0 then b
      else
        let need = length (cs_data b) + nat n
        in if need \<le> cs_cap b then b
           else
             let capNew = cs_cap b * 2;
                 capNew = (if capNew < need then need else capNew);
                 capNew = (if capNew < 64 then 64 else capNew)
             in b\<lparr>cs_cap := capNew\<rparr>)"

definition Buffer_Write :: "bytes \<Rightarrow> Buffer \<Rightarrow> nat \<times> Buffer" where
  "Buffer_Write p b = (length p, AppendGrow b p)"

definition Buffer_WriteByte :: "byte \<Rightarrow> Buffer \<Rightarrow> Buffer" where
  "Buffer_WriteByte c b = (let b = Buffer_Grow 1 b in b\<lparr>cs_data := cs_data b @ [c]\<rparr>)"

text \<open>A string is the list of its bytes.\<close>

definition Buffer_WriteString :: "bytes \<Rightarrow> Buffer \<Rightarrow> nat \<times> Buffer" where
  "Buffer_WriteString s b = (length s, AppendGrow b s)"

definition Buffer_WriteU16LE :: "u16 \<Rightarrow> Buffer \<Rightarrow> Buffer" where
  "Buffer_WriteU16LE v b = snd (Buffer_Write (le_put 2 v) b)"

definition Buffer_WriteU32LE :: "u32 \<Rightarrow> Buffer \<Rightarrow> Buffer" where
  "Buffer_WriteU32LE v b = snd (Buffer_Write (le_put 4 v) b)"

definition Buffer_WriteU64LE :: "u64 \<Rightarrow> Buffer \<Rightarrow> Buffer" where
  "Buffer_WriteU64LE v b = snd (Buffer_Write (le_put 8 v) b)"

definition Buffer_WriteU16BE :: "u16 \<Rightarrow> Buffer \<Rightarrow> Buffer" where
  "Buffer_WriteU16BE v b = snd (Buffer_Write (be_put 2 v) b)"

definition Buffer_WriteU32BE :: "u32 \<Rightarrow> Buffer \<Rightarrow> Buffer" where
  "Buffer_WriteU32BE v b = snd (Buffer_Write (be_put 4 v) b)"

definition Buffer_WriteU64BE :: "u64 \<Rightarrow> Buffer \<Rightarrow> Buffer" where
  "Buffer_WriteU64BE v b = snd (Buffer_Write (be_put 8 v) b)"

definition Buffer_WriteLP32 :: "bytes \<Rightarrow> Buffer \<Rightarrow> Buffer" where
  "Buffer_WriteLP32 data b =
     snd (Buffer_Write data (Buffer_WriteU32LE (of_nat (length data)) b))"

definition Buffer_Truncate :: "int \<Rightarrow> Buffer \<Rightarrow> Buffer" where
  "Buffer_Truncate n b =
     (let n = (if n < 0 then 0 else n);
          n = (if int (length (cs_data b)) < n then int (length (cs_data b)) else n)
      in b\<lparr>cs_data := take (nat n) (cs_data b)\<rparr>)"

record SliceReader =
  sr_b :: bytes
  sr_off :: nat

definition NewSliceReader :: "bytes \<Rightarrow> SliceReader" where
  "NewSliceReader b = \<lparr>sr_b = b, sr_off = 0\<rparr>"

definition SliceReader_Remaining :: "SliceReader \<Rightarrow> int" where
  "SliceReader_Remaining r = int (length (sr_b r)) - int (sr_off r)"

definition SliceReader_Offset :: "SliceReader \<Rightarrow> nat" where
  "SliceReader_Offset r = sr_off r"

text \<open>\<^verbatim>\<open>Read\<close> into a slice of \<^verbatim>\<open>plen\<close> bytes: the bytes copied, whose number it returns.\<close>

definition SliceReader_Read :: "nat \<Rightarrow> SliceReader \<Rightarrow> (error + bytes) \<times> SliceReader" where
  "SliceReader_Read plen r =
     (if length (sr_b r) \<le> sr_off r then (Inl io_EOF, r)
      else let out = take plen (drop (sr_off r) (sr_b r))
           in (Inr out, r\<lparr>sr_off := sr_off r + length out\<rparr>))"

definition SliceReader_ReadByte :: "SliceReader \<Rightarrow> (error + byte) \<times> SliceReader" where
  "SliceReader_ReadByte r =
     (if length (sr_b r) \<le> sr_off r then (Inl io_EOF, r)
      else (Inr (sr_b r ! sr_off r), r\<lparr>sr_off := sr_off r + 1\<rparr>))"

text \<open>The sum \<^verbatim>\<open>r.off+n\<close> is an \<^verbatim>\<open>int\<close>, so it wraps for an n near the top of the range.\<close>

definition SliceReader_ReadN :: "int \<Rightarrow> SliceReader \<Rightarrow> (error + bytes) \<times> SliceReader" where
  "SliceReader_ReadN n r =
     (if n < 0 then (Inl byteutil_ErrOverflow, r)
      else
        let hi = wrap_int (int (sr_off r) + n)
        in if int (length (sr_b r)) < hi then (Inl io_EOF, r)
           else case slice_range (sr_b r) (int (sr_off r)) hi of
                  None \<Rightarrow> (Inl Panic, r)
                | Some out \<Rightarrow> (Inr out, r\<lparr>sr_off := nat hi\<rparr>))"

definition SliceReader_ReadU32LE :: "SliceReader \<Rightarrow> (error + u32) \<times> SliceReader" where
  "SliceReader_ReadU32LE r =
     (case SliceReader_ReadN 4 r of
        (Inl e, r') \<Rightarrow> (Inl e, r')
      | (Inr b, r') \<Rightarrow> (U32LE b, r'))"

definition SliceReader_ReadU64LE :: "SliceReader \<Rightarrow> (error + u64) \<times> SliceReader" where
  "SliceReader_ReadU64LE r =
     (case SliceReader_ReadN 8 r of
        (Inl e, r') \<Rightarrow> (Inl e, r')
      | (Inr b, r') \<Rightarrow> (U64LE b, r'))"

definition SliceReader_ReadLP32 :: "SliceReader \<Rightarrow> (error + bytes) \<times> SliceReader" where
  "SliceReader_ReadLP32 r =
     (case SliceReader_ReadU32LE r of
        (Inl e, r') \<Rightarrow> (Inl e, r')
      | (Inr n, r') \<Rightarrow> SliceReader_ReadN (int (unat n)) r')"

definition SliceReader_Seek :: "int \<Rightarrow> SliceReader \<Rightarrow> error option \<times> SliceReader" where
  "SliceReader_Seek off r =
     (if off < 0 \<or> int (length (sr_b r)) < off then (Some byteutil_ErrOverflow, r)
      else (None, r\<lparr>sr_off := nat off\<rparr>))"

section \<open>Lemmas on bytes.go\<close>

lemma Compare_simps [simp]:
  "Compare a b < 0 \<longleftrightarrow> a < b" "Compare a b = 0 \<longleftrightarrow> a = b" "Compare a b > 0 \<longleftrightarrow> b < a"
  "Compare a b \<le> 0 \<longleftrightarrow> a \<le> b" "Compare a b \<ge> 0 \<longleftrightarrow> b \<le> a"
  by (simp_all add: Compare_def)

lemma Equal_iff [simp]: "Equal a b \<longleftrightarrow> a = b"
  by (simp add: Equal_def)

lemma Clone_id [simp]: "Clone b = b"
  by (simp add: Clone_def split: option.splits)

lemma Concat_eq [simp]: "Concat parts = concat parts"
proof -
  have "foldl (\<lambda>out p. out @ p) acc parts = acc @ concat parts" for acc :: bytes
    by (induction parts arbitrary: acc) auto
  then show ?thesis by (simp add: Concat_def)
qed

lemma EstimateSize_eq: "EstimateSize parts = 4 * length parts + length (concat parts)"
proof -
  have "foldl (\<lambda>n p. n + (4 + length p)) k parts = k + 4 * length parts + length (concat parts)"
    for k and parts :: "bytes list"
    by (induction parts arbitrary: k) auto
  then show ?thesis by (simp add: EstimateSize_def)
qed

lemma AppendGrow_data [simp]: "cs_data (AppendGrow dst src) = cs_data dst @ src"
  by (simp add: AppendGrow_def Let_def)

lemma AppendGrow_cap:
  "length (cs_data (AppendGrow dst src)) \<le> cs_cap (AppendGrow dst src)"
  by (simp add: AppendGrow_def Let_def)

lemma SharedPrefixLen_loop_spec:
  assumes "i \<le> n" and "n \<le> length a" and "n \<le> length b" and "take i a = take i b"
  shows "let k = SharedPrefixLen_loop a b n i
    in i \<le> k \<and> k \<le> n \<and> take k a = take k b \<and> (k < n \<longrightarrow> a ! k \<noteq> b ! k)"
  using assms
proof (induction a b n i rule: SharedPrefixLen_loop.induct)
  case (1 a b n i)
  show ?case
  proof (cases "i < n \<and> a ! i = b ! i")
    case True
    with "1.prems" have "take (i + 1) a = take (i + 1) b"
      by (simp add: take_Suc_conv_app_nth)
    with "1.IH" [OF True] "1.prems" True show ?thesis
      by (simp add: SharedPrefixLen_loop.simps [of a b n i] Let_def)
  next
    case False
    with "1.prems" show ?thesis
      by (auto simp: SharedPrefixLen_loop.simps [of a b n i])
  qed
qed

text \<open>The result is the length of the longest common prefix.\<close>

lemma SharedPrefixLen_props:
  "SharedPrefixLen a b \<le> length a" "SharedPrefixLen a b \<le> length b"
  "take (SharedPrefixLen a b) a = take (SharedPrefixLen a b) b"
  "SharedPrefixLen a b < length a \<Longrightarrow> SharedPrefixLen a b < length b \<Longrightarrow>
     a ! SharedPrefixLen a b \<noteq> b ! SharedPrefixLen a b"
  using SharedPrefixLen_loop_spec [of 0 "if length b < length a then length b else length a" a b]
  by (auto simp: SharedPrefixLen_def Let_def split: if_splits)

lemma SharedPrefixLen_maximal:
  assumes "k \<le> length a" and "k \<le> length b" and "take k a = take k b"
  shows "k \<le> SharedPrefixLen a b"
proof (rule ccontr)
  assume k: "\<not> k \<le> SharedPrefixLen a b"
  then have "a ! SharedPrefixLen a b = b ! SharedPrefixLen a b"
    using assms by (metis not_le nth_take)
  then show False using SharedPrefixLen_props(4) [of a b] k assms(1,2) by simp
qed

text \<open>\<^verbatim>\<open>KeySuccessor\<close> is the least key above its argument.\<close>

lemma KeySuccessor_least: "k < KeySuccessor k" "k < x \<Longrightarrow> KeySuccessor k \<le> x"
proof -
  show "k < KeySuccessor k"
    by (induction k) (auto simp: KeySuccessor_def)
  show "k < x \<Longrightarrow> KeySuccessor k \<le> x"
  proof (induction k arbitrary: x)
    case Nil
    then obtain c cs where "x = c # cs" by (cases x) auto
    then show ?case by (cases "c = 0") (auto simp: KeySuccessor_def word_neq_0_conv)
  next
    case (Cons a k)
    then obtain c cs where x: "x = c # cs" by (cases x) auto
    with Cons show ?case by (auto simp: KeySuccessor_def)
  qed
qed

lemma InRange_iff:
  "InRange key lo hi \<longleftrightarrow> (lo = None \<or> sbytes lo \<le> key) \<and> (hi = None \<or> key < sbytes hi)"
  by (auto simp: InRange_def not_less)

lemma MinMaxBytes: "MinBytes a b = min a b" "MaxBytes a b = max a b"
  by (auto simp: MinBytes_def MaxBytes_def)

lemma TrimRightZeros_loop_spec:
  "i \<le> length b \<Longrightarrow> TrimRightZeros_loop b i \<le> i \<and>
     (\<forall>j. TrimRightZeros_loop b i \<le> j \<longrightarrow> j < i \<longrightarrow> b ! j = 0) \<and>
     (0 < TrimRightZeros_loop b i \<longrightarrow> b ! (TrimRightZeros_loop b i - 1) \<noteq> 0)"
  by (induction i) (auto simp: less_Suc_eq)

lemma TrimRightZeros_spec:
  "b = TrimRightZeros b @ replicate (length b - length (TrimRightZeros b)) 0"
  "TrimRightZeros b \<noteq> [] \<Longrightarrow> last (TrimRightZeros b) \<noteq> 0"
proof -
  let ?k = "TrimRightZeros_loop b (length b)"
  have k: "?k \<le> length b" "\<And>j. ?k \<le> j \<Longrightarrow> j < length b \<Longrightarrow> b ! j = 0"
    "0 < ?k \<Longrightarrow> b ! (?k - 1) \<noteq> 0"
    using TrimRightZeros_loop_spec [of "length b" b] by auto
  have "drop ?k b = replicate (length b - ?k) 0"
    by (rule nth_equalityI) (use k in auto)
  then show "b = TrimRightZeros b @ replicate (length b - length (TrimRightZeros b)) 0"
    using k(1) by (simp add: TrimRightZeros_def) (metis append_take_drop_id)
  show "TrimRightZeros b \<noteq> [] \<Longrightarrow> last (TrimRightZeros b) \<noteq> 0"
    using k by (auto simp: TrimRightZeros_def last_conv_nth min_def)
qed

section \<open>Lemmas on buffer.go\<close>

lemma Buffer_data [simp]:
  "cs_data (snd (Buffer_Write p b)) = cs_data b @ p"
  "cs_data (Buffer_WriteByte c b) = cs_data b @ [c]"
  "cs_data (Buffer_Grow n b) = cs_data b"
  "cs_data (Buffer_WriteU16LE v16 b) = cs_data b @ le_put 2 v16"
  "cs_data (Buffer_WriteU32LE v32 b) = cs_data b @ le_put 4 v32"
  "cs_data (Buffer_WriteU64LE v64 b) = cs_data b @ le_put 8 v64"
  "cs_data (Buffer_WriteU16BE v16 b) = cs_data b @ be_put 2 v16"
  "cs_data (Buffer_WriteU32BE v32 b) = cs_data b @ be_put 4 v32"
  "cs_data (Buffer_WriteU64BE v64 b) = cs_data b @ be_put 8 v64"
  "cs_data (Buffer_WriteLP32 p b) = cs_data b @ le_put 4 (of_nat (length p) :: u32) @ p"
  by (simp_all add: Buffer_Write_def Buffer_WriteByte_def Buffer_Grow_def Buffer_WriteU16LE_def
      Buffer_WriteU32LE_def Buffer_WriteU64LE_def Buffer_WriteU16BE_def Buffer_WriteU32BE_def
      Buffer_WriteU64BE_def Buffer_WriteLP32_def Let_def)

text \<open>A buffer's length never exceeds its capacity, whatever is written to it.\<close>

definition buffer_ok :: "Buffer \<Rightarrow> bool" where
  "buffer_ok b = (length (cs_data b) \<le> cs_cap b)"

lemma buffer_ok_ops:
  "buffer_ok (NewBuffer c)"
  "buffer_ok b \<Longrightarrow> buffer_ok (Buffer_Reset b)"
  "buffer_ok (snd (Buffer_Write p b))"
  "buffer_ok b \<Longrightarrow> buffer_ok (Buffer_Grow n b)"
  "buffer_ok b \<Longrightarrow> buffer_ok (Buffer_WriteByte x b)"
  "buffer_ok (Buffer_WriteLP32 p b)"
  "buffer_ok b \<Longrightarrow> buffer_ok (Buffer_Truncate m b)"
  by (auto simp: buffer_ok_def NewBuffer_def Buffer_Reset_def Buffer_Write_def Buffer_Grow_def
      Buffer_WriteByte_def Buffer_WriteLP32_def Buffer_Truncate_def Let_def AppendGrow_cap
      simp del: AppendGrow_data)

text \<open>\<^verbatim>\<open>SliceReader\<close> is a byte reader of what it has left.\<close>

definition sr_remaining :: "SliceReader \<Rightarrow> bytes" where
  "sr_remaining r = drop (sr_off r) (sr_b r)"

interpretation slice_reader: byte_reader SliceReader_ReadByte sr_remaining
proof unfold_locales
  fix r
  show "sr_remaining r = [] \<Longrightarrow> \<exists>e. SliceReader_ReadByte r = (Inl e, r)"
    by (simp add: sr_remaining_def SliceReader_ReadByte_def)
  fix c cs
  assume rem: "sr_remaining r = c # cs"
  then have "sr_off r < length (sr_b r)"
    by (metis sr_remaining_def drop_eq_Nil list.distinct(1) not_le)
  moreover from this rem have "sr_b r ! sr_off r = c" "drop (Suc (sr_off r)) (sr_b r) = cs"
    by (simp_all add: sr_remaining_def Cons_nth_drop_Suc [symmetric])
  ultimately show "\<exists>r'. SliceReader_ReadByte r = (Inr c, r') \<and> sr_remaining r' = cs"
    by (simp add: SliceReader_ReadByte_def sr_remaining_def)
qed

lemma sr_remaining_New [simp]: "sr_remaining (NewSliceReader b) = b"
  by (simp add: sr_remaining_def NewSliceReader_def)

lemma SliceReader_ReadN_exact:
  assumes "sr_remaining r = p @ rest" and "length (sr_b r) < 2 ^ 63" and "p \<noteq> [] \<or> sr_off r \<le> length (sr_b r)"
  shows "\<exists>r'. SliceReader_ReadN (int (length p)) r = (Inr p, r') \<and> sr_remaining r' = rest
    \<and> sr_b r' = sr_b r \<and> sr_off r' = sr_off r + length p"
proof -
  have len: "length (sr_b r) - sr_off r = length p + length rest"
    using arg_cong [OF assms(1), of length] by (simp add: sr_remaining_def)
  have le: "sr_off r + length p \<le> length (sr_b r)"
    using len assms(3) by (cases p) auto
  have "wrap_int (int (sr_off r) + int (length p)) = int (sr_off r + length p)"
    using le assms(2) by (subst wrap_int_id) auto
  moreover have "drop (sr_off r + length p) (sr_b r) = rest"
    using arg_cong [OF assms(1), of "drop (length p)"] by (simp add: sr_remaining_def add.commute)
  ultimately show ?thesis
    using assms(1) le by (simp add: SliceReader_ReadN_def Let_def sr_remaining_def)
      (simp flip: of_nat_add)
qed

lemma SliceReader_ReadLP32_exact:
  assumes "sr_remaining r = le_put 4 (of_nat (length p) :: u32) @ p @ rest"
    and "length (sr_b r) < 2 ^ 63" and "length p < 2 ^ 32"
  shows "\<exists>r'. SliceReader_ReadLP32 r = (Inr p, r') \<and> sr_remaining r' = rest
    \<and> sr_b r' = sr_b r"
proof -
  let ?h = "le_put 4 (of_nat (length p) :: u32)"
  have "?h \<noteq> []" by (metis length_le_put list.size(3) zero_neq_numeral)
  then obtain r1 where r1: "SliceReader_ReadN (int (length ?h)) r = (Inr ?h, r1)"
    "sr_remaining r1 = p @ rest" "sr_b r1 = sr_b r" "sr_off r1 = sr_off r + length ?h"
    using SliceReader_ReadN_exact [OF assms(1,2)] by blast
  have "length (sr_b r) - sr_off r = 4 + (length p + length rest)"
    using arg_cong [OF assms(1), of length] by (simp add: sr_remaining_def)
  then have "sr_off r1 \<le> length (sr_b r1)" using r1 by simp
  then obtain r2 where r2: "SliceReader_ReadN (int (length p)) r1 = (Inr p, r2)"
    "sr_remaining r2 = rest" "sr_b r2 = sr_b r1"
    using SliceReader_ReadN_exact [OF r1(2)] assms(2) r1(3) by metis
  have "unat (of_nat (length p) :: u32) = length p"
    using assms(3) by (simp add: unsigned_of_nat take_bit_nat_eq_self)
  then have "SliceReader_ReadLP32 r = (Inr p, r2)"
    using r1(1) r2(1) le32.get_put [of "of_nat (length p)"]
    by (simp add: SliceReader_ReadLP32_def SliceReader_ReadU32LE_def U32LE_def del: le_put.simps)
  with r2 r1(3) show ?thesis by auto
qed

section \<open>WriteAll\<close>

text \<open>A writer that always takes at least one byte and never fails gets all of them.\<close>

lemma WriteAll_complete:
  assumes "\<And>w b. b \<noteq> [] \<Longrightarrow> \<exists>n w'. write w b = ((n, None), w') \<and> 0 < n \<and> n \<le> length b
      \<and> got w' = got w @ take n b"
  shows "\<exists>w'. WriteAll write w b = Some (None, w') \<and> got w' = got w @ b"
proof (induction "length b" arbitrary: w b rule: less_induct)
  case less
  show ?case
  proof (cases "b = []")
    case True
    then show ?thesis by (simp add: WriteAll.simps)
  next
    case False
    with assms obtain n w1 where w1: "write w b = ((n, None), w1)" "0 < n" "n \<le> length b"
      "got w1 = got w @ take n b" by blast
    moreover have "length (drop n b) < length b" using w1 by simp
    ultimately show ?thesis
      using less [of "drop n b" w1] False
      by (subst WriteAll.simps) auto
  qed
qed

section \<open>Properties\<close>

text \<open>\<^verbatim>\<open>SharedPrefixLen\<close> is the length of the longest common prefix.\<close>

theorem SharedPrefixLen_is_longest:
  "SharedPrefixLen a b = Max {k. k \<le> length a \<and> k \<le> length b \<and> take k a = take k b}"
proof (rule sym, rule Max_eqI)
  show "finite {k. k \<le> length a \<and> k \<le> length b \<and> take k a = take k b}"
    by (rule finite_subset [of _ "{..length a}"]) auto
qed (use SharedPrefixLen_props SharedPrefixLen_maximal in auto)

text \<open>A key's successor is the exclusive end of the range that holds this key alone.\<close>

theorem KeySuccessor_range:
  "InRange key (Some k) (Some (KeySuccessor k)) \<longleftrightarrow> key = k"
proof
  assume "InRange key (Some k) (Some (KeySuccessor k))"
  then have "k \<le> key" "key < KeySuccessor k" by (simp_all add: InRange_iff)
  then show "key = k" using KeySuccessor_least(2) [of k key] by (meson not_le order.not_eq_order_implies_strict)
qed (simp add: InRange_iff KeySuccessor_least(1))

text \<open>A length-prefixed string written to a buffer is read back by a slice reader over the
  buffer's bytes, from where it was written.\<close>

theorem WriteLP32_ReadLP32:
  assumes "length data < 2 ^ 32" and "length (Buffer_Bytes b) + length data + 4 < 2 ^ 63"
  shows "\<exists>r. SliceReader_ReadLP32 \<lparr>sr_b = Buffer_Bytes (Buffer_WriteLP32 data b), sr_off = length (Buffer_Bytes b)\<rparr>
      = (Inr data, r) \<and> sr_remaining r = []"
proof -
  have d: "Buffer_Bytes (Buffer_WriteLP32 data b) =
      Buffer_Bytes b @ le_put 4 (of_nat (length data) :: u32) @ data"
    by (simp add: Buffer_Bytes_def del: le_put.simps)
  let ?r = "\<lparr>sr_b = Buffer_Bytes (Buffer_WriteLP32 data b), sr_off = length (Buffer_Bytes b)\<rparr>"
  have "sr_remaining ?r = le_put 4 (of_nat (length data) :: u32) @ data @ []"
    by (simp add: sr_remaining_def d del: le_put.simps)
  from SliceReader_ReadLP32_exact [OF this _ assms(1)] assms(2) show ?thesis
    by (auto simp: d simp del: le_put.simps)
qed

theorem WriteLP32_ReadLP32_witness:
  "\<exists>r. SliceReader_ReadLP32 \<lparr>sr_b = Buffer_Bytes (Buffer_WriteLP32 [7, 8] (NewBuffer 0)), sr_off = 0\<rparr>
      = (Inr [7, 8], r) \<and> sr_remaining r = []"
proof -
  have "length (Buffer_Bytes (NewBuffer 0)) = 0" by (simp add: Buffer_Bytes_def NewBuffer_def)
  with WriteLP32_ReadLP32 [of "[7, 8]" "NewBuffer 0"] show ?thesis by simp
qed

end
