(* ===== verification/Memtable.thy ===== *)
theory Memtable imports Byteutil begin

text \<open>
  \<^verbatim>\<open>internal/memtable\<close>: the skip list that buffers writes.  Nodes live in a store, a list
  indexed by address, because the update path and the iterators alias them; a nil pointer is
  \<^verbatim>\<open>None\<close>.  The levels of new nodes come from a stream of random draws.  A call that would
  panic (a nil node, an index outside a node's links) or never return gives \<^verbatim>\<open>None\<close>.
\<close>

section \<open>The skip list\<close>

definition maxLevel :: nat where [go_defs]: "maxLevel = 16"
definition pNumerator :: nat where [go_defs]: "pNumerator = 1"
definition pDenominator :: nat where [go_defs]: "pDenominator = 4"

record Entry =
  e_Key :: slice
  e_Value :: slice
  e_Seq :: u64
  e_Deleted :: bool

type_synonym addr = nat

record node =
  n_entry :: Entry
  n_next :: "addr option list"

record SkipList =
  sl_nodes :: "node list"
  sl_head :: addr
  sl_level :: nat
  sl_size :: nat
  sl_bytes :: "64 word"
  sl_rnd :: "nat \<Rightarrow> nat"
  sl_draws :: nat

definition zero_Entry :: Entry where
  "zero_Entry = \<lparr>e_Key = None, e_Value = None, e_Seq = 0, e_Deleted = False\<rparr>"

definition head_node :: node where
  "head_node = \<lparr>n_entry = zero_Entry, n_next = replicate maxLevel None\<rparr>"

text \<open>The i-th call \<^verbatim>\<open>Intn(m)\<close> of the list's generator returns \<^verbatim>\<open>sl_rnd i mod m\<close>.\<close>

definition SkipList_New :: "(nat \<Rightarrow> nat) \<Rightarrow> SkipList" where
  "SkipList_New rnd =
     \<lparr>sl_nodes = [head_node], sl_head = 0, sl_level = 1, sl_size = 0, sl_bytes = 0,
      sl_rnd = rnd, sl_draws = 0\<rparr>"

definition Intn :: "nat \<Rightarrow> SkipList \<Rightarrow> nat \<times> SkipList" where
  "Intn m s = (sl_rnd s (sl_draws s) mod m, s\<lparr>sl_draws := sl_draws s + 1\<rparr>)"

function randomLevel_loop :: "nat \<Rightarrow> SkipList \<Rightarrow> nat \<times> SkipList" where
  "randomLevel_loop lvl s =
     (if lvl < maxLevel then
        (case Intn pDenominator s of (d, s) \<Rightarrow>
           if d < pNumerator then randomLevel_loop (lvl + 1) s else (lvl, s))
      else (lvl, s))"
  by pat_completeness auto
termination by (relation "measure (\<lambda>(lvl, s). maxLevel - lvl)") auto

declare randomLevel_loop.simps [simp del]

definition randomLevel :: "SkipList \<Rightarrow> nat \<times> SkipList" where
  "randomLevel s = randomLevel_loop 1 s"

definition compareKey :: "slice \<Rightarrow> slice \<Rightarrow> int" where
  "compareKey a b = bytes_compare (sbytes a) (sbytes b)"

definition estimateBytes :: "Entry \<Rightarrow> 64 word" where
  "estimateBytes e = of_nat (length (sbytes (e_Key e)) + length (sbytes (e_Value e)) + 16)"

text \<open>\<^verbatim>\<open>x.next[i]\<close>, outer \<^verbatim>\<open>None\<close> for an index out of range, and a store into it.\<close>

definition next_at :: "node list \<Rightarrow> addr \<Rightarrow> nat \<Rightarrow> addr option option" where
  "next_at ns x i =
     (if x < length ns \<and> i < length (n_next (ns ! x)) then Some (n_next (ns ! x) ! i) else None)"

definition set_next :: "node list \<Rightarrow> addr \<Rightarrow> nat \<Rightarrow> addr option \<Rightarrow> node list option" where
  "set_next ns x i p =
     (if x < length ns \<and> i < length (n_next (ns ! x))
      then Some (ns[x := (ns ! x)\<lparr>n_next := (n_next (ns ! x))[i := p]\<rparr>]) else None)"

definition key_at :: "node list \<Rightarrow> addr \<Rightarrow> slice" where
  "key_at ns x = e_Key (n_entry (ns ! x))"

text \<open>The inner search loop: forward on level i while the next key is smaller.\<close>

partial_function (option) walk :: "node list \<Rightarrow> nat \<Rightarrow> slice \<Rightarrow> addr \<Rightarrow> addr option" where
  "walk ns i key x =
     (case next_at ns x i of
        None \<Rightarrow> None
      | Some None \<Rightarrow> Some x
      | Some (Some y) \<Rightarrow> if compareKey (key_at ns y) key < 0 then walk ns i key y else Some x)"

text \<open>The outer search loop, from level n-1 down to 0, with and without the update array.\<close>

fun search :: "node list \<Rightarrow> slice \<Rightarrow> nat \<Rightarrow> addr \<Rightarrow> addr option" where
  "search ns key 0 x = Some x"
| "search ns key (Suc i) x =
     (case walk ns i key x of None \<Rightarrow> None | Some x \<Rightarrow> search ns key i x)"

fun search_update ::
  "node list \<Rightarrow> slice \<Rightarrow> nat \<Rightarrow> addr \<Rightarrow> addr option list \<Rightarrow> (addr \<times> addr option list) option" where
  "search_update ns key 0 x update = Some (x, update)"
| "search_update ns key (Suc i) x update =
     (case walk ns i key x of
        None \<Rightarrow> None
      | Some x \<Rightarrow> search_update ns key i x (update[i := Some x]))"

text \<open>The linking loop, from level i upwards for k levels, of the new node a.\<close>

fun link :: "nat \<Rightarrow> nat \<Rightarrow> addr option list \<Rightarrow> addr \<Rightarrow> node list \<Rightarrow> node list option" where
  "link 0 i update a ns = Some ns"
| "link (Suc k) i update a ns =
     (case update ! i of
        None \<Rightarrow> None
      | Some u \<Rightarrow>
          (case next_at ns u i of
             None \<Rightarrow> None
           | Some p \<Rightarrow>
               (case set_next ns a i p of
                  None \<Rightarrow> None
                | Some ns \<Rightarrow>
                    (case set_next ns u i (Some a) of
                       None \<Rightarrow> None
                     | Some ns \<Rightarrow> link k (Suc i) update a ns))))"

definition raise_level :: "nat \<Rightarrow> SkipList \<Rightarrow> addr option list \<Rightarrow> addr option list \<times> SkipList" where
  "raise_level lvl s update =
     (if lvl > sl_level s
      then (fold (\<lambda>i update. update[i := Some (sl_head s)]) [sl_level s ..< lvl] update,
            s\<lparr>sl_level := lvl\<rparr>)
      else (update, s))"

definition SkipList_set :: "slice \<Rightarrow> slice \<Rightarrow> u64 \<Rightarrow> bool \<Rightarrow> SkipList \<Rightarrow> SkipList option" where
  "SkipList_set key val seq deleted s =
     (case search_update (sl_nodes s) key (sl_level s) (sl_head s) (replicate maxLevel None) of
        None \<Rightarrow> None
      | Some (x, update) \<Rightarrow>
     (case next_at (sl_nodes s) x 0 of
        None \<Rightarrow> None
      | Some x \<Rightarrow>
          (if x \<noteq> None \<and> compareKey (key_at (sl_nodes s) (the x)) key = 0 then
             let n = sl_nodes s ! the x; e = n_entry n
             in if e_Seq e \<le> seq then
                  let oldBytes = estimateBytes e;
                      e = e\<lparr>e_Value := Clone val, e_Seq := seq, e_Deleted := deleted\<rparr>
                  in Some (s\<lparr>sl_nodes := (sl_nodes s)[the x := n\<lparr>n_entry := e\<rparr>],
                             sl_bytes := sl_bytes s + (estimateBytes e - oldBytes)\<rparr>)
                else Some s
           else
             (case randomLevel s of (lvl, s) \<Rightarrow>
              case raise_level lvl s update of (update, s) \<Rightarrow>
              let e = \<lparr>e_Key = Clone key, e_Value = Clone val, e_Seq = seq, e_Deleted = deleted\<rparr>;
                  a = length (sl_nodes s);
                  ns = sl_nodes s @ [\<lparr>n_entry = e, n_next = replicate lvl None\<rparr>]
              in (case link lvl 0 update a ns of
                    None \<Rightarrow> None
                  | Some ns \<Rightarrow>
                      Some (s\<lparr>sl_nodes := ns, sl_size := sl_size s + 1,
                              sl_bytes := sl_bytes s + estimateBytes e\<rparr>))))))"

definition SkipList_Put :: "slice \<Rightarrow> slice \<Rightarrow> u64 \<Rightarrow> SkipList \<Rightarrow> SkipList option" where
  "SkipList_Put key val seq s = SkipList_set key val seq False s"

definition SkipList_Delete :: "slice \<Rightarrow> u64 \<Rightarrow> SkipList \<Rightarrow> SkipList option" where
  "SkipList_Delete key seq s = SkipList_set key None seq True s"

definition clone_Entry :: "Entry \<Rightarrow> Entry" where
  "clone_Entry e = e\<lparr>e_Key := Clone (e_Key e), e_Value := Clone (e_Value e)\<rparr>"

definition SkipList_Get :: "slice \<Rightarrow> SkipList \<Rightarrow> (Entry \<times> bool) option" where
  "SkipList_Get key s =
     (case search (sl_nodes s) key (sl_level s) (sl_head s) of
        None \<Rightarrow> None
      | Some x \<Rightarrow>
          (case next_at (sl_nodes s) x 0 of
             None \<Rightarrow> None
           | Some x \<Rightarrow>
               if x \<noteq> None \<and> compareKey (key_at (sl_nodes s) (the x)) key = 0
               then Some (clone_Entry (n_entry (sl_nodes s ! the x)), True)
               else Some (zero_Entry, False)))"

definition SkipList_Len :: "SkipList \<Rightarrow> nat" where "SkipList_Len s = sl_size s"

definition SkipList_Bytes :: "SkipList \<Rightarrow> 64 word" where "SkipList_Bytes s = sl_bytes s"

definition SkipList_ApproxBytes :: "SkipList \<Rightarrow> 64 word" where "SkipList_ApproxBytes s = sl_bytes s"

text \<open>\<^verbatim>\<open>Clear\<close> takes a new head; iterators of the old list still reach its nodes.\<close>

definition SkipList_Clear :: "SkipList \<Rightarrow> SkipList" where
  "SkipList_Clear s =
     s\<lparr>sl_nodes := sl_nodes s @ [head_node], sl_head := length (sl_nodes s), sl_level := 1,
       sl_size := 0, sl_bytes := 0\<rparr>"

section \<open>Iterators\<close>

text \<open>An iterator points into the list it was made for, which its operations take beside it.\<close>

record Iterator =
  it_cur :: "addr option"

definition SkipList_NewIterator :: "SkipList \<Rightarrow> Iterator" where
  "SkipList_NewIterator s = \<lparr>it_cur = Some (sl_head s)\<rparr>"

definition Iterator_SeekToFirst :: "SkipList \<Rightarrow> Iterator \<Rightarrow> Iterator option" where
  "Iterator_SeekToFirst s it = map_option (\<lambda>p. it\<lparr>it_cur := p\<rparr>) (next_at (sl_nodes s) (sl_head s) 0)"

definition Iterator_Seek :: "slice \<Rightarrow> SkipList \<Rightarrow> Iterator \<Rightarrow> Iterator option" where
  "Iterator_Seek target s it =
     (case search (sl_nodes s) target (sl_level s) (sl_head s) of
        None \<Rightarrow> None
      | Some x \<Rightarrow> map_option (\<lambda>p. it\<lparr>it_cur := p\<rparr>) (next_at (sl_nodes s) x 0))"

definition Iterator_Valid :: "Iterator \<Rightarrow> bool" where
  "Iterator_Valid it = (it_cur it \<noteq> None)"

definition Iterator_Next :: "SkipList \<Rightarrow> Iterator \<Rightarrow> Iterator option" where
  "Iterator_Next s it =
     (case it_cur it of
        None \<Rightarrow> Some it
      | Some x \<Rightarrow> map_option (\<lambda>p. it\<lparr>it_cur := p\<rparr>) (next_at (sl_nodes s) x 0))"

definition Iterator_Key :: "SkipList \<Rightarrow> Iterator \<Rightarrow> slice" where
  "Iterator_Key s it = (case it_cur it of None \<Rightarrow> None | Some x \<Rightarrow> Clone (e_Key (n_entry (sl_nodes s ! x))))"

definition Iterator_Value :: "SkipList \<Rightarrow> Iterator \<Rightarrow> slice" where
  "Iterator_Value s it = (case it_cur it of None \<Rightarrow> None | Some x \<Rightarrow> Clone (e_Value (n_entry (sl_nodes s ! x))))"

definition Iterator_Seq :: "SkipList \<Rightarrow> Iterator \<Rightarrow> u64" where
  "Iterator_Seq s it = (case it_cur it of None \<Rightarrow> 0 | Some x \<Rightarrow> e_Seq (n_entry (sl_nodes s ! x)))"

definition Iterator_Deleted :: "SkipList \<Rightarrow> Iterator \<Rightarrow> bool" where
  "Iterator_Deleted s it = (case it_cur it of None \<Rightarrow> False | Some x \<Rightarrow> e_Deleted (n_entry (sl_nodes s ! x)))"

definition Iterator_Entry :: "SkipList \<Rightarrow> Iterator \<Rightarrow> Entry" where
  "Iterator_Entry s it =
     (case it_cur it of None \<Rightarrow> zero_Entry | Some x \<Rightarrow> clone_Entry (n_entry (sl_nodes s ! x)))"

text \<open>The loops over level 0, from the node n on.\<close>

partial_function (option) Snapshot_loop :: "node list \<Rightarrow> addr option \<Rightarrow> Entry list \<Rightarrow> Entry list option" where
  "Snapshot_loop ns n out =
     (case n of
        None \<Rightarrow> Some out
      | Some x \<Rightarrow>
          (case next_at ns x 0 of
             None \<Rightarrow> None
           | Some n \<Rightarrow> Snapshot_loop ns n (out @ [clone_Entry (n_entry (ns ! x))])))"

definition SkipList_Snapshot :: "SkipList \<Rightarrow> Entry list option" where
  "SkipList_Snapshot s =
     (case next_at (sl_nodes s) (sl_head s) 0 of
        None \<Rightarrow> None | Some n \<Rightarrow> Snapshot_loop (sl_nodes s) n [])"

text \<open>
  The callback of the ascending loops updates a state of type 's and says whether to go on.
  One loop serves both: \<^verbatim>\<open>Ascend\<close> is the range with no upper bound.
\<close>

partial_function (option) Ascend_loop ::
  "(Entry \<Rightarrow> 's \<Rightarrow> bool \<times> 's) \<Rightarrow> slice \<Rightarrow> node list \<Rightarrow> addr option \<Rightarrow> 's \<Rightarrow> 's option" where
  "Ascend_loop fn hi ns n st =
     (case n of
        None \<Rightarrow> Some st
      | Some x \<Rightarrow>
          if hi \<noteq> None \<and> compareKey (key_at ns x) hi \<ge> 0 then Some st
          else (case fn (clone_Entry (n_entry (ns ! x))) st of
                  (go, st) \<Rightarrow>
                    if \<not> go then Some st
                    else (case next_at ns x 0 of
                            None \<Rightarrow> None | Some n \<Rightarrow> Ascend_loop fn hi ns n st)))"

definition SkipList_Ascend :: "(Entry \<Rightarrow> 's \<Rightarrow> bool \<times> 's) \<Rightarrow> 's \<Rightarrow> SkipList \<Rightarrow> 's option" where
  "SkipList_Ascend fn st s =
     (case next_at (sl_nodes s) (sl_head s) 0 of
        None \<Rightarrow> None | Some n \<Rightarrow> Ascend_loop fn None (sl_nodes s) n st)"

definition SkipList_AscendRange ::
  "slice \<Rightarrow> slice \<Rightarrow> (Entry \<Rightarrow> 's \<Rightarrow> bool \<times> 's) \<Rightarrow> 's \<Rightarrow> SkipList \<Rightarrow> 's option" where
  "SkipList_AscendRange lo hi fn st s =
     (case (if lo \<noteq> None then search (sl_nodes s) lo (sl_level s) (sl_head s) else Some (sl_head s)) of
        None \<Rightarrow> None
      | Some x \<Rightarrow>
          (case next_at (sl_nodes s) x 0 of
             None \<Rightarrow> None | Some n \<Rightarrow> Ascend_loop fn hi (sl_nodes s) n st))"

partial_function (option) MaxSeq_loop :: "node list \<Rightarrow> addr option \<Rightarrow> u64 \<Rightarrow> u64 option" where
  "MaxSeq_loop ns n max' =
     (case n of
        None \<Rightarrow> Some max'
      | Some x \<Rightarrow>
          let max' = (if max' < e_Seq (n_entry (ns ! x)) then e_Seq (n_entry (ns ! x)) else max')
          in (case next_at ns x 0 of None \<Rightarrow> None | Some n \<Rightarrow> MaxSeq_loop ns n max'))"

definition SkipList_MaxSeq :: "SkipList \<Rightarrow> u64 option" where
  "SkipList_MaxSeq s =
     (case next_at (sl_nodes s) (sl_head s) 0 of
        None \<Rightarrow> None | Some n \<Rightarrow> MaxSeq_loop (sl_nodes s) n 0)"

section \<open>The memtable\<close>

record MemTable =
  mt_sl :: SkipList
  mt_maxBytes :: "64 word"

definition NewMemTable :: "(nat \<Rightarrow> nat) \<Rightarrow> 64 word \<Rightarrow> MemTable" where
  "NewMemTable rnd maxBytes =
     \<lparr>mt_sl = SkipList_New rnd,
      mt_maxBytes = (if sint maxBytes \<le> 0 then push_bit 20 4 else maxBytes)\<rparr>"

definition MemTable_Put :: "slice \<Rightarrow> slice \<Rightarrow> u64 \<Rightarrow> MemTable \<Rightarrow> MemTable option" where
  "MemTable_Put key val seq m = map_option (\<lambda>s. m\<lparr>mt_sl := s\<rparr>) (SkipList_Put key val seq (mt_sl m))"

definition MemTable_Delete :: "slice \<Rightarrow> u64 \<Rightarrow> MemTable \<Rightarrow> MemTable option" where
  "MemTable_Delete key seq m = map_option (\<lambda>s. m\<lparr>mt_sl := s\<rparr>) (SkipList_Delete key seq (mt_sl m))"

definition MemTable_Get :: "slice \<Rightarrow> MemTable \<Rightarrow> (Entry \<times> bool) option" where
  "MemTable_Get key m = SkipList_Get key (mt_sl m)"

definition MemTable_ShouldFlush :: "MemTable \<Rightarrow> bool" where
  "MemTable_ShouldFlush m = (sint (mt_maxBytes m) \<le> sint (SkipList_Bytes (mt_sl m)))"

definition MemTable_Bytes :: "MemTable \<Rightarrow> 64 word" where
  "MemTable_Bytes m = SkipList_Bytes (mt_sl m)"

definition MemTable_Underlying :: "MemTable \<Rightarrow> SkipList" where
  "MemTable_Underlying m = mt_sl m"

definition MemTable_Len :: "MemTable \<Rightarrow> nat" where
  "MemTable_Len m = SkipList_Len (mt_sl m)"

definition MemTable_Snapshot :: "MemTable \<Rightarrow> Entry list option" where
  "MemTable_Snapshot m = SkipList_Snapshot (mt_sl m)"

definition MemTable_Clear :: "MemTable \<Rightarrow> MemTable" where
  "MemTable_Clear m = m\<lparr>mt_sl := SkipList_Clear (mt_sl m)\<rparr>"

definition MemTable_MaxSeq :: "MemTable \<Rightarrow> u64 option" where
  "MemTable_MaxSeq m = SkipList_MaxSeq (mt_sl m)"

definition MemTable_NewIterator :: "MemTable \<Rightarrow> Iterator" where
  "MemTable_NewIterator m = SkipList_NewIterator (mt_sl m)"

end
