(* ===== verification/Memtable_Refinement.thy ===== *)
theory Memtable_Refinement imports Memtable begin

text \<open>
  The skip list keeps a sorted list of entries, one per key.  Its invariant describes the node
  store: the links of level i run through the nodes taller than i, in the order of level 0.
  From it follow that no call panics or loops, and what every operation does to the list.
\<close>

section \<open>Links\<close>

definition height :: "node list \<Rightarrow> addr \<Rightarrow> nat" where
  "height ns a = length (n_next (ns ! a))"

definition tall :: "node list \<Rightarrow> nat \<Rightarrow> addr list \<Rightarrow> addr list" where
  "tall ns i as = filter (\<lambda>a. i < height ns a) as"

text \<open>The links of level i from x visit exactly these nodes.\<close>

fun chain :: "node list \<Rightarrow> nat \<Rightarrow> addr \<Rightarrow> addr list \<Rightarrow> bool" where
  "chain ns i x [] = (next_at ns x i = Some None)"
| "chain ns i x (a # as) = (next_at ns x i = Some (Some a) \<and> chain ns i a as)"

definition key_of :: "node list \<Rightarrow> addr \<Rightarrow> bytes" where
  "key_of ns a = sbytes (key_at ns a)"

lemma compareKey_iff [simp]:
  "compareKey a b < 0 \<longleftrightarrow> sbytes a < sbytes b"
  "compareKey a b = 0 \<longleftrightarrow> sbytes a = sbytes b"
  "0 \<le> compareKey a b \<longleftrightarrow> sbytes b \<le> sbytes a"
  by (simp_all add: compareKey_def)

lemma tall_simps [simp]:
  "tall ns i [] = []"
  "tall ns i (a # as) = (if i < height ns a then a # tall ns i as else tall ns i as)"
  "tall ns i (as @ bs) = tall ns i as @ tall ns i bs"
  "set (tall ns i as) = {a \<in> set as. i < height ns a}"
  by (auto simp: tall_def)

lemma chain_from: "chain ns i x (us @ vs) \<Longrightarrow> chain ns i (last (x # us)) vs"
  by (induction us arbitrary: x) auto

lemma chain_next: "chain ns i x vs \<Longrightarrow> next_at ns x i = Some (case vs of [] \<Rightarrow> None | v # _ \<Rightarrow> Some v)"
  by (cases vs) auto

lemma chain_cong:
  assumes "\<And>y. y \<in> set (x # as) \<Longrightarrow> next_at ns' y i = next_at ns y i" and "chain ns i x as"
  shows "chain ns' i x as"
  using assms by (induction as arbitrary: x) auto

lemma chain_insert:
  assumes "chain ns i x (us @ vs)" and "distinct (x # us @ vs)" and "a \<notin> set (x # us @ vs)"
    and "next_at ns' a i = next_at ns (last (x # us)) i"
    and "next_at ns' (last (x # us)) i = Some (Some a)"
    and "\<And>y. y \<in> set (x # us @ vs) \<Longrightarrow> y \<noteq> last (x # us) \<Longrightarrow> next_at ns' y i = next_at ns y i"
  shows "chain ns' i x (us @ a # vs)"
  using assms
proof (induction us arbitrary: x)
  case Nil
  show ?case
  proof (cases vs)
    case (Cons v vs')
    with Nil have "chain ns' i v vs'" by (intro chain_cong [of v vs' ns' i ns]) auto
    with Nil Cons show ?thesis by simp
  qed (use Nil in simp)
next
  case (Cons u us)
  have "chain ns' i u (us @ a # vs)" using Cons.prems by (intro Cons.IH) auto
  moreover have "next_at ns' x i = next_at ns x i" 
    using Cons.prems(2) by (intro Cons.prems(6)) (auto simp: last_in_set split: if_splits)
  ultimately show ?case using Cons.prems(1) by simp
qed

lemma walk_chain:
  assumes "chain ns i x (us @ vs)" and "\<forall>u\<in>set us. key_of ns u < sbytes key"
    and "vs = [] \<or> \<not> key_of ns (hd vs) < sbytes key"
  shows "walk ns i key x = Some (last (x # us))"
  using assms
proof (induction us arbitrary: x)
  case Nil
  then show ?case by (subst walk.simps) (cases vs; simp add: key_of_def)
next
  case (Cons u us)
  then show ?case by (subst walk.simps) (simp add: key_of_def)
qed

section \<open>The invariant\<close>

definition skip_ok :: "node list \<Rightarrow> addr \<Rightarrow> nat \<Rightarrow> addr list \<Rightarrow> bool" where
  "skip_ok ns h L as =
     (h < length ns \<and> height ns h = maxLevel \<and> 0 < L \<and> L \<le> maxLevel \<and> distinct (h # as) \<and>
      (\<forall>i<maxLevel. chain ns i h (tall ns i as)) \<and>
      (\<forall>a\<in>set as. a < length ns \<and> 0 < height ns a \<and> height ns a \<le> L) \<and>
      sorted_wrt (\<lambda>a b. key_of ns a < key_of ns b) as)"

definition pred :: "node list \<Rightarrow> addr \<Rightarrow> addr list \<Rightarrow> nat \<Rightarrow> addr" where
  "pred ns h pre i = last (h # tall ns i pre)"

lemma pred_mem: "pred ns h pre i = h \<or> pred ns h pre i \<in> set pre \<and> i < height ns (pred ns h pre i)"
  using last_in_set [of "tall ns i pre"] by (auto simp: pred_def)

text \<open>The nodes with smaller keys, and the others.\<close>

definition split_at :: "node list \<Rightarrow> bytes \<Rightarrow> addr list \<Rightarrow> addr list \<Rightarrow> addr list \<Rightarrow> bool" where
  "split_at ns k as pre post =
     (as = pre @ post \<and> (\<forall>a\<in>set pre. key_of ns a < k) \<and> (\<forall>a\<in>set post. \<not> key_of ns a < k))"

lemma split_at_exists:
  assumes "skip_ok ns h L as"
  shows "\<exists>pre post. split_at ns k as pre post"
proof -
  have "sorted_wrt (\<lambda>a b. key_of ns a < key_of ns b) as" using assms by (simp add: skip_ok_def)
  then show ?thesis
  proof (induction as)
    case (Cons a as)
    then obtain pre post where sp: "split_at ns k as pre post" by auto
    show ?case
    proof (cases "key_of ns a < k")
      case True
      with sp have "split_at ns k (a # as) (a # pre) post" by (simp add: split_at_def)
      then show ?thesis by blast
    next
      case False
      have "\<not> key_of ns b < k" if "key_of ns a < key_of ns b" for b
        using False that order.strict_trans [of "key_of ns a" "key_of ns b" k] by blast
      with Cons.prems False have "split_at ns k (a # as) [] (a # as)" by (simp add: split_at_def)
      then show ?thesis by blast
    qed
  next
    case Nil
    have "split_at ns k [] [] []" by (simp add: split_at_def)
    then show ?case by blast
  qed
qed

lemma chain_from_mem:
  assumes "chain ns i h (us @ vs)" and "x \<in> set (h # us)"
  shows "\<exists>us2. chain ns i x (us2 @ vs) \<and> last (x # us2) = last (h # us) \<and> set us2 \<subseteq> set us"
proof -
  from assms(2) consider "x = h" | us1 us2 where "us = us1 @ x # us2"
    by (meson set_ConsD split_list)
  then show ?thesis
  proof cases
    case 2
    with assms(1) chain_from [of ns i h "us1 @ [x]" "us2 @ vs"] show ?thesis
      by (intro exI [of _ us2]) auto
  qed (use assms in blast)
qed

lemma walk_level:
  assumes "skip_ok ns h L as" and "split_at ns (sbytes key) as pre post" and "i < maxLevel"
    and "x = h \<or> x \<in> set pre \<and> i < height ns x"
  shows "walk ns i key x = Some (pred ns h pre i)"
proof -
  have "chain ns i h (tall ns i pre @ tall ns i post)"
    using assms(1-3) by (simp add: skip_ok_def split_at_def)
  moreover have "x \<in> set (h # tall ns i pre)" using assms(4) by auto
  ultimately obtain us where us: "chain ns i x (us @ tall ns i post)"
    "last (x # us) = last (h # tall ns i pre)" "set us \<subseteq> set (tall ns i pre)"
    using chain_from_mem by blast
  have "tall ns i post = [] \<or> hd (tall ns i post) \<in> set post"
    using hd_in_set [of "tall ns i post"] by auto
  then have "walk ns i key x = Some (last (x # us))"
    using us assms(2) by (intro walk_chain [OF us(1)]) (auto simp: split_at_def)
  with us(2) show ?thesis by (simp add: pred_def)
qed

lemma search_update_spec:
  assumes "skip_ok ns h L as" and "split_at ns (sbytes key) as pre post" and "n \<le> length update"
    and "length update = maxLevel" and "x = h \<or> x \<in> set pre \<and> n \<le> height ns x"
  shows "\<exists>update'. search_update ns key n x update = Some (if n = 0 then x else pred ns h pre 0, update')
    \<and> length update' = maxLevel
    \<and> (\<forall>i<maxLevel. update' ! i = (if i < n then Some (pred ns h pre i) else update ! i))"
  using assms(3-5)
proof (induction n arbitrary: x update)
  case (Suc n)
  have w: "walk ns n key x = Some (pred ns h pre n)"
    by (rule walk_level [OF assms(1,2)]) (use Suc.prems in auto)
  have "pred ns h pre n = h \<or> pred ns h pre n \<in> set pre \<and> n \<le> height ns (pred ns h pre n)"
    using pred_mem [of ns h pre n] by auto
  with Suc.IH [of "update[n := Some (pred ns h pre n)]" "pred ns h pre n"] Suc.prems obtain update' where
    "search_update ns key n (pred ns h pre n) (update[n := Some (pred ns h pre n)]) =
      Some (if n = 0 then pred ns h pre n else pred ns h pre 0, update')"
    "length update' = maxLevel"
    "\<forall>i<maxLevel. update' ! i =
      (if i < n then Some (pred ns h pre i) else update[n := Some (pred ns h pre n)] ! i)"
    by auto
  with w Suc.prems show ?case by (auto simp: nth_list_update less_Suc_eq)
qed auto

lemma search_update_search: "search ns key n x = map_option fst (search_update ns key n x update)"
  by (induction n arbitrary: x update) (auto split: option.splits)

lemma pred_0:
  assumes "skip_ok ns h L as" and "split_at ns k as pre post"
  shows "pred ns h pre 0 = last (h # pre)"
    and "next_at ns (last (h # pre)) 0 = Some (case post of [] \<Rightarrow> None | a # _ \<Rightarrow> Some a)"
proof -
  have all: "tall ns 0 pre = pre" "tall ns 0 post = post"
    using assms by (auto simp: tall_def skip_ok_def split_at_def intro!: filter_True)
  then show "pred ns h pre 0 = last (h # pre)" by (simp add: pred_def)
  have "chain ns 0 h (tall ns 0 as)" using assms(1) by (simp add: skip_ok_def maxLevel_def)
  then have "chain ns 0 h (pre @ post)" using assms(2) all by (simp add: split_at_def)
  from chain_next [OF chain_from [OF this]]
  show "next_at ns (last (h # pre)) 0 = Some (case post of [] \<Rightarrow> None | a # _ \<Rightarrow> Some a)" .
qed

lemma search_spec:
  assumes "skip_ok ns h L as" and "split_at ns (sbytes key) as pre post"
  shows "search ns key L h = Some (last (h # pre))"
proof -
  have "L \<le> length (replicate maxLevel (None :: addr option))" "0 < L" using assms(1) by (simp_all add: skip_ok_def)
  with search_update_spec [OF assms, of L "replicate maxLevel None" h] pred_0(1) [OF assms]
  show ?thesis by (auto simp: search_update_search [of _ _ _ _ "replicate maxLevel None"])
qed

section \<open>Inserting and replacing\<close>

lemma next_at_Some: "x < length ns \<Longrightarrow> i < height ns x \<Longrightarrow> next_at ns x i = Some (n_next (ns ! x) ! i)"
  by (simp add: next_at_def height_def)

lemma set_next_spec:
  assumes "x < length ns" and "i < height ns x"
  shows "\<exists>ns'. set_next ns x i p = Some ns' \<and> length ns' = length ns
    \<and> (\<forall>y. n_entry (ns' ! y) = n_entry (ns ! y) \<and> height ns' y = height ns y)
    \<and> (\<forall>y j. next_at ns' y j = (if y = x \<and> j = i then Some p else next_at ns y j))"
  using assms
  by (auto simp: set_next_def height_def next_at_def nth_list_update)

lemma link_spec:
  assumes "i + k \<le> maxLevel" and "length update = maxLevel"
    and "\<forall>j. i \<le> j \<and> j < i + k \<longrightarrow> update ! j = Some (u j) \<and> u j < length ns \<and> j < height ns (u j) \<and> u j \<noteq> a"
    and "a < length ns" and "height ns a = i + k"
  shows "\<exists>ns'. link k i update a ns = Some ns' \<and> length ns' = length ns
    \<and> (\<forall>y. n_entry (ns' ! y) = n_entry (ns ! y) \<and> height ns' y = height ns y)
    \<and> (\<forall>y j. next_at ns' y j =
        (if i \<le> j \<and> j < i + k then
           (if y = a then next_at ns (u j) j else if y = u j then Some (Some a) else next_at ns y j)
         else next_at ns y j))"
  using assms
proof (induction k arbitrary: i ns)
  case (Suc k)
  let ?u = "u i"
  have u: "update ! i = Some ?u" "?u < length ns" "i < height ns ?u" "?u \<noteq> a" using Suc.prems(3) by auto
  obtain p where p: "next_at ns ?u i = Some p" using next_at_Some [OF u(2,3)] by blast
  obtain ns1 where 1: "set_next ns a i p = Some ns1" "length ns1 = length ns"
    "\<forall>y. n_entry (ns1 ! y) = n_entry (ns ! y) \<and> height ns1 y = height ns y"
    "\<forall>y j. next_at ns1 y j = (if y = a \<and> j = i then Some p else next_at ns y j)"
    using set_next_spec [of a ns i p] Suc.prems(4,5) by auto
  obtain ns2 where 2: "set_next ns1 ?u i (Some a) = Some ns2" "length ns2 = length ns1"
    "\<forall>y. n_entry (ns2 ! y) = n_entry (ns1 ! y) \<and> height ns2 y = height ns1 y"
    "\<forall>y j. next_at ns2 y j = (if y = ?u \<and> j = i then Some (Some a) else next_at ns1 y j)"
    using set_next_spec [of ?u ns1 i "Some a"] u 1 by auto
  have "\<forall>j. Suc i \<le> j \<and> j < Suc i + k \<longrightarrow>
      update ! j = Some (u j) \<and> u j < length ns2 \<and> j < height ns2 (u j) \<and> u j \<noteq> a"
    using Suc.prems(3) 1(2,3) 2(2,3) by auto
  with Suc.IH [of "Suc i" ns2] Suc.prems 1(2,3) 2(2,3) obtain ns' where
    3: "link k (Suc i) update a ns2 = Some ns'" "length ns' = length ns2"
    "\<forall>y. n_entry (ns' ! y) = n_entry (ns2 ! y) \<and> height ns' y = height ns2 y"
    "\<forall>y j. next_at ns' y j = (if Suc i \<le> j \<and> j < Suc i + k then
         (if y = a then next_at ns2 (u j) j else if y = u j then Some (Some a) else next_at ns2 y j)
       else next_at ns2 y j)"
    by auto
  have "next_at ns' y j = (if i \<le> j \<and> j < i + Suc k then
      (if y = a then next_at ns (u j) j else if y = u j then Some (Some a) else next_at ns y j)
      else next_at ns y j)" for y j
    using 3(4) 2(4) 1(4) p u(4) by (cases "j = i") auto
  with 1 2 3 u(1) p show ?case by simp
qed auto

text \<open>The entries of the list, and what \<^verbatim>\<open>set\<close> does to them.\<close>

definition new_Entry :: "slice \<Rightarrow> slice \<Rightarrow> u64 \<Rightarrow> bool \<Rightarrow> Entry" where
  "new_Entry key val seq deleted = \<lparr>e_Key = key, e_Value = val, e_Seq = seq, e_Deleted = deleted\<rparr>"

definition update_Entry :: "slice \<Rightarrow> u64 \<Rightarrow> bool \<Rightarrow> Entry \<Rightarrow> Entry" where
  "update_Entry val seq deleted e =
     (if e_Seq e \<le> seq then e\<lparr>e_Value := val, e_Seq := seq, e_Deleted := deleted\<rparr> else e)"

fun mem_set :: "slice \<Rightarrow> slice \<Rightarrow> u64 \<Rightarrow> bool \<Rightarrow> Entry list \<Rightarrow> Entry list" where
  "mem_set key val seq deleted [] = [new_Entry key val seq deleted]"
| "mem_set key val seq deleted (e # es) =
     (if sbytes (e_Key e) < sbytes key then e # mem_set key val seq deleted es
      else if sbytes (e_Key e) = sbytes key then update_Entry val seq deleted e # es
      else new_Entry key val seq deleted # e # es)"

lemma mem_set_split:
  assumes "\<forall>e\<in>set pre. sbytes (e_Key e) < sbytes key" and "\<forall>e\<in>set post. \<not> sbytes (e_Key e) < sbytes key"
  shows "mem_set key val seq deleted (pre @ post) =
    pre @ (case post of [] \<Rightarrow> [new_Entry key val seq deleted]
      | e # es \<Rightarrow> if sbytes (e_Key e) = sbytes key then update_Entry val seq deleted e # es
          else new_Entry key val seq deleted # post)"
  using assms by (induction pre) (auto split: list.splits)

definition skip_rel :: "SkipList \<Rightarrow> addr list \<Rightarrow> bool" where
  "skip_rel s as =
     (skip_ok (sl_nodes s) (sl_head s) (sl_level s) as \<and> sl_size s = length as \<and>
      sl_bytes s = sum_list (map (\<lambda>a. estimateBytes (n_entry (sl_nodes s ! a))) as))"

definition sl_rel :: "SkipList \<Rightarrow> Entry list \<Rightarrow> bool" where
  "sl_rel s es = (\<exists>as. skip_rel s as \<and> es = map (\<lambda>a. n_entry (sl_nodes s ! a)) as)"

lemma randomLevel_loop_bounds:
  "l \<le> maxLevel \<Longrightarrow> randomLevel_loop l s = (lvl, s') \<Longrightarrow>
    l \<le> lvl \<and> lvl \<le> maxLevel \<and> (\<exists>d. s' = s\<lparr>sl_draws := d\<rparr>)"
proof (induction l s arbitrary: lvl s' rule: randomLevel_loop.induct)
  case (1 l s)
  show ?case
  proof (cases "l < maxLevel \<and> fst (Intn pDenominator s) < pNumerator")
    case True
    with 1 show ?thesis
      by (subst (asm) randomLevel_loop.simps) (fastforce simp: Intn_def)
  next
    case False
    with 1(2,3) show ?thesis
      by (subst (asm) randomLevel_loop.simps) 
        (auto simp: Intn_def split: if_splits intro: exI [of _ "sl_draws s"])
  qed
qed

lemma randomLevel_bounds:
  "randomLevel s = (lvl, s') \<Longrightarrow> 0 < lvl \<and> lvl \<le> maxLevel \<and> (\<exists>d. s' = s\<lparr>sl_draws := d\<rparr>)"
  using randomLevel_loop_bounds [of 1 s lvl s'] by (auto simp: randomLevel_def maxLevel_def)

lemma fold_update_range:
  "length update = n \<Longrightarrow> j < n \<Longrightarrow>
    fold (\<lambda>i update. update[i := p]) [l ..< m] update ! j = (if l \<le> j \<and> j < m then p else update ! j)"
proof (induction m)
  case (Suc m)
  have len: "length (fold (\<lambda>i update. update[i := p]) is update) = length update" for "is"
    by (induction "is" arbitrary: update) auto
  show ?case using Suc by (auto simp: nth_list_update len less_Suc_eq)
qed simp

lemma length_fold_update: "length (fold (\<lambda>i update. update[i := p]) is update) = length update"
  by (induction "is" arbitrary: update) auto

lemma tall_cong: "\<forall>y\<in>set as. height ns' y = height ns y \<Longrightarrow> tall ns' i as = tall ns i as"
  by (auto simp: tall_def intro: filter_cong)

lemma pred_L:
  assumes "skip_ok ns h L as" and "split_at ns k as pre post" and "L \<le> i"
  shows "pred ns h pre i = h"
proof -
  have "\<forall>x\<in>set pre. height ns x \<le> L" using assms(1,2) by (simp add: skip_ok_def split_at_def)
  then have "tall ns i pre = []" using assms(3) by (fastforce simp: tall_def filter_empty_conv)
  then show ?thesis by (simp add: pred_def)
qed

lemma skip_ok_insert:
  fixes e :: Entry
  assumes "skip_ok ns h L as" and "split_at ns (sbytes (e_Key e)) as pre post"
    and "\<forall>b\<in>set post. sbytes (e_Key e) < key_of ns b"
    and "0 < lvl" and "lvl \<le> maxLevel" and "length update = maxLevel"
    and "\<forall>j<lvl. update ! j = Some (pred ns h pre j)"
  shows "\<exists>ns'. link lvl 0 update (length ns) (ns @ [\<lparr>n_entry = e, n_next = replicate lvl None\<rparr>]) = Some ns'
    \<and> skip_ok ns' h (max L lvl) (pre @ length ns # post)
    \<and> (\<forall>y<length ns. n_entry (ns' ! y) = n_entry (ns ! y)) \<and> n_entry (ns' ! length ns) = e"
proof -
  let ?a = "length ns" and ?n0 = "ns @ [\<lparr>n_entry = e, n_next = replicate lvl None\<rparr>]"
  let ?u = "pred ns h pre"
  have as: "as = pre @ post" using assms(2) by (simp add: split_at_def)
  have h: "h < length ns" "height ns h = maxLevel" "distinct (h # pre @ post)"
    "\<forall>a\<in>set (pre @ post). a < length ns \<and> 0 < height ns a \<and> height ns a \<le> L"
    using assms(1) as by (auto simp: skip_ok_def)
  have n0: "height ?n0 y = height ns y" "next_at ?n0 y j = next_at ns y j" "?n0 ! y = ns ! y"
    if "y < length ns" for y j
    using that by (simp_all add: height_def next_at_def nth_append)
  have a0: "height ?n0 ?a = lvl" "?n0 ! ?a = \<lparr>n_entry = e, n_next = replicate lvl None\<rparr>" by (simp_all add: height_def)
  have u: "?u j = h \<or> ?u j \<in> set pre \<and> j < height ns (?u j)" for j by (rule pred_mem)
  have ul: "?u j < length ns" for j using u [of j] h by auto
  have "j < height ns (?u j)" if "j < lvl" for j using u [of j] h(2) that assms(5) by auto
  then obtain ns' where L: "link lvl 0 update ?a ?n0 = Some ns'" "length ns' = length ?n0"
    "\<forall>y. n_entry (ns' ! y) = n_entry (?n0 ! y) \<and> height ns' y = height ?n0 y"
    "\<forall>y j. next_at ns' y j = (if 0 \<le> j \<and> j < 0 + lvl then
       (if y = ?a then next_at ?n0 (?u j) j else if y = ?u j then Some (Some ?a) else next_at ?n0 y j)
       else next_at ?n0 y j)"
    using link_spec [of 0 lvl update ?u ?n0 ?a] assms(5-7) ul n0(1) a0(1)
    by (auto simp: less_SucI less_imp_neq)
  have nx: "next_at ns' y j = (if j < lvl \<and> y = ?u j then Some (Some ?a) else next_at ns y j)"
    if "y < length ns" for y j using L(4) that n0(2) by auto
  have na: "next_at ns' ?a j = next_at ns (?u j) j" if "j < lvl" for j using L(4) that n0(2) ul by auto
  have ht: "height ns' y = height ns y" if "y < length ns" for y using L(3) n0(1) that by auto
  have ha: "height ns' ?a = lvl" using L(3) a0(1) by auto
  have tall: "tall ns' j pre = tall ns j pre" "tall ns' j post = tall ns j post" for j
    using h(4) ht by (auto intro!: tall_cong)
  have chain: "chain ns' j h (tall ns' j (pre @ ?a # post))" if "j < maxLevel" for j
  proof -
    have c: "chain ns j h (tall ns j pre @ tall ns j post)"
      using assms(1) as that by (simp add: skip_ok_def)
    have mem: "y < length ns" if "y \<in> set (h # tall ns j pre @ tall ns j post)" for y
      using that h by auto
    show ?thesis
    proof (cases "j < lvl")
      case True
      have "chain ns' j h (tall ns j pre @ ?a # tall ns j post)"
      proof (rule chain_insert [OF c])
        show "distinct (h # tall ns j pre @ tall ns j post)" using h(3) by (auto simp: tall_def)
        show "?a \<notin> set (h # tall ns j pre @ tall ns j post)" using mem by blast
      qed (use True nx na ul mem in \<open>auto simp: pred_def\<close>)
      with True ha tall show ?thesis by simp
    next
      case False
      have "chain ns' j h (tall ns j pre @ tall ns j post)"
        by (rule chain_cong [OF _ c]) (use False nx mem in auto)
      with False ha tall show ?thesis by simp
    qed
  qed
  have key: "key_of ns' y = key_of ns y" if "y < length ns" for y
    using L(3) n0(3) that by (simp add: key_of_def key_at_def)
  have keya: "key_of ns' ?a = sbytes (e_Key e)" using L(3) by (simp add: key_of_def key_at_def)
  have sorted: "sorted_wrt (\<lambda>a b. key_of ns a < key_of ns b) (pre @ post)"
    "\<forall>a\<in>set pre. key_of ns a < sbytes (e_Key e)"
    using assms(1,2) as by (auto simp: skip_ok_def split_at_def)
  have "sorted_wrt (\<lambda>a b. key_of ns' a < key_of ns' b) (pre @ ?a # post)"
  proof -
    have "sorted_wrt (\<lambda>a b. key_of ns' a < key_of ns' b) (pre @ post)"
      using sorted(1) h(4) key by (auto simp: sorted_wrt_append intro: sorted_wrt_mono_rel [rotated])
    then show ?thesis using sorted(2) assms(3) h(4) key keya by (auto simp: sorted_wrt_append)
  qed
  moreover have "h < length ns'" "height ns' h = maxLevel" using h(1,2) L(2) ht by auto
  moreover have "distinct (h # pre @ ?a # post)" using h by auto
  moreover have "\<forall>b\<in>set (pre @ ?a # post). b < length ns' \<and> 0 < height ns' b \<and> height ns' b \<le> max L lvl"
    using h(4) ht ha L(2) assms(4) by (fastforce intro: less_SucI max.coboundedI1)
  moreover have "0 < max L lvl \<and> max L lvl \<le> maxLevel" using assms(1,4,5) by (auto simp: skip_ok_def)
  ultimately have "skip_ok ns' h (max L lvl) (pre @ ?a # post)"
    using chain unfolding skip_ok_def by blast
  then show ?thesis using L(1,3) n0(3) by (intro exI [of _ ns']) auto
qed

lemma sum_list_map_update:
  fixes f :: "'a \<Rightarrow> 'b :: ab_group_add"
  shows "sum_list (map f (pre @ y # post)) = sum_list (map f (pre @ x # post)) + (f y - f x)"
  by (simp add: algebra_simps)

lemma skip_ok_entry:
  assumes "skip_ok ns h L as" and "\<forall>y. height ns' y = height ns y" and "length ns' = length ns"
    and "\<forall>y j. next_at ns' y j = next_at ns y j" and "\<forall>y\<in>set as. key_of ns' y = key_of ns y"
  shows "skip_ok ns' h L as"
proof -
  have "tall ns' i as = tall ns i as" for i using assms(2) by (simp add: tall_def)
  moreover have "chain ns' i h bs = chain ns i h bs" for i bs
    using chain_cong [of h bs ns' i ns] chain_cong [of h bs ns i ns'] assms(4) by auto
  moreover have "sorted_wrt (\<lambda>a b. key_of ns' a < key_of ns' b) as =
      sorted_wrt (\<lambda>a b. key_of ns a < key_of ns b) as"
    using assms(5) by (auto intro: sorted_wrt_mono_rel [rotated])
  ultimately show ?thesis using assms by (simp add: skip_ok_def)
qed

lemma raise_level_spec:
  assumes "skip_ok (sl_nodes s) (sl_head s) (sl_level s) as" and "split_at (sl_nodes s) k as pre post"
    and "lvl \<le> maxLevel" and "length update = maxLevel"
    and "\<forall>i<maxLevel. update ! i =
      (if i < sl_level s then Some (pred (sl_nodes s) (sl_head s) pre i) else None)"
  shows "\<exists>update'. raise_level lvl s update = (update', s\<lparr>sl_level := max (sl_level s) lvl\<rparr>)
    \<and> length update' = maxLevel
    \<and> (\<forall>j<lvl. update' ! j = Some (pred (sl_nodes s) (sl_head s) pre j))"
proof (cases "lvl > sl_level s")
  case True
  let ?u = "fold (\<lambda>i update. update[i := Some (sl_head s)]) [sl_level s ..< lvl] update"
  have "?u ! j = Some (pred (sl_nodes s) (sl_head s) pre j)" if "j < lvl" for j
    using fold_update_range [OF assms(4), of j "Some (sl_head s)" "sl_level s" lvl] that assms(3,5)
      pred_L [OF assms(1,2), of j] by (auto simp: not_less)
  with True assms(4) show ?thesis by (auto simp: raise_level_def length_fold_update max_def)
qed (use assms in \<open>auto simp: raise_level_def max_def\<close>)

lemma SkipList_set_refines:
  assumes "sl_rel s es"
  shows "\<exists>s'. SkipList_set key val seq deleted s = Some s' \<and> sl_rel s' (mem_set key val seq deleted es)
    \<and> length (sl_nodes s) \<le> length (sl_nodes s') \<and> sl_head s' = sl_head s"
proof -
  let ?ns = "sl_nodes s" and ?h = "sl_head s" and ?L = "sl_level s" and ?k = "sbytes key"
  from assms obtain as where r: "skip_rel s as" and es: "es = map (\<lambda>a. n_entry (?ns ! a)) as"
    by (auto simp: sl_rel_def)
  then have ok: "skip_ok ?ns ?h ?L as" and size: "sl_size s = length as"
    and bytes: "sl_bytes s = sum_list (map (\<lambda>a. estimateBytes (n_entry (?ns ! a))) as)"
    by (simp_all add: skip_rel_def)
  obtain pre post where sp: "split_at ?ns ?k as pre post" using split_at_exists [OF ok] by blast
  then have as: "as = pre @ post" by (simp add: split_at_def)
  have "?L \<le> maxLevel" "0 < ?L" using ok by (simp_all add: skip_ok_def)
  with search_update_spec [OF ok sp, of ?L "replicate maxLevel None" ?h] pred_0(1) [OF ok sp]
  obtain upd where su: "search_update ?ns key ?L ?h (replicate maxLevel None) = Some (last (?h # pre), upd)"
    and upd: "length upd = maxLevel"
      "\<forall>i<maxLevel. upd ! i = (if i < ?L then Some (pred ?ns ?h pre i) else None)"
    by auto
  note nx = pred_0(2) [OF ok sp]
  have ltpre: "\<forall>e\<in>set (map (\<lambda>a. n_entry (?ns ! a)) pre). sbytes (e_Key e) < ?k"
    and gepost: "\<forall>e\<in>set (map (\<lambda>a. n_entry (?ns ! a)) post). \<not> sbytes (e_Key e) < ?k"
    using sp by (auto simp: split_at_def key_of_def key_at_def)
  have es': "es = map (\<lambda>a. n_entry (?ns ! a)) pre @ map (\<lambda>a. n_entry (?ns ! a)) post" by (simp add: es as)
  note ms = mem_set_split [OF ltpre gepost, folded es', of val seq deleted]
  have lt: "\<forall>a\<in>set as. a < length ?ns" and dist: "distinct as" using ok by (auto simp: skip_ok_def)
  show ?thesis
  proof (cases "post \<noteq> [] \<and> key_of ?ns (hd post) = ?k")
    case True
    then obtain x post' where post: "post = x # post'" "key_of ?ns x = ?k" by (cases post) auto
    let ?e = "n_entry (?ns ! x)"
    let ?e' = "update_Entry val seq deleted ?e"
    let ?ns' = "?ns[x := (?ns ! x)\<lparr>n_entry := ?e'\<rparr>]"
    let ?s' = "s\<lparr>sl_nodes := ?ns', sl_bytes := sl_bytes s + (estimateBytes ?e' - estimateBytes ?e)\<rparr>"
    have x: "x < length ?ns" using lt as post by simp
    have set: "SkipList_set key val seq deleted s = Some ?s'"
      using su nx post by (auto simp: SkipList_set_def key_of_def key_at_def update_Entry_def Let_def)
    have en: "n_entry (?ns' ! y) = (if y = x then ?e' else n_entry (?ns ! y))" for y
      using x by (simp add: nth_list_update)
    have keye: "e_Key ?e' = e_Key ?e" by (simp add: update_Entry_def)
    have "skip_ok ?ns' ?h ?L as"
    proof (rule skip_ok_entry [OF ok])
      show "\<forall>y. height ?ns' y = height ?ns y" "\<forall>y j. next_at ?ns' y j = next_at ?ns y j"
        using x by (auto simp: height_def next_at_def nth_list_update)
      show "\<forall>y\<in>set as. key_of ?ns' y = key_of ?ns y"
        using en keye by (simp add: key_of_def key_at_def)
    qed simp
    moreover have maps: "map (\<lambda>a. f (n_entry (?ns' ! a))) as =
        map (\<lambda>a. f (n_entry (?ns ! a))) pre @ f ?e' # map (\<lambda>a. f (n_entry (?ns ! a))) post'" for f :: "Entry \<Rightarrow> 'b"
      using dist as post en by (auto intro!: map_cong)
    have maps0: "map (\<lambda>a. estimateBytes (n_entry (?ns ! a))) as = map (\<lambda>a. estimateBytes (n_entry (?ns ! a))) pre
        @ estimateBytes ?e # map (\<lambda>a. estimateBytes (n_entry (?ns ! a))) post'"
      by (simp add: as post)
    have "sl_bytes ?s' = sum_list (map (\<lambda>a. estimateBytes (n_entry (?ns' ! a))) as)"
      using bytes unfolding maps maps0 by (simp add: algebra_simps)
    ultimately have "skip_rel ?s' as" using size by (simp add: skip_rel_def)
    moreover have "mem_set key val seq deleted es = map (\<lambda>a. n_entry (?ns' ! a)) as"
      using ms maps [of "\<lambda>e. e"] post by (simp add: key_of_def key_at_def)
    ultimately have "sl_rel ?s' (mem_set key val seq deleted es)" unfolding sl_rel_def by auto
    with set show ?thesis by auto
  next
    case False
    have gt: "\<forall>b\<in>set post. ?k < key_of ?ns b"
    proof (cases post)
      case (Cons x post')
      have "?k < key_of ?ns x" using False Cons sp by (auto simp: split_at_def)
      moreover have "\<forall>b\<in>set post'. key_of ?ns x < key_of ?ns b"
        using ok as Cons by (auto simp: skip_ok_def sorted_wrt_append)
      ultimately show ?thesis using Cons by (auto intro: order.strict_trans)
    qed simp
    let ?e = "new_Entry key val seq deleted"
    obtain lvl s1 d where rl: "randomLevel s = (lvl, s1)" "0 < lvl" "lvl \<le> maxLevel" "s1 = s\<lparr>sl_draws := d\<rparr>"
      using randomLevel_bounds by (metis surj_pair)
    obtain upd' where ra: "raise_level lvl s1 upd = (upd', s1\<lparr>sl_level := max ?L lvl\<rparr>)"
      "length upd' = maxLevel" "\<forall>j<lvl. upd' ! j = Some (pred ?ns ?h pre j)"
      using raise_level_spec [of s1 as ?k pre post lvl upd] ok sp upd rl(3,4) by (auto cong: if_cong)
    have sp': "split_at ?ns (sbytes (e_Key ?e)) as pre post" using sp by (simp add: new_Entry_def)
    from skip_ok_insert [OF ok sp' _ rl(2,3) ra(2,3)] gt obtain ns' where
      L: "link lvl 0 upd' (length ?ns) (?ns @ [\<lparr>n_entry = ?e, n_next = replicate lvl None\<rparr>]) = Some ns'"
      "skip_ok ns' ?h (max ?L lvl) (pre @ length ?ns # post)"
      "\<forall>y<length ?ns. n_entry (ns' ! y) = n_entry (?ns ! y)" "n_entry (ns' ! length ?ns) = ?e"
      by (auto simp: new_Entry_def)
    let ?s' = "s\<lparr>sl_draws := d, sl_level := max ?L lvl, sl_nodes := ns', sl_size := sl_size s + 1,
      sl_bytes := sl_bytes s + estimateBytes ?e\<rparr>"
    have miss: "\<not> (case post of [] \<Rightarrow> None | a # _ \<Rightarrow> Some a) \<noteq> None \<or>
        \<not> compareKey (key_at ?ns (the (case post of [] \<Rightarrow> None | a # _ \<Rightarrow> Some a))) key = 0"
      using False by (cases post) (auto simp: key_of_def)
    have set: "SkipList_set key val seq deleted s = Some ?s'"
      using su nx miss rl ra(1) L(1) by (auto simp: SkipList_set_def Let_def new_Entry_def)
    have maps: "map (\<lambda>a. f (n_entry (ns' ! a))) (pre @ length ?ns # post) =
        map (\<lambda>a. f (n_entry (?ns ! a))) pre @ f ?e # map (\<lambda>a. f (n_entry (?ns ! a))) post" for f :: "Entry \<Rightarrow> 'b"
      using L(3,4) lt as by auto
    have "sl_bytes s + estimateBytes ?e =
        sum_list (map (\<lambda>a. estimateBytes (n_entry (ns' ! a))) (pre @ length ?ns # post))"
      unfolding maps using bytes as by (simp add: algebra_simps)
    then have "skip_rel ?s' (pre @ length ?ns # post)"
      using L(2) size as unfolding skip_rel_def by simp
    moreover have "mem_set key val seq deleted es = map (\<lambda>a. n_entry (ns' ! a)) (pre @ length ?ns # post)"
      using ms maps [of "\<lambda>e. e"] False by (cases post) (auto simp: key_of_def key_at_def)
    ultimately have "sl_rel ?s' (mem_set key val seq deleted es)" unfolding sl_rel_def by auto
    moreover have "length ?ns \<le> length ns'"
      using L(2) by (auto simp: skip_ok_def)
    ultimately show ?thesis using set by auto
  qed
qed

lemma SkipList_New_rel: "sl_rel (SkipList_New rnd) []"
proof -
  have "skip_rel (SkipList_New rnd) []"
    by (simp add: skip_rel_def skip_ok_def SkipList_New_def height_def head_node_def next_at_def
        maxLevel_def nth_Cons')
  then show ?thesis by (auto simp: sl_rel_def)
qed

lemma SkipList_Clear_rel: "sl_rel (SkipList_Clear s) []"
proof -
  have "skip_rel (SkipList_Clear s) []"
    by (simp add: skip_rel_def skip_ok_def SkipList_Clear_def height_def head_node_def next_at_def
        maxLevel_def)
  then show ?thesis by (auto simp: sl_rel_def)
qed

section \<open>Reading\<close>

definition es_sorted :: "Entry list \<Rightarrow> bool" where
  "es_sorted es = sorted_wrt (\<lambda>a b. sbytes (e_Key a) < sbytes (e_Key b)) es"

lemma sl_rel_sorted: "sl_rel s es \<Longrightarrow> es_sorted es"
  by (auto simp: sl_rel_def skip_rel_def skip_ok_def es_sorted_def sorted_wrt_map key_of_def key_at_def)

lemma sl_rel_Len: "sl_rel s es \<Longrightarrow> SkipList_Len s = length es"
  by (auto simp: sl_rel_def skip_rel_def SkipList_Len_def)

lemma sl_rel_Bytes: "sl_rel s es \<Longrightarrow> SkipList_Bytes s = sum_list (map estimateBytes es)"
  by (auto simp: sl_rel_def skip_rel_def SkipList_Bytes_def comp_def)

lemma clone_Entry_id [simp]: "clone_Entry e = e"
  by (simp add: clone_Entry_def)

definition first_addr :: "addr list \<Rightarrow> addr option" where
  "first_addr as = (case as of [] \<Rightarrow> None | a # _ \<Rightarrow> Some a)"

lemma first_addr_simps [simp]: "first_addr [] = None" "first_addr (a # as) = Some a"
  by (simp_all add: first_addr_def)

lemma chain_first: "chain ns i x as \<Longrightarrow> next_at ns x i = Some (first_addr as)"
  by (cases as) auto

text \<open>The list of nodes, as level 0 links it from the head and from each node.\<close>

lemma skip_rel_chain:
  assumes "skip_rel s as"
  shows "chain (sl_nodes s) 0 (sl_head s) as"
proof -
  have "tall (sl_nodes s) 0 as = as"
    using assms by (auto simp: tall_def skip_rel_def skip_ok_def intro!: filter_True)
  moreover have "chain (sl_nodes s) 0 (sl_head s) (tall (sl_nodes s) 0 as)"
    using assms by (simp add: skip_rel_def skip_ok_def maxLevel_def)
  ultimately show ?thesis by simp
qed

definition chained :: "node list \<Rightarrow> addr list \<Rightarrow> bool" where
  "chained ns as = (case as of [] \<Rightarrow> True | a # as \<Rightarrow> chain ns 0 a as)"

lemma chained_simps [simp]:
  "chained ns []" "chained ns (a # as) \<longleftrightarrow> chain ns 0 a as"
  by (simp_all add: chained_def)

lemma chain_chained: "chain ns 0 x as \<Longrightarrow> chained ns as"
  by (cases as) auto

lemma sl_rel_first:
  assumes "sl_rel s es"
  obtains as where "es = map (\<lambda>a. n_entry (sl_nodes s ! a)) as" "chained (sl_nodes s) as"
    "next_at (sl_nodes s) (sl_head s) 0 = Some (first_addr as)" "skip_rel s as"
  using assms unfolding sl_rel_def by (metis skip_rel_chain chain_first chain_chained)

lemma Snapshot_loop_eq:
  "chained ns as \<Longrightarrow> Snapshot_loop ns (first_addr as) out = Some (out @ map (\<lambda>a. n_entry (ns ! a)) as)"
proof (induction as arbitrary: out)
  case (Cons a as)
  then show ?case by (subst Snapshot_loop.simps) (simp add: chain_first chain_chained)
qed (subst Snapshot_loop.simps, simp)

lemma SkipList_Snapshot_eq: "sl_rel s es \<Longrightarrow> SkipList_Snapshot s = Some es"
  by (erule sl_rel_first) (simp add: SkipList_Snapshot_def Snapshot_loop_eq)

definition mem_find :: "slice \<Rightarrow> Entry list \<Rightarrow> Entry option" where
  "mem_find key es = find (\<lambda>e. sbytes (e_Key e) = sbytes key) es"

lemma SkipList_Get_eq:
  assumes "sl_rel s es"
  shows "SkipList_Get key s =
    Some (case mem_find key es of None \<Rightarrow> (zero_Entry, False) | Some e \<Rightarrow> (e, True))"
proof -
  let ?ns = "sl_nodes s"
  from assms obtain as where r: "skip_rel s as" and es: "es = map (\<lambda>a. n_entry (?ns ! a)) as"
    by (auto simp: sl_rel_def)
  then have ok: "skip_ok ?ns (sl_head s) (sl_level s) as" by (simp add: skip_rel_def)
  obtain pre post where sp: "split_at ?ns (sbytes key) as pre post" using split_at_exists [OF ok] by blast
  note S = search_spec [OF ok sp] pred_0(2) [OF ok sp]
  have pre: "find (\<lambda>e. sbytes (e_Key e) = sbytes key) (map (\<lambda>a. n_entry (?ns ! a)) pre) = None"
    using sp by (auto simp: find_None_iff split_at_def key_of_def key_at_def)
  have app: "find P (xs @ ys) = (case find P xs of None \<Rightarrow> find P ys | Some x \<Rightarrow> Some x)"
    for P and xs ys :: "Entry list" by (induction xs) auto
  have mf: "mem_find key es = find (\<lambda>e. sbytes (e_Key e) = sbytes key) (map (\<lambda>a. n_entry (?ns ! a)) post)"
    using sp by (simp add: mem_find_def es split_at_def app pre)
  show ?thesis
  proof (cases "post = [] \<or> key_of ?ns (hd post) \<noteq> sbytes key")
    case True
    have "mem_find key es = None"
    proof (cases post)
      case (Cons x post')
      then have "sbytes key < key_of ?ns x" using True sp by (auto simp: split_at_def)
      moreover have "\<forall>b\<in>set post'. key_of ?ns x < key_of ?ns b"
        using ok sp Cons by (auto simp: skip_ok_def sorted_wrt_append split_at_def)
      ultimately have "\<forall>b\<in>set post. sbytes key < key_of ?ns b"
        using Cons by (auto intro: order.strict_trans)
      then show ?thesis by (auto simp: mf find_None_iff key_of_def key_at_def)
    qed (simp add: mf)
    with S True show ?thesis by (cases post) (auto simp: SkipList_Get_def key_of_def)
  next
    case False
    then obtain x post' where "post = x # post'" "key_of ?ns x = sbytes key" by (cases post) auto
    with S mf show ?thesis by (simp add: SkipList_Get_def key_of_def key_at_def)
  qed
qed

text \<open>The ascending callbacks, over a list.\<close>

fun ascend :: "(Entry \<Rightarrow> 's \<Rightarrow> bool \<times> 's) \<Rightarrow> slice \<Rightarrow> Entry list \<Rightarrow> 's \<Rightarrow> 's" where
  "ascend fn hi [] st = st"
| "ascend fn hi (e # es) st =
     (if hi \<noteq> None \<and> sbytes hi \<le> sbytes (e_Key e) then st
      else case fn e st of (go, st) \<Rightarrow> if go then ascend fn hi es st else st)"

lemma Ascend_loop_eq:
  "chained ns as \<Longrightarrow> Ascend_loop fn hi ns (first_addr as) st = Some (ascend fn hi (map (\<lambda>a. n_entry (ns ! a)) as) st)"
proof (induction as arbitrary: st)
  case (Cons a as)
  then show ?case
    by (subst Ascend_loop.simps) (auto simp: chain_first chain_chained key_at_def split: prod.splits)
qed (subst Ascend_loop.simps, simp)

lemma SkipList_Ascend_eq: "sl_rel s es \<Longrightarrow> SkipList_Ascend fn st s = Some (ascend fn None es st)"
  by (erule sl_rel_first) (simp add: SkipList_Ascend_def Ascend_loop_eq)

lemma SkipList_MaxSeq_eq:
  assumes "sl_rel s es"
  shows "SkipList_MaxSeq s = Some (fold max (map e_Seq es) 0)"
proof -
  have m: "(if m < q then q else m) = max q m" for m q :: u64 by (auto simp: max_def intro: antisym)
  have loop: "MaxSeq_loop ns (first_addr as) m = Some (fold max (map (\<lambda>a. e_Seq (n_entry (ns ! a))) as) m)"
    if "chained ns as" for ns as m
    using that
  proof (induction as arbitrary: m)
    case (Cons a as)
    then show ?case by (subst MaxSeq_loop.simps) (simp add: chain_first chain_chained m Let_def)
  qed (subst MaxSeq_loop.simps, simp)
  from assms show ?thesis
    by (rule sl_rel_first) (simp add: SkipList_MaxSeq_def loop comp_def)
qed

text \<open>Where a search for a key ends.\<close>

lemma search_first:
  assumes "sl_rel s es"
  obtains as pre post x where "skip_rel s as" "es = map (\<lambda>a. n_entry (sl_nodes s ! a)) as" "as = pre @ post"
    "search (sl_nodes s) key (sl_level s) (sl_head s) = Some x"
    "next_at (sl_nodes s) x 0 = Some (first_addr post)" "chained (sl_nodes s) post"
    "filter (\<lambda>e. sbytes (e_Key e) < sbytes key) es = map (\<lambda>a. n_entry (sl_nodes s ! a)) pre"
    "filter (\<lambda>e. sbytes key \<le> sbytes (e_Key e)) es = map (\<lambda>a. n_entry (sl_nodes s ! a)) post"
proof -
  from assms obtain as where r: "skip_rel s as" and es: "es = map (\<lambda>a. n_entry (sl_nodes s ! a)) as"
    by (auto simp: sl_rel_def)
  then have ok: "skip_ok (sl_nodes s) (sl_head s) (sl_level s) as" by (simp add: skip_rel_def)
  obtain pre post where sp: "split_at (sl_nodes s) (sbytes key) as pre post"
    using split_at_exists [OF ok] by blast
  let ?en = "\<lambda>a. n_entry (sl_nodes s ! a)"
  have as: "as = pre @ post" using sp by (simp add: split_at_def)
  have lt: "\<And>a. a \<in> set pre \<Longrightarrow> sbytes (e_Key (?en a)) < sbytes key"
    and ge: "\<And>a. a \<in> set post \<Longrightarrow> sbytes key \<le> sbytes (e_Key (?en a))"
    using sp by (auto simp: split_at_def key_of_def key_at_def)
  have "filter (\<lambda>e. sbytes (e_Key e) < sbytes key) es = map ?en pre"
    "filter (\<lambda>e. sbytes key \<le> sbytes (e_Key e)) es = map ?en post"
    using lt ge
    by (force simp: es as filter_map comp_def filter_empty_conv not_le not_less intro!: filter_True)+
  moreover have "chained (sl_nodes s) post"
    using chain_from [OF skip_rel_chain [OF r, unfolded as]] by (rule chain_chained)
  ultimately show thesis
    using that [OF r es as search_spec [OF ok sp]] pred_0(2) [OF ok sp] by (simp add: first_addr_def)
qed

lemma SkipList_AscendRange_eq:
  assumes "sl_rel s es"
  shows "SkipList_AscendRange lo hi fn st s =
    Some (ascend fn hi (case lo of None \<Rightarrow> es | Some l \<Rightarrow> filter (\<lambda>e. l \<le> sbytes (e_Key e)) es) st)"
proof (cases lo)
  case None
  from assms show ?thesis
    by (rule sl_rel_first) (simp add: None SkipList_AscendRange_def Ascend_loop_eq)
next
  case (Some l)
  from assms show ?thesis
    by (rule search_first [where key = lo]) (simp add: Some SkipList_AscendRange_def Ascend_loop_eq)
qed

lemma ascend_fold:
  assumes "es_sorted es" and "\<And>e st. fst (fn e st)"
  shows "ascend fn hi es st =
    fold (\<lambda>e st. snd (fn e st)) (filter (\<lambda>e. hi = None \<or> sbytes (e_Key e) < sbytes hi) es) st"
  using assms(1)
proof (induction es arbitrary: st)
  case (Cons e es)
  have s: "es_sorted es" and gt: "\<forall>x\<in>set es. sbytes (e_Key e) < sbytes (e_Key x)"
    using Cons.prems by (auto simp: es_sorted_def)
  show ?case
  proof (cases "hi \<noteq> None \<and> sbytes hi \<le> sbytes (e_Key e)")
    case True
    then have "\<forall>x\<in>set es. \<not> sbytes (e_Key x) < sbytes hi" using gt by (meson le_less_trans not_less order.asym)
    then have "filter (\<lambda>e. sbytes (e_Key e) < sbytes hi) es = []" by (auto simp: filter_empty_conv)
    with True show ?thesis by (auto simp: not_less)
  next
    case False
    with Cons.IH [OF s] assms(2) [of e st] show ?thesis by (cases "fn e st") (auto simp: not_le)
  qed
qed simp

text \<open>An iterator on the n-th entry of the list, or past its end.\<close>

definition it_rel :: "SkipList \<Rightarrow> Entry list \<Rightarrow> nat \<Rightarrow> Iterator \<Rightarrow> bool" where
  "it_rel s es n it =
     (\<exists>as. skip_rel s as \<and> es = map (\<lambda>a. n_entry (sl_nodes s ! a)) as \<and>
       it_cur it = first_addr (drop n as) \<and> n \<le> length as)"

lemma Iterator_SeekToFirst_rel:
  assumes "sl_rel s es"
  shows "\<exists>it'. Iterator_SeekToFirst s it = Some it' \<and> it_rel s es 0 it'"
  using assms
proof (rule sl_rel_first)
  fix as assume "es = map (\<lambda>a. n_entry (sl_nodes s ! a)) as" "skip_rel s as"
    "next_at (sl_nodes s) (sl_head s) 0 = Some (first_addr as)"
  then show ?thesis by (auto simp: Iterator_SeekToFirst_def it_rel_def intro!: exI [of _ as])
qed

lemma Iterator_Seek_rel:
  assumes "sl_rel s es"
  shows "\<exists>it'. Iterator_Seek target s it = Some it' \<and>
    it_rel s es (length (filter (\<lambda>e. sbytes (e_Key e) < sbytes target) es)) it'"
  using assms
proof (rule search_first [where key = target])
  fix as pre post x
  assume a: "skip_rel s as" "es = map (\<lambda>a. n_entry (sl_nodes s ! a)) as" "as = pre @ post"
    "search (sl_nodes s) target (sl_level s) (sl_head s) = Some x"
    "next_at (sl_nodes s) x 0 = Some (first_addr post)"
    "filter (\<lambda>e. sbytes (e_Key e) < sbytes target) es = map (\<lambda>a. n_entry (sl_nodes s ! a)) pre"
  have "it_rel s es (length pre) (it\<lparr>it_cur := first_addr post\<rparr>)"
    unfolding it_rel_def using a(1-3) by (intro exI [of _ as]) simp
  with a(4-6) show ?thesis by (simp add: Iterator_Seek_def)
qed

lemma first_addr_drop: "first_addr (drop n as) = (if n < length as then Some (as ! n) else None)"
proof (cases "n < length as")
  case True
  then have "drop n as = as ! n # drop (Suc n) as" by (simp add: Cons_nth_drop_Suc)
  with True show ?thesis by simp
qed simp

lemma it_rel_end: "it_rel s es n it \<Longrightarrow> Iterator_Valid it \<longleftrightarrow> n < length es"
  by (auto simp: it_rel_def Iterator_Valid_def first_addr_drop split: if_splits)

lemma it_rel_Entry: "it_rel s es n it \<Longrightarrow> n < length es \<Longrightarrow> Iterator_Entry s it = es ! n"
  by (auto simp: it_rel_def Iterator_Entry_def first_addr_drop)

lemma Iterator_Next_rel:
  assumes "it_rel s es n it"
  shows "\<exists>it'. Iterator_Next s it = Some it' \<and> it_rel s es (min (n + 1) (length es)) it'"
proof -
  from assms obtain as where as: "skip_rel s as" "es = map (\<lambda>a. n_entry (sl_nodes s ! a)) as"
    "it_cur it = first_addr (drop n as)" "n \<le> length as" by (auto simp: it_rel_def)
  show ?thesis
  proof (cases "n < length as")
    case True
    have "as = take n as @ as ! n # drop (n + 1) as" using True by (simp add: id_take_nth_drop)
    with skip_rel_chain [OF as(1)] chain_from [of "sl_nodes s" 0 "sl_head s" "take n as @ [as ! n]" "drop (n + 1) as"]
    have "chain (sl_nodes s) 0 (as ! n) (drop (n + 1) as)" by simp
    from chain_first [OF this] as True show ?thesis
      by (auto simp: Iterator_Next_def first_addr_drop it_rel_def intro!: exI [of _ as])
  next
    case False
    with as show ?thesis by (auto simp: Iterator_Next_def it_rel_def intro!: exI [of _ as])
  qed
qed

section \<open>The list as a map\<close>

definition mem_map :: "Entry list \<Rightarrow> bytes \<Rightarrow> Entry option" where
  "mem_map es k = find (\<lambda>e. sbytes (e_Key e) = k) es"

lemma mem_find_map: "mem_find key es = mem_map es (sbytes key)"
  by (simp add: mem_find_def mem_map_def)

lemma mem_map_simps [simp]:
  "mem_map [] k = None"
  "mem_map (e # es) k = (if sbytes (e_Key e) = k then Some e else mem_map es k)"
  by (simp_all add: mem_map_def)

definition map_set :: "slice \<Rightarrow> slice \<Rightarrow> u64 \<Rightarrow> bool \<Rightarrow> (bytes \<Rightarrow> Entry option) \<Rightarrow> bytes \<Rightarrow> Entry option" where
  "map_set key val seq deleted m =
     m(sbytes key := Some (case m (sbytes key) of
        None \<Rightarrow> new_Entry key val seq deleted | Some e \<Rightarrow> update_Entry val seq deleted e))"

lemma update_Entry_key [simp]: "e_Key (update_Entry val seq deleted e) = e_Key e"
  by (simp add: update_Entry_def)

lemma new_Entry_simps [simp]:
  "e_Key (new_Entry k v q d) = k" "e_Value (new_Entry k v q d) = v"
  "e_Seq (new_Entry k v q d) = q" "e_Deleted (new_Entry k v q d) = d"
  by (simp_all add: new_Entry_def)

lemma es_sorted_Cons:
  "es_sorted (e # es) \<longleftrightarrow> (\<forall>x\<in>set es. sbytes (e_Key e) < sbytes (e_Key x)) \<and> es_sorted es"
  by (simp add: es_sorted_def)

lemma mem_map_below: "\<forall>x\<in>set es. k < sbytes (e_Key x) \<Longrightarrow> mem_map es k = None"
  by (induction es) auto

lemma mem_map_set:
  "es_sorted es \<Longrightarrow> mem_map (mem_set key val seq deleted es) = map_set key val seq deleted (mem_map es)"
proof (induction es)
  case (Cons e es)
  then have s: "es_sorted es" and gt: "\<forall>x\<in>set es. sbytes (e_Key e) < sbytes (e_Key x)"
    by (auto simp: es_sorted_Cons)
  consider "sbytes (e_Key e) < sbytes key" | "sbytes (e_Key e) = sbytes key" | "sbytes key < sbytes (e_Key e)"
    by (rule linorder_cases)
  then show ?case
  proof cases
    case 1
    with Cons.IH [OF s] show ?thesis by (auto simp: map_set_def fun_eq_iff)
  next
    case 3
    have "mem_map es (sbytes key) = None"
      using 3 gt by (intro mem_map_below) (auto intro: order.strict_trans)
    with 3 show ?thesis by (auto simp: map_set_def fun_eq_iff)
  qed (auto simp: map_set_def fun_eq_iff)
qed (auto simp: map_set_def fun_eq_iff)

lemma mem_map_mem: "es_sorted es \<Longrightarrow> mem_map es k = Some e \<longleftrightarrow> e \<in> set es \<and> sbytes (e_Key e) = k"
  by (induction es) (auto simp: es_sorted_Cons)

section \<open>The memtable interface\<close>

text \<open>
  What the database relies on: an implementation behaves as a sorted list of entries, and its
  calls return.
\<close>

datatype mem_op = MPut slice slice u64 | MDelete slice u64

fun op_list :: "mem_op \<Rightarrow> Entry list \<Rightarrow> Entry list" where
  "op_list (MPut k v q) es = mem_set k v q False es"
| "op_list (MDelete k q) es = mem_set k None q True es"

fun op_map :: "mem_op \<Rightarrow> (bytes \<Rightarrow> Entry option) \<Rightarrow> bytes \<Rightarrow> Entry option" where
  "op_map (MPut k v q) m = map_set k v q False m"
| "op_map (MDelete k q) m = map_set k None q True m"

fun mem_run :: "(slice \<Rightarrow> slice \<Rightarrow> u64 \<Rightarrow> 's \<Rightarrow> 's option) \<Rightarrow> (slice \<Rightarrow> u64 \<Rightarrow> 's \<Rightarrow> 's option) \<Rightarrow>
    mem_op list \<Rightarrow> 's \<Rightarrow> 's option" where
  "mem_run put del [] s = Some s"
| "mem_run put del (MPut k v q # ops) s =
     (case put k v q s of None \<Rightarrow> None | Some s \<Rightarrow> mem_run put del ops s)"
| "mem_run put del (MDelete k q # ops) s =
     (case del k q s of None \<Rightarrow> None | Some s \<Rightarrow> mem_run put del ops s)"

lemma op_list_map: "es_sorted es \<Longrightarrow> mem_map (op_list op es) = op_map op (mem_map es)"
  by (cases op) (simp_all add: mem_map_set)

locale memtable_impl =
  fixes rel :: "'s \<Rightarrow> Entry list \<Rightarrow> bool"
    and put :: "slice \<Rightarrow> slice \<Rightarrow> u64 \<Rightarrow> 's \<Rightarrow> 's option"
    and del :: "slice \<Rightarrow> u64 \<Rightarrow> 's \<Rightarrow> 's option"
    and get :: "slice \<Rightarrow> 's \<Rightarrow> (Entry \<times> bool) option"
    and snapshot :: "'s \<Rightarrow> Entry list option"
    and clear :: "'s \<Rightarrow> 's"
  assumes rel_sorted: "rel s es \<Longrightarrow> es_sorted es"
    and put_rel: "rel s es \<Longrightarrow> \<exists>s'. put k v q s = Some s' \<and> rel s' (mem_set k v q False es)"
    and del_rel: "rel s es \<Longrightarrow> \<exists>s'. del k q s = Some s' \<and> rel s' (mem_set k None q True es)"
    and get_rel: "rel s es \<Longrightarrow> get k s =
      Some (case mem_map es (sbytes k) of None \<Rightarrow> (zero_Entry, False) | Some e \<Rightarrow> (e, True))"
    and snapshot_rel: "rel s es \<Longrightarrow> snapshot s = Some es"
    and clear_rel: "rel s es \<Longrightarrow> rel (clear s) []"
begin

lemma run_rel: "rel s es \<Longrightarrow> \<exists>s'. mem_run put del ops s = Some s' \<and> rel s' (fold op_list ops es)"
proof (induction ops arbitrary: s es)
  case (Cons op ops)
  show ?case
  proof (cases op)
    case (MPut k v q)
    with put_rel [OF Cons.prems, of k v q] Cons.IH show ?thesis by fastforce
  next
    case (MDelete k q)
    with del_rel [OF Cons.prems, of k q] Cons.IH show ?thesis by fastforce
  qed
qed simp

lemma run_map:
  assumes "rel s es"
  shows "mem_map (fold op_list ops es) = fold op_map ops (mem_map es)"
  using assms
proof (induction ops arbitrary: s es)
  case (Cons op ops)
  from run_rel [OF Cons.prems, of "[op]"] obtain s' where s': "rel s' (op_list op es)" by auto
  show ?case using Cons.IH [OF s'] op_list_map [OF rel_sorted [OF Cons.prems]] by simp
qed simp

text \<open>After any operations, lookups and the snapshot agree with the map the operations build.\<close>

lemma run_get_snapshot:
  assumes "rel s es"
  shows "\<exists>s' es'. mem_run put del ops s = Some s' \<and> rel s' es' \<and> snapshot s' = Some es' \<and> es_sorted es'
    \<and> mem_map es' = fold op_map ops (mem_map es)
    \<and> (\<forall>k. get k s' = Some (case fold op_map ops (mem_map es) (sbytes k) of
        None \<Rightarrow> (zero_Entry, False) | Some e \<Rightarrow> (e, True)))"
proof -
  from run_rel [OF assms] obtain s' where s': "mem_run put del ops s = Some s'" "rel s' (fold op_list ops es)"
    by blast
  then show ?thesis
    using rel_sorted snapshot_rel get_rel run_map [OF assms] by (intro exI conjI) auto
qed

end

interpretation sl: memtable_impl sl_rel SkipList_Put SkipList_Delete SkipList_Get SkipList_Snapshot SkipList_Clear
proof
  fix s es k v q
  assume r: "sl_rel s es"
  show "es_sorted es" by (rule sl_rel_sorted [OF r])
  show "\<exists>s'. SkipList_Put k v q s = Some s' \<and> sl_rel s' (mem_set k v q False es)"
    using SkipList_set_refines [OF r] by (fastforce simp: SkipList_Put_def)
  show "\<exists>s'. SkipList_Delete k q s = Some s' \<and> sl_rel s' (mem_set k None q True es)"
    using SkipList_set_refines [OF r] by (fastforce simp: SkipList_Delete_def)
  show "SkipList_Get k s =
      Some (case mem_map es (sbytes k) of None \<Rightarrow> (zero_Entry, False) | Some e \<Rightarrow> (e, True))"
    using SkipList_Get_eq [OF r, of k] by (simp add: mem_find_map)
  show "SkipList_Snapshot s = Some es" by (rule SkipList_Snapshot_eq [OF r])
  show "sl_rel (SkipList_Clear s) []" by (rule SkipList_Clear_rel)
qed

definition mt_rel :: "MemTable \<Rightarrow> Entry list \<Rightarrow> bool" where
  "mt_rel m es = sl_rel (mt_sl m) es"

interpretation mt: memtable_impl mt_rel MemTable_Put MemTable_Delete MemTable_Get MemTable_Snapshot MemTable_Clear
proof
  fix m es k v q
  assume "mt_rel m es"
  then have r: "sl_rel (mt_sl m) es" by (simp add: mt_rel_def)
  show "es_sorted es" by (rule sl.rel_sorted [OF r])
  show "\<exists>m'. MemTable_Put k v q m = Some m' \<and> mt_rel m' (mem_set k v q False es)"
    using sl.put_rel [OF r, of k v q] by (auto simp: MemTable_Put_def mt_rel_def)
  show "\<exists>m'. MemTable_Delete k q m = Some m' \<and> mt_rel m' (mem_set k None q True es)"
    using sl.del_rel [OF r, of k q] by (auto simp: MemTable_Delete_def mt_rel_def)
  show "MemTable_Get k m =
      Some (case mem_map es (sbytes k) of None \<Rightarrow> (zero_Entry, False) | Some e \<Rightarrow> (e, True))"
    using sl.get_rel [OF r, of k] by (simp add: MemTable_Get_def)
  show "MemTable_Snapshot m = Some es" using sl.snapshot_rel [OF r] by (simp add: MemTable_Snapshot_def)
  show "mt_rel (MemTable_Clear m) []" by (simp add: mt_rel_def MemTable_Clear_def SkipList_Clear_rel)
qed

lemma NewMemTable_rel: "mt_rel (NewMemTable rnd maxBytes) []"
  by (simp add: mt_rel_def NewMemTable_def SkipList_New_rel)

section \<open>Properties\<close>

fun op_key :: "mem_op \<Rightarrow> bytes" where
  "op_key (MPut k v q) = sbytes k"
| "op_key (MDelete k q) = sbytes k"

fun op_seq :: "mem_op \<Rightarrow> u64" where
  "op_seq (MPut k v q) = q"
| "op_seq (MDelete k q) = q"

fun op_sets :: "mem_op \<Rightarrow> Entry \<Rightarrow> bool" where
  "op_sets (MPut k v q) e = (e_Value e = v \<and> e_Seq e = q \<and> \<not> e_Deleted e)"
| "op_sets (MDelete k q) e = (e_Value e = None \<and> e_Seq e = q \<and> e_Deleted e)"

lemma op_map_other: "op_key op \<noteq> k \<Longrightarrow> op_map op m k = m k"
  by (cases op) (auto simp: map_set_def)

lemma op_map_same:
  "op_map op m (op_key op) = Some e \<Longrightarrow>
    (op_sets op e \<and> (\<forall>e0. m (op_key op) = Some e0 \<longrightarrow> e_Seq e0 \<le> op_seq op)) \<or>
    (m (op_key op) = Some e \<and> op_seq op < e_Seq e)"
  by (cases op) (auto simp: map_set_def update_Entry_def split: option.splits if_splits)

lemma op_sets_seq: "op_sets op e \<Longrightarrow> e_Seq e = op_seq op"
  by (cases op) auto

lemma newest_wins:
  assumes "fold op_map ops Map.empty k = Some e"
  shows "(\<exists>op\<in>set ops. op_key op = k \<and> op_sets op e) \<and> (\<forall>op\<in>set ops. op_key op = k \<longrightarrow> op_seq op \<le> e_Seq e)"
  using assms
proof (induction ops arbitrary: e rule: rev_induct)
  case (snoc op ops)
  let ?m = "fold op_map ops Map.empty"
  show ?case
  proof (cases "op_key op = k")
    case False
    with snoc show ?thesis by (auto simp: op_map_other)
  next
    case True
    have "op_map op ?m (op_key op) = Some e" using snoc.prems True by simp
    from op_map_same [OF this] show ?thesis
    proof
      assume new: "op_sets op e \<and> (\<forall>e0. ?m (op_key op) = Some e0 \<longrightarrow> e_Seq e0 \<le> op_seq op)"
      have "\<forall>op'\<in>set ops. op_key op' = k \<longrightarrow> op_seq op' \<le> op_seq op"
      proof (cases "?m k")
        case None
        have "op_key op' \<noteq> k" if "op' \<in> set ops" for op'
          using that None
        proof (induction ops rule: rev_induct)
          case (snoc x xs)
          then show ?case by (cases "op_key x = k"; cases x) (auto simp: op_map_other map_set_def)
        qed simp
        then show ?thesis by blast
      next
        case (Some e0)
        with snoc.IH [OF this] new True show ?thesis by (auto intro: order.trans)
      qed
      with new True op_sets_seq show ?thesis by auto
    next
      assume "?m (op_key op) = Some e \<and> op_seq op < e_Seq e"
      with snoc.IH True show ?thesis by auto
    qed
  qed
qed simp

text \<open>C10: whatever levels the skip list draws and whatever puts and deletes a memtable is given, no
  call panics or loops; the snapshot lists one entry per key in strictly ascending key order; a
  lookup finds exactly what the map built by the operations holds; and the length and the byte
  count that trigger a flush are those of the snapshot.\<close>

theorem memtable_history:
  "\<exists>m es. mem_run MemTable_Put MemTable_Delete ops (NewMemTable rnd maxBytes) = Some m
    \<and> MemTable_Snapshot m = Some es
    \<and> sorted_wrt (\<lambda>a b. sbytes (e_Key a) < sbytes (e_Key b)) es
    \<and> (\<forall>k. MemTable_Get k m = Some (case fold op_map ops Map.empty (sbytes k) of
        None \<Rightarrow> (zero_Entry, False) | Some e \<Rightarrow> (e, True)))
    \<and> (\<forall>k e. fold op_map ops Map.empty k = Some e \<longleftrightarrow> e \<in> set es \<and> sbytes (e_Key e) = k)
    \<and> MemTable_Len m = length es \<and> MemTable_Bytes m = sum_list (map estimateBytes es)
    \<and> MemTable_MaxSeq m = Some (fold max (map e_Seq es) 0)"
proof -
  from mt.run_get_snapshot [OF NewMemTable_rel, of ops rnd maxBytes] obtain m es where
    m: "mem_run MemTable_Put MemTable_Delete ops (NewMemTable rnd maxBytes) = Some m" "mt_rel m es"
    "MemTable_Snapshot m = Some es" "es_sorted es" "mem_map es = fold op_map ops (mem_map [])"
    "\<forall>k. MemTable_Get k m = Some (case fold op_map ops (mem_map []) (sbytes k) of
        None \<Rightarrow> (zero_Entry, False) | Some e \<Rightarrow> (e, True))" by blast
  have e: "mem_map [] = Map.empty" by (auto simp: fun_eq_iff)
  have r: "sl_rel (mt_sl m) es" using m(2) by (simp add: mt_rel_def)
  show ?thesis
    using m e mem_map_mem [OF m(4)] sl_rel_Len [OF r] sl_rel_Bytes [OF r] SkipList_MaxSeq_eq [OF r]
    by (intro exI [of _ m] exI [of _ es])
      (simp add: es_sorted_def MemTable_Len_def MemTable_Bytes_def MemTable_MaxSeq_def)
qed

text \<open>The newest write wins: the entry a memtable returns for a key has the largest sequence
  number of the writes to that key, whatever order they arrived in, and carries the value and
  the deletion flag of a write with that number.\<close>

theorem memtable_newest_wins:
  assumes "mem_run MemTable_Put MemTable_Delete ops (NewMemTable rnd maxBytes) = Some m"
    and "MemTable_Get key m = Some (e, True)"
  shows "(\<exists>op\<in>set ops. op_key op = sbytes key \<and> op_sets op e)
    \<and> (\<forall>op\<in>set ops. op_key op = sbytes key \<longrightarrow> op_seq op \<le> e_Seq e)"
proof -
  have e: "mem_map [] = Map.empty" by (auto simp: fun_eq_iff)
  from mt.run_get_snapshot [OF NewMemTable_rel, of ops rnd maxBytes] assms e
  have "MemTable_Get key m = Some (case fold op_map ops Map.empty (sbytes key) of
      None \<Rightarrow> (zero_Entry, False) | Some e \<Rightarrow> (e, True))" by auto
  with assms(2) have "fold op_map ops Map.empty (sbytes key) = Some e"
    by (cases "fold op_map ops Map.empty (sbytes key)") simp_all
  then show ?thesis by (rule newest_wins)
qed

theorem memtable_newest_wins_witness:
  "\<exists>m e. mem_run MemTable_Put MemTable_Delete [MPut (Some [1]) (Some [2]) 7, MDelete (Some [1]) 5]
      (NewMemTable (\<lambda>i. i) 0) = Some m \<and> MemTable_Get (Some [1]) m = Some (e, True) \<and> 7 \<le> e_Seq e"
proof -
  let ?ops = "[MPut (Some [1]) (Some [2]) 7, MDelete (Some [1]) 5]"
  from mt.run_get_snapshot [OF NewMemTable_rel, of ?ops "\<lambda>i. i" 0] obtain m where
    m: "mem_run MemTable_Put MemTable_Delete ?ops (NewMemTable (\<lambda>i. i) 0) = Some m"
    "MemTable_Get (Some [1]) m = Some (case fold op_map ?ops (mem_map []) (sbytes (Some [1])) of
        None \<Rightarrow> (zero_Entry, False) | Some e \<Rightarrow> (e, True))" by blast
  then have g: "MemTable_Get (Some [1]) m = Some (new_Entry (Some [1]) (Some [2]) 7 False, True)"
    by (simp add: map_set_def update_Entry_def)
  from memtable_newest_wins [OF m(1) g] have "7 \<le> e_Seq (new_Entry (Some [1]) (Some [2]) 7 False)" by auto
  with m(1) g show ?thesis by blast
qed

text \<open>C14: \<^verbatim>\<open>AscendRange\<close> with a callback that never stops calls it for exactly the
  entries with keys in [lo, hi), in order; nil bounds do not bound.\<close>

theorem skiplist_AscendRange_range:
  assumes "sl_rel s es" and "\<And>e st. fst (fn e st)"
  shows "SkipList_AscendRange lo hi fn st s =
    Some (fold (\<lambda>e st. snd (fn e st))
      (filter (\<lambda>e. (lo = None \<or> sbytes lo \<le> sbytes (e_Key e)) \<and> (hi = None \<or> sbytes (e_Key e) < sbytes hi)) es) st)"
proof -
  let ?es = "case lo of None \<Rightarrow> es | Some l \<Rightarrow> filter (\<lambda>e. l \<le> sbytes (e_Key e)) es"
  have "es_sorted ?es"
    using sl_rel_sorted [OF assms(1)] by (auto simp: es_sorted_def sorted_wrt_filter split: option.splits)
  from ascend_fold [where fn = fn and hi = hi and st = st, OF this assms(2)] SkipList_AscendRange_eq [OF assms(1), of lo hi fn st]
  show ?thesis by (auto simp: conj_commute split: option.splits)
qed

theorem skiplist_AscendRange_range_witness:
  "\<exists>s. SkipList_Put (Some [1]) (Some [9]) 1 (SkipList_New (\<lambda>_. 0)) = Some s
    \<and> SkipList_AscendRange (Some [1]) (Some [2]) (\<lambda>e n. (True, n + e_Seq e)) 0 s = Some 1"
proof -
  from sl.put_rel [OF SkipList_New_rel, of "Some [1]" "Some [9]" 1 "\<lambda>_. 0"] obtain s where
    s: "SkipList_Put (Some [1]) (Some [9]) 1 (SkipList_New (\<lambda>_. 0)) = Some s"
    "sl_rel s [new_Entry (Some [1]) (Some [9]) 1 False]" by auto
  from skiplist_AscendRange_range [OF s(2), of "\<lambda>e n. (True, n + e_Seq e)" "Some [1]" "Some [2]" 0] s(1)
  show ?thesis by simp
qed

fun Iterator_Nexts :: "nat \<Rightarrow> SkipList \<Rightarrow> Iterator \<Rightarrow> Iterator option" where
  "Iterator_Nexts 0 s it = Some it"
| "Iterator_Nexts (Suc n) s it = (case Iterator_Next s it of None \<Rightarrow> None | Some it \<Rightarrow> Iterator_Nexts n s it)"

lemma it_rel_Nexts:
  "it_rel s es m it \<Longrightarrow> \<exists>it'. Iterator_Nexts n s it = Some it' \<and> it_rel s es (min (m + n) (length es)) it'"
proof (induction n arbitrary: m it)
  case 0
  then show ?case by (auto simp: it_rel_def min_def)
next
  case (Suc n)
  from Iterator_Next_rel [OF Suc.prems] obtain it1 where
    "Iterator_Next s it = Some it1" "it_rel s es (min (m + 1) (length es)) it1" by blast
  with Suc.IH [OF this(2)] show ?case
    by (auto simp: min_def split: if_splits)
qed

text \<open>C13: after \<^verbatim>\<open>Seek\<close>, n calls of \<^verbatim>\<open>Next\<close> reach the n-th entry whose key is at
  least the target, and the iterator is invalid exactly when there are no more.\<close>

theorem skiplist_iterator_scan:
  assumes "sl_rel s es"
  shows "\<exists>it1 it2. Iterator_Seek target s it = Some it1 \<and> Iterator_Nexts n s it1 = Some it2
    \<and> (let rest = filter (\<lambda>e. sbytes target \<le> sbytes (e_Key e)) es
       in (Iterator_Valid it2 \<longleftrightarrow> n < length rest) \<and> (n < length rest \<longrightarrow> Iterator_Entry s it2 = rest ! n))"
proof -
  let ?lt = "filter (\<lambda>e. sbytes (e_Key e) < sbytes target) es"
  let ?rest = "filter (\<lambda>e. sbytes target \<le> sbytes (e_Key e)) es"
  have es: "es = ?lt @ ?rest"
    using sl_rel_sorted [OF assms]
  proof (induction es)
    case (Cons e es)
    then have s: "es_sorted es" and gt: "\<forall>x\<in>set es. sbytes (e_Key e) < sbytes (e_Key x)"
      by (auto simp: es_sorted_Cons)
    show ?case
    proof (cases "sbytes (e_Key e) < sbytes target")
      case False
      then have "\<forall>x\<in>set es. sbytes target \<le> sbytes (e_Key x)" using gt by (meson le_less_trans not_less less_imp_le)
      then have "filter (\<lambda>e. sbytes (e_Key e) < sbytes target) es = []"
        "filter (\<lambda>e. sbytes target \<le> sbytes (e_Key e)) es = es"
        by (auto simp: filter_empty_conv not_less intro: filter_True)
      with False show ?thesis by (simp add: not_less)
    qed (use Cons.IH [OF s] in \<open>simp add: not_le\<close>)
  qed simp
  from Iterator_Seek_rel [OF assms, of target it] obtain it1 where
    1: "Iterator_Seek target s it = Some it1" "it_rel s es (length ?lt) it1" by blast
  from it_rel_Nexts [OF 1(2), of n] obtain it2 where
    2: "Iterator_Nexts n s it1 = Some it2" "it_rel s es (min (length ?lt + n) (length es)) it2" by blast
  have len: "length es = length ?lt + length ?rest" using es by (metis length_append)
  have "es ! (length ?lt + n) = ?rest ! n" by (subst es) (simp add: nth_append)
  moreover have "Iterator_Valid it2 \<longleftrightarrow> n < length ?rest" using it_rel_end [OF 2(2)] len by auto
  moreover have "Iterator_Entry s it2 = es ! (length ?lt + n)" if "n < length ?rest"
    using it_rel_Entry [OF 2(2)] len that by (simp add: min_def)
  ultimately show ?thesis using 1(1) 2(1) unfolding Let_def by metis
qed

theorem skiplist_iterator_scan_witness:
  "\<exists>s it1 it2. SkipList_Put (Some [1]) (Some [9]) 1 (SkipList_New (\<lambda>_. 0)) = Some s
    \<and> Iterator_Seek (Some [0]) s (SkipList_NewIterator s) = Some it1 \<and> Iterator_Nexts 1 s it1 = Some it2
    \<and> \<not> Iterator_Valid it2"
proof -
  from sl.put_rel [OF SkipList_New_rel, of "Some [1]" "Some [9]" 1 "\<lambda>_. 0"] obtain s where
    s: "SkipList_Put (Some [1]) (Some [9]) 1 (SkipList_New (\<lambda>_. 0)) = Some s"
    "sl_rel s [new_Entry (Some [1]) (Some [9]) 1 False]" by auto
  from skiplist_iterator_scan [OF s(2), of "Some [0]" "SkipList_NewIterator s" 1] s(1)
  show ?thesis by (auto simp: Let_def)
qed

text \<open>A fresh iterator stands on the list's head sentinel and reports that it is valid, on an
  empty table too, although it is on no entry; its key is nil.\<close>

theorem skiplist_fresh_iterator_valid:
  "Iterator_Valid (SkipList_NewIterator (SkipList_New rnd))
    \<and> Iterator_Key (SkipList_New rnd) (SkipList_NewIterator (SkipList_New rnd)) = None
    \<and> SkipList_Len (SkipList_New rnd) = 0"
  by (simp add: Iterator_Valid_def SkipList_NewIterator_def Iterator_Key_def SkipList_New_def
      head_node_def zero_Entry_def SkipList_Len_def)

end
