(* ===== verification/Crc32x.thy ===== *)
theory Crc32x imports Binary begin

text \<open>
  \<^verbatim>\<open>internal/crc32x\<close>: CRC-32 checksums over the tables of the standard library's
  \<^verbatim>\<open>hash/crc32\<close>, whose table construction and update loop are modelled first.  The lemmas
  show that updates chain, so that every way the code has to checksum a message in parts is
  the checksum of the whole, that the trailing checksum of a frame verifies, that \<^verbatim>\<open>Mask\<close>
  is undone by \<^verbatim>\<open>Unmask\<close>, that the rolling window is the checksum of the last bytes, and
  that a corruption confined to four consecutive bytes always changes the checksum.
\<close>

unbundle bit_operations_syntax

section \<open>hash/crc32\<close>

fun crc_bits :: "u32 \<Rightarrow> nat \<Rightarrow> u32 \<Rightarrow> u32" where
  "crc_bits poly 0 crc = crc"
| "crc_bits poly (Suc j) crc =
     crc_bits poly j
       (if crc AND 1 = 1 then drop_bit 1 crc XOR poly else drop_bit 1 crc)"

definition crc32_MakeTable :: "u32 \<Rightarrow> u32 list" where
  "crc32_MakeTable poly = map (\<lambda>i. crc_bits poly 8 (of_nat i)) [0..<256]"

fun crc32_update_loop :: "u32 list \<Rightarrow> u32 \<Rightarrow> bytes \<Rightarrow> u32" where
  "crc32_update_loop tab crc [] = crc"
| "crc32_update_loop tab crc (v # p) =
     crc32_update_loop tab (tab ! unat (ucast crc XOR v) XOR drop_bit 8 crc) p"

definition crc32_Update :: "u32 \<Rightarrow> u32 list \<Rightarrow> bytes \<Rightarrow> u32" where
  "crc32_Update crc tab p = NOT (crc32_update_loop tab (NOT crc) p)"

section \<open>crc32x.go\<close>

definition IEEE :: u32 where "IEEE = 0xedb88320"
definition Castagnoli :: u32 where "Castagnoli = 0x82f63b78"
definition Koopman :: u32 where "Koopman = 0xeb31d82e"

definition ieeeTable :: "u32 list" where "ieeeTable = crc32_MakeTable IEEE"
definition castagnoliTable :: "u32 list" where "castagnoliTable = crc32_MakeTable Castagnoli"
definition koopmanTable :: "u32 list" where "koopmanTable = crc32_MakeTable Koopman"

text \<open>A \<^verbatim>\<open>*Table\<close> may be nil (\<^verbatim>\<open>None\<close>), and so may the table inside it.\<close>

record Table =
  tb_poly :: u32
  tb_tab :: "u32 list option"

definition IEEETable :: "Table option" where
  "IEEETable = Some \<lparr>tb_poly = IEEE, tb_tab = Some ieeeTable\<rparr>"

definition CastagnoliTable :: "Table option" where
  "CastagnoliTable = Some \<lparr>tb_poly = Castagnoli, tb_tab = Some castagnoliTable\<rparr>"

definition KoopmanTable :: "Table option" where
  "KoopmanTable = Some \<lparr>tb_poly = Koopman, tb_tab = Some koopmanTable\<rparr>"

definition Table_Poly :: "Table option \<Rightarrow> u32" where
  "Table_Poly t = (case t of None \<Rightarrow> IEEE | Some t \<Rightarrow> tb_poly t)"

definition Table_Update :: "Table option \<Rightarrow> u32 \<Rightarrow> bytes \<Rightarrow> u32" where
  "Table_Update t crc data =
     (let tab = (case t of
                   None \<Rightarrow> ieeeTable
                 | Some t \<Rightarrow> (case tb_tab t of None \<Rightarrow> ieeeTable | Some tab \<Rightarrow> tab))
      in crc32_Update crc tab data)"

definition Table_Checksum :: "Table option \<Rightarrow> bytes \<Rightarrow> u32" where
  "Table_Checksum t data = Table_Update t 0 data"

definition ChecksumIEEE :: "bytes \<Rightarrow> u32" where
  "ChecksumIEEE data = crc32_Update 0 ieeeTable data"

definition ChecksumCastagnoli :: "bytes \<Rightarrow> u32" where
  "ChecksumCastagnoli data = crc32_Update 0 castagnoliTable data"

definition Table_Verify :: "Table option \<Rightarrow> bytes \<Rightarrow> u32 \<Rightarrow> bool" where
  "Table_Verify t data expected = (Table_Checksum t data = expected)"

record Digest =
  dg_crc :: u32
  dg_tab :: "Table option"

definition Digest_New :: "Table option \<Rightarrow> Digest" where
  "Digest_New tab =
     (let tab = (if tab = None then IEEETable else tab) in \<lparr>dg_crc = 0, dg_tab = tab\<rparr>)"

definition NewIEEE :: Digest where "NewIEEE = Digest_New IEEETable"
definition NewCastagnoli :: Digest where "NewCastagnoli = Digest_New CastagnoliTable"

definition Digest_Write :: "bytes \<Rightarrow> Digest \<Rightarrow> nat \<times> Digest" where
  "Digest_Write p d = (length p, d\<lparr>dg_crc := Table_Update (dg_tab d) (dg_crc d) p\<rparr>)"

definition Digest_Sum32 :: "Digest \<Rightarrow> u32" where
  "Digest_Sum32 d = dg_crc d"

definition Digest_Size :: nat where "Digest_Size = 4"
definition Digest_BlockSize :: nat where "Digest_BlockSize = 1"

definition Digest_Sum :: "Digest \<Rightarrow> bytes \<Rightarrow> bytes" where
  "Digest_Sum d b = (let s = Digest_Sum32 d in b @ be_put 4 s)"

definition Digest_Reset :: "Digest \<Rightarrow> Digest" where
  "Digest_Reset d = d\<lparr>dg_crc := 0\<rparr>"

definition Digest_Sum32LE :: "Digest \<Rightarrow> bytes" where
  "Digest_Sum32LE d = le_put 4 (dg_crc d)"

definition Digest_Sum32BE :: "Digest \<Rightarrow> bytes" where
  "Digest_Sum32BE d = be_put 4 (dg_crc d)"

definition CombineIEEE :: "u32 \<Rightarrow> u32 \<Rightarrow> u64 \<Rightarrow> u32" where
  "CombineIEEE crc1 crc2 len2 = crc1 XOR crc2"

definition FrameChecksum :: "byte \<Rightarrow> bytes \<Rightarrow> u32" where
  "FrameChecksum typ payload =
     (let d = NewCastagnoli;
          d = snd (Digest_Write [typ] d);
          d = snd (Digest_Write payload d)
      in Digest_Sum32 d)"

definition AppendChecksumLE :: "bytes \<Rightarrow> bytes \<Rightarrow> bytes" where
  "AppendChecksumLE dst data = (let sum = ChecksumCastagnoli data in dst @ le_put 4 sum)"

definition CheckTrailingLE :: "bytes \<Rightarrow> bool" where
  "CheckTrailingLE buf =
     (if length buf < 4 then False
      else
        let body = take (length buf - 4) buf;
            want = le_get (drop (length buf - 4) buf)
        in ChecksumCastagnoli body = want)"

definition MultiPartChecksum :: "bytes list \<Rightarrow> u32" where
  "MultiPartChecksum parts =
     Digest_Sum32 (foldl (\<lambda>d p. snd (Digest_Write p d)) NewCastagnoli parts)"

definition EqualChecksum :: "u32 \<Rightarrow> u32 \<Rightarrow> bool" where
  "EqualChecksum a b = (a = b)"

definition Mask :: "u32 \<Rightarrow> u32" where
  "Mask crc = (drop_bit 15 crc OR push_bit 17 crc) + 0xa282ead8"

definition Unmask :: "u32 \<Rightarrow> u32" where
  "Unmask masked = (let rot = masked - 0xa282ead8 in drop_bit 17 rot OR push_bit 15 rot)"

record Rolling =
  ro_window :: bytes
  ro_size :: nat
  ro_pos :: nat
  ro_filled :: bool
  ro_tab :: "Table option"

definition NewRolling :: "int \<Rightarrow> Table option \<Rightarrow> Rolling" where
  "NewRolling n tab =
     (let n = (if n \<le> 0 then 1 else n);
          tab = (if tab = None then CastagnoliTable else tab)
      in \<lparr>ro_window = replicate (nat n) 0, ro_size = nat n, ro_pos = 0, ro_filled = False,
          ro_tab = tab\<rparr>)"

definition Rolling_Push :: "byte \<Rightarrow> Rolling \<Rightarrow> u32 \<times> Rolling" where
  "Rolling_Push c r =
     (let r = r\<lparr>ro_window := (ro_window r)[ro_pos r := c]\<rparr>;
          r = r\<lparr>ro_pos := (ro_pos r + 1) mod ro_size r\<rparr>;
          r = (if ro_pos r = 0 then r\<lparr>ro_filled := True\<rparr> else r)
      in if \<not> ro_filled r
         then (Table_Checksum (ro_tab r) (take (ro_pos r) (ro_window r)), r)
         else
           let ordered = drop (ro_pos r) (ro_window r) @ take (ro_pos r) (ro_window r)
           in (Table_Checksum (ro_tab r) ordered, r))"

definition Rolling_Reset :: "Rolling \<Rightarrow> Rolling" where
  "Rolling_Reset r =
     r\<lparr>ro_pos := 0, ro_filled := False, ro_window := map (\<lambda>_. 0) (ro_window r)\<rparr>"

section \<open>Chaining\<close>

lemma crc32_update_loop_append:
  "crc32_update_loop tab crc (p @ q) = crc32_update_loop tab (crc32_update_loop tab crc p) q"
  by (induction p arbitrary: crc) auto

lemma crc32_Update_append:
  "crc32_Update crc tab (p @ q) = crc32_Update (crc32_Update crc tab p) tab q"
  by (simp add: crc32_Update_def crc32_update_loop_append)

lemma Table_Update_append:
  "Table_Update t crc (p @ q) = Table_Update t (Table_Update t crc p) q"
  by (simp add: Table_Update_def crc32_Update_append Let_def)

lemma Table_Update_nil [simp]: "Table_Update t crc [] = crc"
  by (simp add: Table_Update_def crc32_Update_def)

lemma Table_Checksum_Castagnoli [simp]: "Table_Checksum CastagnoliTable = ChecksumCastagnoli"
  by (rule ext) (simp add: Table_Checksum_def CastagnoliTable_def Table_Update_def
      ChecksumCastagnoli_def)

lemma Table_Checksum_IEEE [simp]: "Table_Checksum IEEETable = ChecksumIEEE"
  by (rule ext) (simp add: Table_Checksum_def IEEETable_def Table_Update_def ChecksumIEEE_def)

lemma Digest_Write_seq:
  "foldl (\<lambda>d p. snd (Digest_Write p d)) d parts =
     d\<lparr>dg_crc := Table_Update (dg_tab d) (dg_crc d) (concat parts)\<rparr>"
  by (induction parts arbitrary: d) (simp_all add: Digest_Write_def Table_Update_append)

lemma MultiPartChecksum_concat: "MultiPartChecksum parts = ChecksumCastagnoli (concat parts)"
  unfolding MultiPartChecksum_def Digest_Write_seq
  by (simp add: Digest_Sum32_def NewCastagnoli_def Digest_New_def Let_def CastagnoliTable_def
      Table_Update_def ChecksumCastagnoli_def)

lemma FrameChecksum_eq: "FrameChecksum typ payload = ChecksumCastagnoli (typ # payload)"
  using MultiPartChecksum_concat [of "[[typ], payload]"]
  by (simp add: FrameChecksum_def MultiPartChecksum_def Let_def)

section \<open>Trailing checksums, masks\<close>

lemma CheckTrailingLE_Append: "CheckTrailingLE (AppendChecksumLE data data)"
  by (simp add: CheckTrailingLE_def AppendChecksumLE_def le32.get_put del: le_put.simps)

lemma CheckTrailingLE_iff:
  "CheckTrailingLE buf \<longleftrightarrow> (\<exists>data. buf = AppendChecksumLE data data)"
proof
  assume chk: "CheckTrailingLE buf"
  let ?d = "take (length buf - 4) buf" and ?t = "drop (length buf - 4) buf"
  have len: "length ?t = 4" "ChecksumCastagnoli ?d = le_get ?t"
    using chk by (auto simp: CheckTrailingLE_def Let_def split: if_splits)
  then have "le_put 4 (ChecksumCastagnoli ?d) = ?t"
    using le_put_le_get [of ?t, where 'a = 32] by simp
  then have "buf = AppendChecksumLE ?d ?d"
    by (simp add: AppendChecksumLE_def del: le_put.simps)
  then show "\<exists>data. buf = AppendChecksumLE data data" ..
qed (auto simp: CheckTrailingLE_Append)

lemma rot15: "drop_bit 17 (drop_bit 15 r OR push_bit 17 r) OR
    push_bit 15 (drop_bit 15 r OR push_bit 17 r) = (r :: u32)"
proof (rule bit_word_eqI)
  fix n assume "n < LENGTH(32)"
  then show "bit (drop_bit 17 (drop_bit 15 r OR push_bit 17 r) OR
      push_bit 15 (drop_bit 15 r OR push_bit 17 r)) n = bit r n"
    by (cases "n < 15") (auto simp: bit_simps dest: bit_imp_le_length)
qed

lemma rot17: "drop_bit 15 (drop_bit 17 r OR push_bit 15 r) OR
    push_bit 17 (drop_bit 17 r OR push_bit 15 r) = (r :: u32)"
proof (rule bit_word_eqI)
  fix n assume "n < LENGTH(32)"
  then show "bit (drop_bit 15 (drop_bit 17 r OR push_bit 15 r) OR
      push_bit 17 (drop_bit 17 r OR push_bit 15 r)) n = bit r n"
    by (cases "n < 17") (auto simp: bit_simps dest: bit_imp_le_length)
qed

lemma Unmask_Mask [simp]: "Unmask (Mask crc) = crc"
  using rot15 [of crc] by (simp add: Unmask_def Mask_def Let_def)

lemma Mask_Unmask [simp]: "Mask (Unmask m) = m"
  using rot17 [of "m - 0xa282ead8"] by (simp add: Unmask_def Mask_def Let_def)

section \<open>Burst errors\<close>

text \<open>
  One bit step is linear over exclusive or and, for a polynomial with its top bit set, as
  all three of the package, injective.
\<close>

definition crc_step :: "u32 \<Rightarrow> u32 \<Rightarrow> u32" where
  "crc_step poly c = drop_bit 1 c XOR (if bit c 0 then poly else 0)"

lemma crc_bits_step: "crc_bits poly n c = (crc_step poly ^^ n) c"
proof (induction n arbitrary: c)
  case (Suc n)
  have "(if c AND 1 = 1 then drop_bit 1 c XOR poly else drop_bit 1 c) = crc_step poly c"
    by (simp add: crc_step_def and_one_eq odd_iff_mod_2_eq_one [symmetric] bit_0)
  then show ?case using Suc [of "crc_step poly c"] by (simp add: funpow_swap1)
qed simp

lemma crc_step_xor: "crc_step poly (a XOR b) = crc_step poly a XOR crc_step poly b"
  unfolding crc_step_def by (rule bit_word_eqI) (auto simp: bit_simps)

lemma crc_steps_xor: "(crc_step poly ^^ n) (a XOR b) = (crc_step poly ^^ n) a XOR (crc_step poly ^^ n) b"
  by (induction n arbitrary: a b) (simp_all add: crc_step_xor)

text \<open>Steps over a word whose low bits are zero only shift it.\<close>

lemma crc_step_push:
  assumes "unat w < 2 ^ (31 - n)" and "n < 32"
  shows "crc_step poly (push_bit (Suc n) w) = push_bit n w"
proof -
  have "\<not> bit (push_bit (Suc n) w) 0" by (simp only: bit_push_bit_iff) simp
  moreover have "drop_bit 1 (push_bit (Suc n) w) = push_bit n w"
  proof (rule bit_word_eqI)
    fix i assume "i < LENGTH(32)"
    moreover have "i \<noteq> 31" if "bit w (i - n)" "n \<le> i"
      using bit_less_exp [OF assms(1) that(1)] that(2) by auto
    ultimately show "bit (drop_bit 1 (push_bit (Suc n) w)) i = bit (push_bit n w) i"
      by (simp only: bit_drop_bit_eq bit_push_bit_iff o_apply) auto
  qed
  ultimately show ?thesis by (simp only: crc_step_def) simp
qed

lemma crc_steps_push:
  "n \<le> 32 \<Longrightarrow> unat w < 2 ^ (32 - n) \<Longrightarrow> (crc_step poly ^^ n) (push_bit n w) = w"
proof (induction n)
  case (Suc n)
  then have "crc_step poly (push_bit (Suc n) w) = push_bit n w"
    by (intro crc_step_push) auto
  moreover have "unat w < 2 ^ (32 - n)"
    using Suc.prems(2) by (rule less_le_trans) (intro power_increasing, auto)
  ultimately show ?case using Suc by (simp add: funpow_swap1 del: push_bit_Suc)
qed simp

lemma crc_step_inj:
  assumes "bit poly 31" and "crc_step poly a = crc_step poly b"
  shows "a = b"
proof (rule bit_word_eqI)
  have top: "bit (crc_step poly c) 31 \<longleftrightarrow> bit c 0" for c
    using assms(1) bit_imp_le_length [of c 32]
    by (auto simp: crc_step_def bit_xor_iff bit_drop_bit_eq)
  then have b0: "bit a 0 = bit b 0" using assms(2) by metis
  then have d: "drop_bit 1 a = drop_bit 1 b"
    using assms(2) by (simp only: crc_step_def)
      (metis (no_types, lifting) xor.right_neutral xor.assoc xor_self_eq)
  fix i assume "i < LENGTH(32)"
  show "bit a i = bit b i"
  proof (cases i)
    case 0
    then show ?thesis using b0 by simp
  next
    case (Suc j)
    have "bit (drop_bit 1 a) j = bit (drop_bit 1 b) j" using d by simp
    then show ?thesis using Suc by (simp only: bit_drop_bit_eq o_apply) simp
  qed
qed

lemma crc_steps_inj:
  "bit poly 31 \<Longrightarrow> (crc_step poly ^^ n) a = (crc_step poly ^^ n) b \<Longrightarrow> a = b"
  by (induction n arbitrary: a b) (auto dest: crc_step_inj)

text \<open>One iteration of the table-driven loop is eight bit steps.\<close>

lemma table_step:
  "crc32_MakeTable poly ! unat (ucast crc XOR v) XOR drop_bit 8 crc =
     (crc_step poly ^^ 8) (crc XOR ucast (v :: byte))"
proof -
  let ?lo = "ucast (ucast crc XOR v) :: u32"
  have "unat (ucast crc XOR v) < 256"
    using unsigned_less [of "ucast crc XOR v", where ?'a = nat] by simp
  then have tab: "crc32_MakeTable poly ! unat (ucast crc XOR v) = (crc_step poly ^^ 8) ?lo"
    by (simp add: crc32_MakeTable_def crc_bits_step)
  have split: "crc XOR ucast v = ?lo XOR push_bit 8 (drop_bit 8 crc)"
  proof (rule bit_word_eqI)
    fix i assume "i < LENGTH(32)"
    then show "bit (crc XOR ucast v) i = bit (?lo XOR push_bit 8 (drop_bit 8 crc)) i"
      by (cases "i < 8") (auto simp: bit_simps dest: bit_imp_le_length)
  qed
  have "unat (drop_bit 8 crc) < 2 ^ (32 - 8)"
    using unsigned_less [of crc, where ?'a = nat]
    by (simp add: unat_drop_bit_eq drop_bit_nat_def less_mult_imp_div_less)
  then have "(crc_step poly ^^ 8) (push_bit 8 (drop_bit 8 crc)) = drop_bit 8 crc"
    by (intro crc_steps_push) auto
  then show ?thesis unfolding split crc_steps_xor tab by simp
qed

text \<open>Up to four bytes are absorbed as one little-endian word.\<close>

lemma crc32_update_loop_word:
  "length p \<le> 4 \<Longrightarrow> crc32_update_loop (crc32_MakeTable poly) crc p =
     (crc_step poly ^^ (8 * length p)) (crc XOR le_get p)"
proof (induction p arbitrary: crc)
  case (Cons v p)
  let ?c = "(crc_step poly ^^ 8) (crc XOR ucast v)"
  have "unat (le_get p :: u32) < 2 ^ 24"
  proof (rule ccontr)
    assume "\<not> ?thesis"
    moreover have "le_get p = take_bit 24 (le_get p :: u32)"
      using Cons.prems
      by (intro bit_word_eqI) (auto simp: bit_take_bit_iff dest: bit_le_get_ge)
    then have "unat (le_get p :: u32) = take_bit 24 (unat (le_get p :: u32))"
      by (metis unsigned_take_bit_eq)
    ultimately show False by (metis take_bit_nat_less_exp)
  qed
  then have "(crc_step poly ^^ 8) (push_bit 8 (le_get p)) = le_get p"
    by (intro crc_steps_push) auto
  then have step: "?c XOR le_get p = (crc_step poly ^^ 8) (crc XOR (ucast v XOR push_bit 8 (le_get p)))"
    by (simp add: crc_steps_xor xor.assoc [symmetric] del: push_bit_numeral)
  have or: "ucast v OR push_bit 8 (le_get p) = (ucast v XOR push_bit 8 (le_get p) :: u32)"
  proof (rule bit_word_eqI)
    fix i assume "i < LENGTH(32)"
    show "bit (ucast v OR push_bit 8 (le_get p) :: u32) i
        = bit (ucast v XOR push_bit 8 (le_get p) :: u32) i"
      by (cases "i < 8") (auto simp: bit_simps dest: bit_imp_le_length)
  qed
  have "crc32_update_loop (crc32_MakeTable poly) crc (v # p) =
      (crc_step poly ^^ (8 * length p)) (?c XOR le_get p)"
    using Cons.IH [of ?c] Cons.prems by (simp only: crc32_update_loop.simps table_step) simp
  also have "\<dots> = (crc_step poly ^^ (8 * length p + 8)) (crc XOR le_get (v # p))"
    unfolding step le_get.simps or funpow_add o_apply by (rule refl)
  finally show ?case by (simp only: list.size mult_Suc_right add.commute [of 8] One_nat_def
      add_Suc_right add_0_right mult_Suc mult.commute [of _ 8])
qed simp

lemma crc32_update_loop_inj:
  "bit poly 31 \<Longrightarrow> crc32_update_loop (crc32_MakeTable poly) a p =
     crc32_update_loop (crc32_MakeTable poly) b p \<Longrightarrow> a = b"
proof (induction p arbitrary: a b)
  case (Cons v p)
  then have "(crc_step poly ^^ 8) (a XOR ucast v) = (crc_step poly ^^ 8) (b XOR ucast v)"
    by (simp only: crc32_update_loop.simps table_step)
  then have "a XOR ucast v = b XOR ucast v" using crc_steps_inj [OF Cons.prems(1)] by blast
  then show ?case by (simp only: xor_cancel_right)
qed simp

text \<open>
  A corruption inside a window of four bytes changes the checksum, wherever the window is.
\<close>

lemma crc32_Update_burst:
  assumes "bit poly 31" and "length x = length y" and "length x \<le> 4" and "x \<noteq> y"
  shows "crc32_Update crc (crc32_MakeTable poly) (pre @ x @ post) \<noteq>
    crc32_Update crc (crc32_MakeTable poly) (pre @ y @ post)"
proof
  let ?l = "crc32_update_loop (crc32_MakeTable poly)"
  let ?c = "?l (NOT crc) pre"
  assume "crc32_Update crc (crc32_MakeTable poly) (pre @ x @ post) =
    crc32_Update crc (crc32_MakeTable poly) (pre @ y @ post)"
  then have "?l (?l ?c x) post = ?l (?l ?c y) post"
    by (simp add: crc32_Update_def crc32_update_loop_append)
  then have "?l ?c x = ?l ?c y" using crc32_update_loop_inj assms(1) by blast
  then have "?c XOR le_get x = ?c XOR le_get y"
    using assms(1-3) crc32_update_loop_word [of x poly ?c] crc32_update_loop_word [of y poly ?c]
      crc_steps_inj [OF assms(1)] by metis
  then have "(le_get x :: u32) = le_get y" by (simp only: xor_cancel_left)
  then show False using le_get_inj [of x y, where 'w = 32] assms by simp
qed

lemma poly_top [simp]: "bit IEEE 31" "bit Castagnoli 31" "bit Koopman 31"
  by (simp_all add: IEEE_def Castagnoli_def Koopman_def)

lemma ChecksumCastagnoli_burst:
  "length x = length y \<Longrightarrow> length x \<le> 4 \<Longrightarrow> x \<noteq> y \<Longrightarrow>
     ChecksumCastagnoli (pre @ x @ post) \<noteq> ChecksumCastagnoli (pre @ y @ post)"
  unfolding ChecksumCastagnoli_def castagnoliTable_def by (rule crc32_Update_burst) simp_all

section \<open>The rolling window\<close>

definition Rolling_Pushes :: "bytes \<Rightarrow> Rolling \<Rightarrow> Rolling" where
  "Rolling_Pushes h r = fold (\<lambda>c r. snd (Rolling_Push c r)) h r"

text \<open>What the window holds after the bytes h were pushed.\<close>

definition rolling_inv :: "Table option \<Rightarrow> nat \<Rightarrow> bytes \<Rightarrow> Rolling \<Rightarrow> bool" where
  "rolling_inv tab n h r =
     (0 < n \<and> ro_size r = n \<and> length (ro_window r) = n \<and> ro_tab r = tab \<and> ro_pos r < n \<and>
      (if \<not> ro_filled r then ro_pos r = length h \<and> take (ro_pos r) (ro_window r) = h
       else n \<le> length h \<and>
         drop (ro_pos r) (ro_window r) @ take (ro_pos r) (ro_window r) = drop (length h - n) h))"

lemma rolling_inv_New:
  "0 < n \<Longrightarrow> rolling_inv (if tab = None then CastagnoliTable else tab) (nat n) [] (NewRolling n tab)"
  by (auto simp: rolling_inv_def NewRolling_def Let_def)

lemma drop_last_snoc:
  "n \<le> length h \<Longrightarrow> 0 < n \<Longrightarrow> drop (length (h @ [c]) - n) (h @ [c]) = tl (drop (length h - n) h) @ [c]"
  by (simp add: Suc_diff_le drop_Suc tl_drop)

lemma Rolling_Push_step:
  assumes "rolling_inv tab n h r"
  shows "rolling_inv tab n (h @ [c]) (snd (Rolling_Push c r))"
    and "fst (Rolling_Push c r) = Table_Checksum tab (drop (length (h @ [c]) - n) (h @ [c]))"
proof -
  let ?p = "ro_pos r" and ?w = "ro_window r"
  have inv: "0 < n" "ro_size r = n" "length ?w = n" "ro_tab r = tab" "?p < n"
    using assms by (auto simp: rolling_inv_def)
  have upd: "take (?p + 1) (?w[?p := c]) = take ?p ?w @ [c]" "drop (?p + 1) (?w[?p := c]) = drop (?p + 1) ?w"
    using inv by (simp_all add: take_Suc_conv_app_nth)
  have filled: "drop ((?p + 1) mod n) (?w[?p := c]) @ take ((?p + 1) mod n) (?w[?p := c]) =
      tl (drop ?p ?w @ take ?p ?w) @ [c]"
  proof (cases "?p + 1 < n")
    case True
    then have "drop ?p ?w \<noteq> []" using inv by simp
    then have "tl (drop ?p ?w @ take ?p ?w) = drop (?p + 1) ?w @ take ?p ?w"
      by (simp add: drop_Suc tl_drop)
    then show ?thesis using True upd by simp
  next
    case False
    then have p: "?p + 1 = n" using inv by simp
    then have "take (?p + 1) (?w[?p := c]) = ?w[?p := c]" using inv by simp
    moreover have "length (drop ?p ?w) = 1" using p inv by simp
    then have "tl (drop ?p ?w @ take ?p ?w) = take ?p ?w"
      by (cases "drop ?p ?w") auto
    ultimately show ?thesis using p upd by simp
  qed
  have "rolling_inv tab n (h @ [c]) (snd (Rolling_Push c r)) \<and>
      fst (Rolling_Push c r) = Table_Checksum tab (drop (length (h @ [c]) - n) (h @ [c]))"
  proof (cases "ro_filled r")
    case True
    then have h: "n \<le> length h" "drop ?p ?w @ take ?p ?w = drop (length h - n) h"
      using assms by (auto simp: rolling_inv_def)
    note w = filled [unfolded h(2), folded drop_last_snoc [OF h(1) inv(1)]]
    show ?thesis
      using True inv h(1) w by (auto simp: Rolling_Push_def rolling_inv_def Let_def)
  next
    case False
    then have h: "?p = length h" "take ?p ?w = h" using assms by (auto simp: rolling_inv_def)
    show ?thesis
    proof (cases "?p + 1 < n")
      case True
      then show ?thesis using False inv h upd
        by (simp add: Rolling_Push_def rolling_inv_def Let_def)
    next
      case False': False
      then have p: "?p + 1 = n" using inv by simp
      have "?w[?p := c] = take (?p + 1) (?w[?p := c])" using p inv by simp
      then have "?w[?p := c] = h @ [c]" using upd(1) h by metis
      then show ?thesis using p h inv False
        by (simp add: Rolling_Push_def rolling_inv_def Let_def)
    qed
  qed
  then show "rolling_inv tab n (h @ [c]) (snd (Rolling_Push c r))"
    and "fst (Rolling_Push c r) = Table_Checksum tab (drop (length (h @ [c]) - n) (h @ [c]))"
    by simp_all
qed

lemma rolling_inv_Pushes:
  assumes "rolling_inv tab n h0 r"
  shows "rolling_inv tab n (h0 @ h) (Rolling_Pushes h r)"
  using assms
proof (induction h arbitrary: h0 r)
  case Nil
  then show ?case by (simp add: Rolling_Pushes_def)
next
  case (Cons c h)
  from Cons.IH [OF Rolling_Push_step(1) [OF Cons.prems]] show ?case
    by (simp add: Rolling_Pushes_def)
qed

text \<open>Each push returns the checksum of the last n bytes pushed, fewer at the start.\<close>

lemma Rolling_Push_checksum:
  assumes "0 < n"
  shows "fst (Rolling_Push c (Rolling_Pushes h (NewRolling n tab))) =
    Table_Checksum (if tab = None then CastagnoliTable else tab)
      (drop (length h + 1 - nat n) (h @ [c]))"
  using Rolling_Push_step(2) [OF rolling_inv_Pushes [OF rolling_inv_New [OF assms, of tab]]]
  by simp

section \<open>Properties\<close>

text \<open>C30: the frame checksum detects every change confined to four consecutive bytes of the type
  and payload, at any place in a frame of any length.\<close>

theorem frame_checksum_detects_bursts:
  assumes "typ # payload = pre @ x @ post" and "typ' # payload' = pre @ y @ post"
    and "length x = length y" and "length x \<le> 4" and "x \<noteq> y"
  shows "FrameChecksum typ payload \<noteq> FrameChecksum typ' payload'"
  unfolding FrameChecksum_eq assms(1,2) by (rule ChecksumCastagnoli_burst [OF assms(3-5)])

theorem frame_checksum_detects_bursts_witness:
  "FrameChecksum 1 [10, 20, 30] \<noteq> FrameChecksum 1 [10, 21, 99]"
  by (rule frame_checksum_detects_bursts [of _ _ "[1, 10]" "[20, 30]" "[]" _ _ "[21, 99]"]) simp_all

text \<open>C31: checksums are compositional: a digest fed a message in any pieces, and the multi-part
  checksum, give the checksum of the whole; a buffer passes the trailing check exactly when it is
  some data followed by that data's checksum; and masking is a bijection.\<close>

theorem checksum_of_pieces:
  "Digest_Sum32 (foldl (\<lambda>d p. snd (Digest_Write p d)) NewIEEE parts) = ChecksumIEEE (concat parts)
    \<and> MultiPartChecksum parts = ChecksumCastagnoli (concat parts)
    \<and> (CheckTrailingLE buf \<longleftrightarrow> (\<exists>data. buf = AppendChecksumLE data data))
    \<and> Unmask (Mask crc) = crc \<and> Mask (Unmask crc) = crc"
  unfolding Digest_Write_seq
  using MultiPartChecksum_concat [of parts] CheckTrailingLE_iff [of buf]
  by (simp add: Digest_Sum32_def NewIEEE_def Digest_New_def Let_def IEEETable_def
      Table_Update_def ChecksumIEEE_def)

text \<open>Each push into a rolling window of n bytes returns the checksum of the last n bytes
  pushed (of all of them while fewer than n were).\<close>

theorem rolling_checksum_window:
  assumes "0 < n"
  shows "fst (Rolling_Push c (Rolling_Pushes h (NewRolling n tab))) =
    Table_Checksum (if tab = None then CastagnoliTable else tab) (drop (length h + 1 - nat n) (h @ [c]))"
  by (rule Rolling_Push_checksum [OF assms])

theorem rolling_checksum_window_witness:
  "fst (Rolling_Push 3 (Rolling_Pushes [1, 2] (NewRolling 2 None))) = ChecksumCastagnoli [2, 3]"
  using rolling_checksum_window [of 2 3 "[1, 2]" None] by simp

end
