(* ===== verification/Bloomx.thy ===== *)
theory Bloomx imports Complex_Main Crc32x Binary begin

text \<open>
  \<^verbatim>\<open>internal/bloomx\<close>: Bloom filters with double hashing.  The sizes of a filter come from
  floating-point expressions (a logarithm and quotients), which are parameters here; everything
  else is the code's.  A nil filter is \<^verbatim>\<open>None\<close>, an index outside
  the bit array is the error \<^verbatim>\<open>Panic\<close>.
\<close>

unbundle bit_operations_syntax

section \<open>Filters\<close>

definition bloom_magic :: u32 where [go_defs]: "bloom_magic = 0xB100F11E"
definition bloom_version :: byte where [go_defs]: "bloom_version = 1"

record Filter =
  fl_bits :: bytes
  fl_m :: u64
  fl_k :: u32
  fl_nAdded :: u64

text \<open>
  The two floating-point expressions, as the machine rounds them; the conversions of the results
  to integers are exact while these are in range.
\<close>

record sizing =
  sz_bits :: "int \<Rightarrow> real \<Rightarrow> real"
  sz_hashes :: "u64 \<Rightarrow> int \<Rightarrow> real"

definition OptimalBits :: "sizing \<Rightarrow> int \<Rightarrow> real \<Rightarrow> u64" where
  "OptimalBits sz n fp =
     (let m = sz_bits sz n fp; m = (if m < 64 then 64 else m) in word_of_int \<lceil>m\<rceil>)"

definition OptimalHashFuncs :: "sizing \<Rightarrow> u64 \<Rightarrow> int \<Rightarrow> u32" where
  "OptimalHashFuncs sz m n =
     (if n \<le> 0 then 1
      else
        (let k = sz_hashes sz m n; k = (if k < 1 then 1 else k); k = (if k > 30 then 30 else k)
         in word_of_int \<lfloor>k + 1 / 2\<rfloor>))"

definition Filter_New :: "sizing \<Rightarrow> int \<Rightarrow> real \<Rightarrow> Filter" where
  "Filter_New sz n fp =
     (let n = (if n \<le> 0 then 1 else n);
          fp = (if fp \<le> 0 \<or> 1 \<le> fp then 1 / 100 else fp);
          m = OptimalBits sz n fp;
          k = OptimalHashFuncs sz m n;
          nbytes = (m + 7) div 8
      in \<lparr>fl_bits = replicate (unat nbytes) 0, fl_m = m, fl_k = k, fl_nAdded = 0\<rparr>)"

definition NewWithParams :: "u64 \<Rightarrow> u32 \<Rightarrow> Filter" where
  "NewWithParams mBits k =
     (let mBits = (if mBits = 0 then 64 else mBits);
          k = (if k = 0 then 4 else k);
          nbytes = (mBits + 7) div 8
      in \<lparr>fl_bits = replicate (unat nbytes) 0, fl_m = mBits, fl_k = k, fl_nAdded = 0\<rparr>)"

definition mix64 :: "u64 \<Rightarrow> u64" where
  "mix64 z =
     (let z = (z XOR drop_bit 30 z) * 0xbf58476d1ce4e5b9;
          z = (z XOR drop_bit 27 z) * 0x94d049bb133111eb
      in z XOR drop_bit 31 z)"

definition hashPair :: "bytes \<Rightarrow> u64 \<times> u64" where
  "hashPair key =
     (let h1 = ucast (ChecksumCastagnoli key);
          h2 = ucast (ChecksumIEEE key);
          h2 = (if h2 = 0 then 0x9e3779b97f4a7c15 else h2);
          h1 = mix64 (h1 XOR of_nat (length key) * 0x9e3779b97f4a7c15);
          h2 = mix64 (h2 XOR h1)
      in (h1, h2))"

definition setBit :: "u64 \<Rightarrow> bytes \<Rightarrow> error + bytes" where
  "setBit i bits =
     (let j = unat (i div 8)
      in if j < length bits
         then Inr (bits[j := bits ! j OR push_bit (unat (i mod 8)) 1])
         else Inl Panic)"

definition getBit :: "u64 \<Rightarrow> bytes \<Rightarrow> error + bool" where
  "getBit i bits =
     (let j = unat (i div 8)
      in if j < length bits
         then Inr (bits ! j AND push_bit (unat (i mod 8)) 1 \<noteq> 0)
         else Inl Panic)"

text \<open>The loops over the hash functions, \<^verbatim>\<open>left\<close> of them from the i-th on.\<close>

fun Filter_Add_loop :: "nat \<Rightarrow> nat \<Rightarrow> u64 \<Rightarrow> u64 \<Rightarrow> u64 \<Rightarrow> bytes \<Rightarrow> error + bytes" where
  "Filter_Add_loop 0 i h1 h2 m bits = Inr bits"
| "Filter_Add_loop (Suc left) i h1 h2 m bits =
     (let idx = (h1 + of_nat i * h2) mod m
      in case setBit idx bits of
           Inl e \<Rightarrow> Inl e
         | Inr bits \<Rightarrow> Filter_Add_loop left (i + 1) h1 h2 m bits)"

definition Filter_Add :: "bytes \<Rightarrow> Filter \<Rightarrow> error + Filter" where
  "Filter_Add key f =
     (if fl_m f = 0 then Inr f
      else
        (case hashPair key of (h1, h2) \<Rightarrow>
           case Filter_Add_loop (unat (fl_k f)) 0 h1 h2 (fl_m f) (fl_bits f) of
             Inl e \<Rightarrow> Inl e
           | Inr bits \<Rightarrow> Inr (f\<lparr>fl_bits := bits, fl_nAdded := fl_nAdded f + 1\<rparr>)))"

fun MayContain_loop :: "nat \<Rightarrow> nat \<Rightarrow> u64 \<Rightarrow> u64 \<Rightarrow> u64 \<Rightarrow> bytes \<Rightarrow> error + bool" where
  "MayContain_loop 0 i h1 h2 m bits = Inr True"
| "MayContain_loop (Suc left) i h1 h2 m bits =
     (let idx = (h1 + of_nat i * h2) mod m
      in case getBit idx bits of
           Inl e \<Rightarrow> Inl e
         | Inr b \<Rightarrow> if \<not> b then Inr False else MayContain_loop left (i + 1) h1 h2 m bits)"

definition Filter_MayContain :: "bytes \<Rightarrow> Filter option \<Rightarrow> error + bool" where
  "Filter_MayContain key fo =
     (case fo of
        None \<Rightarrow> Inr True
      | Some f \<Rightarrow>
          if fl_m f = 0 then Inr True
          else (case hashPair key of (h1, h2) \<Rightarrow>
                  MayContain_loop (unat (fl_k f)) 0 h1 h2 (fl_m f) (fl_bits f)))"

definition Filter_Reset :: "Filter \<Rightarrow> Filter" where
  "Filter_Reset f = f\<lparr>fl_bits := map (\<lambda>_. 0) (fl_bits f), fl_nAdded := 0\<rparr>"

definition NumBits :: "Filter \<Rightarrow> u64" where "NumBits f = fl_m f"
definition NumHashes :: "Filter \<Rightarrow> u32" where "NumHashes f = fl_k f"
definition NumAdded :: "Filter \<Rightarrow> u64" where "NumAdded f = fl_nAdded f"
definition BitBytes :: "Filter \<Rightarrow> nat" where "BitBytes f = length (fl_bits f)"

function popcount :: "byte \<Rightarrow> nat" where
  "popcount x = (if x \<noteq> 0 then unat (x AND 1) + popcount (drop_bit 1 x) else 0)"
  by pat_completeness auto
termination
  by (relation "measure unat") (auto simp: drop_bit_eq_div unat_div_distrib unat_gt_0)

declare popcount.simps [simp del]

definition Filter_MarshalBinary :: "Filter option \<Rightarrow> error + bytes" where
  "Filter_MarshalBinary fo =
     (case fo of
        None \<Rightarrow> Inl bloomx_ErrInvalid
      | Some f \<Rightarrow>
          Inr (le_put 4 bloom_magic @ [bloom_version] @ le_put 8 (fl_m f) @ le_put 4 (fl_k f) @
            le_put 8 (fl_nAdded f) @ fl_bits f))"

definition Filter_UnmarshalBinary :: "bytes \<Rightarrow> error + Filter" where
  "Filter_UnmarshalBinary data =
     (if length data < 25 then Inl bloomx_ErrCorrupt
      else if le_get (take 4 data) \<noteq> bloom_magic then Inl bloomx_ErrCorrupt
      else if data ! 4 \<noteq> bloom_version then Inl bloomx_ErrCorrupt
      else
        (let m = le_get (take 8 (drop 5 data));
             k = le_get (take 4 (drop 13 data));
             nAdded = le_get (take 8 (drop 17 data));
             need = unat ((m + 7) div 8)
         in if length data < 25 + need then Inl bloomx_ErrCorrupt
            else Inr \<lparr>fl_bits = take need (drop 25 data), fl_m = m, fl_k = k, fl_nAdded = nAdded\<rparr>))"

definition Filter_Clone :: "Filter option \<Rightarrow> Filter option" where
  "Filter_Clone fo = (case fo of None \<Rightarrow> None | Some f \<Rightarrow> Some f)"

definition Filter_Merge :: "Filter option \<Rightarrow> Filter \<Rightarrow> error option \<times> Filter" where
  "Filter_Merge other f =
     (case other of
        None \<Rightarrow> (None, f)
      | Some g \<Rightarrow>
          if fl_m f \<noteq> fl_m g \<or> fl_k f \<noteq> fl_k g \<or> length (fl_bits f) \<noteq> length (fl_bits g)
          then (Some bloomx_ErrInvalid, f)
          else (None, f\<lparr>fl_bits := map2 (OR) (fl_bits f) (fl_bits g),
                        fl_nAdded := fl_nAdded f + fl_nAdded g\<rparr>))"

section \<open>The builder\<close>

record Builder =
  bl_keys :: "bytes list"
  bl_fp :: real

definition NewBuilder :: "real \<Rightarrow> Builder" where
  "NewBuilder fp = \<lparr>bl_keys = [], bl_fp = (if fp \<le> 0 \<or> 1 \<le> fp then 1 / 100 else fp)\<rparr>"

definition Builder_Add :: "bytes \<Rightarrow> Builder \<Rightarrow> Builder" where
  "Builder_Add key b = b\<lparr>bl_keys := bl_keys b @ [key]\<rparr>"

definition Builder_Len :: "Builder \<Rightarrow> nat" where "Builder_Len b = length (bl_keys b)"

fun Build_loop :: "bytes list \<Rightarrow> Filter \<Rightarrow> error + Filter" where
  "Build_loop [] f = Inr f"
| "Build_loop (k # ks) f = (case Filter_Add k f of Inl e \<Rightarrow> Inl e | Inr f \<Rightarrow> Build_loop ks f)"

definition Builder_Build :: "sizing \<Rightarrow> Builder \<Rightarrow> error + Filter" where
  "Builder_Build sz b = Build_loop (bl_keys b) (Filter_New sz (int (length (bl_keys b))) (bl_fp b))"

definition Builder_Reset :: "Builder \<Rightarrow> Builder" where
  "Builder_Reset b = b\<lparr>bl_keys := []\<rparr>"

section \<open>Bits\<close>

definition bit_at :: "bytes \<Rightarrow> u64 \<Rightarrow> bool" where
  "bit_at bits i = bit (bits ! unat (i div 8)) (unat (i mod 8))"

lemma mod8_less: "unat ((i :: u64) mod 8) < 8"
  by (simp add: unat_mod_distrib)

lemma getBit_eq: "unat (i div 8) < length bits \<Longrightarrow> getBit i bits = Inr (bit_at bits i)"
  by (simp only: getBit_def Let_def if_True bit_iff_and_push_bit_not_eq_0 bit_at_def)

lemma setBit_spec:
  assumes "unat (i div 8) < length bits"
  shows "\<exists>bits'. setBit i bits = Inr bits' \<and> length bits' = length bits
    \<and> (\<forall>j. unat (j div 8) < length bits \<longrightarrow> bit_at bits' j = (bit_at bits j \<or> j = i))"
proof -
  let ?b = "bits[unat (i div 8) := bits ! unat (i div 8) OR push_bit (unat (i mod 8)) 1]"
  have "bit_at ?b j = (bit_at bits j \<or> j = i)" if "unat (j div 8) < length bits" for j
  proof (cases "j div 8 = i div 8")
    case True
    have "j = i \<longleftrightarrow> j mod 8 = i mod 8" using True by (metis div_mult_mod_eq)
    also have "\<dots> \<longleftrightarrow> unat (j mod 8) = unat (i mod 8)" by (simp only: word_unat_eq_iff)
    finally have e: "j = i \<longleftrightarrow> unat (j mod 8) = unat (i mod 8)" .
    have "bit (push_bit (unat (i mod 8)) 1 :: byte) (unat (j mod 8)) = (j = i)"
      unfolding e using mod8_less [of j] by (auto simp only: bit_push_bit_iff bit_1_iff) simp
    then show ?thesis using True assms by (simp only: bit_at_def nth_list_update_eq bit_or_iff)
  next
    case False
    then have "unat (i div 8) \<noteq> unat (j div 8)" by (simp only: word_unat_eq_iff [symmetric])
    with False show ?thesis by (auto simp: bit_at_def)
  qed
  then show ?thesis using assms by (simp add: setBit_def Let_def)
qed

section \<open>No false negatives\<close>

text \<open>
  A well-formed filter has a byte for every bit position.  The size is at most
  \<^verbatim>\<open>2 ^ 64 - 8\<close> bits, so that rounding it up to bytes does not wrap.
\<close>

definition filter_ok :: "Filter \<Rightarrow> bool" where
  "filter_ok f = (unat (fl_m f) + 7 < 2 ^ 64 \<and> length (fl_bits f) = unat ((fl_m f + 7) div 8))"

definition probe :: "u64 \<Rightarrow> u64 \<Rightarrow> u64 \<Rightarrow> nat \<Rightarrow> u64" where
  "probe h1 h2 m i = (h1 + of_nat i * h2) mod m"

lemma bytes_for_bits:
  assumes "unat m + 7 < 2 ^ 64" and "i < m"
  shows "unat (i div 8) < unat ((m + 7) div (8 :: u64))"
proof -
  have "unat (m + 7) = unat m + 7" using assms(1) by (simp add: unat_word_ariths)
  moreover have "unat i < unat m" using assms(2) by (simp add: word_less_nat_alt)
  ultimately show ?thesis by (simp add: unat_div_distrib)
qed

lemma probe_in_range:
  assumes "filter_ok f" and "fl_m f \<noteq> 0"
  shows "unat (probe h1 h2 (fl_m f) i div 8) < length (fl_bits f)"
proof -
  have "probe h1 h2 (fl_m f) i < fl_m f"
    using assms(2) by (simp add: probe_def word_mod_less_divisor word_neq_0_conv)
  with assms(1) bytes_for_bits show ?thesis by (simp add: filter_ok_def)
qed

lemma ex_range_Suc:
  "(\<exists>n. i \<le> n \<and> n < i + Suc l \<and> P n) \<longleftrightarrow> P i \<or> (\<exists>n. i + 1 \<le> n \<and> n < i + 1 + l \<and> P n)"
proof
  assume "\<exists>n. i \<le> n \<and> n < i + Suc l \<and> P n"
  then obtain n where "i \<le> n" "n < i + Suc l" "P n" by blast
  then show "P i \<or> (\<exists>n. i + 1 \<le> n \<and> n < i + 1 + l \<and> P n)" by (cases "n = i") auto
next
  assume "P i \<or> (\<exists>n. i + 1 \<le> n \<and> n < i + 1 + l \<and> P n)"
  then show "\<exists>n. i \<le> n \<and> n < i + Suc l \<and> P n"
  proof
    assume "P i"
    then show ?thesis by (intro exI [of _ i]) simp
  next
    assume "\<exists>n. i + 1 \<le> n \<and> n < i + 1 + l \<and> P n"
    then obtain n where "i + 1 \<le> n" "n < i + 1 + l" "P n" by blast
    then show ?thesis by (intro exI [of _ n]) simp
  qed
qed

lemma all_range_Suc:
  "(\<forall>n. i \<le> n \<and> n < i + Suc l \<longrightarrow> P n) \<longleftrightarrow> P i \<and> (\<forall>n. i + 1 \<le> n \<and> n < i + 1 + l \<longrightarrow> P n)"
  using ex_range_Suc [of i l "\<lambda>n. \<not> P n"] by blast

lemma Add_loop_spec:
  assumes "\<forall>i. unat (probe h1 h2 m i div 8) < length bits"
  shows "\<exists>bits'. Filter_Add_loop left i h1 h2 m bits = Inr bits' \<and> length bits' = length bits
    \<and> (\<forall>j. unat (j div 8) < length bits \<longrightarrow>
        bit_at bits' j = (bit_at bits j \<or> (\<exists>n. i \<le> n \<and> n < i + left \<and> j = probe h1 h2 m n)))"
  using assms
proof (induction left arbitrary: i bits)
  case (Suc left)
  from setBit_spec [of "probe h1 h2 m i" bits] Suc.prems obtain b1 where
    b1: "setBit (probe h1 h2 m i) bits = Inr b1" "length b1 = length bits"
    "\<forall>j. unat (j div 8) < length bits \<longrightarrow> bit_at b1 j = (bit_at bits j \<or> j = probe h1 h2 m i)" by blast
  from Suc.IH [of b1 "i + 1"] Suc.prems b1(2) obtain b2 where
    b2: "Filter_Add_loop left (i + 1) h1 h2 m b1 = Inr b2" "length b2 = length bits"
    "\<forall>j. unat (j div 8) < length bits \<longrightarrow>
      bit_at b2 j = (bit_at b1 j \<or> (\<exists>n. i + 1 \<le> n \<and> n < i + 1 + left \<and> j = probe h1 h2 m n))" by auto
  have "\<forall>j. unat (j div 8) < length bits \<longrightarrow>
      bit_at b2 j = (bit_at bits j \<or> (\<exists>n. i \<le> n \<and> n < i + Suc left \<and> j = probe h1 h2 m n))"
    unfolding ex_range_Suc using b1(3) b2(3) by blast
  with b1(1) b2(1,2) show ?case by (auto simp: Let_def probe_def)
qed auto

lemma MayContain_loop_spec:
  assumes "\<forall>i. unat (probe h1 h2 m i div 8) < length bits"
  shows "MayContain_loop left i h1 h2 m bits = Inr (\<forall>n. i \<le> n \<and> n < i + left \<longrightarrow> bit_at bits (probe h1 h2 m n))"
  using assms
proof (induction left arbitrary: i)
  case (Suc left)
  have g: "getBit (probe h1 h2 m i) bits = Inr (bit_at bits (probe h1 h2 m i))"
    using Suc.prems by (simp add: getBit_eq)
  show ?case
    using Suc.IH [of "i + 1"] Suc.prems g
    unfolding MayContain_loop.simps probe_def [symmetric] Let_def all_range_Suc by simp
qed auto

text \<open>The positions of a key, and what is in a filter.\<close>

definition has_key :: "Filter \<Rightarrow> bytes \<Rightarrow> bool" where
  "has_key f key = (fl_m f \<noteq> 0 \<longrightarrow>
     (\<forall>i<unat (fl_k f). bit_at (fl_bits f) (probe (fst (hashPair key)) (snd (hashPair key)) (fl_m f) i)))"

lemma MayContain_eq: "filter_ok f \<Longrightarrow> Filter_MayContain key (Some f) = Inr (has_key f key)"
  using probe_in_range [of f] MayContain_loop_spec [of _ _ "fl_m f" "fl_bits f" "unat (fl_k f)" 0]
  by (auto simp: Filter_MayContain_def has_key_def split: prod.splits)

lemma Filter_Add_spec:
  assumes "filter_ok f"
  shows "\<exists>f'. Filter_Add key f = Inr f' \<and> filter_ok f' \<and> has_key f' key
    \<and> (\<forall>k. has_key f k \<longrightarrow> has_key f' k) \<and> fl_m f' = fl_m f \<and> fl_k f' = fl_k f"
proof (cases "fl_m f = 0")
  case True
  with assms show ?thesis by (auto simp: Filter_Add_def has_key_def)
next
  case False
  obtain h1 h2 where h: "hashPair key = (h1, h2)" by fastforce
  have rng: "\<forall>i. unat (probe h1 h2 (fl_m f) i div 8) < length (fl_bits f)" for h1 h2
    using probe_in_range [OF assms False] by blast
  from Add_loop_spec [OF rng [of h1 h2], of "unat (fl_k f)" 0] obtain bits where
    b: "Filter_Add_loop (unat (fl_k f)) 0 h1 h2 (fl_m f) (fl_bits f) = Inr bits" "length bits = length (fl_bits f)"
    "\<forall>j. unat (j div 8) < length (fl_bits f) \<longrightarrow> bit_at bits j = (bit_at (fl_bits f) j \<or>
      (\<exists>n. 0 \<le> n \<and> n < 0 + unat (fl_k f) \<and> j = probe h1 h2 (fl_m f) n))" by blast
  have "bit_at bits (probe h1 h2 (fl_m f) i)" if "i < unat (fl_k f)" for i
    using b(3) rng [of h1 h2] that by auto
  moreover have "bit_at bits (probe a c (fl_m f) i)" if "bit_at (fl_bits f) (probe a c (fl_m f) i)" for a c i
    using b(3) rng [of a c] that by auto
  ultimately show ?thesis
    using assms False h b(1,2) by (auto simp: Filter_Add_def has_key_def filter_ok_def)
qed

lemma Build_loop_spec:
  assumes "filter_ok f"
  shows "\<exists>f'. Build_loop ks f = Inr f' \<and> filter_ok f' \<and> (\<forall>k. has_key f k \<or> k \<in> set ks \<longrightarrow> has_key f' k)
    \<and> fl_m f' = fl_m f"
  using assms
proof (induction ks arbitrary: f)
  case (Cons k ks)
  from Filter_Add_spec [OF Cons.prems, of k] obtain f1 where
    f1: "Filter_Add k f = Inr f1" "filter_ok f1" "has_key f1 k" "\<forall>k. has_key f k \<longrightarrow> has_key f1 k"
      "fl_m f1 = fl_m f" by blast
  from Cons.IH [OF f1(2)] f1 show ?case by fastforce
qed simp

text \<open>The number of bits must leave room for the rounding to bytes.\<close>

lemma Filter_New_ok: "unat (NumBits (Filter_New sz n fp)) + 7 < 2 ^ 64 \<Longrightarrow> filter_ok (Filter_New sz n fp)"
  by (simp add: Filter_New_def Let_def filter_ok_def NumBits_def)

lemma Builder_Build_spec:
  assumes "unat (NumBits (Filter_New sz (int (length (bl_keys b))) (bl_fp b))) + 7 < 2 ^ 64"
  shows "\<exists>f. Builder_Build sz b = Inr f \<and> filter_ok f \<and> (\<forall>k\<in>set (bl_keys b). has_key f k)
    \<and> fl_m f = NumBits (Filter_New sz (int (length (bl_keys b))) (bl_fp b))"
  using Build_loop_spec [OF Filter_New_ok [OF assms], of "bl_keys b"]
  unfolding Builder_Build_def NumBits_def by fastforce

lemma Filter_New_NewBuilder: "Filter_New sz n (bl_fp (NewBuilder fp)) = Filter_New sz n fp"
  by (simp add: Filter_New_def NewBuilder_def Let_def)

section \<open>Serialization and merging\<close>

lemma Unmarshal_Marshal:
  assumes "filter_ok f"
  shows "\<exists>d. Filter_MarshalBinary (Some f) = Inr d \<and> Filter_UnmarshalBinary (d @ rest) = Inr f
    \<and> length d = 25 + length (fl_bits f)"
proof -
  let ?m = "le_put 4 bloom_magic" and ?M = "le_put 8 (fl_m f)" and ?k = "le_put 4 (fl_k f)"
    and ?n = "le_put 8 (fl_nAdded f)"
  let ?d = "?m @ [bloom_version] @ ?M @ ?k @ ?n @ fl_bits f"
  have "take 8 (drop 5 (?d @ rest)) = ?M" "take 4 (drop 13 (?d @ rest)) = ?k" "take 8 (drop 17 (?d @ rest)) = ?n"
    "drop 25 (?d @ rest) = fl_bits f @ rest" "take 4 (?d @ rest) = ?m" "(?d @ rest) ! 4 = bloom_version"
    by (simp_all add: drop_append take_append nth_append del: le_put.simps)
  then have "Filter_UnmarshalBinary (?d @ rest) = Inr f"
    using assms by (simp add: Filter_UnmarshalBinary_def Let_def filter_ok_def
        le32.get_put le64.get_put del: le_put.simps append_assoc)
  then show ?thesis by (simp add: Filter_MarshalBinary_def del: le_put.simps)
qed

lemma Filter_Merge_spec:
  assumes "filter_ok f" and "filter_ok g" and "fl_m f = fl_m g" and "fl_k f = fl_k g"
  shows "\<exists>f'. Filter_Merge (Some g) f = (None, f') \<and> filter_ok f'
    \<and> (\<forall>k. has_key f k \<or> has_key g k \<longrightarrow> has_key f' k)"
proof -
  let ?f = "f\<lparr>fl_bits := map2 (OR) (fl_bits f) (fl_bits g), fl_nAdded := fl_nAdded f + fl_nAdded g\<rparr>"
  have len: "length (fl_bits f) = length (fl_bits g)" using assms by (simp add: filter_ok_def)
  have bit: "bit_at (fl_bits ?f) j = (bit_at (fl_bits f) j \<or> bit_at (fl_bits g) j)"
    if "unat (j div 8) < length (fl_bits f)" for j
    using that len by (simp add: bit_at_def bit_or_iff)
  have "has_key ?f k" if "has_key f k \<or> has_key g k" for k
  proof (cases "fl_m f = 0")
    case False
    with that bit probe_in_range [OF assms(1) False] assms(3,4) show ?thesis by (auto simp: has_key_def)
  qed (simp add: has_key_def)
  moreover have "filter_ok ?f" using assms(1) len by (simp add: filter_ok_def)
  ultimately show ?thesis using assms(3,4) len by (simp add: Filter_Merge_def)
qed

section \<open>Properties\<close>

text \<open>C19: no false negatives: a filter built from any keys, serialized (with anything behind it) and
  read back, may contain each of the keys, whatever bit count below \<^verbatim>\<open>2 ^ 64 - 7\<close> and number of
  hashes the arithmetic picks; no lookup in it
  reaches outside the bit array.\<close>

theorem bloom_no_false_negatives:
  assumes "unat (NumBits (Filter_New sz (int (length ks)) fp)) + 7 < 2 ^ 64"
  shows "\<exists>f d. Builder_Build sz (fold Builder_Add ks (NewBuilder fp)) = Inr f
    \<and> Filter_MarshalBinary (Some f) = Inr d \<and> Filter_UnmarshalBinary (d @ rest) = Inr f
    \<and> (\<forall>k. \<exists>r. Filter_MayContain k (Some f) = Inr r)
    \<and> list_all (\<lambda>k. Filter_MayContain k (Some f) = Inr True) ks"
proof -
  have "bl_keys (fold Builder_Add ks b) = bl_keys b @ ks" for b
    by (induction ks arbitrary: b) (simp_all add: Builder_Add_def)
  then have keys: "bl_keys (fold Builder_Add ks (NewBuilder fp)) = ks" by (simp add: NewBuilder_def)
  have "bl_fp (fold Builder_Add ks b) = bl_fp b" for b
    by (induction ks arbitrary: b) (simp_all add: Builder_Add_def)
  with assms keys have "unat (NumBits (Filter_New sz (int (length (bl_keys (fold Builder_Add ks (NewBuilder fp)))))
      (bl_fp (fold Builder_Add ks (NewBuilder fp))))) + 7 < 2 ^ 64" by (simp add: Filter_New_NewBuilder)
  from Builder_Build_spec [OF this] keys obtain f where
    f: "Builder_Build sz (fold Builder_Add ks (NewBuilder fp)) = Inr f" "filter_ok f" "\<forall>k\<in>set ks. has_key f k"
    by auto
  from Unmarshal_Marshal [OF f(2), of rest] f MayContain_eq [OF f(2)] show ?thesis
    by (auto simp: list_all_iff)
qed

theorem bloom_no_false_negatives_witness:
  "\<exists>f. Builder_Build \<lparr>sz_bits = (\<lambda>_ _. 20), sz_hashes = (\<lambda>_ _. 7)\<rparr>
      (fold Builder_Add [[1], [2, 3]] (NewBuilder (1 / 100))) = Inr f
    \<and> Filter_MayContain [2, 3] (Some f) = Inr True"
  using bloom_no_false_negatives [of "\<lparr>sz_bits = (\<lambda>_ _. 20), sz_hashes = (\<lambda>_ _. 7)\<rparr>"
      "[[1], [2, 3]]" "1 / 100" "[]"] by (auto simp: Filter_New_def NumBits_def OptimalBits_def)

text \<open>Merging two filters of the same shape keeps every key of both; filters of another shape are
  refused and nothing changes.\<close>

theorem bloom_merge_union:
  assumes "filter_ok f" and "filter_ok g"
  shows "case Filter_Merge (Some g) f of
      (None, f') \<Rightarrow> fl_m f = fl_m g \<and> fl_k f = fl_k g \<and>
        (\<forall>k. Filter_MayContain k (Some f) = Inr True \<or> Filter_MayContain k (Some g) = Inr True \<longrightarrow>
          Filter_MayContain k (Some f') = Inr True)
    | (Some e, f') \<Rightarrow> e = bloomx_ErrInvalid \<and> f' = f \<and> (fl_m f \<noteq> fl_m g \<or> fl_k f \<noteq> fl_k g)"
proof (cases "fl_m f = fl_m g \<and> fl_k f = fl_k g")
  case True
  with Filter_Merge_spec [OF assms] obtain f' where
    "Filter_Merge (Some g) f = (None, f')" "filter_ok f'" "\<forall>k. has_key f k \<or> has_key g k \<longrightarrow> has_key f' k" by blast
  with True assms MayContain_eq show ?thesis by auto
next
  case False
  then show ?thesis by (auto simp: Filter_Merge_def)
qed

theorem bloom_merge_union_witness:
  "\<exists>f g f'. Filter_Add [1] (NewWithParams 64 4) = Inr f \<and> Filter_Add [2] (NewWithParams 64 4) = Inr g
    \<and> Filter_Merge (Some g) f = (None, f') \<and> Filter_MayContain [2] (Some f') = Inr True"
proof -
  have ok: "filter_ok (NewWithParams 64 4)" by (simp add: filter_ok_def NewWithParams_def)
  from Filter_Add_spec [OF ok, of "[1]"] obtain f where
    f: "Filter_Add [1] (NewWithParams 64 4) = Inr f" "filter_ok f" "fl_m f = 64" "fl_k f = 4"
    by (auto simp: NewWithParams_def)
  from Filter_Add_spec [OF ok, of "[2]"] obtain g where
    g: "Filter_Add [2] (NewWithParams 64 4) = Inr g" "filter_ok g" "has_key g [2]" "fl_m g = 64" "fl_k g = 4"
    by (auto simp: NewWithParams_def)
  from bloom_merge_union [OF f(2) g(2)] f g MayContain_eq [OF g(2)]
  show ?thesis by (cases "Filter_Merge (Some g) f"; cases "fst (Filter_Merge (Some g) f)") auto
qed


end
