(* ===== verification/Varintx.thy ===== *)
theory Varintx imports Prelude begin

text \<open>
  \<^verbatim>\<open>internal/varintx\<close>: unsigned base-128 varints, the ZigZag map for signed ones, the
  streaming reader and the writer.  A \<^verbatim>\<open>uint64\<close> is a \<^verbatim>\<open>64 word\<close>, an \<^verbatim>\<open>int64\<close> the same bits
  read as two's complement, and an error result is \<^verbatim>\<open>Inl\<close>.  The lemmas show that decoding
  inverts encoding in front of any suffix, that the sizes are exact, that the streaming reader
  computes what the slice decoder computes, and that ZigZag is a bijection.
\<close>

unbundle bit_operations_syntax

section \<open>Definitions\<close>

definition MaxUint64Len :: nat where [go_defs]: "MaxUint64Len = 10"
definition MaxUint32Len :: nat where [go_defs]: "MaxUint32Len = 5"

text \<open>The sizes: the loop shifts first and tests afterwards, so it runs at least once.\<close>

lemma unat_drop_bit7: "unat (drop_bit 7 x) = unat (x :: u64) div 128"
  by (simp add: unat_drop_bit_eq drop_bit_nat_def)

lemma drop_bit7_less: "0x80 \<le> (x :: u64) \<Longrightarrow> unat (drop_bit 7 x) < unat x"
  by (simp add: unat_drop_bit7 word_le_nat_alt)

function SizeUint64_loop :: "nat \<Rightarrow> u64 \<Rightarrow> nat" where
  "SizeUint64_loop n x =
     (let n = n + 1; x = drop_bit 7 x in if x = 0 then n else SizeUint64_loop n x)"
  by pat_completeness auto
termination
proof (relation "measure (\<lambda>(n, x). unat x)", goal_cases)
  case (2 n x xa xb)
  then have "unat xb = unat x div 128" by (simp add: unat_drop_bit7)
  moreover have "unat xb \<noteq> 0" using 2 by (simp add: unat_eq_0)
  ultimately show ?case by simp
qed simp

declare SizeUint64_loop.simps [simp del]

definition SizeUint64 :: "u64 \<Rightarrow> nat" where
  "SizeUint64 x = SizeUint64_loop 0 x"

definition SizeUint32 :: "u32 \<Rightarrow> nat" where
  "SizeUint32 x = SizeUint64 (ucast x)"

function EncodeUint64 :: "bytes \<Rightarrow> u64 \<Rightarrow> bytes" where
  "EncodeUint64 dst x =
     (if 0x80 \<le> x then EncodeUint64 (dst @ [ucast x OR 0x80]) (drop_bit 7 x)
      else dst @ [ucast x])"
  by pat_completeness auto
termination
  by (relation "measure (\<lambda>(dst, x). unat x)") (auto simp: drop_bit7_less)

declare EncodeUint64.simps [simp del]

definition EncodeUint32 :: "bytes \<Rightarrow> u32 \<Rightarrow> bytes" where
  "EncodeUint32 dst x = EncodeUint64 dst (ucast x)"

text \<open>
  \<^verbatim>\<open>PutUint64\<close> writes into the caller's slice: the result carries the slice as it is left.
  A store outside the slice is the run-time panic.
\<close>

function PutUint64_loop :: "bytes \<Rightarrow> nat \<Rightarrow> u64 \<Rightarrow> error + (bytes \<times> nat)" where
  "PutUint64_loop b i x =
     (if i \<ge> length b then Inl Panic
      else if 0x80 \<le> x then PutUint64_loop (b[i := ucast x OR 0x80]) (i + 1) (drop_bit 7 x)
      else Inr (b[i := ucast x], i + 1))"
  by pat_completeness auto
termination
  by (relation "measure (\<lambda>(b, i, x). unat x)") (auto simp: drop_bit7_less)

declare PutUint64_loop.simps [simp del]

definition PutUint64 :: "bytes \<Rightarrow> u64 \<Rightarrow> error + (bytes \<times> nat)" where
  "PutUint64 b x =
     (let need = SizeUint64 x
      in if length b < need then Inl varintx_ErrShortBuffer else PutUint64_loop b 0 x)"

definition PutUint32 :: "bytes \<Rightarrow> u32 \<Rightarrow> error + (bytes \<times> nat)" where
  "PutUint32 b x = PutUint64 b (ucast x)"

fun DecodeUint64_loop :: "nat \<Rightarrow> u64 \<Rightarrow> nat \<Rightarrow> bytes \<Rightarrow> error + (u64 \<times> nat)" where
  "DecodeUint64_loop i x s [] = Inl varintx_ErrTruncated"
| "DecodeUint64_loop i x s (c # cs) =
     (if i = MaxUint64Len then Inl varintx_ErrOverflow
      else if c < 0x80 then
        (if i = MaxUint64Len - 1 \<and> 1 < c then Inl varintx_ErrOverflow
         else Inr (x OR push_bit s (ucast c), i + 1))
      else DecodeUint64_loop (i + 1) (x OR push_bit s (ucast (c AND 0x7f))) (s + 7) cs)"

definition DecodeUint64 :: "bytes \<Rightarrow> error + (u64 \<times> nat)" where
  "DecodeUint64 b = DecodeUint64_loop 0 0 0 b"

definition DecodeUint32 :: "bytes \<Rightarrow> error + (u32 \<times> nat)" where
  "DecodeUint32 b =
     (case DecodeUint64 b of
        Inl e \<Rightarrow> Inl e
      | Inr (x, n) \<Rightarrow> if ucast (NOT (0 :: u32)) < x then Inl varintx_ErrOverflow else Inr (ucast x, n))"

definition ZigZagEncode :: "u64 \<Rightarrow> u64" where
  "ZigZagEncode x = push_bit 1 x XOR signed_drop_bit 63 x"

definition ZigZagDecode :: "u64 \<Rightarrow> u64" where
  "ZigZagDecode u = drop_bit 1 u XOR - (u AND 1)"

definition EncodeInt64 :: "bytes \<Rightarrow> u64 \<Rightarrow> bytes" where
  "EncodeInt64 dst x = EncodeUint64 dst (ZigZagEncode x)"

definition DecodeInt64 :: "bytes \<Rightarrow> error + (u64 \<times> nat)" where
  "DecodeInt64 b =
     (case DecodeUint64 b of Inl e \<Rightarrow> Inl e | Inr (u, n) \<Rightarrow> Inr (ZigZagDecode u, n))"

definition SizeInt64 :: "u64 \<Rightarrow> nat" where
  "SizeInt64 x = SizeUint64 (ZigZagEncode x)"

text \<open>
  The streaming reader over an \<^verbatim>\<open>io.ByteReader\<close>, whose \<^verbatim>\<open>ReadByte\<close> is a parameter.  The
  fuel counts the iterations the \<^verbatim>\<open>for i < MaxUint64Len\<close> loop has left.
\<close>

fun Reader_Uint64_loop ::
  "('s \<Rightarrow> (error + byte) \<times> 's) \<Rightarrow> nat \<Rightarrow> nat \<Rightarrow> u64 \<Rightarrow> nat \<Rightarrow> 's \<Rightarrow> (error + u64) \<times> 's" where
  "Reader_Uint64_loop readByte 0 i x s r = (Inl varintx_ErrOverflow, r)"
| "Reader_Uint64_loop readByte (Suc left) i x s r =
     (case readByte r of
        (Inl e, r') \<Rightarrow> (if i = 0 then Inl e else Inl varintx_ErrTruncated, r')
      | (Inr c, r') \<Rightarrow>
          if c < 0x80 then
            (if i = MaxUint64Len - 1 \<and> 1 < c then Inl varintx_ErrOverflow
             else Inr (x OR push_bit s (ucast c)), r')
          else Reader_Uint64_loop readByte left (i + 1)
                 (x OR push_bit s (ucast (c AND 0x7f))) (s + 7) r')"

definition Reader_Uint64 :: "('s \<Rightarrow> (error + byte) \<times> 's) \<Rightarrow> 's \<Rightarrow> (error + u64) \<times> 's" where
  "Reader_Uint64 readByte r = Reader_Uint64_loop readByte MaxUint64Len 0 0 0 r"

definition Reader_Int64 :: "('s \<Rightarrow> (error + byte) \<times> 's) \<Rightarrow> 's \<Rightarrow> (error + u64) \<times> 's" where
  "Reader_Int64 readByte r =
     (case Reader_Uint64 readByte r of
        (Inl e, r') \<Rightarrow> (Inl e, r')
      | (Inr u, r') \<Rightarrow> (Inr (ZigZagDecode u), r'))"

record Writer =
  wr_buf :: bytes

definition NewWriter :: Writer where "NewWriter = \<lparr>wr_buf = []\<rparr>"
definition Writer_Reset :: "Writer \<Rightarrow> Writer" where "Writer_Reset w = w\<lparr>wr_buf := []\<rparr>"
definition Writer_Bytes :: "Writer \<Rightarrow> bytes" where "Writer_Bytes w = wr_buf w"
definition Writer_Uint64 :: "u64 \<Rightarrow> Writer \<Rightarrow> Writer" where
  "Writer_Uint64 x w = w\<lparr>wr_buf := EncodeUint64 (wr_buf w) x\<rparr>"
definition Writer_Int64 :: "u64 \<Rightarrow> Writer \<Rightarrow> Writer" where
  "Writer_Int64 x w = w\<lparr>wr_buf := EncodeInt64 (wr_buf w) x\<rparr>"
definition Writer_Uint32 :: "u32 \<Rightarrow> Writer \<Rightarrow> Writer" where
  "Writer_Uint32 x w = w\<lparr>wr_buf := EncodeUint32 (wr_buf w) x\<rparr>"
definition Writer_Len :: "Writer \<Rightarrow> nat" where "Writer_Len w = length (wr_buf w)"

text \<open>
  The cursor versions return the offset beside the error, as the code does.
\<close>

definition ConsumeUint64 :: "bytes \<Rightarrow> int \<Rightarrow> (error + u64) \<times> int" where
  "ConsumeUint64 b off =
     (if off < 0 \<or> int (length b) < off then (Inl varintx_ErrShortBuffer, off)
      else case DecodeUint64 (drop (nat off) b) of
             Inl e \<Rightarrow> (Inl e, off)
           | Inr (v, n) \<Rightarrow> (Inr v, off + int n))"

definition ConsumeInt64 :: "bytes \<Rightarrow> int \<Rightarrow> (error + u64) \<times> int" where
  "ConsumeInt64 b off =
     (case ConsumeUint64 b off of
        (Inl e, _) \<Rightarrow> (Inl e, off)
      | (Inr u, noff) \<Rightarrow> (Inr (ZigZagDecode u), noff))"

definition EncodePair :: "bytes \<Rightarrow> u64 \<Rightarrow> u64 \<Rightarrow> bytes" where
  "EncodePair dst a b = EncodeUint64 (EncodeUint64 dst a) b"

definition DecodePair :: "bytes \<Rightarrow> error + (u64 \<times> u64 \<times> nat)" where
  "DecodePair buf =
     (case DecodeUint64 buf of
        Inl e \<Rightarrow> Inl e
      | Inr (a, n1) \<Rightarrow>
          (case DecodeUint64 (drop n1 buf) of
             Inl e \<Rightarrow> Inl e
           | Inr (b, n2) \<Rightarrow> Inr (a, b, n1 + n2)))"

fun Skip_loop :: "nat \<Rightarrow> bytes \<Rightarrow> error + nat" where
  "Skip_loop i [] = Inl varintx_ErrTruncated"
| "Skip_loop i (c # cs) =
     (if i \<ge> MaxUint64Len then Inl varintx_ErrOverflow
      else if c < 0x80 then Inr (i + 1)
      else Skip_loop (i + 1) cs)"

definition Skip :: "bytes \<Rightarrow> error + nat" where
  "Skip b = Skip_loop 0 b"

definition MustEncodeUint64 :: "u64 \<Rightarrow> bytes" where
  "MustEncodeUint64 x = EncodeUint64 [] x"

definition CompareEncoded :: "bytes \<Rightarrow> bytes \<Rightarrow> error + int" where
  "CompareEncoded a b =
     (case DecodeUint64 a of
        Inl e \<Rightarrow> Inl e
      | Inr (va, _) \<Rightarrow>
          (case DecodeUint64 b of
             Inl e \<Rightarrow> Inl e
           | Inr (vb, _) \<Rightarrow> Inr (if va < vb then -1 else if vb < va then 1 else 0)))"

section \<open>Sizes and the accumulator\<close>

lemma drop_bit7_eq_0_iff: "drop_bit 7 (x :: u64) = 0 \<longleftrightarrow> x < 0x80"
proof -
  have "drop_bit 7 x = 0 \<longleftrightarrow> unat x div 128 = 0"
    by (simp add: unat_eq_0 [symmetric] unat_drop_bit7 del: unat_eq_0)
  then show ?thesis by (simp add: word_less_nat_alt div_eq_0_iff)
qed

lemma SizeUint64_loop_acc: "SizeUint64_loop n x = n + SizeUint64_loop 0 x"
proof (induction "unat x" arbitrary: n x rule: less_induct)
  case less
  show ?case
  proof (cases "drop_bit 7 x = 0")
    case True
    then show ?thesis by (simp add: SizeUint64_loop.simps [of _ x] Let_def)
  next
    case False
    then have "unat (drop_bit 7 x) < unat x"
      by (simp add: drop_bit7_eq_0_iff drop_bit7_less)
    from less [OF this, of "n + 1"] less [OF this, of 1] False show ?thesis
      by (simp add: SizeUint64_loop.simps [of _ x] Let_def)
  qed
qed

lemma SizeUint64_rec:
  "SizeUint64 x = (if x < 0x80 then 1 else 1 + SizeUint64 (drop_bit 7 x))"
  using SizeUint64_loop_acc [of 1 "drop_bit 7 x"]
  by (simp add: SizeUint64_def SizeUint64_loop.simps [of 0 x] drop_bit7_eq_0_iff)

lemma EncodeUint64_acc: "EncodeUint64 dst x = dst @ EncodeUint64 [] x"
proof (induction "unat x" arbitrary: dst x rule: less_induct)
  case less
  show ?case
  proof (cases "0x80 \<le> x")
    case True
    from less [OF drop_bit7_less [OF True], of "dst @ [ucast x OR 0x80]"]
      less [OF drop_bit7_less [OF True], of "[ucast x OR 0x80]"] True
    show ?thesis by (simp add: EncodeUint64.simps [of _ x])
  next
    case False
    then show ?thesis by (simp add: EncodeUint64.simps [of _ x])
  qed
qed

text \<open>The encoding as a recursion on the value, without the destination slice.\<close>

lemma EncodeUint64_rec:
  "EncodeUint64 [] x = (if 0x80 \<le> x then (ucast x OR 0x80) # EncodeUint64 [] (drop_bit 7 x)
                        else [ucast x])"
  using EncodeUint64_acc [of "[ucast x OR 0x80]" "drop_bit 7 x"]
  by (simp add: EncodeUint64.simps [of "[]" x])

lemma Uint64_small:
  assumes "x < 0x80"
  shows "SizeUint64 x = 1" and "EncodeUint64 [] x = [ucast x]"
proof -
  show "SizeUint64 x = 1" using assms by (subst SizeUint64_rec) simp
  show "EncodeUint64 [] x = [ucast x]"
    using assms by (subst EncodeUint64_rec) (simp add: not_less [symmetric])
qed

lemma Uint64_big:
  assumes "0x80 \<le> x"
  shows "SizeUint64 x = 1 + SizeUint64 (drop_bit 7 x)"
    and "EncodeUint64 [] x = (ucast x OR 0x80) # EncodeUint64 [] (drop_bit 7 x)"
proof -
  show "SizeUint64 x = 1 + SizeUint64 (drop_bit 7 x)"
    using assms by (subst SizeUint64_rec) (simp add: not_less [symmetric])
  show "EncodeUint64 [] x = (ucast x OR 0x80) # EncodeUint64 [] (drop_bit 7 x)"
    using assms by (subst EncodeUint64_rec) simp
qed

lemma length_EncodeUint64 [simp]: "length (EncodeUint64 dst x) = length dst + SizeUint64 x"
proof (induction dst x rule: EncodeUint64.induct)
  case (1 dst x)
  then show ?case
    by (subst EncodeUint64.simps) (auto simp: SizeUint64_rec [of x] not_le)
qed

lemma SizeUint64_pos [simp]: "0 < SizeUint64 x"
  by (subst SizeUint64_rec) simp

lemma SizeUint64_bound: "n * 7 + 7 \<ge> k \<Longrightarrow> unat x < 2 ^ k \<Longrightarrow> SizeUint64 x \<le> n + 1"
proof (induction n arbitrary: x k)
  case 0
  then have "(2 :: nat) ^ k \<le> 2 ^ 7" by (intro power_increasing) auto
  with 0 have "unat x < 2 ^ 7" by linarith
  then show ?case by (subst SizeUint64_rec) (simp add: word_less_nat_alt)
next
  case (Suc n)
  show ?case
  proof (cases "x < 0x80")
    case True
    then show ?thesis by (subst SizeUint64_rec) simp
  next
    case False
    have "unat (drop_bit 7 x) < 2 ^ (k - 7)"
    proof (cases "7 \<le> k")
      case True
      then have "(2 :: nat) ^ k = 2 ^ (k - 7) * 128"
        using power_add [of "2 :: nat" "k - 7" 7] by simp
      then show ?thesis using Suc.prems(2)
        by (simp add: unat_drop_bit7 less_mult_imp_div_less)
    next
      case False
      then have "(2 :: nat) ^ k \<le> 2 ^ 7" by (intro power_increasing) auto
      then have "unat x div 128 = 0" using Suc.prems(2) by simp
      then show ?thesis using False by (simp add: unat_drop_bit7)
    qed
    then have "SizeUint64 (drop_bit 7 x) \<le> n + 1"
      using Suc.prems(1) by (intro Suc.IH [of "k - 7"]) auto
    then show ?thesis using False by (subst SizeUint64_rec) simp
  qed
qed

lemma SizeUint64_le_10: "SizeUint64 x \<le> MaxUint64Len"
  using SizeUint64_bound [of 64 9 x] unsigned_less [of x]
  by (simp add: MaxUint64Len_def)

lemma unat_ucast_u32 [simp]: "unat (ucast (x :: u32) :: u64) = unat x"
proof -
  have "unat x < 2 ^ 64" using unsigned_less [of x, where ?'a = nat] by simp
  then show ?thesis by (simp add: unsigned_ucast_eq take_bit_nat_eq_self)
qed

lemma SizeUint32_le_5: "SizeUint32 x \<le> MaxUint32Len"
  using SizeUint64_bound [of 32 4 "ucast x"] unsigned_less [of x, where ?'a = nat]
  by (simp add: MaxUint32Len_def SizeUint32_def)

section \<open>Decoding inverts encoding\<close>

lemma word_127_mask: "(0x7f :: 'a :: len word) = mask 7"
  by (simp add: mask_eq_exp_minus_1)

lemma word_128_exp: "(0x80 :: 'a :: len word) = 2 ^ 7"
  by simp

lemma ucast_low7: "ucast ((ucast x OR 0x80 :: byte) AND 0x7f) = (x AND 0x7f :: u64)"
  unfolding word_127_mask word_128_exp
  by (rule bit_word_eqI) (auto simp: bit_simps bit_exp_iff simp del: power_numeral)

lemma low7_small: "(x :: u64) < 0x80 \<Longrightarrow> ucast (ucast x :: byte) = x"
proof -
  assume "x < 0x80"
  then have "unat x < 2 ^ 8" by (simp add: word_less_nat_alt)
  then have "take_bit 8 (unat x) = unat x" by (rule take_bit_nat_eq_self)
  then show ?thesis by (simp add: word_unat_eq_iff unsigned_ucast_eq unsigned_take_bit_eq)
qed

lemma cont_byte: "0x80 \<le> (b OR 0x80 :: byte)"
  using le_word_or2 [of "0x80 :: byte" b] by (simp add: ac_simps)

lemma split_low7: "(x AND 0x7f) OR push_bit 7 (drop_bit 7 x) = (x :: u64)"
  unfolding word_127_mask
proof (rule bit_word_eqI)
  fix n
  show "bit (x AND mask 7 OR push_bit 7 (drop_bit 7 x)) n = bit x n" if "n < LENGTH(64)"
    using that by (cases "n < 7") (auto simp: bit_simps)
qed

lemma split_low7_shift:
  "push_bit s (x AND 0x7f) OR push_bit (s + 7) (drop_bit 7 x) = push_bit s (x :: u64)"
  using arg_cong [OF split_low7 [of x], of "push_bit s"] by (simp add: push_bit_or ac_simps)

lemma DecodeUint64_loop_Encode:
  assumes "i \<le> 9" and "unat x < 2 ^ (64 - 7 * i)"
  shows "DecodeUint64_loop i acc (7 * i) (EncodeUint64 [] x @ rest) =
    Inr (acc OR push_bit (7 * i) x, i + SizeUint64 x)"
  using assms
proof (induction "unat x" arbitrary: i acc x rule: less_induct)
  case less
  show ?case
  proof (cases "0x80 \<le> x")
    case False
    then have x: "x < 0x80" by simp
    have "\<not> (i = 9 \<and> 1 < (ucast x :: byte))"
    proof
      assume "i = 9 \<and> 1 < (ucast x :: byte)"
      then have "unat x < 2" "1 < unat (ucast x :: byte)"
        using less.prems(2) by (simp_all add: word_less_nat_alt)
      then show False by (simp add: unsigned_ucast_eq take_bit_nat_def)
    qed
    moreover have "(ucast x :: byte) < 0x80"
    proof -
      have "unat (ucast x :: byte) \<le> unat x" by (simp add: unsigned_ucast_eq)
      then show ?thesis using False by (simp add: word_less_nat_alt word_le_nat_alt)
    qed
    ultimately show ?thesis
      using x False less.prems(1) EncodeUint64_rec [of x] SizeUint64_rec [of x]
      by (simp add: MaxUint64Len_def low7_small)
  next
    case True
    let ?y = "drop_bit 7 x"
    have i: "i < 9"
    proof (rule ccontr)
      assume "\<not> i < 9"
      with less.prems have "unat x < 2 ^ 1" by (cases "i = 9") auto
      with True show False by (simp add: word_le_nat_alt)
    qed
    have "unat ?y < 2 ^ (64 - 7 * (i + 1))"
    proof -
      have "64 - 7 * i = (64 - 7 * (i + 1)) + 7" using i by simp
      then have "(2 :: nat) ^ (64 - 7 * i) = 2 ^ (64 - 7 * (i + 1)) * 2 ^ 7"
        by (simp only: power_add)
      then have "unat x < 2 ^ (64 - 7 * (i + 1)) * 128" using less.prems(2) by simp
      then show ?thesis unfolding unat_drop_bit7 by (rule less_mult_imp_div_less)
    qed
    with less.hyps [OF drop_bit7_less [OF True], of "i + 1"
        "acc OR push_bit (7 * i) (ucast ((ucast x OR 0x80 :: byte) AND 0x7f))"] i
    have "DecodeUint64_loop i acc (7 * i) ((ucast x OR 0x80) # EncodeUint64 [] ?y @ rest) =
      Inr (acc OR push_bit (7 * i) (x AND 0x7f) OR push_bit (7 * i + 7) ?y, i + 1 + SizeUint64 ?y)"
      using cont_byte [of "ucast x", folded not_less]
      by (simp add: MaxUint64Len_def ucast_low7 add.commute or.assoc)
    then show ?thesis
      by (simp only: Uint64_big [OF True] or.assoc split_low7_shift append_Cons) simp
  qed
qed

lemma DecodeUint64_EncodeUint64 [simp]:
  "DecodeUint64 (EncodeUint64 [] x @ rest) = Inr (x, SizeUint64 x)"
  using DecodeUint64_loop_Encode [of 0 x 0 rest] unsigned_less [of x, where ?'a = nat]
  by (simp add: DecodeUint64_def)

lemma DecodeUint64_EncodeUint64_nil [simp]:
  "DecodeUint64 (EncodeUint64 [] x) = Inr (x, SizeUint64 x)"
  using DecodeUint64_EncodeUint64 [of x "[]"] by simp

interpretation vint: prefix_codec "EncodeUint64 []" DecodeUint64
  by unfold_locales simp

section \<open>Bounds of the decoder, Skip\<close>

lemma DecodeUint64_loop_bound:
  "DecodeUint64_loop i x s b = Inr (v, n) \<Longrightarrow> i < n \<and> n \<le> i + length b \<and> (i \<le> 10 \<longrightarrow> n \<le> 10)"
proof (induction i x s b rule: DecodeUint64_loop.induct)
  case (1 i x s)
  then show ?case by simp
next
  case (2 i x s c cs)
  then show ?case
    by (auto simp: MaxUint64Len_def split: if_splits)
qed

lemma DecodeUint64_bound:
  "DecodeUint64 b = Inr (v, n) \<Longrightarrow> 0 < n \<and> n \<le> length b \<and> n \<le> 10"
  using DecodeUint64_loop_bound [of 0 0 0 b v n] by (auto simp: DecodeUint64_def)

text \<open>Only the bytes a successful decode consumes matter.\<close>

lemma DecodeUint64_loop_append:
  "DecodeUint64_loop i x s b = Inr r \<Longrightarrow> DecodeUint64_loop i x s (b @ c) = Inr r"
  by (induction i x s b rule: DecodeUint64_loop.induct) (auto split: if_splits)

lemma DecodeUint64_append:
  "DecodeUint64 b = Inr r \<Longrightarrow> DecodeUint64 (b @ c) = Inr r"
  by (simp add: DecodeUint64_def DecodeUint64_loop_append)

lemma Skip_loop_Decode:
  "i \<le> 10 \<Longrightarrow> DecodeUint64_loop i x s b = Inr (v, n) \<Longrightarrow> Skip_loop i b = Inr n"
  by (induction i x s b rule: DecodeUint64_loop.induct)
    (auto simp: MaxUint64Len_def split: if_splits)

lemma Skip_loop_Inr:
  "i \<le> 10 \<Longrightarrow> Skip_loop i b = Inr n \<Longrightarrow>
     (\<exists>v. DecodeUint64_loop i x s b = Inr (v, n)) \<or>
     n = 10 \<and> DecodeUint64_loop i x s b = Inl varintx_ErrOverflow"
proof (induction i x s b rule: DecodeUint64_loop.induct)
  case (2 i x s c cs)
  then show ?case
    by (auto simp: MaxUint64Len_def split: if_splits)
qed simp

lemma Skip_Decode: "DecodeUint64 b = Inr (v, n) \<Longrightarrow> Skip b = Inr n"
  using Skip_loop_Decode by (simp add: DecodeUint64_def Skip_def)

section \<open>PutUint64\<close>

lemma PutUint64_loop_Encode:
  assumes "i + SizeUint64 x \<le> length b"
  shows "PutUint64_loop b i x =
    Inr (take i b @ EncodeUint64 [] x @ drop (i + SizeUint64 x) b, i + SizeUint64 x)"
  using assms
proof (induction "unat x" arbitrary: b i x rule: less_induct)
  case less
  show ?case
  proof (cases "0x80 \<le> x")
    case False
    with False less.prems Uint64_small [of x] show ?thesis
      by (simp add: PutUint64_loop.simps [of b i x] upd_conv_take_nth_drop not_le [symmetric])
  next
    case True
    note sz = Uint64_big(1) [OF True] and en = Uint64_big(2) [OF True]
    have "i < length b" using less.prems sz by simp
    then have "take (i + 1) (b[i := ucast x OR 0x80]) = take i b @ [ucast x OR 0x80]"
      by (simp add: take_Suc_conv_app_nth)
    moreover have "PutUint64_loop b i x =
        PutUint64_loop (b[i := ucast x OR 0x80]) (i + 1) (drop_bit 7 x)"
      using True \<open>i < length b\<close> by (subst PutUint64_loop.simps) simp
    ultimately show ?thesis
      using less.hyps [OF drop_bit7_less [OF True], of "i + 1" "b[i := ucast x OR 0x80]"]
        less.prems sz en by simp
  qed
qed

lemma PutUint64_spec:
  "PutUint64 b x =
     (if length b < SizeUint64 x then Inl varintx_ErrShortBuffer
      else Inr (EncodeUint64 [] x @ drop (SizeUint64 x) b, SizeUint64 x))"
  using PutUint64_loop_Encode [of 0 x b] by (simp add: PutUint64_def)

section \<open>ZigZag\<close>

lemma bit_signed_drop_bit_63: "n < 64 \<Longrightarrow> bit (signed_drop_bit 63 (x :: u64)) n \<longleftrightarrow> bit x 63"
  by (cases "n = 0") (auto simp: bit_signed_drop_bit_iff)

lemma bit_neg_and_1: "n < 64 \<Longrightarrow> bit (- (u AND 1) :: u64) n \<longleftrightarrow> bit u 0"
proof -
  assume "n < 64"
  moreover have "u AND 1 = of_bool (bit u 0)"
    by (rule bit_word_eqI) (auto simp: bit_simps)
  ultimately show ?thesis by simp
qed

lemma bit_ZigZagEncode:
  "n < 64 \<Longrightarrow> bit (ZigZagEncode x) n \<longleftrightarrow> (0 < n \<and> bit x (n - 1)) \<noteq> bit x 63"
proof -
  assume n: "n < 64"
  have "bit (push_bit 1 x) n = (1 \<le> n \<and> possible_bit TYPE(64 word) n \<and> bit x (n - 1))"
    by (rule bit_push_bit_iff)
  with n show ?thesis
    by (simp only: ZigZagEncode_def bit_xor_iff) (auto simp: bit_signed_drop_bit_63)
qed

lemma bit_ZigZagDecode:
  "n < 64 \<Longrightarrow> bit (ZigZagDecode u) n \<longleftrightarrow> (n < 63 \<and> bit u (n + 1)) \<noteq> bit u 0"
  unfolding ZigZagDecode_def bit_xor_iff
  using bit_imp_le_length [of u "n + 1"] by (auto simp: bit_neg_and_1 bit_drop_bit_eq)

lemma ZigZagDecode_ZigZagEncode [simp]: "ZigZagDecode (ZigZagEncode x) = x"
proof (rule bit_word_eqI)
  fix n assume "n < LENGTH(64)"
  then show "bit (ZigZagDecode (ZigZagEncode x)) n = bit x n"
    by (cases "n = 63") (auto simp: bit_ZigZagEncode bit_ZigZagDecode)
qed

lemma ZigZagEncode_ZigZagDecode [simp]: "ZigZagEncode (ZigZagDecode u) = u"
proof (rule bit_word_eqI)
  fix n assume "n < LENGTH(64)"
  then show "bit (ZigZagEncode (ZigZagDecode u)) n = bit u n"
    by (cases n) (auto simp: bit_ZigZagEncode bit_ZigZagDecode)
qed

text \<open>Small magnitudes get small codes: the code of a negative x is -2x - 1, else 2x.\<close>

lemma signed_drop_bit_63: "signed_drop_bit 63 (x :: u64) = (if sint x < 0 then - 1 else 0)"
proof (rule bit_word_eqI)
  fix n assume "n < LENGTH(64)"
  then show "bit (signed_drop_bit 63 x) n = bit (if sint x < 0 then - 1 else 0 :: u64) n"
    using bit_last_iff [of x] by (simp add: bit_signed_drop_bit_63)
qed

lemma ZigZagEncode_value:
  "int (unat (ZigZagEncode x)) = (if sint x < 0 then - 2 * sint x - 1 else 2 * sint x)"
proof -
  have rng: "- (2 ^ 63) \<le> sint x" "sint x < 2 ^ 63"
    using sint_ge [of x] sint_lt [of x] by simp_all
  have dbl: "uint (push_bit 1 x) = (2 * uint x) mod 2 ^ 64"
    by (simp add: uint_word_ariths mult.commute)
  have u: "uint x = sint x mod 2 ^ 64"
    by (simp add: uint_sint take_bit_eq_mod)
  show ?thesis
  proof (cases "sint x < 0")
    case False
    then have "uint x = sint x" using u rng by simp
    then show ?thesis using False dbl rng
      by (simp only: ZigZagEncode_def signed_drop_bit_63 if_False) simp
  next
    case True
    have "sint x mod 2 ^ 64 = (sint x + 2 ^ 64) mod 2 ^ 64" by simp
    also have "\<dots> = sint x + 2 ^ 64"
      by (rule mod_pos_pos_trivial) (use True rng in auto)
    finally have ux: "uint x = sint x + 2 ^ 64" using u by simp
    have "2 * (sint x + 2 ^ 64) = (2 * sint x + 2 ^ 64) + 2 ^ 64" by simp
    then have "uint (push_bit 1 x) = (2 * sint x + 2 ^ 64) mod 2 ^ 64"
      unfolding dbl ux by (simp only: mod_add_self2)
    also have "\<dots> = 2 * sint x + 2 ^ 64"
      by (rule mod_pos_pos_trivial) (use True rng in auto)
    finally have up: "uint (push_bit 1 x) = 2 * sint x + 2 ^ 64" .
    have "uint (NOT y) = 2 ^ 64 - 1 - uint y" for y :: u64
    proof -
      have "uint (NOT y) = (- uint y - 1) mod 2 ^ 64"
        by (simp add: not_eq_complement uint_word_ariths mod_simps)
      also have "\<dots> = (2 ^ 64 - 1 - uint y) mod 2 ^ 64"
        by (subst mod_add_self2 [symmetric], rule arg_cong [where f = "\<lambda>z. z mod 2 ^ 64"]) simp
      also have "\<dots> = 2 ^ 64 - 1 - uint y"
      proof (rule mod_pos_pos_trivial)
        have "uint y < 2 ^ 64" using uint_lt2p [of y] by simp
        then show "0 \<le> 2 ^ 64 - 1 - uint y" by linarith
        show "2 ^ 64 - 1 - uint y < 2 ^ 64" using uint_ge_0 [of y] by linarith
      qed
      finally show ?thesis .
    qed
    from this [of "push_bit 1 x"] True up show ?thesis
      by (simp only: ZigZagEncode_def signed_drop_bit_63 if_True bit.xor_one_right) simp
  qed
qed

section \<open>Pairs, 32-bit values, comparison\<close>

lemma EncodePair_eq: "EncodePair dst a b = dst @ EncodeUint64 [] a @ EncodeUint64 [] b"
  unfolding EncodePair_def by (metis EncodeUint64_acc append_assoc)

lemma DecodePair_EncodePair:
  "DecodePair (EncodePair [] a b @ rest) = Inr (a, b, SizeUint64 a + SizeUint64 b)"
  using vint.dec_enc_at [of "EncodeUint64 [] a" b rest]
  by (simp add: DecodePair_def EncodePair_eq)

lemma DecodeUint32_spec:
  "DecodeUint32 (EncodeUint64 [] x @ rest) =
     (if 2 ^ 32 \<le> unat x then Inl varintx_ErrOverflow else Inr (ucast x, SizeUint64 x))"
  by (auto simp: DecodeUint32_def word_less_nat_alt unsigned_minus_1_eq_mask mask_eq_exp_minus_1)

lemma DecodeUint32_EncodeUint32:
  "DecodeUint32 (EncodeUint32 [] x @ rest) = Inr (x, SizeUint32 x)"
  using unsigned_less [of x, where ?'a = nat]
  by (simp add: EncodeUint32_def DecodeUint32_spec SizeUint32_def word_unat_eq_iff
      unsigned_ucast_eq unsigned_take_bit_eq take_bit_nat_eq_self)

lemma CompareEncoded_spec:
  "CompareEncoded (EncodeUint64 [] a @ r) (EncodeUint64 [] b @ s) =
     Inr (if a < b then -1 else if b < a then 1 else 0)"
  by (simp add: CompareEncoded_def)

interpretation zint: prefix_codec "EncodeInt64 []" DecodeInt64
  by unfold_locales (simp add: EncodeInt64_def DecodeInt64_def)

section \<open>The streaming reader\<close>

text \<open>
  Over any byte reader of a finite string the streaming loop returns what the slice decoder
  returns on the bytes that remain, and leaves the reader after the varint; where the string
  is empty it returns the reader's own error.
\<close>

context byte_reader begin

lemma Reader_Uint64_loop_Inr:
  assumes "DecodeUint64_loop i x s (remaining r) = Inr (v, n)" and "i + left = MaxUint64Len"
  shows "\<exists>r'. Reader_Uint64_loop readByte left i x s r = (Inr v, r')
    \<and> remaining r' = drop (n - i) (remaining r)"
  using assms
proof (induction left arbitrary: i x s r)
  case 0
  then show ?case by (cases "remaining r") (auto split: if_splits)
next
  case (Suc left)
  obtain c cs where rem: "remaining r = c # cs"
    using Suc.prems(1) by (cases "remaining r") auto
  then obtain r1 where r1: "readByte r = (Inr c, r1)" "remaining r1 = cs"
    using read_byte by blast
  show ?case
  proof (cases "c < 0x80")
    case True
    with Suc.prems rem r1 show ?thesis by (auto split: if_splits)
  next
    case False
    have dec: "DecodeUint64_loop (i + 1) (x OR push_bit s (ucast (c AND 0x7f))) (s + 7)
        (remaining r1) = Inr (v, n)"
      using Suc.prems rem False r1 by (simp split: if_splits)
    from Suc.IH [OF dec] Suc.prems(2) obtain r' where
      "Reader_Uint64_loop readByte left (i + 1) (x OR push_bit s (ucast (c AND 0x7f)))
        (s + 7) r1 = (Inr v, r')" "remaining r' = drop (n - (i + 1)) cs"
      using r1 by auto
    moreover have "n - i = Suc (n - (i + 1))"
      using DecodeUint64_loop_bound [OF dec] by arith
    ultimately show ?thesis using False r1 rem by simp
  qed
qed

lemma Reader_Uint64_loop_Inl:
  assumes "DecodeUint64_loop i x s (remaining r) = Inl e" and "i + left = MaxUint64Len"
    and "remaining r \<noteq> [] \<or> 0 < i"
  shows "\<exists>r'. Reader_Uint64_loop readByte left i x s r = (Inl e, r')
    \<or> Reader_Uint64_loop readByte left i x s r = (Inl varintx_ErrOverflow, r')
      \<and> length (remaining r) = left \<and> e = varintx_ErrTruncated"
  using assms
proof (induction left arbitrary: i x s r)
  case 0
  then show ?case by (cases "remaining r") (auto split: if_splits)
next
  case (Suc left)
  from readByte_cases [of r] show ?case
  proof (elim disjE exE conjE)
    fix e' assume "remaining r = []" "readByte r = (Inl e', r)"
    then show ?thesis using Suc.prems by auto
  next
    fix c cs r1 assume r1: "remaining r = c # cs" "readByte r = (Inr c, r1)" "remaining r1 = cs"
    show ?thesis
    proof (cases "c < 0x80")
      case True
      with Suc.prems r1 show ?thesis by (auto split: if_splits)
    next
      case False
      have "DecodeUint64_loop (i + 1) (x OR push_bit s (ucast (c AND 0x7f))) (s + 7)
          (remaining r1) = Inl e"
        using Suc.prems r1 False by (simp split: if_splits)
      from Suc.IH [OF this] Suc.prems(2) r1 False show ?thesis
        by (cases left) auto
    qed
  qed
qed

lemma Reader_Uint64_decode:
  "DecodeUint64 (remaining r) = Inr (v, n) \<Longrightarrow>
     \<exists>r'. Reader_Uint64 readByte r = (Inr v, r') \<and> remaining r' = drop n (remaining r)"
  using Reader_Uint64_loop_Inr [of 0 0 0 r v n MaxUint64Len]
  by (simp add: DecodeUint64_def Reader_Uint64_def)

text \<open>
  The two agree on every error but one: ten continuation bytes at the very end are an
  overflow for the reader and a truncation for the slice decoder.
\<close>

lemma Reader_Uint64_error:
  "DecodeUint64 (remaining r) = Inl e \<Longrightarrow> remaining r \<noteq> [] \<Longrightarrow>
     \<exists>r'. Reader_Uint64 readByte r = (Inl e, r') \<or>
       (Reader_Uint64 readByte r = (Inl varintx_ErrOverflow, r')
        \<and> length (remaining r) = 10 \<and> e = varintx_ErrTruncated)"
  using Reader_Uint64_loop_Inl [of 0 0 0 r e MaxUint64Len]
  by (auto simp: DecodeUint64_def Reader_Uint64_def MaxUint64Len_def)

end

section \<open>The writer\<close>

lemma Writer_ops [simp]:
  "wr_buf (Writer_Uint64 x w) = wr_buf w @ EncodeUint64 [] x"
  "wr_buf (Writer_Int64 x w) = wr_buf w @ EncodeInt64 [] x"
  "wr_buf (Writer_Uint32 y w) = wr_buf w @ EncodeUint32 [] y"
  by (simp_all add: Writer_Uint64_def Writer_Int64_def Writer_Uint32_def EncodeInt64_def
      EncodeUint32_def EncodeUint64_acc [of "wr_buf w"])

lemma ConsumeUint64_Encode:
  "ConsumeUint64 (pre @ EncodeUint64 [] x @ rest) (int (length pre)) =
     (Inr x, int (length pre + SizeUint64 x))"
  by (simp add: ConsumeUint64_def)

section \<open>Properties\<close>

text \<open>C28: whatever follows it and wherever it starts, a varint decodes to the value encoded and to
  its own length, which is what \<^verbatim>\<open>SizeUint64\<close> announces and lies between 1 and 10; skipping
  it moves the same distance.\<close>

theorem varint_roundtrip:
  "DecodeUint64 (drop (length dst) (EncodeUint64 dst x @ rest)) = Inr (x, SizeUint64 x)
    \<and> Skip (drop (length dst) (EncodeUint64 dst x @ rest)) = Inr (SizeUint64 x)
    \<and> take (length dst) (EncodeUint64 dst x) = dst
    \<and> length (EncodeUint64 dst x) = length dst + SizeUint64 x
    \<and> 1 \<le> SizeUint64 x \<and> SizeUint64 x \<le> MaxUint64Len"
proof -
  have "EncodeUint64 dst x = dst @ EncodeUint64 [] x" by (rule EncodeUint64_acc)
  then have d: "drop (length dst) (EncodeUint64 dst x @ rest) = EncodeUint64 [] x @ rest"
    "take (length dst) (EncodeUint64 dst x) = dst" by simp_all
  then show ?thesis
    using Skip_Decode [of "EncodeUint64 [] x @ rest"] SizeUint64_le_10 [of x] SizeUint64_pos [of x]
    by (simp add: Suc_le_eq)
qed

text \<open>The decoder is total and in bounds on arbitrary bytes: it fails or consumes between 1 and
  10 of the bytes, and what follows those does not change its answer.\<close>

theorem varint_decode_bounds:
  assumes "DecodeUint64 b = Inr (v, n)"
  shows "0 < n \<and> n \<le> length b \<and> n \<le> MaxUint64Len \<and> DecodeUint64 (take n b @ c) = Inr (v, n)"
proof -
  have loop: "DecodeUint64_loop i x s b = Inr (v, n) \<Longrightarrow> DecodeUint64_loop i x s (take (n - i) b) = Inr (v, n)"
    for i x s and b :: bytes
  proof (induction i x s b rule: DecodeUint64_loop.induct)
    case (2 i x s c cs)
    show ?case
    proof (cases "c < 0x80")
      case True
      with 2 show ?thesis by (auto split: if_splits)
    next
      case False
      from 2(2) False have dec: "DecodeUint64_loop (i + 1) (x OR push_bit s (ucast (c AND 0x7f))) (s + 7) cs = Inr (v, n)"
        by (auto split: if_splits)
      have "n - i = Suc (n - (i + 1))" using DecodeUint64_loop_bound [OF dec] by arith
      with 2 False dec show ?thesis by (auto split: if_splits)
    qed
  qed simp
  have "DecodeUint64 (take n b) = Inr (v, n)" using loop [of 0 0 0 b] assms by (simp add: DecodeUint64_def)
  from DecodeUint64_append [OF this] DecodeUint64_bound [OF assms] show ?thesis
    by (simp add: MaxUint64Len_def)
qed

theorem varint_decode_bounds_witness:
  "DecodeUint64 (take 2 [0x81, 0x01, 0xff] @ [7]) = Inr (129, 2)"
proof -
  have "DecodeUint64 [0x81, 0x01, 0xff] = Inr (129, 2)" by code_simp
  from varint_decode_bounds [OF this] show ?thesis by blast
qed

text \<open>C29: the zigzag code is a bijection of the 64-bit integers that maps small magnitudes to small
  codes: x to 2x, and a negative x to -2x - 1.\<close>

theorem zigzag_bijection:
  "ZigZagDecode (ZigZagEncode x) = x \<and> ZigZagEncode (ZigZagDecode u) = u
    \<and> int (unat (ZigZagEncode x)) = (if sint x < 0 then - 2 * sint x - 1 else 2 * sint x)
    \<and> DecodeInt64 (EncodeInt64 [] x @ rest) = Inr (x, SizeInt64 x)"
  using ZigZagEncode_value [of x] by (simp add: EncodeInt64_def DecodeInt64_def SizeInt64_def)

end
