(* ===== verification/Decoding.thy ===== *)
theory Decoding imports Varintx begin

text \<open>
  The way \<^verbatim>\<open>internal/wal\<close> and \<^verbatim>\<open>internal/sstable\<close> decode: varints and length-prefixed
  strings at an offset into a payload, with the caller's error for bad input and \<^verbatim>\<open>Panic\<close>
  for a slice out of range; and the limits of Go's \<^verbatim>\<open>make\<close>.
\<close>

text \<open>\<^verbatim>\<open>varintx.DecodeUint64(payload[off:])\<close>, its error replaced by the caller's.\<close>

definition decode_at :: "error \<Rightarrow> bytes \<Rightarrow> int \<Rightarrow> error + (u64 \<times> nat)" where
  "decode_at err payload off =
     (case slice_from payload off of
        None \<Rightarrow> Inl Panic
      | Some b \<Rightarrow> (case DecodeUint64 b of Inl _ \<Rightarrow> Inl err | Inr r \<Rightarrow> Inr r))"

text \<open>A length-prefixed byte string: the check and the slice are on Go's wrapping \<^verbatim>\<open>int\<close>.\<close>

definition decode_blob :: "error \<Rightarrow> bytes \<Rightarrow> int \<Rightarrow> error + (bytes \<times> int)" where
  "decode_blob err payload off =
     (case decode_at err payload off of
        Inl e \<Rightarrow> Inl e
      | Inr (len, noff) \<Rightarrow>
          let off = off + int noff; end' = wrap_int (off + int_of_u64 len)
          in if end' > int (length payload) then Inl err
             else case slice_range payload off end' of
                    None \<Rightarrow> Inl Panic
                  | Some b \<Rightarrow> Inr (b, end'))"

text \<open>
  \<^verbatim>\<open>make([]T, 0, n)\<close> panics when n elements of this many bytes would not fit the 48-bit
  address space of Go's heap.
\<close>

definition make_ok :: "nat \<Rightarrow> nat \<Rightarrow> bool" where
  "make_ok n bytes = (n * bytes \<le> 2 ^ 48)"

lemma decode_at_enc [simp]:
  "decode_at err (pre @ EncodeUint64 [] x @ rest) (int (length pre)) = Inr (x, SizeUint64 x)"
  by (simp add: decode_at_def)

lemma decode_blob_enc:
  assumes "payload = pre @ EncodeUint64 [] (of_nat (length b)) @ b @ rest"
    and "length payload < 2 ^ 63" and "off = int (length pre)"
  shows "decode_blob err payload off =
    Inr (b, int (length (pre @ EncodeUint64 [] (of_nat (length b)) @ b)))"
proof -
  let ?E = "EncodeUint64 [] (of_nat (length b))"
  have i: "int_of_u64 (of_nat (length b)) = int (length b)"
    using assms(1,2) by (intro int_of_u64_of_nat) simp
  have w: "wrap_int (int (length (pre @ ?E)) + int (length b)) = int (length (pre @ ?E)) + int (length b)"
    using assms(1,2) by (intro wrap_int_id) auto
  have "slice_range ((pre @ ?E) @ b @ rest) (int (length (pre @ ?E)))
      (int (length (pre @ ?E)) + int (length b)) = Some b"
    by (rule slice_range_append)
  with assms(1,3) w i show ?thesis
    by (simp add: decode_blob_def Let_def)
qed

end
