(* ===== verification/OsFile.thy ===== *)
theory OsFile imports Prelude begin

text \<open>
  What the program uses of \<^verbatim>\<open>os.File\<close>: a file is its contents, the offset of the next
  write, and the contents that the last successful \<^verbatim>\<open>Sync\<close> made durable.  Every call may
  fail: \<^verbatim>\<open>f_fault\<close> gives the outcome of the n-th call of the file's life, \<^verbatim>\<open>None\<close> for
  success and \<^verbatim>\<open>Some k\<close> for a failure, of which a write leaves its first k bytes behind.
  The operations are total functions of this plan, so that every error path of the callers is
  a branch of the model; \<^verbatim>\<open>f_reliable\<close> says that no call fails.
\<close>

record os_file =
  f_data :: bytes
  f_pos :: nat
  f_stable :: bytes
  f_fault :: "nat \<Rightarrow> nat option"
  f_tick :: nat

definition f_reliable :: "os_file \<Rightarrow> bool" where
  "f_reliable f = (\<forall>t. f_fault f t = None)"

definition f_next :: "os_file \<Rightarrow> nat option \<times> os_file" where
  "f_next f = (f_fault f (f_tick f), f\<lparr>f_tick := f_tick f + 1\<rparr>)"

definition overwrite :: "bytes \<Rightarrow> nat \<Rightarrow> bytes \<Rightarrow> bytes" where
  "overwrite data pos b =
     take pos data @ replicate (pos - length data) 0 @ b @ drop (pos + length b) data"

text \<open>\<^verbatim>\<open>Write\<close> returns the count beside the error; a short count always comes with one.\<close>

definition f_write :: "bytes \<Rightarrow> os_file \<Rightarrow> (nat \<times> error option) \<times> os_file" where
  "f_write b f =
     (case f_next f of
        (None, f) \<Rightarrow>
          ((length b, None),
           f\<lparr>f_data := overwrite (f_data f) (f_pos f) b, f_pos := f_pos f + length b\<rparr>)
      | (Some k, f) \<Rightarrow>
          (let w = take k b
           in ((length w, Some OsError),
               f\<lparr>f_data := overwrite (f_data f) (f_pos f) w, f_pos := f_pos f + length w\<rparr>)))"

definition f_sync :: "os_file \<Rightarrow> error option \<times> os_file" where
  "f_sync f =
     (case f_next f of
        (None, f) \<Rightarrow> (None, f\<lparr>f_stable := f_data f\<rparr>)
      | (Some _, f) \<Rightarrow> (Some OsError, f))"

definition f_truncate :: "nat \<Rightarrow> os_file \<Rightarrow> error option \<times> os_file" where
  "f_truncate n f =
     (case f_next f of
        (None, f) \<Rightarrow>
          (None, f\<lparr>f_data := take n (f_data f) @ replicate (n - length (f_data f)) 0\<rparr>)
      | (Some _, f) \<Rightarrow> (Some OsError, f))"

definition f_seek :: "nat \<Rightarrow> os_file \<Rightarrow> error option \<times> os_file" where
  "f_seek n f =
     (case f_next f of
        (None, f) \<Rightarrow> (None, f\<lparr>f_pos := n\<rparr>)
      | (Some _, f) \<Rightarrow> (Some OsError, f))"

definition f_readAt :: "nat \<Rightarrow> nat \<Rightarrow> os_file \<Rightarrow> (error + bytes) \<times> os_file" where
  "f_readAt n off f =
     (case f_next f of
        (None, f) \<Rightarrow>
          (if off + n \<le> length (f_data f) then (Inr (take n (drop off (f_data f))), f)
           else (Inl io_EOF, f))
      | (Some _, f) \<Rightarrow> (Inl OsError, f))"

text \<open>
  \<^verbatim>\<open>ReadAt\<close> as callers see it: a negative offset is an error and an empty buffer needs no
  call; \<^verbatim>\<open>Seek(0, SeekCurrent)\<close>, \<^verbatim>\<open>Stat().Size()\<close> and \<^verbatim>\<open>Close\<close>.
\<close>

definition f_ReadAt :: "nat \<Rightarrow> int \<Rightarrow> os_file \<Rightarrow> (error + bytes) \<times> os_file" where
  "f_ReadAt n off f =
     (if off < 0 then (Inl OsError, f) else if n = 0 then (Inr [], f) else f_readAt n (nat off) f)"

definition f_tell :: "os_file \<Rightarrow> (error + nat) \<times> os_file" where
  "f_tell f = (case f_next f of (None, f) \<Rightarrow> (Inr (f_pos f), f) | (Some _, f) \<Rightarrow> (Inl OsError, f))"

definition f_stat_size :: "os_file \<Rightarrow> (error + nat) \<times> os_file" where
  "f_stat_size f =
     (case f_next f of (None, f) \<Rightarrow> (Inr (length (f_data f)), f) | (Some _, f) \<Rightarrow> (Inl OsError, f))"

definition f_close :: "os_file \<Rightarrow> error option \<times> os_file" where
  "f_close f = (case f_next f of (None, f) \<Rightarrow> (None, f) | (Some _, f) \<Rightarrow> (Some OsError, f))"

text \<open>The calls of a reliable file.\<close>

lemma f_next_reliable [simp]:
  "f_reliable f \<Longrightarrow> f_next f = (None, f\<lparr>f_tick := f_tick f + 1\<rparr>)"
  by (simp add: f_next_def f_reliable_def)

lemma f_reliable_update [simp]:
  "f_reliable (f\<lparr>f_tick := t\<rparr>) = f_reliable f"
  "f_reliable (f\<lparr>f_data := d\<rparr>) = f_reliable f"
  "f_reliable (f\<lparr>f_pos := p\<rparr>) = f_reliable f"
  "f_reliable (f\<lparr>f_stable := d\<rparr>) = f_reliable f"
  by (simp_all add: f_reliable_def)

lemma f_readAt_keeps:
  "f_readAt n off f = (r, f') \<Longrightarrow> f_data f' = f_data f \<and> f_pos f' = f_pos f
     \<and> f_stable f' = f_stable f \<and> f_fault f' = f_fault f"
  by (auto simp: f_readAt_def f_next_def split: option.splits if_splits)

lemma f_readAt_reliable:
  assumes "f_reliable f" and "off + n \<le> length (f_data f)"
  shows "\<exists>f'. f_readAt n off f = (Inr (take n (drop off (f_data f))), f') \<and> f_reliable f'
    \<and> f_data f' = f_data f \<and> f_pos f' = f_pos f \<and> f_stable f' = f_stable f"
  using assms by (simp add: f_readAt_def)

lemma overwrite_end [simp]: "overwrite data (length data) b = data @ b"
  by (simp add: overwrite_def)

lemma f_readAt_eq:
  assumes "f_reliable f" and "f_data f = pre @ b @ rest"
  shows "f_readAt (length b) (length pre) f = (Inr b, f\<lparr>f_tick := f_tick f + 1\<rparr>)"
  using assms by (simp add: f_readAt_def)

lemma f_ReadAt_eq:
  assumes "f_reliable f" and "f_data f = pre @ b @ rest"
  shows "\<exists>t. f_ReadAt (length b) (int (length pre)) f = (Inr b, f\<lparr>f_tick := t\<rparr>)"
proof (cases "b = []")
  case True
  then show ?thesis by (auto simp: f_ReadAt_def intro: exI [of _ "f_tick f"])
qed (use f_readAt_eq [OF assms] in \<open>auto simp: f_ReadAt_def\<close>)

text \<open>A reliable file with given contents, all of them durable.\<close>

definition os_file_of :: "bytes \<Rightarrow> os_file" where
  "os_file_of b = \<lparr>f_data = b, f_pos = 0, f_stable = b, f_fault = (\<lambda>_. None), f_tick = 0\<rparr>"

lemma os_file_of_simps [simp]:
  "f_data (os_file_of b) = b" "f_pos (os_file_of b) = 0" "f_stable (os_file_of b) = b"
  "f_fault (os_file_of b) t = None" "f_tick (os_file_of b) = 0" "f_reliable (os_file_of b)"
  by (simp_all add: os_file_of_def f_reliable_def)

end
