(* ===== verification/Sstable.thy ===== *)
theory Sstable imports Byteutil Bloomx Decoding OsFile begin

text \<open>
  \<^verbatim>\<open>internal/sstable\<close>: immutable sorted tables.  A file is a sequence of blocks (prefix-
  compressed entries, restart offsets, count, checksum), a Bloom filter, an index of the blocks
  and a footer.  The first part models the writer, the second the reader and its iterators.
\<close>

section \<open>Writing\<close>

definition magicFooter :: u32 where [go_defs]: "magicFooter = 0x53535442"
definition restartInterval :: int where [go_defs]: "restartInterval = 16"
definition defaultBlockSize :: int where [go_defs]: "defaultBlockSize = 4096"
definition flagDelete :: byte where [go_defs]: "flagDelete = 1"
definition flagValue :: byte where [go_defs]: "flagValue = 0"

record sst_Entry =
  se_Key :: slice
  se_Value :: slice
  se_Seq :: u64
  se_Deleted :: bool

record indexRec =
  ir_lastKey :: bytes
  ir_offset :: u64
  ir_length :: u64

record Writer =
  w_f :: os_file
  w_path :: string
  w_blockSize :: int
  w_restartInt :: int
  w_buf :: bytes
  w_restarts :: "u32 list"
  w_entryCount :: nat
  w_blockEntries :: nat
  w_lastKey :: slice
  w_index :: "indexRec list"
  w_bloom :: Builder
  w_minKey :: slice
  w_maxKey :: slice
  w_maxSeq :: u64
  w_closed :: bool

record WriterOptions =
  wro_BlockSize :: int
  wro_RestartInterval :: int
  wro_BloomFP :: real

record Meta =
  mt_Path :: string
  mt_MinKey :: slice
  mt_MaxKey :: slice
  mt_MaxSeq :: u64
  mt_Entries :: u64
  mt_FileSize :: nat

definition WriterOptions_normalize :: "WriterOptions option \<Rightarrow> WriterOptions" where
  "WriterOptions_normalize o' =
     (let out = \<lparr>wro_BlockSize = defaultBlockSize, wro_RestartInterval = restartInterval,
                 wro_BloomFP = 1 / 100\<rparr>
      in case o' of
           None \<Rightarrow> out
         | Some opt \<Rightarrow>
             let out = (if wro_BlockSize opt > 0 then out\<lparr>wro_BlockSize := wro_BlockSize opt\<rparr> else out);
                 out = (if wro_RestartInterval opt > 0
                        then out\<lparr>wro_RestartInterval := wro_RestartInterval opt\<rparr> else out)
             in (if wro_BloomFP opt > 0 then out\<lparr>wro_BloomFP := wro_BloomFP opt\<rparr> else out))"

text \<open>\<^verbatim>\<open>Create\<close>, from the point where the file f has been created or truncated.\<close>

definition sst_Create :: "string \<Rightarrow> WriterOptions option \<Rightarrow> os_file \<Rightarrow> Writer" where
  "sst_Create path opts f =
     (let opt = WriterOptions_normalize opts
      in \<lparr>w_f = f, w_path = path, w_blockSize = wro_BlockSize opt, w_restartInt = wro_RestartInterval opt,
          w_buf = [], w_restarts = [], w_entryCount = 0, w_blockEntries = 0, w_lastKey = None,
          w_index = [], w_bloom = NewBuilder (wro_BloomFP opt), w_minKey = None, w_maxKey = None,
          w_maxSeq = 0, w_closed = False\<rparr>)"

definition Writer_flushBlock :: "Writer \<Rightarrow> error option \<times> Writer" where
  "Writer_flushBlock w =
     (if w_buf w = [] then (None, w)
      else
        (let block = w_buf w @ concat (map (le_put 4) (w_restarts w));
             block = block @ le_put 4 (of_nat (length (w_restarts w)) :: u32);
             crc = ChecksumCastagnoli block;
             block = block @ le_put 4 crc
         in case f_tell (w_f w) of
              (Inl e, f) \<Rightarrow> (Some e, w\<lparr>w_f := f\<rparr>)
            | (Inr off, f) \<Rightarrow>
                (case f_write block f of
                   ((n, Some e), f) \<Rightarrow> (Some e, w\<lparr>w_f := f\<rparr>)
                 | ((n, None), f) \<Rightarrow>
                     if n \<noteq> length block then (Some io_ErrShortWrite, w\<lparr>w_f := f\<rparr>)
                     else
                       (None, w\<lparr>w_f := f,
                         w_index := w_index w @
                           [\<lparr>ir_lastKey = sbytes (Clone (w_lastKey w)), ir_offset = of_nat off,
                             ir_length = of_nat (length block)\<rparr>],
                         w_buf := [], w_restarts := [], w_blockEntries := 0\<rparr>))))"

definition enc_entry :: "nat \<Rightarrow> sst_Entry \<Rightarrow> bytes" where
  "enc_entry shared e =
     (let key = sbytes (se_Key e); val = sbytes (se_Value e);
          nonShared = length key - shared;
          enc = EncodeUint64 [] (of_nat shared);
          enc = EncodeUint64 enc (of_nat nonShared);
          enc = EncodeUint64 enc (of_nat (length val));
          enc = EncodeUint64 enc (se_Seq e);
          flag = (if se_Deleted e then flagDelete else flagValue);
          enc = enc @ [flag];
          enc = enc @ drop shared key
      in enc @ val)"

text \<open>\<^verbatim>\<open>Add\<close>: its checks, what it buffers, and the flush of a full block.\<close>

definition Writer_buffer :: "sst_Entry \<Rightarrow> Writer \<Rightarrow> Writer" where
  "Writer_buffer e w =
     (let key = sbytes (se_Key e);
          sharing = (int (w_blockEntries w) mod w_restartInt w \<noteq> 0 \<and> w_lastKey w \<noteq> None);
          shared = (if sharing then SharedPrefixLen (sbytes (w_lastKey w)) key else 0);
          restarts = (if sharing then w_restarts w else w_restarts w @ [of_nat (length (w_buf w))])
      in w\<lparr>w_minKey := (if w_minKey w = None then Clone (se_Key e) else w_minKey w),
           w_maxKey := Clone (se_Key e),
           w_maxSeq := (if w_maxSeq w < se_Seq e then se_Seq e else w_maxSeq w),
           w_bloom := Builder_Add key (w_bloom w),
           w_restarts := restarts,
           w_buf := w_buf w @ enc_entry shared e,
           w_lastKey := Clone (se_Key e),
           w_entryCount := w_entryCount w + 1,
           w_blockEntries := w_blockEntries w + 1\<rparr>)"

definition Writer_Add :: "sst_Entry \<Rightarrow> Writer \<Rightarrow> error option \<times> Writer" where
  "Writer_Add e w =
     (if w_closed w then (Some sstable_ErrClosed, w)
      else if se_Key e = None then (Some sstable_ErrInvalid, w)
      else if w_lastKey w \<noteq> None \<and> Compare (sbytes (se_Key e)) (sbytes (w_lastKey w)) < 0
      then (Some sstable_OutOfOrder, w)
      else
        (let w = Writer_buffer e w
         in if int (length (w_buf w)) \<ge> w_blockSize w then Writer_flushBlock w else (None, w)))"

fun encode_index :: "indexRec list \<Rightarrow> bytes \<Rightarrow> bytes" where
  "encode_index [] buf = buf"
| "encode_index (r # rs) buf =
     (let buf = EncodeUint64 buf (of_nat (length (ir_lastKey r)));
          buf = buf @ ir_lastKey r;
          buf = EncodeUint64 buf (ir_offset r);
          buf = EncodeUint64 buf (ir_length r)
      in encode_index rs buf)"

definition index_section :: "indexRec list \<Rightarrow> bytes" where
  "index_section index =
     (let indexBuf = encode_index index (EncodeUint64 [] (of_nat (length index)))
      in indexBuf @ le_put 4 (ChecksumCastagnoli indexBuf))"

definition sst_footer :: "nat \<Rightarrow> nat \<Rightarrow> nat \<Rightarrow> nat \<Rightarrow> u64 \<Rightarrow> nat \<Rightarrow> bytes" where
  "sst_footer indexOff indexLen bloomOff bloomLen maxSeq entryCount =
     le_put 4 magicFooter @ le_put 8 (of_nat indexOff :: u64) @ le_put 8 (of_nat indexLen :: u64) @
     le_put 8 (of_nat bloomOff :: u64) @ le_put 8 (of_nat bloomLen :: u64) @ le_put 8 maxSeq @
     le_put 8 (of_nat entryCount :: u64) @ le_put 4 magicFooter"

text \<open>A write whose count the caller ignores.\<close>

definition write_all :: "bytes \<Rightarrow> os_file \<Rightarrow> error option \<times> os_file" where
  "write_all b f = (case f_write b f of ((_, e), f) \<Rightarrow> (e, f))"

text \<open>
  \<^verbatim>\<open>Finish\<close> once the filter is serialized: a chain of calls on the file, each of which
  ends it with its error; the last component is the file's size.
\<close>

definition finish_tail :: "nat \<Rightarrow> bytes \<Rightarrow> Writer \<Rightarrow> (error + nat) \<times> os_file" where
  "finish_tail bloomOff bdata w =
     (case write_all bdata (w_f w) of
        (Some e, f) \<Rightarrow> (Inl e, f)
      | (None, f) \<Rightarrow>
     (case f_tell f of
        (Inl e, f) \<Rightarrow> (Inl e, f)
      | (Inr indexOff, f) \<Rightarrow>
     let indexBuf = index_section (w_index w) in
     (case write_all indexBuf f of
        (Some e, f) \<Rightarrow> (Inl e, f)
      | (None, f) \<Rightarrow>
     (case write_all (sst_footer indexOff (length indexBuf) bloomOff (length bdata) (w_maxSeq w)
                        (w_entryCount w)) f of
        (Some e, f) \<Rightarrow> (Inl e, f)
      | (None, f) \<Rightarrow>
     (case f_sync f of
        (Some e, f) \<Rightarrow> (Inl e, f)
      | (None, f) \<Rightarrow>
     (case f_stat_size f of
        (Inl e, f) \<Rightarrow> (Inl e, f)
      | (Inr sz, f) \<Rightarrow>
     (case f_close f of
        (Some e, f) \<Rightarrow> (Inl e, f)
      | (None, f) \<Rightarrow> (Inr sz, f))))))))"

definition Writer_Finish :: "sizing \<Rightarrow> Writer \<Rightarrow> (error + Meta) \<times> Writer" where
  "Writer_Finish sz w =
     (if w_closed w then (Inl sstable_ErrClosed, w)
      else
        (case Writer_flushBlock w of
           (Some e, w) \<Rightarrow> (Inl e, w)
         | (None, w) \<Rightarrow>
             (case f_tell (w_f w) of
                (Inl e, f) \<Rightarrow> (Inl e, w\<lparr>w_f := f\<rparr>)
              | (Inr bloomOff, f) \<Rightarrow>
                  let w = w\<lparr>w_f := f\<rparr> in
                  (case Builder_Build sz (w_bloom w) of
                     Inl e \<Rightarrow> (Inl e, w)
                   | Inr bf \<Rightarrow>
                       (case Filter_MarshalBinary (Some bf) of
                          Inl e \<Rightarrow> (Inl e, w)
                        | Inr bdata \<Rightarrow>
                            (case finish_tail bloomOff bdata w of
                               (Inl e, f) \<Rightarrow> (Inl e, w\<lparr>w_f := f\<rparr>)
                             | (Inr size', f) \<Rightarrow>
                                 (Inr \<lparr>mt_Path = w_path w, mt_MinKey = w_minKey w, mt_MaxKey = w_maxKey w,
                                       mt_MaxSeq = w_maxSeq w, mt_Entries = of_nat (w_entryCount w),
                                       mt_FileSize = size'\<rparr>,
                                  w\<lparr>w_f := f, w_closed := True\<rparr>)))))))"

text \<open>\<^verbatim>\<open>Abort\<close> closes the file and says whether the caller's directory loses it.\<close>

definition Writer_Abort :: "Writer \<Rightarrow> bool \<times> Writer" where
  "Writer_Abort w =
     (if w_closed w then (False, w)
      else (case f_close (w_f w) of
              (_, f) \<Rightarrow> (case f_next f of (out, f) \<Rightarrow> (out = None, w\<lparr>w_closed := True, w_f := f\<rparr>))))"

fun WriteFile_loop :: "sst_Entry list \<Rightarrow> Writer \<Rightarrow> error option \<times> Writer" where
  "WriteFile_loop [] w = (None, w)"
| "WriteFile_loop (e # es) w =
     (case Writer_Add e w of (Some err, w) \<Rightarrow> (Some err, w) | (None, w) \<Rightarrow> WriteFile_loop es w)"

text \<open>\<^verbatim>\<open>WriteFile\<close>: the result, and the file unless it was removed.\<close>

definition sst_WriteFile ::
  "sizing \<Rightarrow> string \<Rightarrow> sst_Entry list \<Rightarrow> WriterOptions option \<Rightarrow> os_file \<Rightarrow> (error + Meta) \<times> os_file option" where
  "sst_WriteFile sz path entries opts f =
     (case WriteFile_loop entries (sst_Create path opts f) of
        (Some err, w) \<Rightarrow>
          (case Writer_Abort w of (removed, w) \<Rightarrow> (Inl err, if removed then None else Some (w_f w)))
      | (None, w) \<Rightarrow> (case Writer_Finish sz w of (r, w) \<Rightarrow> (r, Some (w_f w))))"

section \<open>Reading\<close>

record Reader =
  r_f :: "os_file option"
  r_path :: string
  r_index :: "indexRec list"
  r_bloom :: Filter
  r_maxSeq :: u64
  r_entries :: u64
  r_minKey :: slice
  r_maxKey :: slice
  r_fileSize :: nat

text \<open>The loop over the index: the length-prefixed key, then offset and length of the block.\<close>

fun decode_index_loop :: "nat \<Rightarrow> bytes \<Rightarrow> int \<Rightarrow> indexRec list \<Rightarrow> error + indexRec list" where
  "decode_index_loop 0 body off index = Inr index"
| "decode_index_loop (Suc left) body off index =
     (case decode_blob sstable_ErrCorrupt body off of
        Inl e \<Rightarrow> Inl e
      | Inr (key, off) \<Rightarrow>
          (case decode_at sstable_ErrCorrupt body off of
             Inl e \<Rightarrow> Inl e
           | Inr (boff, noff) \<Rightarrow>
               let off = off + int noff
               in (case decode_at sstable_ErrCorrupt body off of
                     Inl e \<Rightarrow> Inl e
                   | Inr (blen, noff) \<Rightarrow>
                       decode_index_loop left body (off + int noff)
                         (index @ [\<lparr>ir_lastKey = key, ir_offset = boff, ir_length = blen\<rparr>]))))"

text \<open>An index record has 40 bytes.\<close>

definition decode_index :: "bytes \<Rightarrow> error + indexRec list" where
  "decode_index indexData =
     (if length indexData < 4 then Inl sstable_ErrCorrupt
      else
        (let body = take (length indexData - 4) indexData;
             want = le_get (drop (length indexData - 4) indexData)
         in if ChecksumCastagnoli body \<noteq> want then Inl sstable_ErrCorrupt
            else (case decode_at sstable_ErrCorrupt body 0 of
                    Inl e \<Rightarrow> Inl e
                  | Inr (n, off) \<Rightarrow>
                      if \<not> make_ok (unat n) 40 then Inl Panic
                      else decode_index_loop (unat n) body (int off) [])))"

text \<open>\<^verbatim>\<open>make([]byte, n)\<close> followed by a \<^verbatim>\<open>ReadAt\<close> of all of it.\<close>

definition make_and_read :: "int \<Rightarrow> int \<Rightarrow> os_file \<Rightarrow> (error + bytes) \<times> os_file" where
  "make_and_read n off f =
     (if n < 0 \<or> \<not> make_ok (nat n) 1 then (Inl Panic, f) else f_ReadAt (nat n) off f)"

text \<open>\<^verbatim>\<open>Open\<close>, from the point where the file f has been opened.\<close>

definition sst_Open :: "string \<Rightarrow> os_file \<Rightarrow> (error + Reader) \<times> os_file" where
  "sst_Open path f =
     (case f_stat_size f of
        (Inl e, f) \<Rightarrow> (Inl e, f)
      | (Inr size', f) \<Rightarrow>
     if size' < 56 then (Inl sstable_ErrCorrupt, f)
     else
     (case f_ReadAt 56 (int size' - 56) f of
        (Inl e, f) \<Rightarrow> (Inl e, f)
      | (Inr footer, f) \<Rightarrow>
     if le_get (take 4 footer) \<noteq> magicFooter \<or> le_get (take 4 (drop 52 footer)) \<noteq> magicFooter
     then (Inl sstable_ErrBadMagic, f)
     else
     (let indexOff = int_of_u64 (le_get (take 8 (drop 4 footer)));
          indexLen = int_of_u64 (le_get (take 8 (drop 12 footer)));
          bloomOff = int_of_u64 (le_get (take 8 (drop 20 footer)));
          bloomLen = int_of_u64 (le_get (take 8 (drop 28 footer)));
          maxSeq = le_get (take 8 (drop 36 footer));
          entries = le_get (take 8 (drop 44 footer))
      in
     (case (if bloomLen = 0 then (Inr [], f) else make_and_read bloomLen bloomOff f) of
        (Inl e, f) \<Rightarrow> (Inl e, f)
      | (Inr bloomData, f) \<Rightarrow>
     (case Filter_UnmarshalBinary bloomData of
        Inl e \<Rightarrow> (Inl e, f)
      | Inr bf \<Rightarrow>
     (case make_and_read indexLen indexOff f of
        (Inl e, f) \<Rightarrow> (Inl e, f)
      | (Inr indexData, f) \<Rightarrow>
     (case decode_index indexData of
        Inl e \<Rightarrow> (Inl e, f)
      | Inr index \<Rightarrow>
          (Inr \<lparr>r_f = Some f, r_path = path, r_index = index, r_bloom = bf, r_maxSeq = maxSeq,
                r_entries = entries, r_minKey = None,
                r_maxKey = (if index = [] then None else Clone (Some (ir_lastKey (last index)))),
                r_fileSize = size'\<rparr>, f))))))))"

definition Reader_Path :: "Reader \<Rightarrow> string" where "Reader_Path r = r_path r"
definition Reader_MaxSeq :: "Reader \<Rightarrow> u64" where "Reader_MaxSeq r = r_maxSeq r"
definition Reader_Entries :: "Reader \<Rightarrow> u64" where "Reader_Entries r = r_entries r"
definition Reader_FileSize :: "Reader \<Rightarrow> nat" where "Reader_FileSize r = r_fileSize r"

definition Reader_MayContain :: "bytes \<Rightarrow> Reader \<Rightarrow> error + bool" where
  "Reader_MayContain key r = Filter_MayContain key (Some (r_bloom r))"

definition Reader_Close :: "Reader \<Rightarrow> error option \<times> Reader" where
  "Reader_Close r =
     (case r_f r of
        None \<Rightarrow> (None, r)
      | Some f \<Rightarrow> (case f_close f of (e, _) \<Rightarrow> (e, r\<lparr>r_f := None\<rparr>)))"

text \<open>Reading through a closed reader's nil file is an error of the operating system's package.\<close>

definition Reader_readBlock :: "indexRec \<Rightarrow> Reader \<Rightarrow> (error + bytes) \<times> Reader" where
  "Reader_readBlock rec r =
     (if \<not> make_ok (unat (ir_length rec)) 1 then (Inl Panic, r)
      else
        (case r_f r of
           None \<Rightarrow> (Inl OsError, r)
         | Some f \<Rightarrow>
             (case f_ReadAt (unat (ir_length rec)) (int_of_u64 (ir_offset rec)) f of
                (Inl e, f) \<Rightarrow> (Inl e, r\<lparr>r_f := Some f\<rparr>)
              | (Inr buf, f) \<Rightarrow>
                  (let r = r\<lparr>r_f := Some f\<rparr>
                   in if length buf < 8 then (Inl sstable_ErrCorrupt, r)
                      else
                        (let body = take (length buf - 4) buf; want = le_get (drop (length buf - 4) buf)
                         in if ChecksumCastagnoli body \<noteq> want then (Inl sstable_ErrCorrupt, r)
                            else (Inr body, r))))))"

lemma readBlock_index: "Reader_readBlock rec r = (x, r') \<Longrightarrow> r_index r' = r_index r \<and> r_bloom r' = r_bloom r"
  by (auto simp: Reader_readBlock_def Let_def split: if_splits option.splits sum.splits prod.splits)

section \<open>Iterating over a block\<close>

record blockIter =
  bi_data :: bytes
  bi_restarts :: "u32 list"
  bi_off :: int
  bi_key :: bytes
  bi_value :: bytes
  bi_seq :: u64
  bi_deleted :: bool
  bi_valid :: bool

definition parseRestarts :: "bytes \<Rightarrow> error + (bytes \<times> u32 list)" where
  "parseRestarts block =
     (if length block < 4 then Inl sstable_ErrCorrupt
      else
        (let n = unat (le_get (drop (length block - 4) block) :: u32); need = n * 4 + 4
         in if length block < need then Inl sstable_ErrCorrupt
            else
              (let restartOff = length block - need
               in Inr (take restartOff block,
                       map (\<lambda>i. le_get (take 4 (drop (restartOff + i * 4) block))) [0..<n]))))"

text \<open>
  One varint of an entry: the iterator moves behind it, or becomes invalid where it is
  (\<^verbatim>\<open>None\<close>).
\<close>

definition bi_varint :: "blockIter \<Rightarrow> error + (u64 option \<times> blockIter)" where
  "bi_varint it =
     (case slice_from (bi_data it) (bi_off it) of
        None \<Rightarrow> Inl Panic
      | Some b \<Rightarrow>
          (case DecodeUint64 b of
             Inl _ \<Rightarrow> Inr (None, it\<lparr>bi_valid := False\<rparr>)
           | Inr (x, noff) \<Rightarrow> Inr (Some x, it\<lparr>bi_off := bi_off it + int noff\<rparr>)))"

text \<open>
  The rest of \<^verbatim>\<open>Next\<close>, from the flag on.  The conversions to \<^verbatim>\<open>int\<close> and their sums
  wrap; \<^verbatim>\<open>it.key[:shared]\<close> may reach up to the capacity of the key, which is its length.
\<close>

definition bi_finish :: "u64 \<Rightarrow> u64 \<Rightarrow> u64 \<Rightarrow> u64 \<Rightarrow> blockIter \<Rightarrow> error + blockIter" where
  "bi_finish shared nonShared vlen seq it =
     (if bi_off it \<ge> int (length (bi_data it)) then Inr (it\<lparr>bi_valid := False\<rparr>)
      else
        (let flag = bi_data it ! nat (bi_off it);
             off = bi_off it + 1;
             it = it\<lparr>bi_off := off\<rparr>;
             koff = wrap_int (off + int_of_u64 nonShared);
             voff = wrap_int (koff + int_of_u64 vlen);
             klen = wrap_int (int_of_u64 shared + int_of_u64 nonShared)
         in if voff > int (length (bi_data it)) then Inr (it\<lparr>bi_valid := False\<rparr>)
            else if klen < 0 \<or> \<not> make_ok (nat klen) 1 \<or> unat shared > length (bi_key it)
                    \<or> int (unat shared) > klen
            then Inl Panic
            else
              (case slice_range (bi_data it) off koff of
                 None \<Rightarrow> Inl Panic
               | Some suffix \<Rightarrow>
                   (case slice_range (bi_data it) koff voff of
                      None \<Rightarrow> Inl Panic
                    | Some val \<Rightarrow>
                        Inr (it\<lparr>bi_off := voff, bi_key := take (unat shared) (bi_key it) @ suffix,
                                bi_value := val, bi_seq := seq, bi_deleted := (flag = flagDelete),
                                bi_valid := True\<rparr>)))))"

definition blockIter_Next :: "blockIter \<Rightarrow> error + blockIter" where
  "blockIter_Next it =
     (if bi_off it \<ge> int (length (bi_data it)) then Inr (it\<lparr>bi_valid := False\<rparr>)
      else
        (case bi_varint it of
           Inl e \<Rightarrow> Inl e | Inr (None, it) \<Rightarrow> Inr it
         | Inr (Some shared, it) \<Rightarrow>
        (case bi_varint it of
           Inl e \<Rightarrow> Inl e | Inr (None, it) \<Rightarrow> Inr it
         | Inr (Some nonShared, it) \<Rightarrow>
        (case bi_varint it of
           Inl e \<Rightarrow> Inl e | Inr (None, it) \<Rightarrow> Inr it
         | Inr (Some vlen, it) \<Rightarrow>
        (case bi_varint it of
           Inl e \<Rightarrow> Inl e | Inr (None, it) \<Rightarrow> Inr it
         | Inr (Some seq, it) \<Rightarrow> bi_finish shared nonShared vlen seq it)))))"

definition newBlockIter :: "bytes \<Rightarrow> error + blockIter" where
  "newBlockIter block =
     (case parseRestarts block of
        Inl e \<Rightarrow> Inl e
      | Inr (data, restarts) \<Rightarrow>
          blockIter_Next \<lparr>bi_data = data, bi_restarts = restarts, bi_off = 0, bi_key = [],
            bi_value = [], bi_seq = 0, bi_deleted = False, bi_valid = False\<rparr>)"

definition blockIter_Valid :: "blockIter \<Rightarrow> bool" where "blockIter_Valid it = bi_valid it"

text \<open>A call of \<^verbatim>\<open>Next\<close> that leaves the iterator valid moves it forward in its data.\<close>

lemma bi_varint_data:
  "bi_varint it = Inr (x, it') \<Longrightarrow> bi_data it' = bi_data it \<and> bi_restarts it' = bi_restarts it
    \<and> bi_key it' = bi_key it \<and> bi_off it \<le> bi_off it' \<and> (x \<noteq> None \<longrightarrow> bi_off it < bi_off it')
    \<and> (x = None \<longrightarrow> \<not> bi_valid it')"
  using DecodeUint64_bound by (auto simp: bi_varint_def split: option.splits sum.splits prod.splits)

definition bi_forward :: "blockIter \<Rightarrow> blockIter \<Rightarrow> bool" where
  "bi_forward it it' =
     (bi_data it' = bi_data it \<and> bi_restarts it' = bi_restarts it \<and>
      (bi_valid it' \<longrightarrow> bi_off it < bi_off it' \<and> bi_off it' \<le> int (length (bi_data it))))"

lemma bi_finish_forward: "bi_finish shared nonShared vlen seq it = Inr it' \<Longrightarrow> bi_forward it it'"
  by (auto simp: bi_forward_def bi_finish_def Let_def slice_range_def split: if_splits option.splits)

lemma bi_varint_forward:
  assumes "\<And>x it1. g x it1 = Inr it' \<Longrightarrow> bi_forward it1 it'"
    and "(case bi_varint it of
        Inl e \<Rightarrow> Inl e | Inr (None, it) \<Rightarrow> Inr it | Inr (Some x, it) \<Rightarrow> g x it) = Inr it'"
  shows "bi_forward it it'"
proof -
  from assms(2) consider "bi_varint it = Inr (None, it')"
    | x it1 where "bi_varint it = Inr (Some x, it1)" "g x it1 = Inr it'"
    by (auto split: sum.splits prod.splits option.splits)
  then show ?thesis
  proof cases
    case 1
    from bi_varint_data [OF this] show ?thesis by (simp add: bi_forward_def)
  next
    case 2
    from bi_varint_data [OF 2(1)] assms(1) [OF 2(2)] show ?thesis by (auto simp: bi_forward_def)
  qed
qed

lemma blockIter_Next_forward:
  assumes "blockIter_Next it = Inr it'"
  shows "bi_forward it it'"
proof (cases "bi_off it \<ge> int (length (bi_data it))")
  case True
  with assms show ?thesis by (auto simp: blockIter_Next_def bi_forward_def)
next
  case False
  note N = assms [unfolded blockIter_Next_def if_not_P [OF False]]
  show ?thesis
    using N by (elim bi_varint_forward [rotated]) (erule bi_finish_forward)
qed

function blockIter_forward :: "bytes \<Rightarrow> blockIter \<Rightarrow> error + blockIter" where
  "blockIter_forward target it =
     (if bi_valid it \<and> Compare (bi_key it) target < 0
      then (case blockIter_Next it of Inl e \<Rightarrow> Inl e | Inr it \<Rightarrow> blockIter_forward target it)
      else Inr it)"
  by pat_completeness auto
termination
  by (relation "measure (\<lambda>(target, it).
      if bi_valid it then 1 + nat (int (length (bi_data it)) - bi_off it) else 0)")
    (auto simp: bi_forward_def dest: blockIter_Next_forward)

declare blockIter_forward.simps [simp del]

text \<open>The binary search over the restart points, from which \<^verbatim>\<open>Seek\<close> goes forward.\<close>

definition bi_restart_at :: "nat \<Rightarrow> blockIter \<Rightarrow> error + blockIter" where
  "bi_restart_at j it =
     blockIter_Next (it\<lparr>bi_off := int (unat (bi_restarts it ! j)), bi_key := []\<rparr>)"

function Seek_restarts :: "bytes \<Rightarrow> nat \<Rightarrow> nat \<Rightarrow> blockIter \<Rightarrow> error + (nat \<times> blockIter)" where
  "Seek_restarts target lo hi it =
     (if lo < hi then
        (let mid = (lo + hi + 1) div 2
         in case bi_restart_at mid it of
              Inl e \<Rightarrow> Inl e
            | Inr it \<Rightarrow>
                if \<not> bi_valid it then Seek_restarts target lo (mid - 1) it
                else if Compare (bi_key it) target \<le> 0 then Seek_restarts target mid hi it
                else Seek_restarts target lo (mid - 1) it)
      else Inr (lo, it))"
  by pat_completeness auto
termination
  by (relation "measure (\<lambda>(target, lo, hi, it). hi - lo)") auto

declare Seek_restarts.simps [simp del]

definition blockIter_Seek :: "bytes \<Rightarrow> blockIter \<Rightarrow> error + blockIter" where
  "blockIter_Seek target it =
     (if length (bi_restarts it) = 0 then
        (case blockIter_Next (it\<lparr>bi_off := 0, bi_key := []\<rparr>) of
           Inl e \<Rightarrow> Inl e | Inr it \<Rightarrow> blockIter_forward target it)
      else
        (case Seek_restarts target 0 (length (bi_restarts it) - 1) it of
           Inl e \<Rightarrow> Inl e
         | Inr (lo, it) \<Rightarrow>
             (case bi_restart_at lo it of
                Inl e \<Rightarrow> Inl e | Inr it \<Rightarrow> blockIter_forward target it)))"

section \<open>Lookups\<close>

definition zero_sst_Entry :: sst_Entry where
  "zero_sst_Entry = \<lparr>se_Key = None, se_Value = None, se_Seq = 0, se_Deleted = False\<rparr>"

text \<open>The first block whose last key is not below the key.\<close>

definition find_block :: "indexRec list \<Rightarrow> bytes \<Rightarrow> nat" where
  "find_block index key =
     sort_Search (length index) (\<lambda>i. Compare (ir_lastKey (index ! i)) key \<ge> 0)"

definition Reader_Get :: "bytes \<Rightarrow> Reader \<Rightarrow> (error + (sst_Entry \<times> bool)) \<times> Reader" where
  "Reader_Get key r =
     (case Reader_MayContain key r of
        Inl e \<Rightarrow> (Inl e, r)
      | Inr may \<Rightarrow>
          if \<not> may then (Inr (zero_sst_Entry, False), r)
          else if r_index r = [] then (Inr (zero_sst_Entry, False), r)
          else
            (let idx = find_block (r_index r) key
             in if idx \<ge> length (r_index r) then (Inr (zero_sst_Entry, False), r)
                else
                  (case Reader_readBlock (r_index r ! idx) r of
                     (Inl e, r) \<Rightarrow> (Inl e, r)
                   | (Inr block, r) \<Rightarrow>
                       (case newBlockIter block of
                          Inl e \<Rightarrow> (Inl e, r)
                        | Inr it \<Rightarrow>
                            (case blockIter_Seek key it of
                               Inl e \<Rightarrow> (Inl e, r)
                             | Inr it \<Rightarrow>
                                 if bi_valid it \<and> Equal (bi_key it) key
                                 then (Inr (\<lparr>se_Key = Clone (Some (bi_key it)),
                                             se_Value = Clone (Some (bi_value it)),
                                             se_Seq = bi_seq it, se_Deleted = bi_deleted it\<rparr>, True), r)
                                 else (Inr (zero_sst_Entry, False), r))))))"

section \<open>Iterating over a table\<close>

text \<open>
  The reader an iterator points to is passed beside it.  A panic of a block iterator ends the
  call.
\<close>

record TIterator =
  ti_bi :: int
  ti_blockIt :: "blockIter option"
  ti_err :: "error option"

function TIterator_blocks :: "TIterator \<Rightarrow> Reader \<Rightarrow> (error + TIterator) \<times> Reader" where
  "TIterator_blocks it r =
     (if ti_bi it < int (length (r_index r)) then
        (case Reader_readBlock (r_index r ! nat (ti_bi it)) r of
           (Inl Panic, r) \<Rightarrow> (Inl Panic, r)
         | (Inl e, r) \<Rightarrow> (Inr (it\<lparr>ti_err := Some e\<rparr>), r)
         | (Inr block, r') \<Rightarrow>
             (case newBlockIter block of
                Inl Panic \<Rightarrow> (Inl Panic, r')
              | Inl e \<Rightarrow> (Inr (it\<lparr>ti_err := Some e\<rparr>), r')
              | Inr bit' \<Rightarrow>
                  let it = it\<lparr>ti_blockIt := Some bit'\<rparr>
                  in if bi_valid bit' then (Inr it, r')
                     else TIterator_blocks (it\<lparr>ti_bi := ti_bi it + 1\<rparr>) r'))
      else (Inr (it\<lparr>ti_blockIt := None\<rparr>), r))"
  by pat_completeness auto
termination
  by (relation "measure (\<lambda>(it, r). nat (int (length (r_index r)) - ti_bi it))")
    (auto dest!: readBlock_index [OF sym])

declare TIterator_blocks.simps [simp del]

definition TIterator_Valid :: "TIterator \<Rightarrow> bool" where
  "TIterator_Valid it =
     (ti_err it = None \<and> (case ti_blockIt it of None \<Rightarrow> False | Some b \<Rightarrow> bi_valid b))"

definition TIterator_Next :: "TIterator \<Rightarrow> Reader \<Rightarrow> (error + TIterator) \<times> Reader" where
  "TIterator_Next it r =
     (if ti_err it \<noteq> None then (Inr it, r)
      else
        (case (case ti_blockIt it of
                 None \<Rightarrow> Inr (it, False)
               | Some b \<Rightarrow>
                   (case blockIter_Next b of
                      Inl e \<Rightarrow> Inl e
                    | Inr b \<Rightarrow> Inr (it\<lparr>ti_blockIt := Some b\<rparr>, bi_valid b))) of
           Inl e \<Rightarrow> (Inl e, r)
         | Inr (it, done') \<Rightarrow>
             if done' then (Inr it, r)
             else TIterator_blocks (it\<lparr>ti_bi := ti_bi it + 1\<rparr>) r))"

definition Reader_NewIterator :: "Reader \<Rightarrow> (error + TIterator) \<times> Reader" where
  "Reader_NewIterator r = TIterator_Next \<lparr>ti_bi = -1, ti_blockIt = None, ti_err = None\<rparr> r"

definition TIterator_Seek :: "bytes \<Rightarrow> TIterator \<Rightarrow> Reader \<Rightarrow> (error + TIterator) \<times> Reader" where
  "TIterator_Seek target it r =
     (let it = it\<lparr>ti_err := None\<rparr>
      in if r_index r = [] then (Inr (it\<lparr>ti_blockIt := None\<rparr>), r)
         else
           (let idx = find_block (r_index r) target
            in if idx \<ge> length (r_index r)
               then (Inr (it\<lparr>ti_bi := int (length (r_index r)), ti_blockIt := None\<rparr>), r)
               else
                 (let it = it\<lparr>ti_bi := int idx\<rparr>
                  in case Reader_readBlock (r_index r ! idx) r of
                       (Inl Panic, r) \<Rightarrow> (Inl Panic, r)
                     | (Inl e, r) \<Rightarrow> (Inr (it\<lparr>ti_err := Some e\<rparr>), r)
                     | (Inr block, r) \<Rightarrow>
                         (case newBlockIter block of
                            Inl Panic \<Rightarrow> (Inl Panic, r)
                          | Inl e \<Rightarrow> (Inr (it\<lparr>ti_err := Some e\<rparr>), r)
                          | Inr bit' \<Rightarrow>
                              (case blockIter_Seek target bit' of
                                 Inl e \<Rightarrow> (Inl e, r)
                               | Inr bit' \<Rightarrow>
                                   let it = it\<lparr>ti_blockIt := Some bit'\<rparr>
                                   in if \<not> bi_valid bit' then TIterator_Next it r else (Inr it, r))))))"

definition TIterator_Key :: "TIterator \<Rightarrow> slice" where
  "TIterator_Key it =
     (if TIterator_Valid it then Clone (Some (bi_key (the (ti_blockIt it)))) else None)"

definition TIterator_Value :: "TIterator \<Rightarrow> slice" where
  "TIterator_Value it =
     (if TIterator_Valid it then Clone (Some (bi_value (the (ti_blockIt it)))) else None)"

definition TIterator_Seq :: "TIterator \<Rightarrow> u64" where
  "TIterator_Seq it = (if TIterator_Valid it then bi_seq (the (ti_blockIt it)) else 0)"

definition TIterator_Deleted :: "TIterator \<Rightarrow> bool" where
  "TIterator_Deleted it = (if TIterator_Valid it then bi_deleted (the (ti_blockIt it)) else False)"

definition TIterator_Err :: "TIterator \<Rightarrow> error option" where "TIterator_Err it = ti_err it"

definition TIterator_Entry :: "TIterator \<Rightarrow> sst_Entry" where
  "TIterator_Entry it =
     (if TIterator_Valid it
      then \<lparr>se_Key = TIterator_Key it, se_Value = TIterator_Value it, se_Seq = TIterator_Seq it,
            se_Deleted = TIterator_Deleted it\<rparr>
      else zero_sst_Entry)"

end
