(* ===== verification/Sstable_Blocks.thy ===== *)
theory Sstable_Blocks imports Sstable begin

text \<open>
  One block of a table, as data: what the writer's buffer and restart list are for a list of
  entries, and what the block iterator reads back from them.
\<close>

section \<open>The encoding of a block\<close>

definition skey :: "sst_Entry \<Rightarrow> bytes" where "skey e = sbytes (se_Key e)"
definition sval :: "sst_Entry \<Rightarrow> bytes" where "sval e = sbytes (se_Value e)"

text \<open>The entry as it is read back: a nil value comes back empty.\<close>

definition stored :: "sst_Entry \<Rightarrow> sst_Entry" where
  "stored e = \<lparr>se_Key = Some (skey e), se_Value = Some (sval e), se_Seq = se_Seq e, se_Deleted = se_Deleted e\<rparr>"

definition shared_at :: "nat \<Rightarrow> nat \<Rightarrow> bytes \<Rightarrow> sst_Entry \<Rightarrow> nat" where
  "shared_at ri n prev e = (if n mod ri \<noteq> 0 then SharedPrefixLen prev (skey e) else 0)"

fun block_enc :: "nat \<Rightarrow> nat \<Rightarrow> bytes \<Rightarrow> sst_Entry list \<Rightarrow> bytes" where
  "block_enc ri n prev [] = []"
| "block_enc ri n prev (e # es) =
     enc_entry (shared_at ri n prev e) e @ block_enc ri (n + 1) (skey e) es"

definition last_key :: "bytes \<Rightarrow> sst_Entry list \<Rightarrow> bytes" where
  "last_key prev es = (if es = [] then prev else skey (last es))"

lemma block_enc_append:
  "block_enc ri n prev (es @ es') =
    block_enc ri n prev es @ block_enc ri (n + length es) (last_key prev es) es'"
  by (induction es arbitrary: n prev) (auto simp: last_key_def)

definition block_data :: "nat \<Rightarrow> sst_Entry list \<Rightarrow> bytes" where
  "block_data ri es = block_enc ri 0 [] es"

text \<open>Where the k-th entry starts, and the entries that start a restart interval.\<close>

definition entry_off :: "nat \<Rightarrow> sst_Entry list \<Rightarrow> nat \<Rightarrow> nat" where
  "entry_off ri es k = length (block_data ri (take k es))"

definition restart_entries :: "nat \<Rightarrow> nat \<Rightarrow> nat list" where
  "restart_entries ri n = filter (\<lambda>k. k mod ri = 0) [0..<n]"

definition block_restarts :: "nat \<Rightarrow> sst_Entry list \<Rightarrow> u32 list" where
  "block_restarts ri es = map (\<lambda>k. of_nat (entry_off ri es k)) (restart_entries ri (length es))"

definition block_body :: "nat \<Rightarrow> sst_Entry list \<Rightarrow> bytes" where
  "block_body ri es =
     block_data ri es @ concat (map (le_put 4) (block_restarts ri es)) @
     le_put 4 (of_nat (length (block_restarts ri es)) :: u32)"

definition block_bytes :: "nat \<Rightarrow> sst_Entry list \<Rightarrow> bytes" where
  "block_bytes ri es = block_body ri es @ le_put 4 (ChecksumCastagnoli (block_body ri es))"

lemma enc_entry_eq:
  "enc_entry shared e =
     EncodeUint64 [] (of_nat shared) @ EncodeUint64 [] (of_nat (length (skey e) - shared)) @
     EncodeUint64 [] (of_nat (length (sval e))) @ EncodeUint64 [] (se_Seq e) @
     [if se_Deleted e then flagDelete else flagValue] @ drop shared (skey e) @ sval e"
proof -
  have e: "EncodeUint64 (p @ q) x = p @ EncodeUint64 q x" for p q x
    by (metis EncodeUint64_acc append_assoc)
  have e0: "EncodeUint64 (EncodeUint64 [] y) x = EncodeUint64 [] y @ EncodeUint64 [] x" for x y
    by (rule EncodeUint64_acc)
  show ?thesis unfolding enc_entry_def Let_def skey_def sval_def by (simp add: e e0)
qed

definition esize :: "sst_Entry \<Rightarrow> nat" where
  "esize e = length (skey e) + length (sval e) + 64"

definition total_size :: "sst_Entry list \<Rightarrow> nat" where
  "total_size es = sum_list (map esize es)"

lemma total_size_simps [simp]:
  "total_size [] = 0" "total_size (e # es) = esize e + total_size es"
  "total_size (es @ es') = total_size es + total_size es'"
  by (simp_all add: total_size_def)

lemma total_size_concat: "total_size (concat ess) = sum_list (map total_size ess)"
  by (induction ess) auto

lemma length_enc_entry: "length (enc_entry shared e) \<le> esize e"
  using SizeUint64_le_10 [of "of_nat shared"] SizeUint64_le_10 [of "of_nat (length (skey e) - shared)"]
    SizeUint64_le_10 [of "of_nat (length (sval e))"] SizeUint64_le_10 [of "se_Seq e"]
  by (simp add: enc_entry_eq esize_def MaxUint64Len_def)

lemma enc_entry_nonempty: "0 < length (enc_entry shared e)"
  by (simp add: enc_entry_eq)

lemma length_block_enc: "length (block_enc ri n prev es) \<le> total_size es"
proof (induction es arbitrary: n prev)
  case (Cons e es)
  from Cons [of "n + 1" "skey e"] length_enc_entry [of "shared_at ri n prev e" e] show ?case by simp
qed simp

lemma length_le_total: "64 * length es \<le> total_size es"
  by (induction es) (auto simp: esize_def)

lemma esize_mem: "e \<in> set es \<Longrightarrow> esize e \<le> total_size es"
  by (induction es) auto

lemma total_size_take: "total_size (take k es) \<le> total_size es"
  by (metis append_take_drop_id le_add1 total_size_simps(3))

lemma entry_off_le: "entry_off ri es k \<le> total_size es"
  using length_block_enc [of ri 0 "[]" "take k es"] total_size_take [of k es]
  by (simp add: entry_off_def block_data_def)

lemma block_data_at:
  assumes "k < length es"
  shows "block_data ri es = block_data ri (take k es) @
    enc_entry (shared_at ri k (last_key [] (take k es)) (es ! k)) (es ! k) @
    block_enc ri (k + 1) (skey (es ! k)) (drop (k + 1) es)"
proof -
  have "es = take k es @ es ! k # drop (k + 1) es" using assms by (simp add: id_take_nth_drop)
  then have "block_data ri es = block_enc ri 0 [] (take k es @ es ! k # drop (k + 1) es)"
    unfolding block_data_def by (rule arg_cong)
  also have "\<dots> = block_enc ri 0 [] (take k es) @ block_enc ri (0 + length (take k es)) (last_key [] (take k es))
      (es ! k # drop (k + 1) es)" by (rule block_enc_append)
  finally show ?thesis using assms by (simp add: block_data_def min_def)
qed

lemma entry_off_Suc:
  assumes "k < length es"
  shows "entry_off ri es (k + 1) = entry_off ri es k +
    length (enc_entry (shared_at ri k (last_key [] (take k es)) (es ! k)) (es ! k))"
  using assms
  by (simp add: entry_off_def take_Suc_conv_app_nth block_data_def block_enc_append min_def)

lemma entry_off_end: "entry_off ri es (length es) = length (block_data ri es)"
  by (simp add: entry_off_def)

lemma entry_off_less:
  assumes "k < length es"
  shows "entry_off ri es k < length (block_data ri es)"
  using block_data_at [OF assms, of ri] enc_entry_nonempty
  by (simp add: entry_off_def)

lemma shared_le: "shared_at ri n prev e \<le> length (skey e)" "shared_at ri n prev e \<le> length prev"
  "take (shared_at ri n prev e) prev = take (shared_at ri n prev e) (skey e)"
  using SharedPrefixLen_props [of prev "skey e"] by (auto simp: shared_at_def)

section \<open>Reading one entry\<close>

definition it_entry :: "blockIter \<Rightarrow> sst_Entry" where
  "it_entry it = \<lparr>se_Key = Some (bi_key it), se_Value = Some (bi_value it), se_Seq = bi_seq it,
     se_Deleted = bi_deleted it\<rparr>"

lemma bi_varint_enc:
  assumes "bi_data it = pre @ EncodeUint64 [] x @ rest" and "bi_off it = int (length pre)"
  shows "bi_varint it = Inr (Some x, it\<lparr>bi_off := int (length (pre @ EncodeUint64 [] x))\<rparr>)"
  using assms by (simp add: bi_varint_def)

lemma int_len_u64: "n < 2 ^ 62 \<Longrightarrow> int_of_u64 (of_nat n) = int n" "n < 2 ^ 62 \<Longrightarrow> unat (of_nat n :: u64) = n"
  by (simp_all add: int_of_u64_of_nat unsigned_of_nat take_bit_nat_eq_self)

lemma bi_finish_enc:
  assumes d: "bi_data it = pre @ [flag] @ suffix @ val @ rest" "bi_off it = int (length pre)"
    and len: "length (bi_data it) + shared < 2 ^ 32" and sh: "shared \<le> length (bi_key it)"
  shows "bi_finish (of_nat shared) (of_nat (length suffix)) (of_nat (length val)) seq it =
    Inr (it\<lparr>bi_off := int (length (pre @ [flag] @ suffix @ val)), bi_key := take shared (bi_key it) @ suffix,
      bi_value := val, bi_seq := seq, bi_deleted := (flag = flagDelete), bi_valid := True\<rparr>)"
proof -
  let ?p = "pre @ [flag]"
  have lens: "length suffix < 2 ^ 62" "length val < 2 ^ 62" "shared < 2 ^ 62" "shared + length suffix < 2 ^ 33"
    using len d(1) by simp_all
  have k: "wrap_int (int (length pre) + 1 + int (length suffix)) = int (length (?p @ suffix))"
    using len d(1) by (subst wrap_int_id) simp_all
  have v: "wrap_int (int (length (?p @ suffix)) + int (length val)) = int (length (?p @ suffix @ val))"
    using len d(1) by (subst wrap_int_id) simp_all
  have kl: "wrap_int (int shared + int (length suffix)) = int (shared + length suffix)"
    using lens by (subst wrap_int_id) simp_all
  have s1: "slice_range (bi_data it) (int (length pre) + 1) (int (length (?p @ suffix))) = Some suffix"
    using slice_range_append [of ?p suffix "val @ rest"] d(1) by (simp add: add.commute add.left_commute)
  have s2: "slice_range (bi_data it) (int (length (?p @ suffix))) (int (length (?p @ suffix @ val))) = Some val"
    using slice_range_append [of "?p @ suffix" val rest] d(1) by (simp add: add.commute add.left_commute)
  have lo: "int (length pre) < int (length (bi_data it))" using d(1) by simp
  have fl: "bi_data it ! length pre = flag" using d(1) by simp
  have mk: "make_ok (shared + length suffix) 1" using lens by (simp add: make_ok_def)
  have vl: "int (length (?p @ suffix @ val)) \<le> int (length (bi_data it))" using d(1) by simp
  show ?thesis
    unfolding bi_finish_def Let_def d(2) int_len_u64(1) [OF lens(1)] int_len_u64(1) [OF lens(2)]
      int_len_u64(1) [OF lens(3)] int_len_u64(2) [OF lens(3)] k v kl
    using lo fl mk vl sh s1 s2 by (simp add: not_le nat_add_distrib)
qed

lemma Next_enc:
  assumes d: "bi_data it = pre @ enc_entry shared e @ rest" and off: "bi_off it = int (length pre)"
    and len: "length (bi_data it) + length (skey e) < 2 ^ 32"
    and sh: "shared \<le> length (bi_key it)" "shared \<le> length (skey e)"
      "take shared (bi_key it) = take shared (skey e)"
  shows "blockIter_Next it = Inr (it\<lparr>bi_off := int (length (pre @ enc_entry shared e)), bi_key := skey e,
    bi_value := sval e, bi_seq := se_Seq e, bi_deleted := se_Deleted e, bi_valid := True\<rparr>)"
proof -
  let ?a = "EncodeUint64 [] (of_nat shared)" and ?b = "EncodeUint64 [] (of_nat (length (skey e) - shared))"
    and ?c = "EncodeUint64 [] (of_nat (length (sval e)))" and ?s = "EncodeUint64 [] (se_Seq e)"
    and ?f = "if se_Deleted e then flagDelete else flagValue"
  let ?t = "[?f] @ drop shared (skey e) @ sval e @ rest"
  have D: "bi_data it = pre @ ?a @ ?b @ ?c @ ?s @ ?t" using d by (simp add: enc_entry_eq)
  define i1 where "i1 = it\<lparr>bi_off := int (length (pre @ ?a))\<rparr>"
  define i2 where "i2 = i1\<lparr>bi_off := int (length ((pre @ ?a) @ ?b))\<rparr>"
  define i3 where "i3 = i2\<lparr>bi_off := int (length ((pre @ ?a @ ?b) @ ?c))\<rparr>"
  define i4 where "i4 = i3\<lparr>bi_off := int (length ((pre @ ?a @ ?b @ ?c) @ ?s))\<rparr>"
  have v1: "bi_varint it = Inr (Some (of_nat shared), i1)"
    unfolding i1_def by (rule bi_varint_enc [OF D off])
  have v2: "bi_varint i1 = Inr (Some (of_nat (length (skey e) - shared)), i2)"
    unfolding i2_def by (rule bi_varint_enc [where rest = "?c @ ?s @ ?t"]) (simp_all add: i1_def D)
  have v3: "bi_varint i2 = Inr (Some (of_nat (length (sval e))), i3)"
    unfolding i3_def by (rule bi_varint_enc [where rest = "?s @ ?t"]) (simp_all add: i2_def i1_def D)
  have v4: "bi_varint i3 = Inr (Some (se_Seq e), i4)"
    unfolding i4_def by (rule bi_varint_enc [where rest = ?t]) (simp_all add: i3_def i2_def i1_def D)
  have d4: "bi_data i4 = (pre @ ?a @ ?b @ ?c @ ?s) @ [?f] @ drop shared (skey e) @ sval e @ rest"
    "bi_off i4 = int (length (pre @ ?a @ ?b @ ?c @ ?s))" "bi_key i4 = bi_key it"
    by (simp_all add: i4_def i3_def i2_def i1_def D)
  have l4: "length (bi_data i4) + shared < 2 ^ 32" "shared \<le> length (bi_key i4)"
    using len sh by (simp_all add: i4_def i3_def i2_def i1_def)
  have F: "bi_finish (of_nat shared) (of_nat (length (skey e) - shared)) (of_nat (length (sval e))) (se_Seq e) i4 =
      Inr (i4\<lparr>bi_off := int (length ((pre @ ?a @ ?b @ ?c @ ?s) @ [?f] @ drop shared (skey e) @ sval e)),
        bi_key := take shared (bi_key i4) @ drop shared (skey e), bi_value := sval e, bi_seq := se_Seq e,
        bi_deleted := (?f = flagDelete), bi_valid := True\<rparr>)"
    using bi_finish_enc [OF d4(1,2) l4] by simp
  have k: "take shared (bi_key i4) @ drop shared (skey e) = skey e" using sh(3) d4(3) by simp
  have fd: "(?f = flagDelete) = se_Deleted e" by (simp add: flagDelete_def flagValue_def)
  have o: "\<not> int (length (bi_data it)) \<le> bi_off it" using off D by simp
  have "length (pre @ enc_entry shared e) =
      length ((pre @ ?a @ ?b @ ?c @ ?s) @ [?f] @ drop shared (skey e) @ sval e)"
    by (simp add: enc_entry_eq)
  then show ?thesis
    unfolding blockIter_Next_def if_not_P [OF o] v1 sum.case prod.case option.case v2 v3 v4 F k fd
    by (simp add: i4_def i3_def i2_def i1_def)
qed

section \<open>Iterating over a block\<close>

text \<open>
  The iterator is over the block of these entries; it is on the k-th of them, or invalid behind
  the last.
\<close>

definition it_block :: "nat \<Rightarrow> sst_Entry list \<Rightarrow> blockIter \<Rightarrow> bool" where
  "it_block ri es it = (bi_data it = block_data ri es \<and> bi_restarts it = block_restarts ri es)"

definition it_at :: "nat \<Rightarrow> sst_Entry list \<Rightarrow> nat \<Rightarrow> blockIter \<Rightarrow> bool" where
  "it_at ri es k it =
     (it_block ri es it \<and>
      (if k < length es
       then bi_valid it \<and> it_entry it = stored (es ! k) \<and> bi_off it = int (entry_off ri es (k + 1))
       else k = length es \<and> \<not> bi_valid it))"

lemma it_entry_eq: "it_entry it = stored e \<longleftrightarrow>
    bi_key it = skey e \<and> bi_value it = sval e \<and> bi_seq it = se_Seq e \<and> bi_deleted it = se_Deleted e"
  by (simp add: it_entry_def stored_def)

lemma size_bounds:
  assumes "total_size es < 2 ^ 31" and "k < length es"
  shows "length (block_data ri es) + length (skey (es ! k)) < 2 ^ 32"
    and "length (block_data ri es) < 2 ^ 31"
proof -
  have "length (block_data ri es) \<le> total_size es" by (simp add: block_data_def length_block_enc)
  moreover have "length (skey (es ! k)) \<le> total_size es"
    using esize_mem [of "es ! k" es] assms(2) by (simp add: esize_def)
  ultimately show "length (block_data ri es) + length (skey (es ! k)) < 2 ^ 32"
    "length (block_data ri es) < 2 ^ 31" using assms(1) by simp_all
qed

text \<open>Decoding the k-th entry, when the iterator holds what the entry shares with the one before.\<close>

lemma Next_at_off:
  assumes "it_block ri es it" and "total_size es < 2 ^ 31" and "k < length es"
    and "bi_off it = int (entry_off ri es k)"
    and "k mod ri \<noteq> 0 \<longrightarrow> 0 < k \<and> bi_key it = skey (es ! (k - 1))"
  shows "\<exists>it'. blockIter_Next it = Inr it' \<and> it_at ri es k it'"
proof -
  let ?prev = "last_key [] (take k es)" and ?e = "es ! k"
  let ?sh = "shared_at ri k ?prev ?e"
  have sh: "?sh \<le> length (bi_key it)" "take ?sh (bi_key it) = take ?sh (skey ?e)"
  proof -
    have "?sh = 0 \<or> bi_key it = ?prev"
      using assms(3,5) by (auto simp: shared_at_def last_key_def last_conv_nth)
    then show "?sh \<le> length (bi_key it)" "take ?sh (bi_key it) = take ?sh (skey ?e)"
      using shared_le [of ri k ?prev ?e] by auto
  qed
  have d: "bi_data it = block_data ri (take k es) @ enc_entry ?sh ?e @
      block_enc ri (k + 1) (skey ?e) (drop (k + 1) es)"
    using assms(1) block_data_at [OF assms(3)] by (simp add: it_block_def)
  have len: "length (bi_data it) + length (skey ?e) < 2 ^ 32"
    using size_bounds(1) [OF assms(2,3)] assms(1) by (simp add: it_block_def)
  have "blockIter_Next it = Inr (it\<lparr>bi_off := int (length (block_data ri (take k es) @ enc_entry ?sh ?e)),
      bi_key := skey ?e, bi_value := sval ?e, bi_seq := se_Seq ?e, bi_deleted := se_Deleted ?e, bi_valid := True\<rparr>)"
    by (rule Next_enc [OF d _ len sh(1) shared_le(1) sh(2)]) (simp add: assms(4) entry_off_def)
  moreover have "int (length (block_data ri (take k es) @ enc_entry ?sh ?e)) = int (entry_off ri es (k + 1))"
    using entry_off_Suc [OF assms(3)] by (simp add: entry_off_def)
  ultimately show ?thesis using assms(1,3) by (simp add: it_at_def it_block_def it_entry_eq)
qed

lemma Next_at:
  assumes "it_at ri es k it" and "total_size es < 2 ^ 31" and "k < length es"
  shows "\<exists>it'. blockIter_Next it = Inr it' \<and> it_at ri es (k + 1) it'"
proof (cases "k + 1 < length es")
  case True
  show ?thesis
    by (rule Next_at_off) (use assms True in \<open>simp_all add: it_at_def it_entry_eq\<close>)
next
  case False
  then have k: "k + 1 = length es" using assms(3) by simp
  with assms show ?thesis
    by (auto simp: it_at_def blockIter_Next_def it_block_def entry_off_end)
qed

lemma Next_end:
  assumes "it_at ri es (length es) it" and "bi_off it \<ge> int (length (bi_data it))"
  shows "\<exists>it'. blockIter_Next it = Inr it' \<and> it_at ri es (length es) it'"
  using assms by (auto simp: it_at_def blockIter_Next_def it_block_def)

text \<open>From a restart point the entry can be decoded with no key at hand.\<close>

lemma restart_entries_props:
  "j < length (restart_entries ri n) \<Longrightarrow> restart_entries ri n ! j < n \<and> restart_entries ri n ! j mod ri = 0"
  using nth_mem [of j "restart_entries ri n"] by (auto simp: restart_entries_def)

lemma restart_entries_0: "0 < n \<Longrightarrow> restart_entries ri n ! 0 = 0 \<and> 0 < length (restart_entries ri n)"
  by (simp add: restart_entries_def upt_conv_Cons)

lemma bi_restart_at_entry:
  assumes "it_block ri es it" and "total_size es < 2 ^ 31"
    and "j < length (restart_entries ri (length es))"
  shows "\<exists>it'. bi_restart_at j it = Inr it' \<and> it_at ri es (restart_entries ri (length es) ! j) it'"
proof -
  let ?k = "restart_entries ri (length es) ! j"
  have k: "?k < length es" "?k mod ri = 0" using restart_entries_props [OF assms(3)] by auto
  have "entry_off ri es ?k < 2 ^ 32" using entry_off_le [of ri es ?k] assms(2) by simp
  then have "unat (bi_restarts it ! j) = entry_off ri es ?k"
    using assms(1,3) by (simp add: it_block_def block_restarts_def unsigned_of_nat take_bit_nat_eq_self)
  then show ?thesis
    unfolding bi_restart_at_def
    by (intro Next_at_off) (use assms k in \<open>simp_all add: it_block_def\<close>)
qed

section \<open>Seeking in a block\<close>

definition keys_sorted :: "sst_Entry list \<Rightarrow> bool" where
  "keys_sorted es = sorted_wrt (\<lambda>a b. skey a < skey b) es"

text \<open>The number of entries before the first one whose key is not below the target.\<close>

definition rank :: "bytes \<Rightarrow> sst_Entry list \<Rightarrow> nat" where
  "rank target es = length (filter (\<lambda>e. skey e < target) es)"

lemma rank_le: "rank target es \<le> length es"
  by (simp add: rank_def)

lemma rank_less_iff:
  assumes "keys_sorted es" and "k < length es"
  shows "k < rank target es \<longleftrightarrow> skey (es ! k) < target"
  using assms
proof (induction es arbitrary: k)
  case (Cons e es)
  have gt: "\<forall>x\<in>set es. skey e < skey x" and s: "keys_sorted es"
    using Cons.prems by (auto simp: keys_sorted_def)
  show ?case
  proof (cases "skey e < target")
    case True
    then show ?thesis using Cons.IH [OF s] Cons.prems(2) by (cases k) (auto simp: rank_def)
  next
    case False
    then have no: "\<forall>x\<in>set (e # es). \<not> skey x < target"
      using gt by (auto dest: order.strict_trans)
    then have "rank target (e # es) = 0" by (simp add: rank_def filter_empty_conv)
    moreover have "(e # es) ! k \<in> set (e # es)" using Cons.prems(2) by (rule nth_mem)
    then have "\<not> skey ((e # es) ! k) < target" using no by blast
    ultimately show ?thesis by simp
  qed
qed simp

lemma forward_at:
  assumes "it_at ri es k it" and "total_size es < 2 ^ 31" and "keys_sorted es" and "k \<le> rank target es"
  shows "\<exists>it'. blockIter_forward target it = Inr it' \<and> it_at ri es (rank target es) it'"
  using assms(1,4)
proof (induction "rank target es - k" arbitrary: k it)
  case 0
  then have k: "k = rank target es" by simp
  have "\<not> (bi_valid it \<and> Compare (bi_key it) target < 0)"
  proof (cases "k < length es")
    case True
    with 0 k rank_less_iff [OF assms(3) True, of target] show ?thesis
      by (auto simp: it_at_def it_entry_eq)
  qed (use 0 in \<open>simp add: it_at_def\<close>)
  then show ?case using 0 k by (subst blockIter_forward.simps) auto
next
  case (Suc d)
  then have lt: "k < rank target es" by simp
  then have k: "k < length es" using rank_le [of target es] by simp
  have "bi_valid it \<and> Compare (bi_key it) target < 0"
    using Suc.prems(1) k lt rank_less_iff [OF assms(3) k, of target] by (simp add: it_at_def it_entry_eq)
  moreover obtain it1 where "blockIter_Next it = Inr it1" "it_at ri es (k + 1) it1"
    using Next_at [OF Suc.prems(1) assms(2) k] by blast
  moreover have "\<exists>it'. blockIter_forward target it1 = Inr it' \<and> it_at ri es (rank target es) it'"
    using Suc.hyps(1) [of "k + 1" it1] Suc.hyps(2) lt calculation(3) by simp
  ultimately show ?case by (subst blockIter_forward.simps) simp
qed

lemma Seek_restarts_at:
  assumes "it_block ri es it" and "total_size es < 2 ^ 31" and "keys_sorted es"
    and "lo \<le> hi" and "hi < length (restart_entries ri (length es))"
    and "restart_entries ri (length es) ! lo \<le> rank target es"
  shows "\<exists>lo' it'. Seek_restarts target lo hi it = Inr (lo', it') \<and> it_block ri es it'
    \<and> lo' < length (restart_entries ri (length es)) \<and> restart_entries ri (length es) ! lo' \<le> rank target es"
  using assms(1,4-6)
proof (induction target lo hi it rule: Seek_restarts.induct)
  case (1 target lo hi it)
  let ?R = "restart_entries ri (length es)"
  show ?case
  proof (cases "lo < hi")
    case False
    then show ?thesis using 1 by (subst Seek_restarts.simps) auto
  next
    case True
    let ?mid = "(lo + hi + 1) div 2"
    have mid: "lo < ?mid" "?mid \<le> hi" using True by auto
    then have midR: "?mid < length ?R" using "1.prems"(3) by simp
    from bi_restart_at_entry [OF "1.prems"(1) assms(2) midR] obtain it1 where
      it1: "bi_restart_at ?mid it = Inr it1" "it_at ri es (?R ! ?mid) it1" by blast
    have k: "?R ! ?mid < length es" using restart_entries_props [OF midR] by simp
    have v: "bi_valid it1" "bi_key it1 = skey (es ! (?R ! ?mid))" "it_block ri es it1"
      using it1(2) k by (auto simp: it_at_def it_entry_eq)
    show ?thesis
    proof (cases "bi_key it1 \<le> target")
      case True': True
      have "?R ! ?mid \<le> rank target es"
      proof (rule ccontr)
        assume "\<not> ?R ! ?mid \<le> rank target es"
        then have r: "rank target es < ?R ! ?mid" by simp
        then have "skey (es ! rank target es) < skey (es ! (?R ! ?mid))"
          using assms(3) k by (simp add: keys_sorted_def sorted_wrt_iff_nth_less)
        moreover have "\<not> skey (es ! rank target es) < target"
          using rank_less_iff [OF assms(3), of "rank target es" target] r k by simp
        ultimately show False using True' v(2) by (metis less_le_trans)
      qed
      with "1.IH"(2) [OF True refl it1(1)] v True' mid "1.prems"(3) it1(1) True show ?thesis
        by (subst Seek_restarts.simps) (simp add: Let_def)
    next
      case False
      with "1.IH"(3) [OF True refl it1(1)] v mid "1.prems"(3,4) it1(1) True show ?thesis
        by (subst Seek_restarts.simps) (simp add: Let_def)
    qed
  qed
qed

lemma blockIter_Seek_at:
  assumes "it_block ri es it" and "total_size es < 2 ^ 31" and "keys_sorted es" and "es \<noteq> []"
  shows "\<exists>it'. blockIter_Seek target it = Inr it' \<and> it_at ri es (rank target es) it'"
proof -
  let ?R = "restart_entries ri (length es)"
  have R: "0 < length ?R" "?R ! 0 = 0" using restart_entries_0 [of "length es" ri] assms(4) by auto
  have len: "length (bi_restarts it) = length ?R" using assms(1) by (simp add: it_block_def block_restarts_def)
  obtain lo it1 where 1: "Seek_restarts target 0 (length ?R - 1) it = Inr (lo, it1)" "it_block ri es it1"
    "lo < length ?R" "?R ! lo \<le> rank target es"
    using Seek_restarts_at [OF assms(1-3), of 0 "length ?R - 1" target] R by auto
  obtain it2 where 2: "bi_restart_at lo it1 = Inr it2" "it_at ri es (?R ! lo) it2"
    using bi_restart_at_entry [OF 1(2) assms(2) 1(3)] by blast
  from forward_at [OF 2(2) assms(2,3) 1(4)] 1 2 len R show ?thesis
    by (auto simp: blockIter_Seek_def)
qed

section \<open>Parsing a block\<close>

lemma length_concat_le_put: "length (concat (map (le_put 4) (xs :: u32 list))) = 4 * length xs"
  by (induction xs) auto

lemma nth_concat_le_put:
  "i < length xs \<Longrightarrow> take 4 (drop (i * 4) (concat (map (le_put 4) (xs :: u32 list)))) = le_put 4 (xs ! i)"
proof (induction xs arbitrary: i)
  case (Cons x xs)
  then show ?case by (cases i) (simp_all add: drop_append take_append del: le_put.simps)
qed simp

lemma restart_count: "length (block_restarts ri es) \<le> length es"
  using length_filter_le [of "\<lambda>k. k mod ri = 0" "[0..<length es]"]
  by (simp add: block_restarts_def restart_entries_def)

lemma parseRestarts_body:
  assumes "length es < 2 ^ 31"
  shows "parseRestarts (block_body ri es) = Inr (block_data ri es, block_restarts ri es)"
proof -
  let ?D = "block_data ri es" and ?R = "block_restarts ri es"
  let ?Rb = "concat (map (le_put 4) ?R)" and ?N = "le_put 4 (of_nat (length ?R) :: u32)"
  have B: "block_body ri es = ?D @ ?Rb @ ?N" by (simp add: block_body_def)
  have n: "unat (of_nat (length ?R) :: u32) = length ?R"
    using restart_count [of ri es] assms by (simp add: unsigned_of_nat take_bit_nat_eq_self)
  have len: "length (block_body ri es) = length ?D + 4 * length ?R + 4"
    by (simp add: B length_concat_le_put del: le_put.simps)
  have d: "drop (length (block_body ri es) - 4) (block_body ri es) = ?N"
    unfolding len by (simp add: B length_concat_le_put del: le_put.simps)
  have off: "length (block_body ri es) - (length ?R * 4 + 4) = length ?D" using len by simp
  have "map (\<lambda>i. le_get (take 4 (drop (length ?D + i * 4) (block_body ri es)))) [0..<length ?R] = ?R"
  proof (rule nth_equalityI)
    fix i assume "i < length (map (\<lambda>i. le_get (take 4 (drop (length ?D + i * 4) (block_body ri es))) :: u32) [0..<length ?R])"
    then have i: "i < length ?R" by simp
    have "drop (length ?D + i * 4) (block_body ri es) = drop (i * 4) (?Rb @ ?N)"
      by (simp add: B del: le_put.simps)
    also have "take 4 \<dots> = take 4 (drop (i * 4) ?Rb)"
      using i by (simp add: drop_append take_append length_concat_le_put del: le_put.simps)
    also have "\<dots> = le_put 4 (?R ! i)" by (rule nth_concat_le_put [OF i])
    finally show "map (\<lambda>i. le_get (take 4 (drop (length ?D + i * 4) (block_body ri es)))) [0..<length ?R] ! i = ?R ! i"
      using i le32.get_put by simp
  qed simp
  moreover have "take (length ?D) (block_body ri es) = ?D" by (simp add: B del: le_put.simps)
  ultimately show ?thesis
    unfolding parseRestarts_def Let_def d le32.get_put n off using len by simp
qed

lemma newBlockIter_at:
  assumes "total_size es < 2 ^ 31" and "es \<noteq> []"
  shows "\<exists>it. newBlockIter (block_body ri es) = Inr it \<and> it_at ri es 0 it"
proof -
  have "length es < 2 ^ 31" using length_le_total [of es] assms(1) by simp
  from parseRestarts_body [OF this] show ?thesis
    unfolding newBlockIter_def
    by (simp, intro Next_at_off) (use assms in \<open>simp_all add: it_block_def entry_off_def block_data_def\<close>)
qed

end
