(* ===== verification/Sstable_Writing.thy ===== *)
theory Sstable_Writing imports Sstable_Blocks begin

text \<open>
  The file that the writer of a table leaves: the relation between the writer's state and the
  blocks it has written, kept by every operation, and the exact bytes after \<^verbatim>\<open>Finish\<close>.
\<close>

section \<open>The file of a table\<close>

definition blocks_bytes :: "nat \<Rightarrow> sst_Entry list list \<Rightarrow> bytes" where
  "blocks_bytes ri bs = concat (map (block_bytes ri) bs)"

fun index_of :: "nat \<Rightarrow> nat \<Rightarrow> sst_Entry list list \<Rightarrow> indexRec list" where
  "index_of ri off [] = []"
| "index_of ri off (b # bs) =
     \<lparr>ir_lastKey = skey (last b), ir_offset = of_nat off, ir_length = of_nat (length (block_bytes ri b))\<rparr> #
     index_of ri (off + length (block_bytes ri b)) bs"

lemma blocks_bytes_simps [simp]:
  "blocks_bytes ri [] = []" "blocks_bytes ri (b # bs) = block_bytes ri b @ blocks_bytes ri bs"
  "blocks_bytes ri (bs @ bs') = blocks_bytes ri bs @ blocks_bytes ri bs'"
  by (simp_all add: blocks_bytes_def)

lemma length_index_of [simp]: "length (index_of ri off bs) = length bs"
  by (induction bs arbitrary: off) auto

lemma index_of_append:
  "index_of ri off (bs @ bs') = index_of ri off bs @ index_of ri (off + length (blocks_bytes ri bs)) bs'"
  by (induction bs arbitrary: off) (auto simp: add.assoc)

lemma index_of_nth:
  "i < length bs \<Longrightarrow> index_of ri off bs ! i =
    \<lparr>ir_lastKey = skey (last (bs ! i)), ir_offset = of_nat (off + length (blocks_bytes ri (take i bs))),
     ir_length = of_nat (length (block_bytes ri (bs ! i)))\<rparr>"
proof (induction bs arbitrary: off i)
  case (Cons b bs)
  then show ?case by (cases i) (auto simp: add.assoc)
qed simp

section \<open>Writing\<close>

lemma entry_off_snoc: "k \<le> length es \<Longrightarrow> entry_off ri (es @ [e]) k = entry_off ri es k"
  by (simp add: entry_off_def)

lemma block_restarts_snoc:
  "block_restarts ri (es @ [e]) =
    block_restarts ri es @ (if length es mod ri = 0 then [of_nat (length (block_data ri es))] else [])"
  by (auto simp: block_restarts_def restart_entries_def entry_off_snoc entry_off_end)

lemma block_data_snoc:
  "block_data ri (es @ [e]) = block_data ri es @ enc_entry (shared_at ri (length es) (last_key [] es) e) e"
  by (simp add: block_data_def block_enc_append)

lemma block_data_Nil_iff: "block_data ri es = [] \<longleftrightarrow> es = []"
proof (cases es)
  case (Cons e es')
  have "0 < length (block_data ri es)"
    using enc_entry_nonempty [of "shared_at ri 0 [] e" e] by (simp add: Cons block_data_def)
  then show ?thesis using Cons by auto
qed (simp add: block_data_def)

text \<open>The writer has flushed these blocks and buffers the current one.\<close>

definition writer_rel :: "nat \<Rightarrow> Writer \<Rightarrow> sst_Entry list list \<Rightarrow> sst_Entry list \<Rightarrow> bool" where
  "writer_rel ri w bs cur =
     (0 < ri \<and> w_restartInt w = int ri \<and> \<not> w_closed w \<and>
      f_reliable (w_f w) \<and> f_data (w_f w) = blocks_bytes ri bs \<and> f_pos (w_f w) = length (blocks_bytes ri bs) \<and>
      w_buf w = block_data ri cur \<and> w_restarts w = block_restarts ri cur \<and> w_blockEntries w = length cur \<and>
      w_index w = index_of ri 0 bs \<and> (\<forall>b\<in>set bs. b \<noteq> []) \<and>
      w_entryCount w = length (concat bs @ cur) \<and>
      w_lastKey w = (if concat bs @ cur = [] then None else Some (skey (last (concat bs @ cur)))) \<and>
      w_minKey w = (if concat bs @ cur = [] then None else Some (skey (hd (concat bs @ cur)))) \<and>
      w_maxKey w = w_lastKey w \<and>
      bl_keys (w_bloom w) = map skey (concat bs @ cur) \<and>
      w_maxSeq w = fold max (map se_Seq (concat bs @ cur)) 0)"

lemma writer_rel_Create:
  assumes "f_reliable f" and "f_data f = []" and "f_pos f = 0"
  shows "writer_rel (nat (wro_RestartInterval (WriterOptions_normalize opts))) (sst_Create path opts f) [] []"
proof -
  have "0 < wro_RestartInterval (WriterOptions_normalize opts)"
    by (simp add: WriterOptions_normalize_def restartInterval_def Let_def split: option.splits)
  with assms show ?thesis
    by (simp add: writer_rel_def sst_Create_def Let_def block_data_def block_restarts_def
        restart_entries_def NewBuilder_def)
qed

lemma flushBlock_rel:
  assumes "writer_rel ri w bs cur"
  shows "\<exists>w'. Writer_flushBlock w = (None, w') \<and> w_path w' = w_path w \<and> w_blockSize w' = w_blockSize w
    \<and> writer_rel ri w' (bs @ (if cur = [] then [] else [cur])) []"
proof (cases "cur = []")
  case True
  with assms show ?thesis by (auto simp: Writer_flushBlock_def writer_rel_def block_data_Nil_iff)
next
  case False
  let ?f = "w_f w"
  have R: "f_reliable ?f" "f_data ?f = blocks_bytes ri bs" "f_pos ?f = length (blocks_bytes ri bs)"
    "w_buf w = block_data ri cur" "w_restarts w = block_restarts ri cur" "w_index w = index_of ri 0 bs"
    using assms by (simp_all add: writer_rel_def)
  have lk: "w_lastKey w = Some (skey (last cur))" using assms False by (auto simp: writer_rel_def)
  have B: "(w_buf w @ concat (map (le_put 4) (w_restarts w))) @ le_put 4 (of_nat (length (w_restarts w)) :: u32) =
      block_body ri cur"
    unfolding R(4,5) by (simp add: block_body_def del: le_put.simps)
  have BB: "block_body ri cur @ le_put 4 (ChecksumCastagnoli (block_body ri cur)) = block_bytes ri cur"
    by (simp add: block_bytes_def)
  have t: "f_tell ?f = (Inr (length (blocks_bytes ri bs)), ?f\<lparr>f_tick := f_tick ?f + 1\<rparr>)"
    using R(1,3) by (simp add: f_tell_def)
  let ?f1 = "?f\<lparr>f_tick := f_tick ?f + 1\<rparr>"
  have wr: "f_write (block_bytes ri cur) ?f1 = ((length (block_bytes ri cur), None),
      ?f1\<lparr>f_tick := f_tick ?f1 + 1, f_data := blocks_bytes ri bs @ block_bytes ri cur,
        f_pos := length (blocks_bytes ri bs) + length (block_bytes ri cur)\<rparr>)"
    using R(1-3) by (simp add: f_write_def)
  have ne: "w_buf w \<noteq> []" using R(4) False by (simp add: block_data_Nil_iff)
  let ?w' = "w\<lparr>w_f := ?f1\<lparr>f_tick := f_tick ?f1 + 1, f_data := blocks_bytes ri bs @ block_bytes ri cur,
        f_pos := length (blocks_bytes ri bs) + length (block_bytes ri cur)\<rparr>,
      w_index := w_index w @ [\<lparr>ir_lastKey = skey (last cur), ir_offset = of_nat (length (blocks_bytes ri bs)),
        ir_length = of_nat (length (block_bytes ri cur))\<rparr>],
      w_buf := [], w_restarts := [], w_blockEntries := 0\<rparr>"
  have "Writer_flushBlock w = (None, ?w')"
    unfolding Writer_flushBlock_def if_not_P [OF ne] Let_def B BB t prod.case sum.case wr
    by (simp add: lk)
  moreover have "writer_rel ri ?w' (bs @ [cur]) []"
    using assms False
    by (simp add: writer_rel_def index_of_append block_data_def block_restarts_def restart_entries_def)
  ultimately show ?thesis using False by simp
qed

lemma Writer_Add_rel:
  assumes "writer_rel ri w bs cur" and "se_Key e \<noteq> None"
    and "\<forall>x\<in>set (concat bs @ cur). skey x \<le> skey e"
  shows "\<exists>w' bs' cur'. Writer_Add e w = (None, w') \<and> writer_rel ri w' bs' cur'
    \<and> concat bs' @ cur' = concat bs @ cur @ [e] \<and> w_path w' = w_path w \<and> w_blockSize w' = w_blockSize w"
proof -
  let ?all = "concat bs @ cur"
  have R: "0 < ri" "w_restartInt w = int ri" "\<not> w_closed w" "w_blockEntries w = length cur"
    "w_buf w = block_data ri cur" "w_restarts w = block_restarts ri cur"
    "w_lastKey w = (if ?all = [] then None else Some (skey (last ?all)))"
    "w_minKey w = (if ?all = [] then None else Some (skey (hd ?all)))"
    "w_maxSeq w = fold max (map se_Seq ?all) 0" "bl_keys (w_bloom w) = map skey ?all"
    "w_entryCount w = length ?all"
    using assms(1) by (simp_all add: writer_rel_def)
  obtain k where k: "se_Key e = Some k" "skey e = k" using assms(2) by (auto simp: skey_def)
  have ord: "\<not> (w_lastKey w \<noteq> None \<and> Compare (sbytes (se_Key e)) (sbytes (w_lastKey w)) < 0)"
    using R(7) assms(3) last_in_set [of ?all] k by (auto simp: not_less)
  define sh where "sh = shared_at ri (length cur) (last_key [] cur) e"
  define w1 where "w1 = w\<lparr>w_minKey := Some (skey (hd (?all @ [e]))), w_maxKey := Some k,
    w_maxSeq := fold max (map se_Seq (?all @ [e])) 0, w_bloom := Builder_Add k (w_bloom w),
    w_restarts := block_restarts ri (cur @ [e]), w_buf := block_data ri (cur @ [e]),
    w_lastKey := Some k, w_entryCount := w_entryCount w + 1, w_blockEntries := w_blockEntries w + 1\<rparr>"
  have rest: "(int (w_blockEntries w) mod w_restartInt w \<noteq> 0 \<and> w_lastKey w \<noteq> None) = (length cur mod ri \<noteq> 0)"
    using R(2,4,7) by (auto simp: zmod_int [symmetric] of_nat_mod [symmetric] simp del: of_nat_mod)
  have shl: "length cur mod ri \<noteq> 0 \<Longrightarrow> SharedPrefixLen (sbytes (w_lastKey w)) k = sh"
    using R(7) k by (cases "cur = []") (auto simp: sh_def shared_at_def last_key_def)
  have shr: "\<not> length cur mod ri \<noteq> 0 \<Longrightarrow> sh = 0" by (simp add: sh_def shared_at_def)
  have mx: "(if w_maxSeq w < se_Seq e then se_Seq e else w_maxSeq w) = fold max (map se_Seq (?all @ [e])) 0"
    using R(9) by (auto simp: max_def)
  have mn: "(if w_minKey w = None then Some k else w_minKey w) = Some (skey (hd (?all @ [e])))"
  proof -
    have "hd (xs @ [e]) = (if xs = [] then e else hd xs)" for xs by (cases xs) auto
    from this [of ?all] show ?thesis using R(8) k by (simp only: split: if_splits) auto
  qed
  have b: "block_data ri (cur @ [e]) = w_buf w @ enc_entry sh e" by (simp add: block_data_snoc R(5) sh_def)
  have r: "block_restarts ri (cur @ [e]) =
      (if length cur mod ri \<noteq> 0 then w_restarts w else w_restarts w @ [of_nat (length (w_buf w))])"
    by (simp add: block_restarts_snoc R(5,6))
  have sh: "(if length cur mod ri \<noteq> 0 then SharedPrefixLen (sbytes (w_lastKey w)) k else 0) = sh"
    using shl shr by auto
  have "Writer_buffer e w = w1"
    unfolding Writer_buffer_def Let_def rest w1_def b r mx [symmetric] mn [symmetric]
    by (simp only: k(1) Clone_id sbytes_simps sh)
  then have add: "Writer_Add e w = (if int (length (w_buf w1)) \<ge> w_blockSize w1 then Writer_flushBlock w1 else (None, w1))"
    unfolding Writer_Add_def Let_def if_not_P [OF R(3)] if_not_P [OF ord] using k(1) by simp
  have w1: "writer_rel ri w1 bs (cur @ [e])"
    using assms(1) k R(7-11) by (simp add: writer_rel_def w1_def Builder_Add_def)
  have w1': "w_path w1 = w_path w" "w_blockSize w1 = w_blockSize w" by (simp_all add: w1_def)
  show ?thesis
  proof (cases "int (length (w_buf w1)) \<ge> w_blockSize w1")
    case True
    with flushBlock_rel [OF w1] add w1' show ?thesis by fastforce
  next
    case False
    with add w1 w1' show ?thesis by (intro exI [of _ w1] exI [of _ bs] exI [of _ "cur @ [e]"]) auto
  qed
qed

lemma WriteFile_loop_rel:
  assumes "writer_rel ri w bs cur" and "\<forall>e\<in>set es. se_Key e \<noteq> None" and "keys_sorted (concat bs @ cur @ es)"
  shows "\<exists>w' bs' cur'. WriteFile_loop es w = (None, w') \<and> writer_rel ri w' bs' cur'
    \<and> concat bs' @ cur' = concat bs @ cur @ es \<and> w_path w' = w_path w"
  using assms
proof (induction es arbitrary: w bs cur)
  case (Cons e es)
  have "\<forall>x\<in>set (concat bs @ cur). skey x \<le> skey e"
    using Cons.prems(3) by (auto simp: keys_sorted_def sorted_wrt_append intro: less_imp_le)
  with Writer_Add_rel [OF Cons.prems(1), of e] Cons.prems(2) obtain w1 bs1 cur1 where
    1: "Writer_Add e w = (None, w1)" "writer_rel ri w1 bs1 cur1"
    "concat bs1 @ cur1 = concat bs @ cur @ [e]" "w_path w1 = w_path w" by auto
  have "concat bs1 @ cur1 @ es = (concat bs1 @ cur1) @ es" by simp
  also have "\<dots> = concat bs @ cur @ e # es" by (simp only: 1(3)) simp
  finally have all: "concat bs1 @ cur1 @ es = concat bs @ cur @ e # es" .
  then have "keys_sorted (concat bs1 @ cur1 @ es)" using Cons.prems(3) by (simp only: all)
  with Cons.IH [OF 1(2)] Cons.prems(2) obtain w' bs' cur' where
    "WriteFile_loop es w1 = (None, w')" "writer_rel ri w' bs' cur'"
    "concat bs' @ cur' = concat bs1 @ cur1 @ es" "w_path w' = w_path w1" by auto
  then show ?case using 1(1,4) unfolding all by auto
qed auto

text \<open>\<^verbatim>\<open>Finish\<close> appends to the file.\<close>

definition at_end :: "os_file \<Rightarrow> bytes \<Rightarrow> bool" where
  "at_end f d = (f_reliable f \<and> f_data f = d \<and> f_pos f = length d)"

lemma write_all_end:
  assumes "at_end f d"
  shows "\<exists>f'. write_all b f = (None, f') \<and> at_end f' (d @ b)"
  using assms by (simp add: write_all_def f_write_def at_end_def)

lemma f_tell_end:
  assumes "at_end f d"
  shows "\<exists>f'. f_tell f = (Inr (length d), f') \<and> at_end f' d"
  using assms by (simp add: f_tell_def at_end_def)

lemma f_end_calls:
  assumes "at_end f d"
  shows "\<exists>f1 f2 f3. f_sync f = (None, f1) \<and> f_stat_size f1 = (Inr (length d), f2) \<and> f_close f2 = (None, f3)
    \<and> at_end f3 d \<and> f_stable f3 = d"
  using assms by (simp add: f_sync_def f_stat_size_def f_close_def at_end_def)

definition table_tail :: "nat \<Rightarrow> bytes \<Rightarrow> indexRec list \<Rightarrow> u64 \<Rightarrow> nat \<Rightarrow> bytes" where
  "table_tail off bdata index maxSeq n =
     bdata @ index_section index @
     sst_footer (off + length bdata) (length (index_section index)) off (length bdata) maxSeq n"

lemma finish_tail_end:
  assumes "at_end (w_f w) d"
  shows "\<exists>f. finish_tail (length d) bdata w =
      (Inr (length (d @ table_tail (length d) bdata (w_index w) (w_maxSeq w) (w_entryCount w))), f)
    \<and> at_end f (d @ table_tail (length d) bdata (w_index w) (w_maxSeq w) (w_entryCount w))
    \<and> f_stable f = f_data f"
proof -
  let ?i = "index_section (w_index w)"
  let ?ft = "sst_footer (length (d @ bdata)) (length ?i) (length d) (length bdata) (w_maxSeq w) (w_entryCount w)"
  obtain f1 where 1: "write_all bdata (w_f w) = (None, f1)" "at_end f1 (d @ bdata)"
    using write_all_end [OF assms] by blast
  obtain f2 where 2: "f_tell f1 = (Inr (length (d @ bdata)), f2)" "at_end f2 (d @ bdata)"
    using f_tell_end [OF 1(2)] by blast
  obtain f3 where 3: "write_all ?i f2 = (None, f3)" "at_end f3 ((d @ bdata) @ ?i)"
    using write_all_end [OF 2(2)] by blast
  obtain f4 where 4: "write_all ?ft f3 = (None, f4)" "at_end f4 (((d @ bdata) @ ?i) @ ?ft)"
    using write_all_end [OF 3(2)] by blast
  obtain f5 f6 f7 where 5: "f_sync f4 = (None, f5)"
    "f_stat_size f5 = (Inr (length (((d @ bdata) @ ?i) @ ?ft)), f6)" "f_close f6 = (None, f7)"
    "at_end f7 (((d @ bdata) @ ?i) @ ?ft)" "f_stable f7 = ((d @ bdata) @ ?i) @ ?ft"
    using f_end_calls [OF 4(2)] by blast
  have e: "((d @ bdata) @ ?i) @ ?ft = d @ table_tail (length d) bdata (w_index w) (w_maxSeq w) (w_entryCount w)"
    by (simp add: table_tail_def)
  have "finish_tail (length d) bdata w = (Inr (length (((d @ bdata) @ ?i) @ ?ft)), f7)"
    unfolding finish_tail_def 1(1) 2(1) Let_def prod.case option.case sum.case 3(1) 4(1) 5(1-3) ..
  with 5(4,5) show ?thesis unfolding e by (auto simp: at_end_def)
qed

text \<open>The file of a table, and what \<^verbatim>\<open>Finish\<close> reports.\<close>

definition table_bytes :: "nat \<Rightarrow> sst_Entry list list \<Rightarrow> bytes \<Rightarrow> bytes" where
  "table_bytes ri bs bdata =
     blocks_bytes ri bs @ table_tail (length (blocks_bytes ri bs)) bdata (index_of ri 0 bs)
       (fold max (map se_Seq (concat bs)) 0) (length (concat bs))"

definition table_meta :: "string \<Rightarrow> sst_Entry list \<Rightarrow> nat \<Rightarrow> Meta" where
  "table_meta path es sz =
     \<lparr>mt_Path = path, mt_MinKey = (if es = [] then None else Some (skey (hd es))),
      mt_MaxKey = (if es = [] then None else Some (skey (last es))),
      mt_MaxSeq = fold max (map se_Seq es) 0, mt_Entries = of_nat (length es), mt_FileSize = sz\<rparr>"

lemma flushBlock_bloom: "Writer_flushBlock w = (r, w') \<Longrightarrow> w_bloom w' = w_bloom w"
  by (simp add: Writer_flushBlock_def Let_def split: if_splits prod.splits sum.splits option.splits) auto

lemma Writer_Finish_rel:
  assumes "writer_rel ri w bs cur" and "Builder_Build sz (w_bloom w) = Inr bf"
    and "Filter_MarshalBinary (Some bf) = Inr bdata"
  shows "\<exists>w' bs'. Writer_Finish sz w =
      (Inr (table_meta (w_path w) (concat bs @ cur) (length (table_bytes ri bs' bdata))), w')
    \<and> at_end (w_f w') (table_bytes ri bs' bdata) \<and> f_stable (w_f w') = table_bytes ri bs' bdata
    \<and> w_closed w' \<and> concat bs' = concat bs @ cur \<and> [] \<notin> set bs'"
proof -
  define bs' where "bs' = bs @ (if cur = [] then [] else [cur])"
  define es where "es = concat bs @ cur"
  have c: "concat bs' = es" by (simp add: bs'_def es_def)
  obtain w1 where 1: "Writer_flushBlock w = (None, w1)" "w_path w1 = w_path w" "writer_rel ri w1 bs' []"
    using flushBlock_rel [OF assms(1)] unfolding bs'_def by blast
  let ?d = "blocks_bytes ri bs'"
  have rel: "writer_rel ri w bs cur" by (rule assms(1))
  have R1: "\<not> w_closed w" using rel by (simp add: writer_rel_def)
  have R2: "at_end (w_f w1) ?d" using 1(3) by (simp add: writer_rel_def at_end_def)
  have R3: "w_index w1 = index_of ri 0 bs'" "w_entryCount w1 = length es"
    "w_maxSeq w1 = fold max (map se_Seq es) 0"
    "w_minKey w1 = (if es = [] then None else Some (skey (hd es)))"
    "w_maxKey w1 = (if es = [] then None else Some (skey (last es)))"
    using 1(3) unfolding writer_rel_def append_Nil2 c by simp_all
  have R4: "[] \<notin> set bs'" using 1(3) by (auto simp: writer_rel_def)
  have keys: "bl_keys (w_bloom w1) = bl_keys (w_bloom w)" "bl_fp (w_bloom w1) = bl_fp (w_bloom w)"
    using flushBlock_bloom [OF 1(1)] by simp_all
  then have B: "Builder_Build sz (w_bloom w1) = Inr bf" using assms(2) by (simp add: Builder_Build_def)
  obtain f where 2: "f_tell (w_f w1) = (Inr (length ?d), f)" "at_end f ?d" using f_tell_end [OF R2] by blast
  let ?w2 = "w1\<lparr>w_f := f\<rparr>"
  have F: "at_end (w_f ?w2) ?d" using 2(2) by simp
  have t: "?d @ table_tail (length ?d) bdata (w_index ?w2) (w_maxSeq ?w2) (w_entryCount ?w2) = table_bytes ri bs' bdata"
    using R3(1-3) c by (simp add: table_bytes_def del: concat_append blocks_bytes_simps)
  obtain f' where 3: "finish_tail (length ?d) bdata ?w2 = (Inr (length (table_bytes ri bs' bdata)), f')"
    "at_end f' (table_bytes ri bs' bdata)" "f_stable f' = f_data f'"
    using finish_tail_end [OF F, of bdata] unfolding t by blast
  have B2: "Builder_Build sz (w_bloom ?w2) = Inr bf" using B by simp
  have "Writer_Finish sz w =
      (Inr (table_meta (w_path w) es (length (table_bytes ri bs' bdata))),
       ?w2\<lparr>w_f := f', w_closed := True\<rparr>)"
    unfolding Writer_Finish_def if_not_P [OF R1] 1(1) prod.case option.case 2(1) sum.case Let_def B2 assms(3) 3(1)
    by (simp add: table_meta_def R3 1(2) del: concat_append append_is_Nil_conv)
  moreover have "f_stable f' = table_bytes ri bs' bdata" using 3(2,3) by (simp add: at_end_def)
  ultimately show ?thesis using 3(2) R4 c
    by (intro exI [of _ "?w2\<lparr>w_f := f', w_closed := True\<rparr>"] exI [of _ bs']) (simp add: es_def)
qed

text \<open>The filter's rate is the one the writer was created with.\<close>

lemma Add_fp: "Writer_Add e w = (r, w') \<Longrightarrow> bl_fp (w_bloom w') = bl_fp (w_bloom w)"
  using flushBlock_bloom [of "Writer_buffer e w" r w']
  by (auto simp: Writer_Add_def Writer_buffer_def Builder_Add_def Let_def split: if_splits)

lemma WriteFile_loop_fp: "WriteFile_loop es w = (r, w') \<Longrightarrow> bl_fp (w_bloom w') = bl_fp (w_bloom w)"
  by (induction es arbitrary: w) (auto dest: Add_fp split: prod.splits option.splits)

definition wf_ri :: "WriterOptions option \<Rightarrow> nat" where
  "wf_ri opts = nat (wro_RestartInterval (WriterOptions_normalize opts))"

definition table_filter :: "sizing \<Rightarrow> WriterOptions option \<Rightarrow> sst_Entry list \<Rightarrow> Filter" where
  "table_filter sz opts es = Filter_New sz (int (length es)) (wro_BloomFP (WriterOptions_normalize opts))"

lemma WriteFile_table:
  assumes "f_reliable f" and "f_data f = []" and "f_pos f = 0"
    and "\<forall>e\<in>set es. se_Key e \<noteq> None" and "keys_sorted es"
    and "unat (NumBits (table_filter sz opts es)) + 7 < 2 ^ 64"
  shows "\<exists>bf bdata bs f'. sst_WriteFile sz path es opts f =
      (Inr (table_meta path es (length (table_bytes (wf_ri opts) bs bdata))), Some f')
    \<and> at_end f' (table_bytes (wf_ri opts) bs bdata) \<and> f_stable f' = table_bytes (wf_ri opts) bs bdata
    \<and> concat bs = es \<and> [] \<notin> set bs \<and> filter_ok bf \<and> Filter_MarshalBinary (Some bf) = Inr bdata
    \<and> fl_m bf = NumBits (table_filter sz opts es) \<and> (\<forall>e\<in>set es. has_key bf (skey e))"
proof -
  let ?w0 = "sst_Create path opts f"
  have r0: "writer_rel (wf_ri opts) ?w0 [] []" unfolding wf_ri_def by (rule writer_rel_Create [OF assms(1-3)])
  obtain w1 bs1 cur1 where 1: "WriteFile_loop es ?w0 = (None, w1)" "writer_rel (wf_ri opts) w1 bs1 cur1"
    "concat bs1 @ cur1 = es" "w_path w1 = w_path ?w0"
    using WriteFile_loop_rel [OF r0, of es] assms(4,5) by auto
  have keys: "bl_keys (w_bloom w1) = map skey es" using 1(2,3) by (simp add: writer_rel_def)
  have fp: "bl_fp (w_bloom w1) = bl_fp (NewBuilder (wro_BloomFP (WriterOptions_normalize opts)))"
    using WriteFile_loop_fp [OF 1(1)] by (simp add: sst_Create_def Let_def)
  have fn: "Filter_New sz (int (length (map skey es))) (bl_fp (w_bloom w1)) = table_filter sz opts es"
    unfolding fp table_filter_def by (simp add: Filter_New_NewBuilder)
  from Builder_Build_spec [of sz "w_bloom w1"] assms(6) obtain bf where
    bf: "Builder_Build sz (w_bloom w1) = Inr bf" "filter_ok bf" "\<forall>e\<in>set es. has_key bf (skey e)"
    "fl_m bf = NumBits (table_filter sz opts es)" unfolding fn keys by auto
  obtain bdata where bd: "Filter_MarshalBinary (Some bf) = Inr bdata"
    using Unmarshal_Marshal [OF bf(2)] by blast
  obtain w2 bs where 2: "Writer_Finish sz w1 =
      (Inr (table_meta (w_path w1) es (length (table_bytes (wf_ri opts) bs bdata))), w2)"
    "at_end (w_f w2) (table_bytes (wf_ri opts) bs bdata)" "f_stable (w_f w2) = table_bytes (wf_ri opts) bs bdata"
    "concat bs = es" "[] \<notin> set bs"
    using Writer_Finish_rel [OF 1(2) bf(1) bd] unfolding 1(3) by blast
  have "w_path w1 = path" using 1(4) by (simp add: sst_Create_def Let_def)
  then have "sst_WriteFile sz path es opts f =
      (Inr (table_meta path es (length (table_bytes (wf_ri opts) bs bdata))), Some (w_f w2))"
    unfolding sst_WriteFile_def 1(1) prod.case option.case 2(1) by simp
  with 2(2-5) bf(2-4) bd show ?thesis by blast
qed

end
