(* ===== verification/Cursor.thy ===== *)
theory Cursor imports Prelude begin

text \<open>
  The contract that the iterators of the program share: a cursor over a list stands at a
  position, says whether there is an entry, gives it, and moves on.  What a loop
  \<^verbatim>\<open>for it.Valid() { ... it.Next() }\<close> collects is proved from the contract alone.
\<close>

fun scan :: "('s \<Rightarrow> bool) \<Rightarrow> ('s \<Rightarrow> 'e) \<Rightarrow> ('s \<Rightarrow> error + 's) \<Rightarrow> nat \<Rightarrow> 'e list \<Rightarrow> 's \<Rightarrow>
    (error + 'e list \<times> 's) option" where
  "scan valid entry next 0 acc s = None"
| "scan valid entry next (Suc fuel) acc s =
     (if valid s
      then (case next s of
              Inl e \<Rightarrow> Some (Inl e)
            | Inr s' \<Rightarrow> scan valid entry next fuel (acc @ [entry s]) s')
      else Some (Inr (acc, s)))"

locale cursor =
  fixes valid :: "'s \<Rightarrow> bool" and entry :: "'s \<Rightarrow> 'e" and nxt :: "'s \<Rightarrow> error + 's"
    and at :: "'e list \<Rightarrow> nat \<Rightarrow> 's \<Rightarrow> bool"
  assumes at_le: "at es n s \<Longrightarrow> n \<le> length es"
    and valid_at: "at es n s \<Longrightarrow> valid s \<longleftrightarrow> n < length es"
    and entry_at: "at es n s \<Longrightarrow> n < length es \<Longrightarrow> entry s = es ! n"
    and next_at: "at es n s \<Longrightarrow> n < length es \<Longrightarrow> \<exists>s'. nxt s = Inr s' \<and> at es (n + 1) s'"
begin

lemma scan_at:
  assumes "at es n s" and "length es - n < fuel"
  shows "\<exists>s'. scan valid entry nxt fuel acc s = Some (Inr (acc @ drop n es, s')) \<and> at es (length es) s'"
  using assms
proof (induction fuel arbitrary: n s acc)
  case (Suc fuel)
  show ?case
  proof (cases "n < length es")
    case True
    from next_at [OF Suc.prems(1) True] obtain s' where s': "nxt s = Inr s'" "at es (n + 1) s'" by blast
    have "length es - (n + 1) < fuel" using Suc.prems(2) True by simp
    from Suc.IH [OF s'(2) this, of "acc @ [entry s]"] s'(1) Suc.prems(1) True show ?thesis
      by (simp add: valid_at [OF Suc.prems(1)] entry_at [OF Suc.prems(1)] Cons_nth_drop_Suc)
  next
    case False
    then have "n = length es" using at_le [OF Suc.prems(1)] by simp
    then show ?thesis using Suc.prems(1) by (simp add: valid_at [OF Suc.prems(1)])
  qed
qed simp

lemma scan_from_start:
  assumes "at es 0 s" and "length es < fuel"
  shows "\<exists>s'. scan valid entry nxt fuel [] s = Some (Inr (es, s')) \<and> at es (length es) s'"
  using scan_at [OF assms(1), of fuel "[]"] assms(2) by simp

lemma next_iterate:
  assumes "at es n s" and "n + k \<le> length es"
  shows "\<exists>s'. ((\<lambda>r. case r of Inl e \<Rightarrow> Inl e | Inr s \<Rightarrow> nxt s) ^^ k) (Inr s) = Inr s' \<and> at es (n + k) s'"
  using assms(2)
proof (induction k)
  case (Suc k)
  then obtain s' where s': "((\<lambda>r. case r of Inl e \<Rightarrow> Inl e | Inr s \<Rightarrow> nxt s) ^^ k) (Inr s) = Inr s'"
    "at es (n + k) s'" by auto
  from next_at [OF s'(2)] Suc.prems s'(1) show ?case by auto
qed (use assms in auto)

end

end
