(* ===== verification/Sstable_Reading.thy ===== *)
theory Sstable_Reading imports Sstable_Writing Cursor begin

text \<open>
  Reading a table: opening the file that the writer left gives a reader of exactly its blocks,
  on which lookups and iterators agree with the list of entries that was written.
\<close>

section \<open>The index\<close>

definition enc_rec :: "indexRec \<Rightarrow> bytes" where
  "enc_rec r = EncodeUint64 [] (of_nat (length (ir_lastKey r))) @ ir_lastKey r @
     EncodeUint64 [] (ir_offset r) @ EncodeUint64 [] (ir_length r)"

lemma encode_index_eq: "encode_index rs buf = buf @ concat (map enc_rec rs)"
proof (induction rs arbitrary: buf)
  case (Cons r rs)
  have e: "EncodeUint64 (p @ q) x = p @ EncodeUint64 q x" for p q x
    by (metis EncodeUint64_acc append_assoc)
  have a: "EncodeUint64 buf x = buf @ EncodeUint64 [] x"
    "EncodeUint64 (ir_lastKey r) x = ir_lastKey r @ EncodeUint64 [] x"
    "EncodeUint64 (EncodeUint64 [] y) x = EncodeUint64 [] y @ EncodeUint64 [] x" for x y
    by (rule EncodeUint64_acc)+
  show ?case
    unfolding encode_index.simps Let_def Cons.IH by (simp add: enc_rec_def [of r] a e)
qed simp

definition index_body :: "indexRec list \<Rightarrow> bytes" where
  "index_body rs = EncodeUint64 [] (of_nat (length rs)) @ concat (map enc_rec rs)"

lemma index_section_eq: "index_section rs = index_body rs @ le_put 4 (ChecksumCastagnoli (index_body rs))"
  by (simp add: index_section_def Let_def encode_index_eq index_body_def)

lemma decode_index_loop_enc:
  assumes "length (pre @ concat (map enc_rec rs)) < 2 ^ 63"
  shows "decode_index_loop (length rs) (pre @ concat (map enc_rec rs)) (int (length pre)) acc = Inr (acc @ rs)"
  using assms
proof (induction rs arbitrary: pre acc)
  case (Cons r rs)
  let ?a = "EncodeUint64 [] (of_nat (length (ir_lastKey r)))" and ?b = "EncodeUint64 [] (ir_offset r)"
    and ?c = "EncodeUint64 [] (ir_length r)" and ?t = "concat (map enc_rec rs)"
  let ?body = "pre @ concat (map enc_rec (r # rs))"
  have B: "?body = pre @ ?a @ ir_lastKey r @ ?b @ ?c @ ?t" by (simp add: enc_rec_def)
  have 1: "decode_blob sstable_ErrCorrupt ?body (int (length pre)) =
      Inr (ir_lastKey r, int (length (pre @ ?a @ ir_lastKey r)))"
    by (rule decode_blob_enc [OF B Cons.prems refl])
  have 2: "decode_at sstable_ErrCorrupt ?body (int (length (pre @ ?a @ ir_lastKey r))) = Inr (ir_offset r, SizeUint64 (ir_offset r))"
    using decode_at_enc [of sstable_ErrCorrupt "pre @ ?a @ ir_lastKey r" "ir_offset r" "?c @ ?t"]
    unfolding B by (simp only: append_assoc)
  have 3: "decode_at sstable_ErrCorrupt ?body (int (length (pre @ ?a @ ir_lastKey r @ ?b))) = Inr (ir_length r, SizeUint64 (ir_length r))"
    using decode_at_enc [of sstable_ErrCorrupt "pre @ ?a @ ir_lastKey r @ ?b" "ir_length r" "?t"]
    unfolding B by (simp only: append_assoc)
  have o1: "int (length (pre @ ?a @ ir_lastKey r)) + int (SizeUint64 (ir_offset r)) =
      int (length (pre @ ?a @ ir_lastKey r @ ?b))" by simp
  have o2: "int (length (pre @ ?a @ ir_lastKey r @ ?b)) + int (SizeUint64 (ir_length r)) =
      int (length (pre @ enc_rec r))" by (simp add: enc_rec_def)
  have B2: "?body = (pre @ enc_rec r) @ ?t" by simp
  show ?case
    unfolding list.size decode_index_loop.simps add_Suc_right add_0_right 1 sum.case prod.case 2 o1 Let_def 3 o2
    using Cons.IH [of "pre @ enc_rec r"] Cons.prems by simp
qed simp

lemma decode_index_section:
  assumes "length (index_body rs) < 2 ^ 63" and "length rs * 40 \<le> 2 ^ 48"
  shows "decode_index (index_section rs) = Inr rs"
proof -
  let ?n = "EncodeUint64 [] (of_nat (length rs))"
  have n: "unat (of_nat (length rs) :: u64) = length rs" using assms(2) by (intro int_len_u64) simp
  have d: "decode_at sstable_ErrCorrupt (index_body rs) 0 = Inr (of_nat (length rs), SizeUint64 (of_nat (length rs)))"
    using decode_at_enc [of sstable_ErrCorrupt "[]" "of_nat (length rs)" "concat (map enc_rec rs)"]
    by (simp add: index_body_def)
  have l: "decode_index_loop (length rs) (index_body rs) (int (length ?n)) [] = Inr rs"
    using decode_index_loop_enc [of ?n rs "[]"] assms(1) by (simp only: index_body_def append_Nil)
  have s: "length (index_section rs) - 4 = length (index_body rs)" "\<not> length (index_section rs) < 4"
    by (simp_all add: index_section_eq del: le_put.simps)
  have t: "take (length (index_body rs)) (index_section rs) = index_body rs"
    "drop (length (index_body rs)) (index_section rs) = le_put 4 (ChecksumCastagnoli (index_body rs))"
    by (simp_all add: index_section_eq del: le_put.simps)
  show ?thesis
    unfolding decode_index_def Let_def s t le32.get_put if_not_P [OF s(2)]
    using d n l assms(2) by (simp add: make_ok_def)
qed

section \<open>Sizes\<close>

lemma length_block_bytes: "b \<noteq> [] \<Longrightarrow> length (block_bytes ri b) \<le> 2 * total_size b"
proof -
  assume "b \<noteq> []"
  then have "1 \<le> length b" by (cases b) auto
  moreover have "length (block_bytes ri b) = length (block_data ri b) + 4 * length (block_restarts ri b) + 8"
    by (simp add: block_bytes_def block_body_def length_concat_le_put del: le_put.simps)
  moreover have "length (block_data ri b) \<le> total_size b" by (simp add: block_data_def length_block_enc)
  ultimately show ?thesis using restart_count [of ri b] length_le_total [of b] by linarith
qed

lemma length_blocks_bytes: "[] \<notin> set bs \<Longrightarrow> length (blocks_bytes ri bs) \<le> 2 * total_size (concat bs)"
proof (induction bs)
  case (Cons b bs)
  with length_block_bytes [of b ri] show ?case by auto
qed simp

lemma length_enc_rec: "length (enc_rec r) \<le> length (ir_lastKey r) + 30"
  using SizeUint64_le_10 [of "of_nat (length (ir_lastKey r))"] SizeUint64_le_10 [of "ir_offset r"]
    SizeUint64_le_10 [of "ir_length r"] by (simp add: enc_rec_def MaxUint64Len_def)

lemma length_index_recs:
  "[] \<notin> set bs \<Longrightarrow> length (concat (map enc_rec (index_of ri off bs))) \<le> total_size (concat bs)"
proof (induction bs arbitrary: off)
  case (Cons b bs)
  then have b: "b \<noteq> []" by auto
  have "length (skey (last b)) + 64 \<le> total_size b"
    using esize_mem [OF last_in_set [OF b]] by (simp add: esize_def)
  with Cons.IH [of "off + length (block_bytes ri b)"] Cons.prems
    length_enc_rec [of "\<lparr>ir_lastKey = skey (last b), ir_offset = of_nat off, ir_length = of_nat (length (block_bytes ri b))\<rparr>"]
  show ?case by simp
qed simp

lemma length_index_body:
  "[] \<notin> set bs \<Longrightarrow> length (index_body (index_of ri off bs)) \<le> total_size (concat bs) + 10"
  using length_index_recs [of bs ri off] SizeUint64_le_10 [of "of_nat (length bs)"]
  by (simp add: index_body_def MaxUint64Len_def)

lemma length_blocks: "[] \<notin> set bs \<Longrightarrow> 64 * length bs \<le> total_size (concat bs)"
proof (induction bs)
  case (Cons b bs)
  then have "1 \<le> length b" by (cases b) auto
  with Cons length_le_total [of b] show ?case by auto
qed simp

section \<open>Opening\<close>

lemma footer_fields:
  fixes a b c d n ms
  defines "ft \<equiv> sst_footer a b c d ms n"
  shows "length ft = 56" "le_get (take 4 ft) = magicFooter" "le_get (take 4 (drop 52 ft)) = magicFooter"
    "le_get (take 8 (drop 4 ft)) = (of_nat a :: u64)" "le_get (take 8 (drop 12 ft)) = (of_nat b :: u64)"
    "le_get (take 8 (drop 20 ft)) = (of_nat c :: u64)" "le_get (take 8 (drop 28 ft)) = (of_nat d :: u64)"
    "le_get (take 8 (drop 36 ft)) = ms" "le_get (take 8 (drop 44 ft)) = (of_nat n :: u64)"
proof -
  have "length ft = 56" "take 4 ft = le_put 4 magicFooter" "take 4 (drop 52 ft) = le_put 4 magicFooter"
    "take 8 (drop 4 ft) = le_put 8 (of_nat a :: u64)" "take 8 (drop 12 ft) = le_put 8 (of_nat b :: u64)"
    "take 8 (drop 20 ft) = le_put 8 (of_nat c :: u64)" "take 8 (drop 28 ft) = le_put 8 (of_nat d :: u64)"
    "take 8 (drop 36 ft) = le_put 8 ms" "take 8 (drop 44 ft) = le_put 8 (of_nat n :: u64)"
    by (simp_all add: ft_def sst_footer_def drop_append take_append del: le_put.simps)
  then show "length ft = 56" "le_get (take 4 ft) = magicFooter" "le_get (take 4 (drop 52 ft)) = magicFooter"
    "le_get (take 8 (drop 4 ft)) = (of_nat a :: u64)" "le_get (take 8 (drop 12 ft)) = (of_nat b :: u64)"
    "le_get (take 8 (drop 20 ft)) = (of_nat c :: u64)" "le_get (take 8 (drop 28 ft)) = (of_nat d :: u64)"
    "le_get (take 8 (drop 36 ft)) = ms" "le_get (take 8 (drop 44 ft)) = (of_nat n :: u64)"
    by (simp_all only: le32.get_put le64.get_put)
qed

lemma make_and_read_eq:
  assumes "f_reliable f" and "f_data f = pre @ b @ rest" and "length b \<le> 2 ^ 48"
  shows "\<exists>t. make_and_read (int (length b)) (int (length pre)) f = (Inr b, f\<lparr>f_tick := t\<rparr>)"
  using f_ReadAt_eq [OF assms(1,2)] assms(3) by (simp add: make_and_read_def make_ok_def)

lemma length_marshal:
  assumes "filter_ok bf" and "Filter_MarshalBinary (Some bf) = Inr bdata" and "unat (fl_m bf) < 2 ^ 48"
  shows "length bdata < 2 ^ 46"
proof -
  have "unat (fl_m bf + 7) = unat (fl_m bf) + 7" using assms(3) by (simp add: unat_word_ariths)
  then have "length (fl_bits bf) = (unat (fl_m bf) + 7) div 8"
    using assms(1) by (simp add: filter_ok_def unat_div_distrib)
  then have "length (fl_bits bf) < 2 ^ 46 - 100" using assms(3) by simp
  with Unmarshal_Marshal [OF assms(1), of "[]"] assms(2) show ?thesis by auto
qed

definition table_reader ::
  "nat \<Rightarrow> sst_Entry list list \<Rightarrow> Filter \<Rightarrow> string \<Rightarrow> nat \<Rightarrow> os_file \<Rightarrow> Reader" where
  "table_reader ri bs bf path sz f =
     \<lparr>r_f = Some f, r_path = path, r_index = index_of ri 0 bs, r_bloom = bf,
      r_maxSeq = fold max (map se_Seq (concat bs)) 0, r_entries = of_nat (length (concat bs)), r_minKey = None,
      r_maxKey = (if bs = [] then None else Some (skey (last (concat bs)))), r_fileSize = sz\<rparr>"

lemma last_concat: "bs \<noteq> [] \<Longrightarrow> [] \<notin> set bs \<Longrightarrow> last (concat bs) = last (last bs)"
proof (induction bs)
  case (Cons b bs)
  then show ?case by (cases bs) (auto simp: last_append)
qed simp

lemma index_of_Nil_iff [simp]: "index_of ri off bs = [] \<longleftrightarrow> bs = []"
  by (cases bs) auto

lemma last_index_of: "bs \<noteq> [] \<Longrightarrow> ir_lastKey (last (index_of ri off bs)) = skey (last (last bs))"
  by (induction bs arbitrary: off) auto

lemma Open_table:
  assumes f: "f_reliable f" "f_data f = table_bytes ri bs bdata"
    and bs: "[] \<notin> set bs" "total_size (concat bs) < 2 ^ 31"
    and bf: "filter_ok bf" "Filter_MarshalBinary (Some bf) = Inr bdata" "unat (fl_m bf) < 2 ^ 48"
  shows "\<exists>t. sst_Open path f =
    (Inr (table_reader ri bs bf path (length (table_bytes ri bs bdata)) (f\<lparr>f_tick := t\<rparr>)), f\<lparr>f_tick := t\<rparr>)"
proof -
  let ?D = "blocks_bytes ri bs" and ?I = "index_section (index_of ri 0 bs)"
  let ?ms = "fold max (map se_Seq (concat bs)) 0" and ?n = "length (concat bs)"
  let ?ft = "sst_footer (length (?D @ bdata)) (length ?I) (length ?D) (length bdata) ?ms ?n"
  let ?F = "table_bytes ri bs bdata"
  have F: "?F = ?D @ bdata @ ?I @ ?ft" by (simp add: table_bytes_def table_tail_def)
  note FF = footer_fields [of "length (?D @ bdata)" "length ?I" "length ?D" "length bdata" ?ms ?n]
  have lb: "length bdata < 2 ^ 46" by (rule length_marshal [OF bf])
  have ld: "length ?D < 2 ^ 33" using length_blocks_bytes [OF bs(1), of ri] bs(2) by simp
  have lbody: "length (index_body (index_of ri 0 bs)) < 2 ^ 32"
    using length_index_body [OF bs(1), of ri 0] bs(2) by simp
  then have li: "length ?I < 2 ^ 33" by (simp add: index_section_eq del: le_put.simps)
  have lF: "length ?F = length (?D @ bdata @ ?I) + 56" using FF(1) unfolding F by simp
  define f1 where "f1 = f\<lparr>f_tick := f_tick f + 1\<rparr>"
  have 1: "f_stat_size f = (Inr (length ?F), f1)" using f by (simp add: f_stat_size_def f1_def)
  have r1: "f_reliable f1" "f_data f1 = (?D @ bdata @ ?I) @ ?ft @ []" using f by (simp_all add: f1_def F)
  have o: "int (length ?F) - 56 = int (length (?D @ bdata @ ?I))" using lF by simp
  obtain t2 where 2: "f_ReadAt 56 (int (length (?D @ bdata @ ?I))) f1 = (Inr ?ft, f1\<lparr>f_tick := t2\<rparr>)"
    using f_ReadAt_eq [OF r1] unfolding FF(1) by blast
  let ?f2 = "f1\<lparr>f_tick := t2\<rparr>"
  have r2: "f_reliable ?f2" "f_data ?f2 = ?D @ bdata @ (?I @ ?ft)" using r1 by simp_all
  have lb': "length bdata \<le> 2 ^ 48" using lb by simp
  obtain t3 where 3: "make_and_read (int (length bdata)) (int (length ?D)) ?f2 = (Inr bdata, ?f2\<lparr>f_tick := t3\<rparr>)"
    using make_and_read_eq [OF r2 lb'] by blast
  let ?f3 = "?f2\<lparr>f_tick := t3\<rparr>"
  have r3: "f_reliable ?f3" "f_data ?f3 = (?D @ bdata) @ ?I @ ?ft" using r1 by simp_all
  have li': "length ?I \<le> 2 ^ 48" using li by simp
  obtain t4 where 4: "make_and_read (int (length ?I)) (int (length (?D @ bdata))) ?f3 = (Inr ?I, ?f3\<lparr>f_tick := t4\<rparr>)"
    using make_and_read_eq [OF r3 li'] by blast
  have U: "Filter_UnmarshalBinary bdata = Inr bf"
    using Unmarshal_Marshal [OF bf(1), of "[]"] bf(2) by auto
  have "length (index_of ri 0 bs) * 40 \<le> 2 ^ 48" using length_blocks [OF bs(1)] bs(2) by simp
  then have X: "decode_index ?I = Inr (index_of ri 0 bs)"
    using lbody by (intro decode_index_section) simp_all
  have c: "length ?D < 2 ^ 62" "length bdata < 2 ^ 62" "length ?I < 2 ^ 62" "length (?D @ bdata) < 2 ^ 62"
    using ld lb li by simp_all
  have nl: "\<not> length ?F < 56" using lF by simp
  have nb: "\<not> int (length bdata) = 0" using Unmarshal_Marshal [OF bf(1), of "[]"] bf(2) by auto
  have mk: "(if index_of ri 0 bs = [] then None else Clone (Some (ir_lastKey (last (index_of ri 0 bs))))) =
      (if bs = [] then None else Some (skey (last (concat bs))))"
    using bs(1) by (simp add: last_index_of last_concat)
  have "sst_Open path f = (Inr (table_reader ri bs bf path (length ?F) (?f3\<lparr>f_tick := t4\<rparr>)), ?f3\<lparr>f_tick := t4\<rparr>)"
    unfolding sst_Open_def 1 prod.case sum.case if_not_P [OF nl] o 2 FF Let_def
      int_len_u64(1) [OF c(1)] int_len_u64(1) [OF c(2)] int_len_u64(1) [OF c(3)] int_len_u64(1) [OF c(4)]
      if_not_P [OF nb] 3 4 U X mk table_reader_def by simp
  then show ?thesis by (auto simp: f1_def)
qed

end
