(* ===== verification/Sstable_Lookup.thy ===== *)
theory Sstable_Lookup imports Sstable_Reading begin

text \<open>
  Lookups and iterators over an open table, against the list of entries the table was written
  from.
\<close>

section \<open>Reading the blocks of a table\<close>

definition reads :: "nat \<Rightarrow> sst_Entry list list \<Rightarrow> Reader \<Rightarrow> bool" where
  "reads ri bs r =
     ((\<exists>f rest. r_f r = Some f \<and> f_reliable f \<and> f_data f = blocks_bytes ri bs @ rest) \<and>
      r_index r = index_of ri 0 bs)"

definition table_ok :: "sst_Entry list list \<Rightarrow> bool" where
  "table_ok bs = ([] \<notin> set bs \<and> total_size (concat bs) < 2 ^ 31 \<and> keys_sorted (concat bs))"

lemma keys_sorted_append:
  "keys_sorted (xs @ ys) \<longleftrightarrow> keys_sorted xs \<and> keys_sorted ys \<and> (\<forall>x\<in>set xs. \<forall>y\<in>set ys. skey x < skey y)"
  by (auto simp: keys_sorted_def sorted_wrt_append)

lemma block_ok:
  assumes "table_ok bs" and "i < length bs"
  shows "bs ! i \<noteq> []" "total_size (bs ! i) < 2 ^ 31" "keys_sorted (bs ! i)"
    "length (blocks_bytes ri (take i bs)) < 2 ^ 32"
proof -
  have d: "bs = take i bs @ bs ! i # drop (Suc i) bs" using assms(2) by (simp add: id_take_nth_drop)
  then have e: "concat bs = concat (take i bs) @ bs ! i @ concat (drop (Suc i) bs)"
    by (metis concat.simps(2) concat_append)
  show "bs ! i \<noteq> []" using assms(1) nth_mem [OF assms(2)] by (metis table_ok_def)
  have "total_size (concat bs) < 2 ^ 31" "keys_sorted (concat bs)" using assms(1) by (simp_all add: table_ok_def)
  then show "total_size (bs ! i) < 2 ^ 31" "keys_sorted (bs ! i)"
    unfolding e by (simp_all add: keys_sorted_append)
  have "[] \<notin> set (take i bs)" using assms(1) by (auto simp: table_ok_def dest: in_set_takeD)
  from length_blocks_bytes [OF this, of ri] \<open>total_size (concat bs) < 2 ^ 31\<close>
  show "length (blocks_bytes ri (take i bs)) < 2 ^ 32" unfolding e by simp
qed

lemma readBlock_at:
  assumes "reads ri bs r" and "table_ok bs" and "i < length bs"
  shows "\<exists>r'. Reader_readBlock (r_index r ! i) r = (Inr (block_body ri (bs ! i)), r') \<and> reads ri bs r'
    \<and> r_bloom r' = r_bloom r"
proof -
  from assms(1) obtain f rest where f: "r_f r = Some f" "f_reliable f" "f_data f = blocks_bytes ri bs @ rest"
    and ix: "r_index r = index_of ri 0 bs" by (auto simp: reads_def)
  let ?b = "bs ! i" and ?pre = "blocks_bytes ri (take i bs)"
  note ok = block_ok [OF assms(2,3)]
  have d: "bs = take i bs @ ?b # drop (Suc i) bs" using assms(3) by (simp add: id_take_nth_drop)
  have "blocks_bytes ri bs = ?pre @ block_bytes ri ?b @ blocks_bytes ri (drop (Suc i) bs)"
    by (subst d) simp
  then have fd: "f_data f = ?pre @ block_bytes ri ?b @ (blocks_bytes ri (drop (Suc i) bs) @ rest)"
    using f(3) by simp
  obtain t where t: "f_ReadAt (length (block_bytes ri ?b)) (int (length ?pre)) f = (Inr (block_bytes ri ?b), f\<lparr>f_tick := t\<rparr>)"
    using f_ReadAt_eq [OF f(2) fd] by blast
  have len: "length (block_bytes ri ?b) < 2 ^ 32" using length_block_bytes [OF ok(1), of ri] ok(2) by simp
  have l: "unat (of_nat (length (block_bytes ri ?b)) :: u64) = length (block_bytes ri ?b)"
    "int_of_u64 (of_nat (length ?pre)) = int (length ?pre)"
    using len ok(4) [of ri] by (simp_all add: int_len_u64)
  have mk: "\<not> \<not> make_ok (length (block_bytes ri ?b)) 1" using len by (simp add: make_ok_def)
  have s: "length (block_bytes ri ?b) - 4 = length (block_body ri ?b)" "\<not> length (block_bytes ri ?b) < 8"
    by (simp_all add: block_bytes_def block_body_def del: le_put.simps)
  have tk: "take (length (block_body ri ?b)) (block_bytes ri ?b) = block_body ri ?b"
    "drop (length (block_body ri ?b)) (block_bytes ri ?b) = le_put 4 (ChecksumCastagnoli (block_body ri ?b))"
    by (simp_all add: block_bytes_def del: le_put.simps)
  have "Reader_readBlock (r_index r ! i) r = (Inr (block_body ri ?b), r\<lparr>r_f := Some (f\<lparr>f_tick := t\<rparr>)\<rparr>)"
    unfolding Reader_readBlock_def ix index_of_nth [OF assms(3)] indexRec.simps add_0 l if_not_P [OF mk]
      f(1) option.case t prod.case sum.case Let_def s(1) tk le32.get_put if_not_P [OF s(2)] by simp
  with f ix show ?thesis by (auto simp: reads_def)
qed

section \<open>The block of a key\<close>

lemma rank_append [simp]: "rank key (xs @ ys) = rank key xs + rank key ys"
  by (simp add: rank_def)

lemma rank_all: "(\<And>e. e \<in> set es \<Longrightarrow> skey e < key) \<Longrightarrow> rank key es = length es"
  by (simp add: rank_def filter_id_conv)

lemma rank_none: "(\<And>e. e \<in> set es \<Longrightarrow> \<not> skey e < key) \<Longrightarrow> rank key es = 0"
  by (simp add: rank_def filter_empty_conv)

lemma drop_rank: "keys_sorted es \<Longrightarrow> drop (rank key es) es = filter (\<lambda>e. \<not> skey e < key) es"
proof (induction es)
  case (Cons e es)
  then have gt: "\<forall>x\<in>set es. skey e < skey x" and s: "keys_sorted es" by (auto simp: keys_sorted_def)
  show ?case
  proof (cases "skey e < key")
    case True
    with Cons.IH [OF s] show ?thesis by (simp add: rank_def)
  next
    case False
    then have n: "\<not> skey x < key" if "x \<in> set (e # es)" for x using that gt by (auto dest: order.strict_trans)
    then have "rank key (e # es) = 0" by (rule rank_none)
    with n show ?thesis by (simp add: filter_id_conv)
  qed
qed simp

lemma last_greatest: "keys_sorted es \<Longrightarrow> e \<in> set es \<Longrightarrow> skey e \<le> skey (last es)"
  by (induction es rule: rev_induct) (auto simp: keys_sorted_append)

lemma blocks_sorted:
  assumes "keys_sorted (concat bs)" and "i < j" and "j < length bs" and "x \<in> set (bs ! i)" and "y \<in> set (bs ! j)"
  shows "skey x < skey y"
proof -
  have d: "bs = take j bs @ bs ! j # drop (Suc j) bs" using assms(3) by (simp add: id_take_nth_drop)
  then have e: "concat bs = concat (take j bs) @ bs ! j @ concat (drop (Suc j) bs)"
    by (metis concat.simps(2) concat_append)
  have "bs ! i \<in> set (take j bs)" using assms(2,3) by (auto simp: in_set_conv_nth)
  with assms(4) have "x \<in> set (concat (take j bs))" by auto
  with assms(1,5) show ?thesis unfolding e by (auto simp: keys_sorted_append)
qed

lemma find_block_rank:
  fixes ri key bs
  assumes "table_ok bs"
  defines "idx \<equiv> find_block (index_of ri 0 bs) key"
  shows "idx \<le> length bs"
    and "idx < length bs \<Longrightarrow> rank key (concat bs) = length (concat (take idx bs)) + rank key (bs ! idx)"
    and "idx < length bs \<Longrightarrow> rank key (bs ! idx) < length (bs ! idx)"
    and "idx = length bs \<Longrightarrow> rank key (concat bs) = length (concat bs)"
proof -
  let ?f = "\<lambda>i. Compare (ir_lastKey (index_of ri 0 bs ! i)) key \<ge> 0"
  have srt: "keys_sorted (concat bs)" using assms(1) by (simp add: table_ok_def)
  have ne: "i < length bs \<Longrightarrow> bs ! i \<noteq> []" for i using block_ok(1) [OF assms(1)] .
  have f: "?f i \<longleftrightarrow> key \<le> skey (last (bs ! i))" if "i < length bs" for i
    using that by (simp add: index_of_nth)
  have mono: "?f b" if "a \<le> b" "b < length bs" "?f a" for a b
  proof (cases "a = b")
    case False
    with that(1) have "a < b" by simp
    then have "skey (last (bs ! a)) < skey (last (bs ! b))"
      using that(2) ne by (intro blocks_sorted [OF srt, of a b]) (auto intro!: last_in_set)
    with that f [of a] f [of b] show ?thesis by (auto dest: order.strict_trans2)
  qed (use that in auto)
  have id: "idx = sort_Search (length bs) ?f" by (simp add: idx_def find_block_def)
  have s: "idx \<le> length bs" "\<And>k. k < idx \<Longrightarrow> \<not> ?f k" "\<And>k. idx \<le> k \<Longrightarrow> k < length bs \<Longrightarrow> ?f k"
    unfolding id by (rule sort_Search_first [where f = ?f and n = "length bs", OF mono]; assumption)+
  then show "idx \<le> length bs" by simp
  have lo: "rank key (concat (take idx bs)) = length (concat (take idx bs))"
  proof (rule rank_all)
    fix e assume "e \<in> set (concat (take idx bs))"
    then obtain b where "b \<in> set (take idx bs)" "e \<in> set b" by auto
    then obtain i where i: "i < idx" "i < length bs" "e \<in> set (bs ! i)" by (auto simp: in_set_conv_nth [of b])
    then have "\<not> key \<le> skey (last (bs ! i))" using s(2) f by blast
    with last_greatest [OF block_ok(3) [OF assms(1) i(2)] i(3)] show "skey e < key"
      by (meson leI le_less_trans)
  qed
  show "rank key (concat bs) = length (concat bs)" if "idx = length bs"
    using lo that by simp
  assume lt: "idx < length bs"
  have fx: "key \<le> skey (last (bs ! idx))" using s(3) [of "idx"] f lt by blast
  have hi: "rank key (concat (drop (Suc idx) bs)) = 0"
  proof (rule rank_none)
    fix e assume "e \<in> set (concat (drop (Suc idx) bs))"
    then obtain b where b: "b \<in> set (drop (Suc idx) bs)" "e \<in> set b" by auto
    then obtain k where "k < length bs - Suc idx" "b = bs ! (Suc idx + k)" by (auto simp: in_set_conv_nth [of b])
    then have j: "idx < Suc idx + k" "Suc idx + k < length bs" "e \<in> set (bs ! (Suc idx + k))" using b(2) by auto
    have "skey (last (bs ! idx)) < skey e"
      by (rule blocks_sorted [OF srt j(1,2) last_in_set j(3)]) (rule ne [OF lt])
    with fx show "\<not> skey e < key" by (meson leD le_less_trans less_imp_le)
  qed
  have d: "bs = take idx bs @ bs ! idx # drop (Suc idx) bs" using lt by (simp add: id_take_nth_drop)
  then have e: "concat bs = concat (take idx bs) @ bs ! idx @ concat (drop (Suc idx) bs)"
    by (metis concat.simps(2) concat_append)
  show "rank key (concat bs) = length (concat (take idx bs)) + rank key (bs ! idx)"
    unfolding e using lo hi by simp
  have "length (bs ! idx) - 1 < length (bs ! idx)" using ne [OF lt] by (cases "bs ! idx") auto
  from rank_less_iff [OF block_ok(3) [OF assms(1) lt] this, of key] fx ne [OF lt]
  have "\<not> length (bs ! idx) - 1 < rank key (bs ! idx)" by (auto simp: last_conv_nth)
  then show "rank key (bs ! idx) < length (bs ! idx)" using ne [OF lt] by (cases "bs ! idx") auto
qed

section \<open>Lookups\<close>

text \<open>What a lookup is to return.\<close>

definition table_lookup :: "sst_Entry list \<Rightarrow> bytes \<Rightarrow> sst_Entry \<times> bool" where
  "table_lookup es key =
     (case find (\<lambda>e. skey e = key) es of None \<Rightarrow> (zero_sst_Entry, False) | Some e \<Rightarrow> (stored e, True))"

lemma find_rank:
  assumes "keys_sorted es"
  shows "find (\<lambda>e. skey e = key) es =
    (if rank key es < length es \<and> skey (es ! rank key es) = key then Some (es ! rank key es) else None)"
  using assms
proof (induction es)
  case (Cons e es)
  then have gt: "\<forall>x\<in>set es. skey e < skey x" and s: "keys_sorted es" by (auto simp: keys_sorted_def)
  show ?case
  proof (cases "skey e < key")
    case True
    with Cons.IH [OF s] show ?thesis by (auto simp: rank_def)
  next
    case False
    then have "rank key (e # es) = 0" using gt by (intro rank_none) (auto dest: order.strict_trans)
    moreover have "skey x = key \<Longrightarrow> x \<in> set es \<Longrightarrow> False" for x using gt False by auto
    then have "skey e \<noteq> key \<Longrightarrow> find (\<lambda>e. skey e = key) (e # es) = None" by (auto simp: find_None_iff)
    ultimately show ?thesis by auto
  qed
qed (simp add: rank_def)

lemma concat_nth_block:
  assumes "i < length bs" and "k < length (bs ! i)"
  shows "concat bs ! (length (concat (take i bs)) + k) = bs ! i ! k"
    "length (concat (take i bs)) + k < length (concat bs)"
    "length (concat (take i bs)) + length (bs ! i) = length (concat (take (Suc i) bs))"
proof -
  have d: "bs = take i bs @ bs ! i # drop (Suc i) bs" using assms(1) by (simp add: id_take_nth_drop)
  then have e: "concat bs = concat (take i bs) @ bs ! i @ concat (drop (Suc i) bs)"
    by (metis concat.simps(2) concat_append)
  show "concat bs ! (length (concat (take i bs)) + k) = bs ! i ! k"
    "length (concat (take i bs)) + k < length (concat bs)"
    unfolding e using assms(2) by (simp_all only: nth_append_length_plus nth_append if_True length_append) simp
  show "length (concat (take i bs)) + length (bs ! i) = length (concat (take (Suc i) bs))"
    using assms(1) by (simp add: take_Suc_conv_app_nth)
qed

lemma Reader_Get_table:
  assumes r: "reads ri bs r" and ok: "table_ok bs" and bf: "filter_ok (r_bloom r)"
    and keys: "\<forall>e\<in>set (concat bs). has_key (r_bloom r) (skey e)"
  shows "\<exists>r'. Reader_Get key r = (Inr (table_lookup (concat bs) key), r') \<and> reads ri bs r' \<and> r_bloom r' = r_bloom r"
proof -
  let ?idx = "find_block (index_of ri 0 bs) key"
  note fb = find_block_rank [OF ok, of ri key]
  have ix: "r_index r = index_of ri 0 bs" using r by (simp add: reads_def)
  have may: "Reader_MayContain key r = Inr (has_key (r_bloom r) key)"
    by (simp add: Reader_MayContain_def MayContain_eq [OF bf])
  have srt: "keys_sorted (concat bs)" using ok by (simp add: table_ok_def)
  have none: "find (\<lambda>e. skey e = key) (concat bs) = None \<Longrightarrow> table_lookup (concat bs) key = (zero_sst_Entry, False)"
    by (simp add: table_lookup_def)
  consider (no) "\<not> has_key (r_bloom r) key" | (empty) "has_key (r_bloom r) key" "bs = []"
    | (out) "has_key (r_bloom r) key" "bs \<noteq> []" "?idx = length bs"
    | (block) "has_key (r_bloom r) key" "bs \<noteq> []" "?idx < length bs" using fb(1) by linarith
  then show ?thesis
  proof cases
    case no
    then have "find (\<lambda>e. skey e = key) (concat bs) = None" using keys by (auto simp: find_None_iff)
    with no none r show ?thesis by (simp add: Reader_Get_def may)
  next
    case empty
    with none r show ?thesis by (simp add: Reader_Get_def may ix)
  next
    case out
    then have "find (\<lambda>e. skey e = key) (concat bs) = None" using fb(4) by (simp add: find_rank [OF srt])
    with out none r show ?thesis by (simp add: Reader_Get_def may ix Let_def)
  next
    case block
    note b = block_ok [OF ok block(3)]
    let ?b = "bs ! ?idx" and ?k = "rank key (bs ! ?idx)"
    obtain r1 where 1: "Reader_readBlock (r_index r ! ?idx) r = (Inr (block_body ri ?b), r1)" "reads ri bs r1"
      "r_bloom r1 = r_bloom r" using readBlock_at [OF r ok block(3)] by blast
    obtain it where 2: "newBlockIter (block_body ri ?b) = Inr it" "it_at ri ?b 0 it"
      using newBlockIter_at [OF b(2,1)] by blast
    obtain it' where 3: "blockIter_Seek key it = Inr it'" "it_at ri ?b ?k it'"
      using blockIter_Seek_at [OF _ b(2,3,1)] 2(2) unfolding it_at_def by blast
    have k: "?k < length ?b" by (rule fb(3) [OF block(3)])
    have v: "bi_valid it'" "bi_key it' = skey (?b ! ?k)" "it_entry it' = stored (?b ! ?k)"
      using 3(2) k by (simp_all add: it_at_def it_entry_eq)
    have n: "concat bs ! rank key (concat bs) = ?b ! ?k" "rank key (concat bs) < length (concat bs)"
      using concat_nth_block(1,2) [OF block(3) k] fb(2) [OF block(3)] by simp_all
    have e: "\<lparr>se_Key = Clone (Some (bi_key it')), se_Value = Clone (Some (bi_value it')),
        se_Seq = bi_seq it', se_Deleted = bi_deleted it'\<rparr> = stored (?b ! ?k)"
      unfolding v(3) [symmetric] it_entry_def by simp
    have L: "table_lookup (concat bs) key =
        (if bi_valid it' \<and> Equal (bi_key it') key then (stored (?b ! ?k), True) else (zero_sst_Entry, False))"
      unfolding table_lookup_def find_rank [OF srt] n(1) using n(2) v by simp
    have lt: "\<not> length bs \<le> ?idx" using block(3) by simp
    have "Reader_Get key r = (Inr (if bi_valid it' \<and> Equal (bi_key it') key
        then (\<lparr>se_Key = Clone (Some (bi_key it')), se_Value = Clone (Some (bi_value it')),
          se_Seq = bi_seq it', se_Deleted = bi_deleted it'\<rparr>, True) else (zero_sst_Entry, False)), r1)"
      using block(1,2) 1(1) 2(1) 3(1) lt unfolding Reader_Get_def may ix Let_def by simp
    then have "Reader_Get key r = (Inr (table_lookup (concat bs) key), r1)" unfolding L e .
    with 1(2,3) show ?thesis by blast
  qed
qed

section \<open>Iterators\<close>

text \<open>An iterator on the n-th entry of the table, with its reader.\<close>

definition ti_at :: "nat \<Rightarrow> sst_Entry list list \<Rightarrow> nat \<Rightarrow> TIterator \<Rightarrow> Reader \<Rightarrow> bool" where
  "ti_at ri bs n it r =
     (reads ri bs r \<and> ti_err it = None \<and>
      (if n < length (concat bs)
       then \<exists>i k b. i < length bs \<and> k < length (bs ! i) \<and> n = length (concat (take i bs)) + k \<and>
              ti_bi it = int i \<and> ti_blockIt it = Some b \<and> it_at ri (bs ! i) k b
       else n = length (concat bs) \<and> ti_blockIt it = None))"

lemma ti_at_entry:
  assumes "ti_at ri bs n it r" and "n < length (concat bs)"
  shows "TIterator_Valid it \<and> TIterator_Entry it = stored (concat bs ! n)"
proof -
  from assms obtain i k b where b: "i < length bs" "k < length (bs ! i)" "n = length (concat (take i bs)) + k"
    "ti_err it = None" "ti_blockIt it = Some b" "it_at ri (bs ! i) k b" unfolding ti_at_def by auto
  then have "bi_valid b" "it_entry b = stored (bs ! i ! k)" by (simp_all add: it_at_def)
  with b(4,5) concat_nth_block(1) [OF b(1,2)] b(3) show ?thesis
    by (simp add: TIterator_Valid_def TIterator_Entry_def TIterator_Key_def TIterator_Value_def
        TIterator_Seq_def TIterator_Deleted_def it_entry_def)
qed

lemma ti_at_Valid: "ti_at ri bs n it r \<Longrightarrow> TIterator_Valid it \<longleftrightarrow> n < length (concat bs)"
  using ti_at_entry [of ri bs n it r]
  by (cases "n < length (concat bs)") (simp_all add: ti_at_def TIterator_Valid_def)

lemma TIterator_blocks_at:
  assumes "reads ri bs r" and "table_ok bs" and "ti_err it = None"
    and "ti_bi it = int i" and "i \<le> length bs \<or> n = length (concat bs)"
    and "n = length (concat (take i bs))"
  shows "\<exists>it' r'. TIterator_blocks it r = (Inr it', r') \<and> ti_at ri bs n it' r' \<and> r_bloom r' = r_bloom r"
proof (cases "i < length bs")
  case True
  note b = block_ok [OF assms(2) True]
  obtain r1 where 1: "Reader_readBlock (r_index r ! i) r = (Inr (block_body ri (bs ! i)), r1)" "reads ri bs r1"
    "r_bloom r1 = r_bloom r" using readBlock_at [OF assms(1,2) True] by blast
  obtain bi where 2: "newBlockIter (block_body ri (bs ! i)) = Inr bi" "it_at ri (bs ! i) 0 bi"
    using newBlockIter_at [OF b(2,1)] by blast
  have v: "bi_valid bi" using 2(2) b(1) by (simp add: it_at_def)
  have lt: "ti_bi it < int (length (r_index r))" using assms(1,4) True by (simp add: reads_def)
  have "TIterator_blocks it r = (Inr (it\<lparr>ti_blockIt := Some bi\<rparr>), r1)"
    using lt assms(4) 1(1) 2(1) v by (subst TIterator_blocks.simps) (simp add: Let_def)
  moreover have "n < length (concat bs)" using concat_nth_block(2) [OF True, of 0] b(1) assms(6) by simp
  then have "ti_at ri bs n (it\<lparr>ti_blockIt := Some bi\<rparr>) r1"
    unfolding ti_at_def using 1(2) 2(2) assms(3,4,6) True b(1)
    by (simp, intro exI [of _ i] exI [of _ 0]) simp
  ultimately show ?thesis using 1(3) by blast
next
  case False
  then have "\<not> ti_bi it < int (length (r_index r))" using assms(1,4) by (simp add: reads_def)
  moreover have "n = length (concat bs)" using False assms(6) by simp
  ultimately show ?thesis using assms(1,3,4) False
    by (subst TIterator_blocks.simps) (simp add: ti_at_def)
qed

lemma TIterator_Next_at:
  assumes "ti_at ri bs n it r" and "table_ok bs" and "n < length (concat bs)"
  shows "\<exists>it' r'. TIterator_Next it r = (Inr it', r') \<and> ti_at ri bs (n + 1) it' r' \<and> r_bloom r' = r_bloom r"
proof -
  from assms(1,3) obtain i k b where a: "reads ri bs r" "ti_err it = None" "i < length bs" "k < length (bs ! i)"
    "n = length (concat (take i bs)) + k" "ti_bi it = int i" "ti_blockIt it = Some b" "it_at ri (bs ! i) k b"
    unfolding ti_at_def by auto
  note ok = block_ok [OF assms(2) a(3)]
  obtain b1 where b1: "blockIter_Next b = Inr b1" "it_at ri (bs ! i) (k + 1) b1"
    using Next_at [OF a(8) ok(2) a(4)] by blast
  show ?thesis
  proof (cases "k + 1 < length (bs ! i)")
    case True
    then have v: "bi_valid b1" using b1(2) by (simp add: it_at_def)
    have "TIterator_Next it r = (Inr (it\<lparr>ti_blockIt := Some b1\<rparr>), r)"
      using a(2,7) b1(1) v by (simp add: TIterator_Next_def)
    moreover have "n + 1 < length (concat bs)" using concat_nth_block(2) [OF a(3) True] a(5) by simp
    then have "ti_at ri bs (n + 1) (it\<lparr>ti_blockIt := Some b1\<rparr>) r"
      unfolding ti_at_def using a b1(2) True by (simp, intro exI [of _ i] exI [of _ "k + 1"]) simp
    ultimately show ?thesis by blast
  next
    case False
    then have k: "k + 1 = length (bs ! i)" using a(4) by simp
    then have v: "\<not> bi_valid b1" using b1(2) by (simp add: it_at_def)
    have n: "n + 1 = length (concat (take (Suc i) bs))" using concat_nth_block(3) [OF a(3,4)] a(5) k by simp
    let ?it = "it\<lparr>ti_blockIt := Some b1, ti_bi := ti_bi it + 1\<rparr>"
    have "TIterator_Next it r = TIterator_blocks ?it r"
      using a(2,7) b1(1) v by (simp add: TIterator_Next_def)
    moreover have "\<exists>it' r'. TIterator_blocks ?it r = (Inr it', r') \<and> ti_at ri bs (n + 1) it' r' \<and> r_bloom r' = r_bloom r"
      by (rule TIterator_blocks_at [OF a(1) assms(2), where i = "Suc i"]) (use a n in simp_all)
    ultimately show ?thesis by simp
  qed
qed

lemma NewIterator_at:
  assumes "reads ri bs r" and "table_ok bs"
  shows "\<exists>it r'. Reader_NewIterator r = (Inr it, r') \<and> ti_at ri bs 0 it r' \<and> r_bloom r' = r_bloom r"
proof -
  have "\<exists>it r'. TIterator_blocks \<lparr>ti_bi = 0, ti_blockIt = None, ti_err = None\<rparr> r = (Inr it, r') \<and> ti_at ri bs 0 it r'
      \<and> r_bloom r' = r_bloom r"
    by (rule TIterator_blocks_at [OF assms, where i = 0]) simp_all
  then show ?thesis by (simp add: Reader_NewIterator_def TIterator_Next_def)
qed

lemma TIterator_Seek_at:
  assumes "reads ri bs r" and "table_ok bs"
  shows "\<exists>it' r'. TIterator_Seek key it r = (Inr it', r') \<and> ti_at ri bs (rank key (concat bs)) it' r'
    \<and> r_bloom r' = r_bloom r"
proof -
  let ?idx = "find_block (index_of ri 0 bs) key"
  note fb = find_block_rank [OF assms(2), of ri key]
  have ix: "r_index r = index_of ri 0 bs" using assms(1) by (simp add: reads_def)
  consider (empty) "bs = []" | (out) "bs \<noteq> []" "?idx = length bs" | (block) "bs \<noteq> []" "?idx < length bs"
    using fb(1) by linarith
  then show ?thesis
  proof cases
    case empty
    then show ?thesis using assms(1) ix by (simp add: TIterator_Seek_def Let_def ti_at_def rank_def)
  next
    case out
    then show ?thesis using fb(4) assms(1) ix by (simp add: TIterator_Seek_def Let_def ti_at_def)
  next
    case block
    note b = block_ok [OF assms(2) block(2)]
    let ?b = "bs ! ?idx" and ?k = "rank key (bs ! ?idx)"
    obtain r1 where 1: "Reader_readBlock (r_index r ! ?idx) r = (Inr (block_body ri ?b), r1)" "reads ri bs r1"
      "r_bloom r1 = r_bloom r" using readBlock_at [OF assms block(2)] by blast
    obtain b1 where 2: "newBlockIter (block_body ri ?b) = Inr b1" "it_at ri ?b 0 b1"
      using newBlockIter_at [OF b(2,1)] by blast
    obtain b2 where 3: "blockIter_Seek key b1 = Inr b2" "it_at ri ?b ?k b2"
      using blockIter_Seek_at [OF _ b(2,3,1)] 2(2) unfolding it_at_def by blast
    have k: "?k < length ?b" by (rule fb(3) [OF block(2)])
    have v: "bi_valid b2" using 3(2) k by (simp add: it_at_def)
    have n: "rank key (concat bs) < length (concat bs)"
      using concat_nth_block(2) [OF block(2) k] fb(2) [OF block(2)] by simp
    have lt: "\<not> length bs \<le> ?idx" using block(2) by simp
    let ?it = "it\<lparr>ti_err := None, ti_bi := int ?idx, ti_blockIt := Some b2\<rparr>"
    have "TIterator_Seek key it r = (Inr ?it, r1)"
      using block(1) 1(1) 2(1) 3(1) v lt unfolding TIterator_Seek_def Let_def ix by simp
    moreover have "ti_at ri bs (rank key (concat bs)) ?it r1"
      unfolding ti_at_def if_P [OF n] using 1(2) 3(2) k block(2) fb(2) [OF block(2)]
      by (simp, intro exI [of _ ?idx] exI [of _ ?k]) simp
    ultimately show ?thesis using 1(3) by blast
  qed
qed

end
