(* ===== verification/Sstable_Table.thy ===== *)
theory Sstable_Table imports Sstable_Lookup begin

text \<open>
  The contract of \<^verbatim>\<open>internal/sstable\<close> as a whole, from the entries given to
  \<^verbatim>\<open>WriteFile\<close> to what \<^verbatim>\<open>Open\<close>, \<^verbatim>\<open>Get\<close> and the iterators return; the cursor interface
  on its two iterators; and the errors of the writer and of the reader.
\<close>

section \<open>The iterators are cursors\<close>

definition block_cursor_at :: "nat \<Rightarrow> sst_Entry list \<Rightarrow> nat \<Rightarrow> blockIter \<Rightarrow> bool" where
  "block_cursor_at ri es n it = (\<exists>b. es = map stored b \<and> total_size b < 2 ^ 31 \<and> it_at ri b n it)"

interpretation bi: cursor bi_valid it_entry blockIter_Next "block_cursor_at ri" for ri
proof unfold_locales
  fix es n it
  assume "block_cursor_at ri es n it"
  then obtain b where b: "es = map stored b" "total_size b < 2 ^ 31" "it_at ri b n it"
    by (auto simp: block_cursor_at_def)
  show "n \<le> length es" using b by (auto simp: it_at_def split: if_splits)
  show "bi_valid it \<longleftrightarrow> n < length es" using b by (auto simp: it_at_def split: if_splits)
  assume "n < length es"
  then have n: "n < length b" by (simp add: b(1))
  then show "it_entry it = es ! n" using b(1,3) by (simp add: it_at_def)
  show "\<exists>it'. blockIter_Next it = Inr it' \<and> block_cursor_at ri es (n + 1) it'"
    using Next_at [OF b(3,2) n] b(1,2) unfolding block_cursor_at_def by blast
qed

text \<open>A table's iterator, with the reader it points to.\<close>

definition ti_valid :: "TIterator \<times> Reader \<Rightarrow> bool" where "ti_valid s = TIterator_Valid (fst s)"
definition ti_entry :: "TIterator \<times> Reader \<Rightarrow> sst_Entry" where "ti_entry s = TIterator_Entry (fst s)"

definition ti_next :: "TIterator \<times> Reader \<Rightarrow> error + TIterator \<times> Reader" where
  "ti_next s = (case TIterator_Next (fst s) (snd s) of (Inl e, _) \<Rightarrow> Inl e | (Inr it, r) \<Rightarrow> Inr (it, r))"

definition table_cursor_at :: "nat \<Rightarrow> sst_Entry list \<Rightarrow> nat \<Rightarrow> TIterator \<times> Reader \<Rightarrow> bool" where
  "table_cursor_at ri es n s =
     (\<exists>bs. es = map stored (concat bs) \<and> table_ok bs \<and> ti_at ri bs n (fst s) (snd s))"

interpretation ti: cursor ti_valid ti_entry ti_next "table_cursor_at ri" for ri
proof unfold_locales
  fix es n s
  assume "table_cursor_at ri es n s"
  then obtain bs where b: "es = map stored (concat bs)" "table_ok bs" "ti_at ri bs n (fst s) (snd s)"
    by (auto simp: table_cursor_at_def)
  have len: "length es = length (concat bs)" unfolding b(1) by (rule length_map)
  show "n \<le> length es" using b(3) unfolding len ti_at_def by (metis less_imp_le order_refl)
  show "ti_valid s \<longleftrightarrow> n < length es" using ti_at_Valid [OF b(3)] by (simp add: ti_valid_def len)
  assume "n < length es"
  then have n: "n < length (concat bs)" by (simp add: len)
  then show "ti_entry s = es ! n" using ti_at_entry [OF b(3) n] by (simp add: ti_entry_def b(1))
  from TIterator_Next_at [OF b(3,2) n] obtain it r where
    "TIterator_Next (fst s) (snd s) = (Inr it, r)" "ti_at ri bs (n + 1) it r" by blast
  with b(1,2) show "\<exists>s'. ti_next s = Inr s' \<and> table_cursor_at ri es (n + 1) s'"
    by (intro exI [of _ "(it, r)"]) (auto simp: ti_next_def table_cursor_at_def)
qed

section \<open>Writing and reading back\<close>

text \<open>
  What the program may write: sorted entries with distinct, non-nil keys, below 2 GiB with
  64 bytes of overhead counted for each (offsets in a block have 32 bits), and a filter that
  fits in memory.
\<close>

definition table_input :: "sizing \<Rightarrow> WriterOptions option \<Rightarrow> sst_Entry list \<Rightarrow> bool" where
  "table_input sz opts es =
     (list_all (\<lambda>e. se_Key e \<noteq> None) es \<and> keys_sorted es \<and> total_size es < 2 ^ 31 \<and>
      unat (NumBits (table_filter sz opts es)) < 2 ^ 48)"

definition fresh_file :: "os_file \<Rightarrow> bool" where
  "fresh_file f = (f_reliable f \<and> f_data f = [] \<and> f_pos f = 0)"

lemma WriteFile_Open:
  assumes "fresh_file f" and "table_input sz opts es"
  shows "\<exists>f' bs r g. sst_WriteFile sz path es opts f = (Inr (table_meta path es (length (f_data f'))), Some f')
    \<and> f_stable f' = f_data f' \<and> sst_Open path (os_file_of (f_stable f')) = (Inr r, g)
    \<and> concat bs = es \<and> table_ok bs \<and> reads (wf_ri opts) bs r \<and> filter_ok (r_bloom r)
    \<and> (\<forall>e\<in>set es. has_key (r_bloom r) (skey e))
    \<and> Reader_Entries r = of_nat (length es) \<and> Reader_MaxSeq r = fold max (map se_Seq es) 0
    \<and> Reader_FileSize r = length (f_data f')"
proof -
  have T: "\<forall>e\<in>set es. se_Key e \<noteq> None" "keys_sorted es" "total_size es < 2 ^ 31"
    "unat (NumBits (table_filter sz opts es)) < 2 ^ 48"
    using assms(2) by (auto simp: table_input_def list_all_iff)
  have F0: "f_reliable f" "f_data f = []" "f_pos f = 0" using assms(1) by (simp_all add: fresh_file_def)
  from T(4) have nb: "unat (NumBits (table_filter sz opts es)) + 7 < 2 ^ 64" by simp
  obtain bf bdata bs f' where 1: "sst_WriteFile sz path es opts f =
      (Inr (table_meta path es (length (table_bytes (wf_ri opts) bs bdata))), Some f')"
    "at_end f' (table_bytes (wf_ri opts) bs bdata)" "f_stable f' = table_bytes (wf_ri opts) bs bdata"
    "concat bs = es" "[] \<notin> set bs" "filter_ok bf" "Filter_MarshalBinary (Some bf) = Inr bdata"
    "fl_m bf = NumBits (table_filter sz opts es)" "\<forall>e\<in>set es. has_key bf (skey e)"
    using WriteFile_table [OF F0 T(1,2) nb, of path] by blast
  let ?F = "table_bytes (wf_ri opts) bs bdata"
  have F: "f_data f' = ?F" using 1(2) by (simp add: at_end_def)
  have o: "f_reliable (os_file_of ?F)" "f_data (os_file_of ?F) = ?F" by simp_all
  have m: "unat (fl_m bf) < 2 ^ 48" "total_size (concat bs) < 2 ^ 31" using T(3,4) 1(4,8) by simp_all
  obtain t where 2: "sst_Open path (os_file_of ?F) =
      (Inr (table_reader (wf_ri opts) bs bf path (length ?F) ((os_file_of ?F)\<lparr>f_tick := t\<rparr>)), (os_file_of ?F)\<lparr>f_tick := t\<rparr>)"
    using Open_table [OF o 1(5) m(2) 1(6,7) m(1), of path] by blast
  let ?r = "table_reader (wf_ri opts) bs bf path (length ?F) ((os_file_of ?F)\<lparr>f_tick := t\<rparr>)"
  have "reads (wf_ri opts) bs ?r" by (simp add: reads_def table_reader_def table_bytes_def)
  moreover have "table_ok bs" using 1(4,5) T(2,3) by (simp add: table_ok_def)
  moreover have "r_bloom ?r = bf" "Reader_Entries ?r = of_nat (length es)"
    "Reader_MaxSeq ?r = fold max (map se_Seq es) 0" "Reader_FileSize ?r = length (f_data f')"
    by (simp_all only: table_reader_def Reader_Entries_def Reader_MaxSeq_def Reader_FileSize_def Reader.simps 1(4) F)
  ultimately show ?thesis using 1(1,3,4,6,9) 2 F by metis
qed

text \<open>Lookups one after the other through the same reader.\<close>

fun Reader_Gets :: "bytes list \<Rightarrow> Reader \<Rightarrow> (error + (sst_Entry \<times> bool)) list \<times> Reader" where
  "Reader_Gets [] r = ([], r)"
| "Reader_Gets (k # ks) r =
     (case Reader_Get k r of (x, r) \<Rightarrow> case Reader_Gets ks r of (xs, r) \<Rightarrow> (x # xs, r))"

lemma Reader_Gets_table:
  assumes "reads ri bs r" and "table_ok bs" and "filter_ok (r_bloom r)"
    and "\<forall>e\<in>set (concat bs). has_key (r_bloom r) (skey e)"
  shows "fst (Reader_Gets ks r) = map (\<lambda>k. Inr (table_lookup (concat bs) k)) ks"
  using assms
proof (induction ks arbitrary: r)
  case (Cons k ks)
  from Reader_Get_table [OF Cons.prems, of k] obtain r1 where 1:
    "Reader_Get k r = (Inr (table_lookup (concat bs) k), r1)" "reads ri bs r1" "r_bloom r1 = r_bloom r" by blast
  have "fst (Reader_Gets ks r1) = map (\<lambda>k. Inr (table_lookup (concat bs) k)) ks"
    by (rule Cons.IH) (use 1 Cons.prems in simp_all)
  with 1(1) show ?case by (cases "Reader_Gets ks r1") simp
qed simp

lemma rank_stored:
  assumes "map stored xs = map stored ys"
  shows "rank key xs = rank key ys"
proof -
  have r: "rank key es = length (filter (\<lambda>k. sbytes k < key) (map se_Key (map stored es)))" for es
    by (simp add: rank_def filter_map comp_def stored_def)
  show ?thesis unfolding r assms ..
qed

section \<open>Properties\<close>

text \<open>C15: a table that was written reads back: \<^verbatim>\<open>WriteFile\<close> of sorted entries succeeds and
  reports their key range, greatest sequence number and count; the file is durable, and opening
  its durable bytes gives a reader whose lookups return, for every key in any order, the entry
  that was written, tombstones included, and no entry for every other key.\<close>

theorem sstable_write_read:
  assumes "fresh_file f" and "table_input sz opts es"
  shows "\<exists>f' r g. sst_WriteFile sz path es opts f = (Inr (table_meta path es (length (f_data f'))), Some f')
    \<and> f_stable f' = f_data f' \<and> sst_Open path (os_file_of (f_stable f')) = (Inr r, g)
    \<and> fst (Reader_Gets ks r) = map (\<lambda>k. Inr (table_lookup es k)) ks
    \<and> Reader_Entries r = of_nat (length es) \<and> Reader_MaxSeq r = fold max (map se_Seq es) 0"
proof -
  obtain f' bs r g where 1: "sst_WriteFile sz path es opts f = (Inr (table_meta path es (length (f_data f'))), Some f')"
    "f_stable f' = f_data f'" "sst_Open path (os_file_of (f_stable f')) = (Inr r, g)"
    "concat bs = es" "table_ok bs" "reads (wf_ri opts) bs r" "filter_ok (r_bloom r)"
    "\<forall>e\<in>set es. has_key (r_bloom r) (skey e)"
    "Reader_Entries r = of_nat (length es)" "Reader_MaxSeq r = fold max (map se_Seq es) 0"
    using WriteFile_Open [OF assms, of path] by blast
  have "fst (Reader_Gets ks r) = map (\<lambda>k. Inr (table_lookup (concat bs) k)) ks"
    by (rule Reader_Gets_table [OF 1(6,5,7)]) (use 1(4,8) in simp)
  with 1 show ?thesis by blast
qed

definition example_sizing :: sizing where
  "example_sizing = \<lparr>sz_bits = (\<lambda>_ _. 20), sz_hashes = (\<lambda>_ _. 7)\<rparr>"

definition example_entries :: "sst_Entry list" where
  "example_entries =
     [\<lparr>se_Key = Some [1], se_Value = Some [10], se_Seq = 5, se_Deleted = False\<rparr>,
      \<lparr>se_Key = Some [1, 2], se_Value = None, se_Seq = 7, se_Deleted = True\<rparr>]"

lemma example_input: "table_input example_sizing None example_entries" "fresh_file (os_file_of [])"
  by (simp_all add: table_input_def example_entries_def keys_sorted_def skey_def total_size_def esize_def sval_def
      table_filter_def Filter_New_def example_sizing_def NumBits_def OptimalBits_def Let_def fresh_file_def)

theorem sstable_write_read_witness:
  "\<exists>f' r g. sst_WriteFile example_sizing ''t'' example_entries None (os_file_of []) =
      (Inr (table_meta ''t'' example_entries (length (f_data f'))), Some f')
    \<and> sst_Open ''t'' (os_file_of (f_stable f')) = (Inr r, g)
    \<and> fst (Reader_Gets [[1, 2], [2]] r) =
        [Inr (\<lparr>se_Key = Some [1, 2], se_Value = Some [], se_Seq = 7, se_Deleted = True\<rparr>, True),
         Inr (zero_sst_Entry, False)]"
proof -
  have L: "map (\<lambda>k. Inr (table_lookup example_entries k)) [[1, 2], [2]] =
      [Inr (\<lparr>se_Key = Some [1, 2], se_Value = Some [], se_Seq = 7, se_Deleted = True\<rparr>, True),
       Inr (zero_sst_Entry, False)]"
    by (simp add: table_lookup_def example_entries_def stored_def skey_def sval_def)
  show ?thesis
    using sstable_write_read [OF example_input(2,1), of "''t''" "[[1, 2], [2]]"] unfolding L by blast
qed

text \<open>C16: iterating over a table from \<^verbatim>\<open>NewIterator\<close> yields exactly the entries written, in key
  order, and the loop ends; after \<^verbatim>\<open>Seek\<close>, from any position, it yields exactly those whose
  key is not below the target.\<close>

theorem sstable_iterator_scan:
  assumes "fresh_file f" and "table_input sz opts es" and "length es < fuel"
  shows "\<exists>m f' r g it r1. sst_WriteFile sz path es opts f = (Inr m, Some f')
    \<and> sst_Open path (os_file_of (f_stable f')) = (Inr r, g) \<and> Reader_NewIterator r = (Inr it, r1)
    \<and> (\<exists>s. scan ti_valid ti_entry ti_next fuel [] (it, r1) = Some (Inr (map stored es, s))
        \<and> (\<exists>it2 r2 s2. TIterator_Seek key (fst s) (snd s) = (Inr it2, r2)
            \<and> scan ti_valid ti_entry ti_next fuel [] (it2, r2) =
                Some (Inr (map stored (filter (\<lambda>e. \<not> skey e < key) es), s2))))"
proof -
  let ?ri = "wf_ri opts"
  obtain f' bs r g where 1: "sst_WriteFile sz path es opts f = (Inr (table_meta path es (length (f_data f'))), Some f')"
    "sst_Open path (os_file_of (f_stable f')) = (Inr r, g)" "concat bs = es" "table_ok bs" "reads ?ri bs r"
    using WriteFile_Open [OF assms(1,2), of path] by blast
  obtain it r1 where 2: "Reader_NewIterator r = (Inr it, r1)" "ti_at ?ri bs 0 it r1"
    using NewIterator_at [OF 1(5,4)] by blast
  have "table_cursor_at ?ri (map stored es) 0 (it, r1)" using 1(3,4) 2(2) by (auto simp: table_cursor_at_def)
  from ti.scan_from_start [OF this, of fuel] assms(3) obtain s where
    3: "scan ti_valid ti_entry ti_next fuel [] (it, r1) = Some (Inr (map stored es, s))"
    "table_cursor_at ?ri (map stored es) (length es) s" by auto
  from 3(2) obtain bs' where 4: "map stored es = map stored (concat bs')" "table_ok bs'" "reads ?ri bs' (snd s)"
    by (auto simp: table_cursor_at_def ti_at_def)
  obtain it2 r2 where 5: "TIterator_Seek key (fst s) (snd s) = (Inr it2, r2)"
    "ti_at ?ri bs' (rank key (concat bs')) it2 r2" using TIterator_Seek_at [OF 4(3,2)] by blast
  have "table_cursor_at ?ri (map stored es) (rank key (concat bs')) (it2, r2)"
    using 4(1,2) 5(2) by (auto simp: table_cursor_at_def)
  moreover have "length (map stored es) - rank key (concat bs') < fuel" using assms(3) by simp
  ultimately obtain s2 where
    6: "scan ti_valid ti_entry ti_next fuel [] (it2, r2) = Some (Inr (drop (rank key (concat bs')) (map stored es), s2))"
    using ti.scan_at [of ?ri "map stored es" "rank key (concat bs')" "(it2, r2)" fuel "[]"] by auto
  have "rank key (concat bs') = rank key es" using rank_stored [OF 4(1)] ..
  moreover have "keys_sorted es" using assms(2) by (simp add: table_input_def)
  then have "drop (rank key es) es = filter (\<lambda>e. \<not> skey e < key) es" by (rule drop_rank)
  ultimately have "drop (rank key (concat bs')) (map stored es) = map stored (filter (\<lambda>e. \<not> skey e < key) es)"
    by (simp add: drop_map)
  with 1(1,2) 2(1) 3(1) 5(1) 6 show ?thesis by metis
qed

theorem sstable_iterator_scan_witness:
  "\<exists>m f' r g it r1 s. sst_WriteFile example_sizing ''t'' example_entries None (os_file_of []) = (Inr m, Some f')
    \<and> sst_Open ''t'' (os_file_of (f_stable f')) = (Inr r, g) \<and> Reader_NewIterator r = (Inr it, r1)
    \<and> scan ti_valid ti_entry ti_next 3 [] (it, r1) = Some (Inr (map stored example_entries, s))"
proof -
  have "length example_entries < 3" by (simp add: example_entries_def)
  from sstable_iterator_scan [OF example_input(2,1) this, of "''t''" "[]"] show ?thesis by blast
qed

lemma Writer_Add_rejects:
  assumes "writer_rel ri w bs cur"
  shows "se_Key e = None \<Longrightarrow> Writer_Add e w = (Some sstable_ErrInvalid, w)"
    and "se_Key e \<noteq> None \<Longrightarrow> concat bs @ cur \<noteq> [] \<Longrightarrow> skey e < skey (last (concat bs @ cur)) \<Longrightarrow>
      Writer_Add e w = (Some sstable_OutOfOrder, w)"
proof -
  have R: "\<not> w_closed w" "w_lastKey w = (if concat bs @ cur = [] then None else Some (skey (last (concat bs @ cur))))"
    using assms by (simp_all add: writer_rel_def)
  show "Writer_Add e w = (Some sstable_ErrInvalid, w)" if "se_Key e = None"
    using R(1) that by (simp add: Writer_Add_def)
  assume a: "se_Key e \<noteq> None" "concat bs @ cur \<noteq> []" "skey e < skey (last (concat bs @ cur))"
  have lk: "w_lastKey w = Some (skey (last (concat bs @ cur)))" using R(2) a(2) by simp
  show "Writer_Add e w = (Some sstable_OutOfOrder, w)"
    using R(1) a(1,3) by (simp add: Writer_Add_def lk skey_def del: concat_append)
qed

lemma WriteFile_loop_append:
  "WriteFile_loop (xs @ ys) w =
    (case WriteFile_loop xs w of (Some e, w) \<Rightarrow> (Some e, w) | (None, w) \<Rightarrow> WriteFile_loop ys w)"
  by (induction xs arbitrary: w) (auto split: prod.splits option.splits)

lemma Writer_Abort_reliable:
  assumes "writer_rel ri w bs cur"
  shows "\<exists>w'. Writer_Abort w = (True, w')"
  using assms by (simp add: writer_rel_def Writer_Abort_def f_close_def)

text \<open>C18: \<^verbatim>\<open>WriteFile\<close> refuses a nil key and a key below the one before it with the matching
  error, wherever in the list it stands, and leaves no file behind.\<close>

theorem sstable_WriteFile_rejects:
  assumes "fresh_file f" and "list_all (\<lambda>e. se_Key e \<noteq> None) good" and "keys_sorted good"
    and "se_Key e = None \<or> (good \<noteq> [] \<and> skey e < skey (last good))"
  shows "sst_WriteFile sz path (good @ e # rest) opts f =
    (Inl (if se_Key e = None then sstable_ErrInvalid else sstable_OutOfOrder), None)"
proof -
  let ?w0 = "sst_Create path opts f" and ?err = "if se_Key e = None then sstable_ErrInvalid else sstable_OutOfOrder"
  have "writer_rel (wf_ri opts) ?w0 [] []" unfolding wf_ri_def
    by (rule writer_rel_Create) (use assms(1) in \<open>simp_all add: fresh_file_def\<close>)
  from WriteFile_loop_rel [OF this, of good] assms(2,3) obtain w1 bs cur where
    1: "WriteFile_loop good ?w0 = (None, w1)" "writer_rel (wf_ri opts) w1 bs cur" "concat bs @ cur = good"
    by (auto simp: list_all_iff)
  have "Writer_Add e w1 = (Some ?err, w1)"
    using Writer_Add_rejects [OF 1(2), of e] assms(4) unfolding 1(3) by auto
  then have "WriteFile_loop (good @ e # rest) ?w0 = (Some ?err, w1)"
    by (simp add: WriteFile_loop_append 1(1))
  with Writer_Abort_reliable [OF 1(2)] show ?thesis by (auto simp: sst_WriteFile_def)
qed

theorem sstable_WriteFile_rejects_witness:
  "sst_WriteFile example_sizing ''t'' (example_entries @ example_entries) None (os_file_of []) =
    (Inl sstable_OutOfOrder, None)"
proof -
  have 1: "list_all (\<lambda>e. se_Key e \<noteq> None) example_entries" "keys_sorted example_entries"
    using example_input(1) by (simp_all add: table_input_def)
  have 2: "se_Key (hd example_entries) \<noteq> None" "example_entries \<noteq> []"
    "skey (hd example_entries) < skey (last example_entries)" "example_entries = hd example_entries # tl example_entries"
    by (simp_all add: example_entries_def skey_def)
  then have "se_Key (hd example_entries) = None \<or>
      (example_entries \<noteq> [] \<and> skey (hd example_entries) < skey (last example_entries))" by blast
  from sstable_WriteFile_rejects [OF example_input(2) 1 this, of example_sizing "''t''" "tl example_entries" None]
  show ?thesis using 2(1) 2(4) [symmetric] by simp
qed

text \<open>C17: damage to a block is never taken for data: when up to four consecutive bytes of a block's
  contents on disk differ from what was written, reading the block returns \<^verbatim>\<open>ErrCorrupt\<close>.\<close>

theorem sstable_block_damage_detected:
  assumes "table_ok bs" and "i < length bs" and "r_index r = index_of ri 0 bs"
    and "r_f r = Some f" and "f_reliable f"
    and "block_body ri (bs ! i) = a @ x @ c" and "length x = length y" and "length x \<le> 4" and "x \<noteq> y"
    and "f_data f = blocks_bytes ri (take i bs) @
      (a @ y @ c @ le_put 4 (ChecksumCastagnoli (block_body ri (bs ! i)))) @ rest"
  shows "fst (Reader_readBlock (r_index r ! i) r) = Inl sstable_ErrCorrupt"
proof -
  let ?b = "bs ! i" and ?pre = "blocks_bytes ri (take i bs)" and ?d = "a @ y @ c"
  let ?D = "?d @ le_put 4 (ChecksumCastagnoli (block_body ri ?b))"
  note ok = block_ok [OF assms(1,2)]
  have lD: "length ?D = length (block_bytes ri ?b)"
    unfolding block_bytes_def assms(6) using assms(7) by (simp del: le_put.simps)
  have fd: "f_data f = ?pre @ ?D @ rest" using assms(10) by (simp only: append_assoc)
  obtain t where t: "f_ReadAt (length (block_bytes ri ?b)) (int (length ?pre)) f = (Inr ?D, f\<lparr>f_tick := t\<rparr>)"
    using f_ReadAt_eq [OF assms(5) fd] unfolding lD by blast
  have len: "length (block_bytes ri ?b) < 2 ^ 32" using length_block_bytes [OF ok(1), of ri] ok(2) by simp
  have l: "unat (of_nat (length (block_bytes ri ?b)) :: u64) = length (block_bytes ri ?b)"
    "int_of_u64 (of_nat (length ?pre)) = int (length ?pre)"
    using len ok(4) [of ri] by (simp_all add: int_len_u64)
  have mk: "\<not> \<not> make_ok (length (block_bytes ri ?b)) 1" using len by (simp add: make_ok_def)
  have "8 \<le> length (block_bytes ri ?b)" by (simp add: block_bytes_def block_body_def del: le_put.simps)
  then have s: "length ?D - 4 = length ?d" "\<not> length ?D < 8" unfolding lD [symmetric] by (simp_all del: le_put.simps)
  have tk: "take (length ?d) ?D = ?d" "drop (length ?d) ?D = le_put 4 (ChecksumCastagnoli (block_body ri ?b))"
    by (simp_all del: le_put.simps append_assoc)
  have ne: "ChecksumCastagnoli ?d \<noteq> ChecksumCastagnoli (block_body ri ?b)"
    unfolding assms(6) using ChecksumCastagnoli_burst [OF assms(7-9), of a c] by metis
  show ?thesis
    unfolding Reader_readBlock_def assms(3) index_of_nth [OF assms(2)] indexRec.simps add_0 l if_not_P [OF mk]
      assms(4) option.case t prod.case sum.case Let_def s(1) tk le32.get_put if_not_P [OF s(2)] if_P [OF ne] fst_conv ..
qed

text \<open>A table of one block whose first byte on disk was changed.\<close>

definition damaged_reader :: Reader where
  "damaged_reader = table_reader 16 [example_entries] (Filter_New example_sizing 2 1) ''t'' 0
     (os_file_of ((hd (block_body 16 example_entries) + 1) # tl (block_bytes 16 example_entries)))"

theorem sstable_block_damage_detected_witness:
  "fst (Reader_readBlock (hd (r_index damaged_reader)) damaged_reader) = Inl sstable_ErrCorrupt"
proof -
  let ?B = "block_body 16 example_entries" and ?C = "le_put 4 (ChecksumCastagnoli (block_body 16 example_entries))"
  let ?f = "os_file_of ((hd ?B + 1) # tl (block_bytes 16 example_entries))"
  have ok: "table_ok [example_entries]"
    using example_input(1) by (simp add: table_ok_def table_input_def example_entries_def)
  have "block_data 16 example_entries \<noteq> []" by (simp add: block_data_Nil_iff example_entries_def)
  then have "?B \<noteq> []" by (simp add: block_body_def)
  then have ne: "?B = [] @ [hd ?B] @ tl ?B" by simp
  have d: "f_data ?f = blocks_bytes 16 (take 0 [example_entries]) @ ([] @ [hd ?B + 1] @ tl ?B @ ?C) @ []"
    using ne by (simp add: block_bytes_def del: le_put.simps) (metis append_Cons list.sel(3))
  have "fst (Reader_readBlock (r_index damaged_reader ! 0) damaged_reader) = Inl sstable_ErrCorrupt"
    by (rule sstable_block_damage_detected [OF ok, of 0 _ 16 ?f "[]" "[hd ?B]" "tl ?B" "[hd ?B + 1]" "[]"])
      (use ne d in \<open>simp_all add: damaged_reader_def table_reader_def\<close>)
  then show ?thesis by (simp add: damaged_reader_def table_reader_def hd_conv_nth)
qed


end
