(* ===== verification/Heapq.thy ===== *)
theory Heapq imports Main "HOL-Library.Multiset" begin

text \<open>
  Go's \<^verbatim>\<open>container/heap\<close> on a slice, as the program uses it, and the interface of a priority
  queue that clients rely on.  A heap is a list; \<^verbatim>\<open>up\<close> and \<^verbatim>\<open>down\<close> move one element to its
  place by the swaps the library makes.
\<close>

section \<open>The operations\<close>

definition swap_at :: "nat \<Rightarrow> nat \<Rightarrow> 'a list \<Rightarrow> 'a list" where
  "swap_at i j h = h[i := h ! j, j := h ! i]"

function heap_up :: "('a \<Rightarrow> 'a \<Rightarrow> bool) \<Rightarrow> nat \<Rightarrow> 'a list \<Rightarrow> 'a list" where
  "heap_up lt j h =
     (let i = (j - 1) div 2
      in if i = j \<or> \<not> lt (h ! j) (h ! i) then h else heap_up lt i (swap_at i j h))"
  by pat_completeness auto
termination
  by (relation "measure (\<lambda>(lt, j, h). j)") auto

text \<open>The child that \<^verbatim>\<open>down\<close> compares with: the smaller one, the left one of equals.\<close>

definition heap_child :: "('a \<Rightarrow> 'a \<Rightarrow> bool) \<Rightarrow> nat \<Rightarrow> nat \<Rightarrow> 'a list \<Rightarrow> nat" where
  "heap_child lt i n h =
     (let j1 = 2 * i + 1; j2 = j1 + 1 in if j2 < n \<and> lt (h ! j2) (h ! j1) then j2 else j1)"

lemma heap_child_cases: "heap_child lt i n h = 2 * i + 1 \<or> heap_child lt i n h = 2 * i + 2 \<and> 2 * i + 2 < n"
  by (auto simp: heap_child_def Let_def)

function heap_down :: "('a \<Rightarrow> 'a \<Rightarrow> bool) \<Rightarrow> nat \<Rightarrow> nat \<Rightarrow> 'a list \<Rightarrow> 'a list" where
  "heap_down lt i n h =
     (if 2 * i + 1 \<ge> n then h
      else
        (let j = heap_child lt i n h
         in if \<not> lt (h ! j) (h ! i) then h else heap_down lt j n (swap_at i j h)))"
  by pat_completeness auto
termination
proof (relation "measure (\<lambda>(lt, i, n, h). n - i)")
  fix lt i n h x assume "\<not> (n :: nat) \<le> 2 * i + 1" "x = heap_child lt i n (h :: 'a list)"
  then show "((lt, x, n, swap_at i x h), lt, i, n, h) \<in> measure (\<lambda>(lt, i, n, h). n - i)"
    using heap_child_cases [of lt i n h] by auto
qed simp

declare heap_up.simps [simp del] heap_down.simps [simp del]

definition heap_Init :: "('a \<Rightarrow> 'a \<Rightarrow> bool) \<Rightarrow> 'a list \<Rightarrow> 'a list" where
  "heap_Init lt h = fold (\<lambda>i h. heap_down lt i (length h) h) (rev [0..<length h div 2]) h"

definition heap_Push :: "('a \<Rightarrow> 'a \<Rightarrow> bool) \<Rightarrow> 'a \<Rightarrow> 'a list \<Rightarrow> 'a list" where
  "heap_Push lt x h = heap_up lt (length h) (h @ [x])"

definition heap_Pop :: "('a \<Rightarrow> 'a \<Rightarrow> bool) \<Rightarrow> 'a list \<Rightarrow> 'a \<times> 'a list" where
  "heap_Pop lt h =
     (let n = length h - 1; h = heap_down lt 0 n (swap_at 0 n h) in (last h, butlast h))"

section \<open>Permutations\<close>

lemma length_swap_at [simp]: "length (swap_at i j h) = length h"
  by (simp add: swap_at_def)

lemma nth_swap_at:
  "i < length h \<Longrightarrow> j < length h \<Longrightarrow> k < length h \<Longrightarrow>
    swap_at i j h ! k = (if k = i then h ! j else if k = j then h ! i else h ! k)"
  by (auto simp: swap_at_def nth_list_update)

lemma mset_swap_at [simp]: "i < length h \<Longrightarrow> j < length h \<Longrightarrow> mset (swap_at i j h) = mset h"
  by (simp add: swap_at_def mset_swap)

lemma heap_up_perm:
  "j < length h \<Longrightarrow> mset (heap_up lt j h) = mset h \<and> length (heap_up lt j h) = length h"
proof (induction lt j h rule: heap_up.induct)
  case (1 lt j h)
  then show ?case by (subst heap_up.simps, subst (2) heap_up.simps) (auto simp: Let_def)
qed

lemma heap_down_perm:
  "n \<le> length h \<Longrightarrow> i < n \<Longrightarrow>
    mset (heap_down lt i n h) = mset h \<and> length (heap_down lt i n h) = length h \<and>
    (\<forall>k. n \<le> k \<longrightarrow> k < length h \<longrightarrow> heap_down lt i n h ! k = h ! k)"
proof (induction lt i n h rule: heap_down.induct)
  case (1 lt i n h)
  let ?j = "heap_child lt i n h"
  show ?case
  proof (cases "2 * i + 1 \<ge> n \<or> \<not> lt (h ! ?j) (h ! i)")
    case True
    then have "heap_down lt i n h = h" by (subst heap_down.simps) (auto simp: Let_def)
    then show ?thesis by simp
  next
    case False
    then have j: "?j < n" "i \<noteq> ?j" using heap_child_cases [of lt i n h] by auto
    have e: "heap_down lt i n h = heap_down lt ?j n (swap_at i ?j h)"
      using False by (subst heap_down.simps) (simp add: Let_def)
    have s: "mset (swap_at i ?j h) = mset h" "length (swap_at i ?j h) = length h"
      "n \<le> k \<Longrightarrow> k < length h \<Longrightarrow> swap_at i ?j h ! k = h ! k" for k
      using j "1.prems" by (auto simp: nth_swap_at)
    have "mset (heap_down lt ?j n (swap_at i ?j h)) = mset (swap_at i ?j h) \<and>
        length (heap_down lt ?j n (swap_at i ?j h)) = length (swap_at i ?j h) \<and>
        (\<forall>k. n \<le> k \<longrightarrow> k < length (swap_at i ?j h) \<longrightarrow> heap_down lt ?j n (swap_at i ?j h) ! k = swap_at i ?j h ! k)"
      by (rule "1.IH") (use False "1.prems" j s in auto)
    with e s show ?thesis by simp
  qed
qed

section \<open>The heap property\<close>

text \<open>The comparison goes by a key from a linear order.\<close>

abbreviation par :: "nat \<Rightarrow> nat" where "par k \<equiv> (k - 1) div 2"

definition heap_inv :: "('a \<Rightarrow> 'b::linorder) \<Rightarrow> nat \<Rightarrow> 'a list \<Rightarrow> bool" where
  "heap_inv f n h = (\<forall>k. 0 < k \<longrightarrow> k < n \<longrightarrow> f (h ! par k) \<le> f (h ! k))"

definition up_inv :: "('a \<Rightarrow> 'b::linorder) \<Rightarrow> nat \<Rightarrow> 'a list \<Rightarrow> bool" where
  "up_inv f j h =
     ((\<forall>k. 0 < k \<longrightarrow> k < length h \<longrightarrow> k \<noteq> j \<longrightarrow> f (h ! par k) \<le> f (h ! k)) \<and>
      (\<forall>k. 0 < k \<longrightarrow> k < length h \<longrightarrow> 0 < j \<longrightarrow> par k = j \<longrightarrow> f (h ! par j) \<le> f (h ! k)))"

definition down_inv :: "('a \<Rightarrow> 'b::linorder) \<Rightarrow> nat \<Rightarrow> nat \<Rightarrow> 'a list \<Rightarrow> bool" where
  "down_inv f i n h =
     ((\<forall>k. 0 < k \<longrightarrow> k < n \<longrightarrow> par k \<noteq> i \<longrightarrow> f (h ! par k) \<le> f (h ! k)) \<and>
      (\<forall>k. 0 < k \<longrightarrow> k < n \<longrightarrow> 0 < i \<longrightarrow> par k = i \<longrightarrow> f (h ! par i) \<le> f (h ! k)))"

lemma par_less: "0 < k \<Longrightarrow> par k < k" by auto

lemma heap_up_inv:
  assumes "up_inv f j h" and "j < length h"
  shows "heap_inv f (length h) (heap_up (\<lambda>a b. f a < f b) j h)"
  using assms
proof (induction "\<lambda>a b. f a < f b" j h rule: heap_up.induct)
  case (1 j h)
  let ?i = "par j"
  show ?case
  proof (cases "?i = j \<or> \<not> f (h ! j) < f (h ! ?i)")
    case True
    then have "heap_inv f (length h) h"
      using "1.prems" by (auto simp: up_inv_def heap_inv_def not_less)
    with True show ?thesis by (subst heap_up.simps) (simp add: Let_def)
  next
    case False
    then have j: "0 < j" "?i < j" and fl: "f (h ! j) < f (h ! ?i)" by auto
    let ?h = "swap_at ?i j h"
    have nth: "k < length h \<Longrightarrow> ?h ! k = (if k = ?i then h ! j else if k = j then h ! ?i else h ! k)" for k
      using j "1.prems"(2) by (intro nth_swap_at) auto
    have A: "\<And>k. 0 < k \<Longrightarrow> k < length h \<Longrightarrow> k \<noteq> j \<Longrightarrow> f (h ! par k) \<le> f (h ! k)"
      and B: "\<And>k. 0 < k \<Longrightarrow> k < length h \<Longrightarrow> par k = j \<Longrightarrow> f (h ! ?i) \<le> f (h ! k)"
      using "1.prems"(1) j by (auto simp: up_inv_def)
    have "up_inv f ?i ?h"
      unfolding up_inv_def
    proof (intro conjI allI impI)
      fix k assume k: "0 < k" "k < length ?h" "k \<noteq> ?i"
      then have kl: "k < length h" "par k < length h" using par_less [OF k(1)] by auto
      consider "k = j" | "k \<noteq> j" "par k = ?i" | "k \<noteq> j" "par k = j" | "k \<noteq> j" "par k \<noteq> ?i" "par k \<noteq> j" by blast
      then show "f (?h ! par k) \<le> f (?h ! k)"
      proof cases
        case 1
        have "j \<noteq> ?i" using j by simp
        with 1 fl show ?thesis unfolding nth [OF kl(1)] nth [OF kl(2)] by simp
      next
        case 2
        with A [OF k(1) kl(1)] have "f (h ! ?i) \<le> f (h ! k)" by simp
        with 2 fl k(3) show ?thesis unfolding nth [OF kl(1)] nth [OF kl(2)] by simp
      next
        case 3
        with B [OF k(1) kl(1)] k(3) j show ?thesis unfolding nth [OF kl(1)] nth [OF kl(2)] by simp
      next
        case 4
        with A [OF k(1) kl(1)] k(3) show ?thesis unfolding nth [OF kl(1)] nth [OF kl(2)] by simp
      qed
    next
      fix k assume k: "0 < k" "k < length ?h" "0 < ?i" "par k = ?i"
      have pi: "par ?i < ?i" using k(3) by (rule par_less)
      have il: "?i < length h" "par ?i < length h" using j "1.prems"(2) pi by linarith+
      have kl: "k < length h" using k(2) by simp
      have ki: "k \<noteq> ?i" using k(3,4) by auto
      have ai: "f (h ! par ?i) \<le> f (h ! ?i)" using A [of ?i] k(3) il j by simp
      have ne: "par ?i \<noteq> ?i" "par ?i \<noteq> j" using pi j by linarith+
      show "f (?h ! par ?i) \<le> f (?h ! k)"
      proof (cases "k = j")
        case True
        with ai ne ki show ?thesis unfolding nth [OF kl] nth [OF il(2)] by simp
      next
        case False
        with A [OF k(1) kl] k(4) have "f (h ! ?i) \<le> f (h ! k)" by simp
        with ai False ki ne show ?thesis unfolding nth [OF kl] nth [OF il(2)] by simp
      qed
    qed
    moreover have "?i < length ?h" using j "1.prems"(2) by simp
    ultimately have "heap_inv f (length ?h) (heap_up (\<lambda>a b. f a < f b) ?i ?h)"
      using "1.hyps" [OF refl] False by blast
    with False show ?thesis by (subst heap_up.simps) (simp add: Let_def)
  qed
qed

lemma heap_down_inv:
  assumes "down_inv f i n h" and "n \<le> length h" and "i < n"
  shows "heap_inv f n (heap_down (\<lambda>a b. f a < f b) i n h)"
  using assms
proof (induction "\<lambda>a b. f a < f b" i n h rule: heap_down.induct)
  case (1 i n h)
  let ?lt = "\<lambda>a b. f a < f b"
  let ?j = "heap_child ?lt i n h"
  have A: "\<And>k. 0 < k \<Longrightarrow> k < n \<Longrightarrow> par k \<noteq> i \<Longrightarrow> f (h ! par k) \<le> f (h ! k)"
    and B: "\<And>k. 0 < k \<Longrightarrow> k < n \<Longrightarrow> 0 < i \<Longrightarrow> par k = i \<Longrightarrow> f (h ! par i) \<le> f (h ! k)"
    using "1.prems"(1) by (auto simp: down_inv_def)
  have ch: "k = 2 * i + 1 \<or> k = 2 * i + 2" if "0 < k" "par k = i" for k
    using that by presburger
  have C: "f (h ! ?j) \<le> f (h ! k)" if "0 < k" "k < n" "par k = i" for k
    using ch [OF that(1,3)] that(2) by (auto simp: heap_child_def Let_def not_less less_imp_le)
  show ?case
  proof (cases "2 * i + 1 \<ge> n \<or> \<not> ?lt (h ! ?j) (h ! i)")
    case True
    have "heap_inv f n h"
      unfolding heap_inv_def
    proof (intro allI impI)
      fix k assume k: "0 < k" "k < n"
      show "f (h ! par k) \<le> f (h ! k)"
      proof (cases "par k = i")
        case True': True
        with ch [OF k(1)] k True have "\<not> f (h ! ?j) < f (h ! i)" by auto
        with C [OF k True'] True' show ?thesis by simp
      qed (use A k in blast)
    qed
    moreover have "heap_down ?lt i n h = h" using True by (subst heap_down.simps) (auto simp: Let_def)
    ultimately show ?thesis by simp
  next
    case False
    then have j: "?j < n" "i < ?j" "par ?j = i" "0 < ?j" and fl: "f (h ! ?j) < f (h ! i)"
      using heap_child_cases [of ?lt i n h] by auto
    have e: "heap_down ?lt i n h = heap_down ?lt ?j n (swap_at i ?j h)"
      using False by (subst heap_down.simps) (simp add: Let_def)
    let ?h = "swap_at i ?j h"
    have nth: "k < n \<Longrightarrow> ?h ! k = (if k = i then h ! ?j else if k = ?j then h ! i else h ! k)" for k
      using j(1) "1.prems"(2,3) by (intro nth_swap_at) auto
    have "down_inv f ?j n ?h"
      unfolding down_inv_def
    proof (intro conjI allI impI)
      fix k assume k: "0 < k" "k < n" "par k \<noteq> ?j"
      then have kl: "par k < n" using par_less [OF k(1)] by linarith
      consider "k = ?j" | "k \<noteq> ?j" "k \<noteq> i" "par k = i" | "k = i" | "k \<noteq> ?j" "k \<noteq> i" "par k \<noteq> i" by blast
      then show "f (?h ! par k) \<le> f (?h ! k)"
      proof cases
        case 1
        with j(2,3) fl show ?thesis unfolding nth [OF k(2)] nth [OF kl] by simp
      next
        case 2
        with C [OF k(1,2)] show ?thesis unfolding nth [OF k(2)] nth [OF kl] by simp
      next
        case 3
        then have "par k \<noteq> i" using par_less [OF k(1)] by linarith
        moreover have "f (h ! par i) \<le> f (h ! ?j)" using B [OF j(4,1)] j(3) k(1) 3 by simp
        ultimately show ?thesis using 3 k(3) unfolding nth [OF k(2)] nth [OF kl] by simp
      next
        case 4
        with A [OF k(1,2)] k(3) show ?thesis unfolding nth [OF k(2)] nth [OF kl] by simp
      qed
    next
      fix k assume k: "0 < k" "k < n" "0 < ?j" "par k = ?j"
      have kn: "k \<noteq> ?j" "k \<noteq> i" using par_less [OF k(1)] k(4) j(2) by linarith+
      have "par k \<noteq> i" using k(4) j(2) by simp
      from A [OF k(1,2) this] k(4) have "f (h ! ?j) \<le> f (h ! k)" by simp
      then show "f (?h ! par ?j) \<le> f (?h ! k)"
        unfolding j(3) nth [OF k(2)] nth [OF "1.prems"(3)] using kn by simp
    qed
    moreover have "n \<le> length ?h" using "1.prems"(2) by simp
    ultimately have "heap_inv f n (heap_down ?lt ?j n ?h)"
      using "1.hyps" [OF _ refl] False j(1) by auto
    with e show ?thesis by simp
  qed
qed

lemma heap_root_min:
  assumes "heap_inv f n h" and "k < n"
  shows "f (h ! 0) \<le> f (h ! k)"
  using assms(2)
proof (induction k rule: less_induct)
  case (less k)
  show ?case
  proof (cases "k = 0")
    case False
    then have "par k < k" by (intro par_less) simp
    with less.IH [of "par k"] less.prems assms(1) False show ?thesis
      unfolding heap_inv_def by (meson dual_order.strict_trans gr0I order.trans)
  qed simp
qed

text \<open>What \<^verbatim>\<open>Push\<close> and \<^verbatim>\<open>Pop\<close> do to a heap.\<close>

definition is_heap :: "('a \<Rightarrow> 'b::linorder) \<Rightarrow> 'a list \<Rightarrow> bool" where
  "is_heap f h = heap_inv f (length h) h"

lemma is_heap_Nil: "is_heap f []"
  by (simp add: is_heap_def heap_inv_def)

lemma heap_Push_heap:
  assumes "is_heap f h"
  shows "is_heap f (heap_Push (\<lambda>a b. f a < f b) x h)"
    and "mset (heap_Push (\<lambda>a b. f a < f b) x h) = add_mset x (mset h)"
proof -
  have "up_inv f (length h) (h @ [x])"
    using assms par_less by (auto simp: up_inv_def is_heap_def heap_inv_def nth_append)
  from heap_up_inv [OF this] heap_up_perm [of "length h" "h @ [x]" "\<lambda>a b. f a < f b"]
  show "is_heap f (heap_Push (\<lambda>a b. f a < f b) x h)"
    "mset (heap_Push (\<lambda>a b. f a < f b) x h) = add_mset x (mset h)"
    by (simp_all add: is_heap_def heap_Push_def)
qed

lemma heap_inv_cong: "(\<And>k. k < n \<Longrightarrow> h ! k = g ! k) \<Longrightarrow> heap_inv f n h = heap_inv f n g"
  by (auto simp: heap_inv_def)

lemma heap_Pop_heap:
  assumes "is_heap f h" and "h \<noteq> []" and "heap_Pop (\<lambda>a b. f a < f b) h = (x, h')"
  shows "is_heap f h'" and "mset h = add_mset x (mset h')" and "y \<in> set h \<Longrightarrow> f x \<le> f y"
proof -
  let ?lt = "\<lambda>a b. f a < f b" and ?n = "length h - 1"
  let ?s = "swap_at 0 ?n h"
  let ?d = "heap_down ?lt 0 ?n ?s"
  have n: "?n < length h" using assms(2) by simp
  have nth: "k < length h \<Longrightarrow> ?s ! k = (if k = 0 then h ! ?n else if k = ?n then h ! 0 else h ! k)" for k
    using assms(2) by (intro nth_swap_at) auto
  have d: "mset ?d = mset h \<and> length ?d = length h \<and> ?d ! ?n = h ! 0 \<and> heap_inv f ?n ?d"
  proof (cases "?n = 0")
    case True
    then have "length h = 1" using assms(2) by (cases h) auto
    then have e: "?d = ?s" by (subst heap_down.simps) simp
    show ?thesis using True n nth [of 0] unfolding e by (auto simp: heap_inv_def)
  next
    case False
    have "down_inv f 0 ?n ?s"
      unfolding down_inv_def
    proof (intro conjI allI impI)
      fix k assume k: "0 < k" "k < ?n" "par k \<noteq> 0"
      have "par k < k" by (rule par_less [OF k(1)])
      then have "?s ! k = h ! k" "?s ! par k = h ! par k" using k nth [of k] nth [of "par k"] by auto
      with assms(1) k show "f (?s ! par k) \<le> f (?s ! k)" by (simp add: is_heap_def heap_inv_def)
    qed simp
    with heap_down_inv [of f 0 ?n ?s] heap_down_perm [of ?n ?s 0 ?lt] False n nth [of ?n] assms(2)
    show ?thesis by auto
  qed
  then have ne: "?d \<noteq> []" using assms(2) by (metis length_0_conv)
  have xh: "x = last ?d" "h' = butlast ?d" using assms(3) by (auto simp: heap_Pop_def Let_def)
  have x: "x = h ! 0" using d ne xh(1) by (simp add: last_conv_nth)
  have "heap_inv f ?n h' = heap_inv f ?n ?d"
    unfolding xh(2) using d by (intro heap_inv_cong) (simp add: nth_butlast)
  then show "is_heap f h'" using d xh(2) by (simp add: is_heap_def)
  have "mset ?d = mset (h' @ [x])" using ne unfolding xh by simp
  then show "mset h = add_mset x (mset h')" using d by simp
  show "f x \<le> f y" if "y \<in> set h"
    using that heap_root_min [of f "length h" h] assms(1) unfolding x is_heap_def by (auto simp: in_set_conv_nth)
qed

section \<open>The interface, and merging through it\<close>

locale priority_queue =
  fixes key :: "'a \<Rightarrow> 'b::linorder" and push :: "'a \<Rightarrow> 'q \<Rightarrow> 'q" and pop :: "'q \<Rightarrow> 'a \<times> 'q"
    and invar :: "'q \<Rightarrow> bool" and elems :: "'q \<Rightarrow> 'a multiset"
  assumes invar_push: "invar q \<Longrightarrow> invar (push x q)"
    and elems_push: "invar q \<Longrightarrow> elems (push x q) = add_mset x (elems q)"
    and invar_pop: "invar q \<Longrightarrow> elems q \<noteq> {#} \<Longrightarrow> pop q = (x, q') \<Longrightarrow> invar q'"
    and elems_pop: "invar q \<Longrightarrow> elems q \<noteq> {#} \<Longrightarrow> pop q = (x, q') \<Longrightarrow> elems q = add_mset x (elems q')"
    and pop_min: "invar q \<Longrightarrow> pop q = (x, q') \<Longrightarrow> y \<in># elems q \<Longrightarrow> key x \<le> key y"

interpretation heapq: priority_queue f "heap_Push (\<lambda>a b. f a < f b)" "heap_Pop (\<lambda>a b. f a < f b)" "is_heap f" mset
  for f :: "'a \<Rightarrow> 'b::linorder"
proof unfold_locales
  fix q :: "'a list" and x y q'
  assume q: "is_heap f q"
  show "is_heap f (heap_Push (\<lambda>a b. f a < f b) x q)"
    "mset (heap_Push (\<lambda>a b. f a < f b) x q) = add_mset x (mset q)"
    by (rule heap_Push_heap [OF q])+
  assume p: "heap_Pop (\<lambda>a b. f a < f b) q = (x, q')"
  show "is_heap f q'" "mset q = add_mset x (mset q')" if "mset q \<noteq> {#}"
    using heap_Pop_heap(1,2) [OF q _ p] that by auto
  show "f x \<le> f y" if "y \<in># mset q"
    using heap_Pop_heap(3) [OF q _ p] that by (metis empty_iff in_multiset_in_set list.set(1) set_mset_mset)
qed

text \<open>
  Draining streams through a queue: the least element goes out, and the next one of its stream,
  which \<^verbatim>\<open>src\<close> numbers, goes in.
\<close>

fun kmerge :: "('a \<Rightarrow> 'q \<Rightarrow> 'q) \<Rightarrow> ('q \<Rightarrow> 'a \<times> 'q) \<Rightarrow> ('a \<Rightarrow> nat) \<Rightarrow> nat \<Rightarrow> 'q \<Rightarrow> 'a list list \<Rightarrow> 'a list" where
  "kmerge push pop src 0 q rs = []"
| "kmerge push pop src (Suc n) q rs =
     (case pop q of (x, q) \<Rightarrow>
        x # (case rs ! src x of
               [] \<Rightarrow> kmerge push pop src n q rs
             | y # ys \<Rightarrow> kmerge push pop src n (push y q) (rs[src x := ys])))"

lemma mset_concat_update:
  "i < length rs \<Longrightarrow> rs ! i = y # ys \<Longrightarrow> mset (concat rs) = add_mset y (mset (concat (rs[i := ys])))"
proof (induction rs arbitrary: i)
  case (Cons r rs)
  then show ?case by (cases i) auto
qed simp

context priority_queue
begin

text \<open>Every stream is sorted, comes from its source, and continues an element in the queue.\<close>

definition feeds :: "('a \<Rightarrow> nat) \<Rightarrow> 'q \<Rightarrow> 'a list list \<Rightarrow> bool" where
  "feeds src q rs =
     (invar q \<and> (\<forall>x\<in>#elems q. src x < length rs) \<and>
      (\<forall>i<length rs. sorted (map key (rs ! i)) \<and> (\<forall>y\<in>set (rs ! i). src y = i) \<and>
        (rs ! i \<noteq> [] \<longrightarrow> (\<exists>x\<in>#elems q. src x = i \<and> key x \<le> key (hd (rs ! i))))))"

lemma feeds_min:
  assumes "feeds src q rs" and "pop q = (x, q')" and "y \<in># elems q + mset (concat rs)"
  shows "key x \<le> key y"
proof -
  have inv: "invar q" using assms(1) by (simp add: feeds_def)
  from assms(3) consider "y \<in># elems q" | i where "i < length rs" "y \<in> set (rs ! i)"
    by (auto simp: in_set_conv_nth [of _ rs])
  then show ?thesis
  proof cases
    case 1
    with pop_min [OF inv assms(2)] show ?thesis .
  next
    case 2
    then have "rs ! i \<noteq> []" by auto
    with assms(1) 2(1) obtain z where z: "z \<in># elems q" "key z \<le> key (hd (rs ! i))" and s: "sorted (map key (rs ! i))"
      unfolding feeds_def by blast
    have "key (hd (rs ! i)) \<le> key y" using s 2(2) by (cases "rs ! i") auto
    with z(2) pop_min [OF inv assms(2) z(1)] show ?thesis by simp
  qed
qed

lemma feeds_step:
  assumes "feeds src q rs" and "elems q \<noteq> {#}" and "pop q = (x, q1)"
    and "q' = (case rs ! src x of [] \<Rightarrow> q1 | y # ys \<Rightarrow> push y q1)"
    and "rs' = (case rs ! src x of [] \<Rightarrow> rs | y # ys \<Rightarrow> rs[src x := ys])"
  shows "feeds src q' rs'" and "elems q + mset (concat rs) = add_mset x (elems q' + mset (concat rs'))"
    and "length rs' = length rs"
proof -
  have inv: "invar q" using assms(1) by (simp add: feeds_def)
  have q1: "invar q1" "elems q = add_mset x (elems q1)" using invar_pop elems_pop inv assms(2,3) by blast+
  have sx: "src x < length rs" using assms(1) q1(2) by (simp add: feeds_def)
  have st: "\<And>i. i < length rs \<Longrightarrow> sorted (map key (rs ! i)) \<and> (\<forall>y\<in>set (rs ! i). src y = i) \<and>
      (rs ! i \<noteq> [] \<longrightarrow> (\<exists>z. (z = x \<or> z \<in># elems q1) \<and> src z = i \<and> key z \<le> key (hd (rs ! i))))"
    and src1: "\<forall>z\<in>#elems q1. src z < length rs"
    using assms(1) q1(2) unfolding feeds_def by auto
  show "length rs' = length rs" unfolding assms(5) by (simp split: list.split)
  show "feeds src q' rs'"
  proof (cases "rs ! src x")
    case Nil
    then have e: "q' = q1" "rs' = rs" using assms(4,5) by simp_all
    have "\<exists>z\<in>#elems q1. src z = i \<and> key z \<le> key (hd (rs ! i))" if "i < length rs" "rs ! i \<noteq> []" for i
      using st [OF that(1)] that(2) Nil by blast
    then show ?thesis unfolding e feeds_def using q1(1) src1 st by blast
  next
    case (Cons y ys)
    then have e: "q' = push y q1" "rs' = rs[src x := ys]" using assms(4,5) by simp_all
    have len: "length rs' = length rs" unfolding e(2) by simp
    have p: "invar (push y q1)" "elems (push y q1) = add_mset y (elems q1)"
      using invar_push elems_push q1(1) by auto
    have y: "sorted (map key (y # ys))" "\<forall>z\<in>set (y # ys). src z = src x" using st [OF sx] Cons by auto
    have "sorted (map key (rs' ! i)) \<and> (\<forall>y\<in>set (rs' ! i). src y = i) \<and>
        (rs' ! i \<noteq> [] \<longrightarrow> (\<exists>x\<in>#elems q'. src x = i \<and> key x \<le> key (hd (rs' ! i))))" if "i < length rs'" for i
    proof (cases "i = src x")
      case True
      then have n: "rs' ! i = ys" using sx e(2) by simp
      have "key y \<le> key (hd ys)" if "ys \<noteq> []" using y(1) that by (cases ys) auto
      with y True show ?thesis unfolding n e(1) p(2) by auto
    next
      case False
      then have n: "rs' ! i = rs ! i" using e(2) by simp
      have that0: "i < length rs" using that len by simp
      have "\<exists>z\<in>#add_mset y (elems q1). src z = i \<and> key z \<le> key (hd (rs ! i))" if "rs ! i \<noteq> []"
        using st [OF that0] that False by auto
      moreover have "sorted (map key (rs ! i)) \<and> (\<forall>y\<in>set (rs ! i). src y = i)" using st [OF that0] by blast
      ultimately show ?thesis unfolding n e(1) p(2) by simp
    qed
    moreover have "\<forall>z\<in>#elems q'. src z < length rs'"
      using src1 y(2) sx unfolding len e(1) p(2) by simp
    moreover have "invar q'" using p(1) e(1) by simp
    ultimately show ?thesis unfolding feeds_def by blast
  qed
  show "elems q + mset (concat rs) = add_mset x (elems q' + mset (concat rs'))"
  proof (cases "rs ! src x")
    case (Cons y ys)
    then show ?thesis using assms(4,5) q1 elems_push mset_concat_update [OF sx Cons] by simp
  qed (use assms(4,5) q1 in simp)
qed

lemma kmerge_sorted:
  assumes "feeds src q rs" and "size (elems q) + length (concat rs) = n"
  shows "sorted (map key (kmerge push pop src n q rs)) \<and>
    mset (kmerge push pop src n q rs) = elems q + mset (concat rs)"
  using assms
proof (induction n arbitrary: q rs)
  case (Suc n)
  have ne: "elems q \<noteq> {#}"
  proof
    assume e: "elems q = {#}"
    then have "concat rs = []" using Suc.prems(1) by (auto simp: feeds_def in_set_conv_nth)
    with e Suc.prems(2) show False by simp
  qed
  obtain x q1 where p: "pop q = (x, q1)" by fastforce
  define q' where "q' = (case rs ! src x of [] \<Rightarrow> q1 | y # ys \<Rightarrow> push y q1)"
  define rs' where "rs' = (case rs ! src x of [] \<Rightarrow> rs | y # ys \<Rightarrow> rs[src x := ys])"
  note step = feeds_step [OF Suc.prems(1) ne p q'_def rs'_def]
  have k: "kmerge push pop src (Suc n) q rs = x # kmerge push pop src n q' rs'"
    by (simp add: p q'_def rs'_def split: list.split)
  have "size (elems q + mset (concat rs)) = Suc n" using Suc.prems(2) by (simp del: mset_concat)
  then have "size (elems q') + length (concat rs') = n" unfolding step(2) by (simp del: mset_concat)
  from Suc.IH [OF step(1) this] have IH: "sorted (map key (kmerge push pop src n q' rs'))"
    "mset (kmerge push pop src n q' rs') = elems q' + mset (concat rs')" by auto
  have "key x \<le> key z" if "z \<in> set (kmerge push pop src n q' rs')" for z
  proof (rule feeds_min [OF Suc.prems(1) p])
    have "z \<in># elems q' + mset (concat rs')" using that IH(2) by (metis set_mset_mset)
    then show "z \<in># elems q + mset (concat rs)" unfolding step(2) by simp
  qed
  then show ?case unfolding k step(2) using IH by auto
qed simp

end

end
