(* ===== verification/Disk.thy ===== *)
theory Disk imports OsFile begin

text \<open>
  What the program uses of a directory: the names of one directory with the contents and the
  modification time of each file.  A path is its name in that directory, so that joining with the
  directory and taking the base name are identities here.  Every call consults a fault plan as the
  calls on a file do, a file that is opened gets a fault plan of its own, and the clock is a
  function of the number of calls so far.  What is written through a file's handle is put back
  into the directory with \<^verbatim>\<open>dk_save\<close>.
\<close>

record disk =
  dk_files :: "string \<Rightarrow> (bytes \<times> int) option"
  dk_fault :: "nat \<Rightarrow> nat option"
  dk_ffault :: "nat \<Rightarrow> nat \<Rightarrow> nat option"
  dk_clock :: "nat \<Rightarrow> int"
  dk_tick :: nat

definition dk_next :: "disk \<Rightarrow> nat option \<times> disk" where
  "dk_next d = (dk_fault d (dk_tick d), d\<lparr>dk_tick := dk_tick d + 1\<rparr>)"

definition dk_now :: "disk \<Rightarrow> int \<times> disk" where
  "dk_now d = (dk_clock d (dk_tick d), d\<lparr>dk_tick := dk_tick d + 1\<rparr>)"

definition dk_content :: "disk \<Rightarrow> string \<Rightarrow> bytes option" where
  "dk_content d name = map_option fst (dk_files d name)"

definition dk_put :: "string \<Rightarrow> bytes \<Rightarrow> disk \<Rightarrow> disk" where
  "dk_put name b d = d\<lparr>dk_files := (dk_files d)(name \<mapsto> (b, dk_clock d (dk_tick d)))\<rparr>"

definition dk_handle :: "bytes \<Rightarrow> disk \<Rightarrow> os_file" where
  "dk_handle b d = \<lparr>f_data = b, f_pos = 0, f_stable = b, f_fault = dk_ffault d (dk_tick d), f_tick = 0\<rparr>"

text \<open>\<^verbatim>\<open>OpenFile\<close> with \<^verbatim>\<open>O_CREATE|O_TRUNC\<close> and with \<^verbatim>\<open>O_CREATE|O_EXCL\<close>, and \<^verbatim>\<open>Open\<close>.\<close>

definition dk_Create :: "string \<Rightarrow> disk \<Rightarrow> (error + os_file) \<times> disk" where
  "dk_Create name d =
     (case dk_next d of
        (None, d) \<Rightarrow> (Inr (dk_handle [] d), dk_put name [] d)
      | (Some _, d) \<Rightarrow> (Inl OsError, d))"

definition dk_CreateExcl :: "string \<Rightarrow> disk \<Rightarrow> (error + os_file) \<times> disk" where
  "dk_CreateExcl name d =
     (case dk_next d of
        (None, d) \<Rightarrow>
          if dk_files d name \<noteq> None then (Inl os_ErrExist, d)
          else (Inr (dk_handle [] d), dk_put name [] d)
      | (Some _, d) \<Rightarrow> (Inl OsError, d))"

definition dk_Open :: "string \<Rightarrow> disk \<Rightarrow> (error + os_file) \<times> disk" where
  "dk_Open name d =
     (case dk_next d of
        (None, d) \<Rightarrow>
          (case dk_files d name of
             None \<Rightarrow> (Inl os_ErrNotExist, d)
           | Some (b, _) \<Rightarrow> (Inr (dk_handle b d), d))
      | (Some _, d) \<Rightarrow> (Inl OsError, d))"

definition dk_save :: "string \<Rightarrow> os_file \<Rightarrow> disk \<Rightarrow> disk" where
  "dk_save name f d = (if dk_files d name = None then d else dk_put name (f_data f) d)"

definition dk_Remove :: "string \<Rightarrow> disk \<Rightarrow> error option \<times> disk" where
  "dk_Remove name d =
     (case dk_next d of
        (None, d) \<Rightarrow>
          if dk_files d name = None then (Some os_ErrNotExist, d)
          else (None, d\<lparr>dk_files := (dk_files d)(name := None)\<rparr>)
      | (Some _, d) \<Rightarrow> (Some OsError, d))"

definition dk_Rename :: "string \<Rightarrow> string \<Rightarrow> disk \<Rightarrow> error option \<times> disk" where
  "dk_Rename a b d =
     (case dk_next d of
        (None, d) \<Rightarrow>
          (case dk_files d a of
             None \<Rightarrow> (Some os_ErrNotExist, d)
           | Some x \<Rightarrow> (None, d\<lparr>dk_files := (dk_files d)(a := None, b \<mapsto> x)\<rparr>))
      | (Some _, d) \<Rightarrow> (Some OsError, d))"

text \<open>The directory itself is there once \<^verbatim>\<open>MkdirAll\<close> succeeds.\<close>

definition dk_MkdirAll :: "string \<Rightarrow> disk \<Rightarrow> error option \<times> disk" where
  "dk_MkdirAll dir d = (case dk_next d of (None, d) \<Rightarrow> (None, d) | (Some _, d) \<Rightarrow> (Some OsError, d))"

text \<open>\<^verbatim>\<open>Stat\<close> for the modification time alone, and with the size.\<close>

definition dk_Stat :: "string \<Rightarrow> disk \<Rightarrow> (error + int) \<times> disk" where
  "dk_Stat name d =
     (case dk_next d of
        (None, d) \<Rightarrow>
          (case dk_files d name of None \<Rightarrow> (Inl os_ErrNotExist, d) | Some (_, t) \<Rightarrow> (Inr t, d))
      | (Some _, d) \<Rightarrow> (Inl OsError, d))"

definition dk_StatInfo :: "string \<Rightarrow> disk \<Rightarrow> (error + (int \<times> int)) \<times> disk" where
  "dk_StatInfo name d =
     (case dk_next d of
        (None, d) \<Rightarrow>
          (case dk_files d name of None \<Rightarrow> (Inl os_ErrNotExist, d) | Some (b, t) \<Rightarrow> (Inr (int (length b), t), d))
      | (Some _, d) \<Rightarrow> (Inl OsError, d))"

definition dk_ReadFile :: "string \<Rightarrow> disk \<Rightarrow> (error + bytes) \<times> disk" where
  "dk_ReadFile name d =
     (case dk_next d of
        (None, d) \<Rightarrow>
          (case dk_files d name of None \<Rightarrow> (Inl os_ErrNotExist, d) | Some (b, _) \<Rightarrow> (Inr b, d))
      | (Some _, d) \<Rightarrow> (Inl OsError, d))"

text \<open>A \<^verbatim>\<open>WriteFile\<close> that fails may leave the file truncated, with a part of the data.\<close>

definition dk_WriteFile :: "string \<Rightarrow> bytes \<Rightarrow> disk \<Rightarrow> error option \<times> disk" where
  "dk_WriteFile name b d =
     (case dk_next d of
        (None, d) \<Rightarrow> (None, dk_put name b d)
      | (Some k, d) \<Rightarrow> (Some OsError, dk_put name (take k b) d))"

definition dk_reliable :: "disk \<Rightarrow> bool" where
  "dk_reliable d = ((\<forall>t. dk_fault d t = None) \<and> (\<forall>t n. dk_ffault d t n = None))"

lemma dk_next_reliable [simp]: "dk_reliable d \<Longrightarrow> dk_next d = (None, d\<lparr>dk_tick := dk_tick d + 1\<rparr>)"
  by (simp add: dk_next_def dk_reliable_def)

lemma dk_reliable_update [simp]:
  "dk_reliable (d\<lparr>dk_tick := t\<rparr>) = dk_reliable d"
  "dk_reliable (d\<lparr>dk_files := fs\<rparr>) = dk_reliable d"
  "dk_reliable (dk_put name b d) = dk_reliable d"
  "dk_reliable (dk_save name f d) = dk_reliable d"
  by (simp_all add: dk_reliable_def dk_put_def dk_save_def)

lemma dk_handle_simps [simp]:
  "f_data (dk_handle b d) = b" "f_pos (dk_handle b d) = 0" "f_stable (dk_handle b d) = b"
  "dk_reliable d \<Longrightarrow> f_reliable (dk_handle b d)"
  by (simp_all add: dk_handle_def f_reliable_def dk_reliable_def)

lemma dk_content_simps [simp]:
  "dk_content (d\<lparr>dk_tick := t\<rparr>) name = dk_content d name"
  "dk_content (dk_put n b d) name = (if name = n then Some b else dk_content d name)"
  "dk_content (dk_save n f d) name =
     (if name = n \<and> dk_content d n \<noteq> None then Some (f_data f) else dk_content d name)"
  by (auto simp: dk_content_def dk_put_def dk_save_def)

lemma dk_content_update [simp]:
  "dk_content (d\<lparr>dk_files := (dk_files d)(n := None)\<rparr>) name = (if name = n then None else dk_content d name)"
  by (simp add: dk_content_def)

lemma dk_content_None: "dk_files d name = None \<longleftrightarrow> dk_content d name = None"
  by (simp add: dk_content_def)

text \<open>The calls of a reliable directory, by contents.\<close>

lemma dk_Create_reliable:
  assumes "dk_reliable d"
  shows "\<exists>f d'. dk_Create name d = (Inr f, d') \<and> dk_reliable d' \<and> f_reliable f \<and> f_data f = [] \<and> f_pos f = 0
    \<and> dk_content d' = (dk_content d)(name \<mapsto> [])"
  using assms by (auto simp: dk_Create_def fun_eq_iff)

lemma dk_Open_reliable:
  assumes "dk_reliable d" and "dk_content d name = Some b"
  shows "\<exists>f d'. dk_Open name d = (Inr f, d') \<and> dk_reliable d' \<and> f_reliable f \<and> f_data f = b \<and> f_pos f = 0
    \<and> dk_content d' = dk_content d"
  using assms by (auto simp: dk_Open_def dk_content_def fun_eq_iff split: option.splits)

lemma dk_Remove_reliable:
  assumes "dk_reliable d"
  shows "\<exists>r d'. dk_Remove name d = (r, d') \<and> dk_reliable d' \<and> dk_content d' = (dk_content d)(name := None)"
proof (cases "dk_content d name")
  case None
  then have "dk_content d = (dk_content d)(name := None)" by auto
  with None assms show ?thesis by (auto simp: dk_Remove_def dk_content_None fun_eq_iff)
next
  case (Some b)
  with assms show ?thesis by (auto simp: dk_Remove_def dk_content_def fun_eq_iff)
qed

text \<open>A reliable directory with given files.\<close>

definition disk_of :: "(string \<times> bytes) list \<Rightarrow> disk" where
  "disk_of fs =
     \<lparr>dk_files = map_of (map (\<lambda>(p, b). (p, (b, 0))) fs), dk_fault = (\<lambda>_. None), dk_ffault = (\<lambda>_ _. None),
      dk_clock = int, dk_tick = 0\<rparr>"

lemma disk_of_simps [simp]:
  "dk_reliable (disk_of fs)" "dk_content (disk_of fs) = map_of fs"
  by (auto simp: disk_of_def dk_reliable_def dk_content_def fun_eq_iff) (induction fs, auto)

end
