(* ===== verification/Compact.thy ===== *)
theory Compact imports Sstable_Table Heapq Disk begin

text \<open>
  \<^verbatim>\<open>internal/compact\<close>: the merge of several tables into one through a heap of the iterators'
  current entries, the choice of the files to merge, and the package's helpers.
\<close>

section \<open>Data\<close>

record Input =
  in_Path :: string
  in_Level :: int

record Result =
  res_OutputPath :: string
  res_Meta :: Meta
  res_Removed :: "string list"
  res_KeptTombstones :: nat
  res_DroppedObsolete :: nat

record CompactOptions =
  co_DropTombstones :: bool
  co_OutputLevel :: int
  co_BlockSize :: int

record FileRef =
  fr_Path :: string
  fr_Name :: string
  fr_Level :: int
  fr_Size :: nat

record mergeItem =
  mi_idx :: nat
  mi_key :: slice
  mi_value :: slice
  mi_seq :: u64
  mi_deleted :: bool

definition mergeHeap_Less :: "mergeItem \<Rightarrow> mergeItem \<Rightarrow> bool" where
  "mergeHeap_Less a b =
     (let c = Compare (sbytes (mi_key a)) (sbytes (mi_key b))
      in if c \<noteq> 0 then c < 0
         else if mi_seq a \<noteq> mi_seq b then mi_seq a > mi_seq b
         else mi_idx a < mi_idx b)"

section \<open>Merging\<close>

text \<open>\<^verbatim>\<open>sstable.Open\<close> on a file of the directory; the reader keeps its open file.\<close>

definition dk_sst_Open :: "string \<Rightarrow> disk \<Rightarrow> (error + Reader) \<times> disk" where
  "dk_sst_Open path d =
     (case dk_Open path d of
        (Inl e, d) \<Rightarrow> (Inl e, d)
      | (Inr f, d) \<Rightarrow> (case sst_Open path f of (r, _) \<Rightarrow> (r, d)))"

fun merge_open :: "Input list \<Rightarrow> Reader list \<Rightarrow> disk \<Rightarrow> (error + Reader list) \<times> disk" where
  "merge_open [] readers d = (Inr readers, d)"
| "merge_open (inp # ins) readers d =
     (case dk_sst_Open (in_Path inp) d of
        (Inl e, d) \<Rightarrow> (Inl e, d)
      | (Inr r, d) \<Rightarrow> merge_open ins (readers @ [r]) d)"

definition make_item :: "nat \<Rightarrow> TIterator \<times> Reader \<Rightarrow> mergeItem" where
  "make_item i s =
     \<lparr>mi_idx = i, mi_key = TIterator_Key (fst s), mi_value = TIterator_Value (fst s),
      mi_seq = TIterator_Seq (fst s), mi_deleted = TIterator_Deleted (fst s)\<rparr>"

definition merge_push :: "nat \<Rightarrow> TIterator \<times> Reader \<Rightarrow> mergeItem list \<Rightarrow> mergeItem list" where
  "merge_push i s h = (if ti_valid s then heap_Push mergeHeap_Less (make_item i s) h else h)"

fun merge_init :: "nat \<Rightarrow> Reader list \<Rightarrow> mergeItem list \<Rightarrow> (TIterator \<times> Reader) list \<Rightarrow>
    error + (mergeItem list \<times> (TIterator \<times> Reader) list)" where
  "merge_init i [] h iters = Inr (h, iters)"
| "merge_init i (r # rs) h iters =
     (case Reader_NewIterator r of
        (Inl e, _) \<Rightarrow> Inl e
      | (Inr it, r) \<Rightarrow> merge_init (i + 1) rs (merge_push i (it, r) h) (iters @ [(it, r)]))"

record merge_state =
  mg_heap :: "mergeItem list"
  mg_iters :: "(TIterator \<times> Reader) list"
  mg_w :: Writer
  mg_kept :: nat
  mg_dropped :: nat
  mg_lastKey :: slice

text \<open>One turn of the loop: the pop with the advance of the item's source, then the item.\<close>

definition merge_advance :: "merge_state \<Rightarrow> error + (mergeItem \<times> merge_state)" where
  "merge_advance st =
     (case heap_Pop mergeHeap_Less (mg_heap st) of (item, h) \<Rightarrow>
        (case ti_next (mg_iters st ! mi_idx item) of
           Inl e \<Rightarrow> Inl e
         | Inr s \<Rightarrow>
             Inr (item, st\<lparr>mg_heap := merge_push (mi_idx item) s h,
                           mg_iters := (mg_iters st)[mi_idx item := s]\<rparr>)))"

definition merge_emit :: "CompactOptions \<Rightarrow> mergeItem \<Rightarrow> merge_state \<Rightarrow> error option \<times> merge_state" where
  "merge_emit o' item st =
     (if mg_lastKey st \<noteq> None \<and> Equal (sbytes (mi_key item)) (sbytes (mg_lastKey st))
      then (None, st\<lparr>mg_dropped := mg_dropped st + 1\<rparr>)
      else
        (let st = st\<lparr>mg_lastKey := Clone (mi_key item)\<rparr>
         in if mi_deleted item \<and> co_DropTombstones o'
            then (None, st\<lparr>mg_dropped := mg_dropped st + 1\<rparr>)
            else
              (let e = \<lparr>se_Key = mi_key item, se_Value = mi_value item, se_Seq = mi_seq item,
                        se_Deleted = mi_deleted item\<rparr>;
                   st = (if se_Deleted e then st\<lparr>mg_kept := mg_kept st + 1\<rparr> else st)
               in case Writer_Add e (mg_w st) of (err, w) \<Rightarrow> (err, st\<lparr>mg_w := w\<rparr>))))"

partial_function (option) merge_loop ::
  "CompactOptions \<Rightarrow> merge_state \<Rightarrow> (error option \<times> merge_state) option" where
  "merge_loop o' st =
     (if mg_heap st = [] then Some (None, st)
      else
        (case merge_advance st of
           Inl e \<Rightarrow> Some (Some e, st)
         | Inr (item, st) \<Rightarrow>
             (case merge_emit o' item st of
                (Some e, st) \<Rightarrow> Some (Some e, st)
              | (None, st) \<Rightarrow> merge_loop o' st)))"

text \<open>
  The writer's file goes back into the directory when the merge ends; \<^verbatim>\<open>Abort\<close> removes it.  A
  panic ends the call without either.
\<close>

definition merge_abort :: "string \<Rightarrow> Writer \<Rightarrow> disk \<Rightarrow> disk" where
  "merge_abort outPath w d =
     (case Writer_Abort w of (removed, w) \<Rightarrow>
        if removed then d\<lparr>dk_files := (dk_files d)(outPath := None)\<rparr> else dk_save outPath (w_f w) d)"

definition merge_finish :: "sizing \<Rightarrow> string \<Rightarrow> Input list \<Rightarrow> merge_state \<Rightarrow> disk \<Rightarrow> (error + Result) \<times> disk" where
  "merge_finish sz outPath inputs st d =
     (case Writer_Finish sz (mg_w st) of (r, w) \<Rightarrow>
        let d = dk_save outPath (w_f w) d
        in (case r of
              Inl e \<Rightarrow> (Inl e, d)
            | Inr mt \<Rightarrow>
                (Inr \<lparr>res_OutputPath = outPath, res_Meta = mt, res_Removed = map in_Path inputs,
                      res_KeptTombstones = mg_kept st, res_DroppedObsolete = mg_dropped st\<rparr>, d)))"

definition zero_CompactOptions :: CompactOptions where
  "zero_CompactOptions = \<lparr>co_DropTombstones = False, co_OutputLevel = 0, co_BlockSize = 0\<rparr>"

definition merge_writer_opts :: "CompactOptions \<Rightarrow> WriterOptions" where
  "merge_writer_opts o' = \<lparr>wro_BlockSize = co_BlockSize o', wro_RestartInterval = 0, wro_BloomFP = 0\<rparr>"

definition MergeFiles ::
  "sizing \<Rightarrow> Input list \<Rightarrow> string \<Rightarrow> CompactOptions option \<Rightarrow> disk \<Rightarrow> ((error + Result) \<times> disk) option" where
  "MergeFiles sz inputs outPath opts d =
     (if inputs = [] then Some (Inl compact_ErrNoInputs, d)
      else
        (let o' = (case opts of None \<Rightarrow> zero_CompactOptions | Some o' \<Rightarrow> o')
         in case merge_open inputs [] d of
              (Inl e, d) \<Rightarrow> Some (Inl e, d)
            | (Inr readers, d) \<Rightarrow>
                (case merge_init 0 readers (heap_Init mergeHeap_Less []) [] of
                   Inl e \<Rightarrow> Some (Inl e, d)
                 | Inr (h, iters) \<Rightarrow>
                     (case dk_Create outPath d of
                        (Inl e, d) \<Rightarrow> Some (Inl e, d)
                      | (Inr f, d) \<Rightarrow>
                          (case merge_loop o'
                              \<lparr>mg_heap = h, mg_iters = iters,
                               mg_w = sst_Create outPath (Some (merge_writer_opts o')) f,
                               mg_kept = 0, mg_dropped = 0, mg_lastKey = None\<rparr> of
                             None \<Rightarrow> None
                           | Some (Some Panic, st) \<Rightarrow> Some (Inl Panic, dk_save outPath (w_f (mg_w st)) d)
                           | Some (Some e, st) \<Rightarrow> Some (Inl e, merge_abort outPath (mg_w st) d)
                           | Some (None, st) \<Rightarrow> Some (merge_finish sz outPath inputs st d))))))"

section \<open>Choosing the files\<close>

text \<open>A nil slice of inputs is the empty list.\<close>

fun level0 :: "FileRef list \<Rightarrow> Input list" where
  "level0 [] = []"
| "level0 (f # fs) =
     (if fr_Level f = 0 then \<lparr>in_Path = fr_Path f, in_Level = 0\<rparr> # level0 fs else level0 fs)"

definition PlanLevel0 :: "FileRef list \<Rightarrow> int \<Rightarrow> Input list" where
  "PlanLevel0 files threshold =
     (let threshold = (if threshold \<le> 0 then 4 else threshold); out = level0 files
      in if int (length out) < threshold then [] else out)"

definition CompactDir ::
  "sizing \<Rightarrow> FileRef list \<Rightarrow> ('m \<times> disk \<Rightarrow> (error + string) \<times> ('m \<times> disk)) \<Rightarrow> CompactOptions option \<Rightarrow>
    'm \<times> disk \<Rightarrow> ((error + Result) \<times> ('m \<times> disk)) option" where
  "CompactDir sz files allocName opts s =
     (let inputs = PlanLevel0 files 2;
          two = [\<lparr>in_Path = fr_Path (files ! 0), in_Level = fr_Level (files ! 0)\<rparr>,
                 \<lparr>in_Path = fr_Path (files ! 1), in_Level = fr_Level (files ! 1)\<rparr>]
      in if inputs = [] \<and> length files < 2 then Some (Inl compact_ErrNoInputs, s)
         else
           (let inputs = (if inputs = [] then two else inputs)
            in case allocName s of
                 (Inl e, s) \<Rightarrow> Some (Inl e, s)
               | (Inr name, (mf, d)) \<Rightarrow>
                   (case MergeFiles sz inputs name opts d of
                      None \<Rightarrow> None
                    | Some (Inl Panic, d) \<Rightarrow> Some (Inl Panic, (mf, d))
                    | Some (Inl e, d) \<Rightarrow> Some (Inl e, (mf, snd (dk_Remove name d)))
                    | Some (Inr res, d) \<Rightarrow> Some (Inr res, (mf, d)))))"

section \<open>Helpers\<close>

fun ValidateSorted :: "sst_Entry list \<Rightarrow> error option" where
  "ValidateSorted (a # b # es) =
     (if Compare (sbytes (se_Key a)) (sbytes (se_Key b)) > 0 then Some compact_NotSorted
      else ValidateSorted (b # es))"
| "ValidateSorted es = None"

text \<open>The exchange sort of \<^verbatim>\<open>PickBySize\<close>: the inner loop over j, the outer one over i.\<close>

function pick_inner :: "nat \<Rightarrow> nat \<Rightarrow> FileRef list \<Rightarrow> FileRef list" where
  "pick_inner i j cp =
     (if j < length cp
      then pick_inner i (j + 1) (if fr_Size (cp ! j) < fr_Size (cp ! i) then swap_at i j cp else cp)
      else cp)"
  by pat_completeness auto
termination
  by (relation "measure (\<lambda>(i, j, cp). length cp - j)") auto

declare pick_inner.simps [simp del]

lemma length_pick_inner [simp]: "length (pick_inner i j cp) = length cp"
proof (induction i j cp rule: pick_inner.induct)
  case (1 i j cp)
  then show ?case by (subst pick_inner.simps) (simp split: if_splits)
qed

function pick_outer :: "nat \<Rightarrow> FileRef list \<Rightarrow> FileRef list" where
  "pick_outer i cp = (if i < length cp then pick_outer (i + 1) (pick_inner i (i + 1) cp) else cp)"
  by pat_completeness auto
termination
  by (relation "measure (\<lambda>(i, cp). length cp - i)") auto

declare pick_outer.simps [simp del]

definition PickBySize :: "FileRef list \<Rightarrow> int \<Rightarrow> FileRef list" where
  "PickBySize files n =
     (if n \<le> 0 \<or> files = [] then []
      else (let cp = pick_outer 0 files; n = (if n > int (length cp) then int (length cp) else n)
            in take (nat n) cp))"

end
