(* ===== verification/Compact_Merge.thy ===== *)
theory Compact_Merge imports Compact "HOL-Library.Product_Lexorder" begin

text \<open>
  The merge is correct: what comes out of the heap is the sorted list of all entries, the loop
  keeps the newest entry of every key, and the table it writes is the one \<^verbatim>\<open>WriteFile\<close> would
  write for these.
\<close>

section \<open>The order of the heap\<close>

lemma unat_u64_less: "unat (s :: u64) < 2 ^ 64"
  using unsigned_less [of s, where ?'a = nat] by simp

text \<open>By key, then by falling sequence number, then by input.\<close>

datatype merge_key = MergeKey bytes u64 nat

fun merge_key_tuple :: "merge_key \<Rightarrow> bytes \<times> nat \<times> nat" where
  "merge_key_tuple (MergeKey k s i) = (k, 2 ^ 64 - unat s, i)"

lemma merge_key_tuple_inj: "merge_key_tuple a = merge_key_tuple b \<Longrightarrow> a = b"
proof (cases a; cases b)
  fix k s i k' s' i'
  assume h: "merge_key_tuple a = merge_key_tuple b" "a = MergeKey k s i" "b = MergeKey k' s' i'"
  then have "2 ^ 64 - unat s = 2 ^ 64 - unat s'" by simp
  moreover have "unat s < 2 ^ 64" "unat s' < 2 ^ 64" by (rule unat_u64_less)+
  ultimately have "unat s = unat s'" by linarith
  with h show "a = b" by (simp add: word_unat_eq_iff)
qed

instantiation merge_key :: linorder
begin

definition less_eq_merge_key :: "merge_key \<Rightarrow> merge_key \<Rightarrow> bool" where
  "less_eq_merge_key a b = (merge_key_tuple a \<le> merge_key_tuple b)"

definition less_merge_key :: "merge_key \<Rightarrow> merge_key \<Rightarrow> bool" where
  "less_merge_key a b = (merge_key_tuple a < merge_key_tuple b)"

instance
  by standard (auto simp: less_eq_merge_key_def less_merge_key_def intro: merge_key_tuple_inj)

end

definition mi_order :: "mergeItem \<Rightarrow> merge_key" where
  "mi_order x = MergeKey (sbytes (mi_key x)) (mi_seq x) (mi_idx x)"

lemma MergeKey_less:
  "MergeKey k s i < MergeKey k' s' i' \<longleftrightarrow> k < k' \<or> k = k' \<and> (s' < s \<or> s = s' \<and> i < i')"
proof -
  have "unat s < 2 ^ 64" "unat s' < 2 ^ 64" by (rule unat_u64_less)+
  then have "2 ^ 64 - unat s < 2 ^ 64 - unat s' \<longleftrightarrow> s' < s" "2 ^ 64 - unat s = 2 ^ 64 - unat s' \<longleftrightarrow> s = s'"
    by (auto simp: word_less_nat_alt word_unat_eq_iff)
  then show ?thesis by (auto simp: less_merge_key_def less_prod_def)
qed

lemma mergeHeap_Less_order: "mergeHeap_Less = (\<lambda>a b. mi_order a < mi_order b)"
  by (auto simp: mergeHeap_Less_def mi_order_def MergeKey_less Let_def fun_eq_iff)

section \<open>What the loop keeps\<close>

definition item_entry :: "mergeItem \<Rightarrow> sst_Entry" where
  "item_entry x = \<lparr>se_Key = mi_key x, se_Value = mi_value x, se_Seq = mi_seq x, se_Deleted = mi_deleted x\<rparr>"

definition ikey :: "mergeItem \<Rightarrow> bytes" where "ikey x = sbytes (mi_key x)"

lemma item_entry_simps [simp]: "skey (item_entry x) = ikey x" "se_Deleted (item_entry x) = mi_deleted x"
  by (simp_all add: skey_def item_entry_def ikey_def)

lemma find_map_comp: "find P (map f xs) = map_option f (find (P \<circ> f) xs)"
  by (induction xs) auto

text \<open>The first item of every run of equal keys.\<close>

fun dedup :: "slice \<Rightarrow> mergeItem list \<Rightarrow> mergeItem list" where
  "dedup lk [] = []"
| "dedup lk (x # xs) =
     (if lk \<noteq> None \<and> ikey x = sbytes lk then dedup lk xs else x # dedup (mi_key x) xs)"

definition merge_out :: "CompactOptions \<Rightarrow> slice \<Rightarrow> mergeItem list \<Rightarrow> sst_Entry list" where
  "merge_out o' lk xs = map item_entry (filter (\<lambda>x. \<not> (mi_deleted x \<and> co_DropTombstones o')) (dedup lk xs))"

fun merge_emits :: "CompactOptions \<Rightarrow> mergeItem list \<Rightarrow> merge_state \<Rightarrow> error option \<times> merge_state" where
  "merge_emits o' [] st = (None, st)"
| "merge_emits o' (x # xs) st =
     (case merge_emit o' x st of (Some e, st) \<Rightarrow> (Some e, st) | (None, st) \<Rightarrow> merge_emits o' xs st)"

lemma merge_emits_out:
  assumes "WriteFile_loop (merge_out o' (mg_lastKey st) xs) (mg_w st) = (None, w')"
  shows "\<exists>st'. merge_emits o' xs st = (None, st') \<and> mg_w st' = w'
    \<and> mg_kept st' = mg_kept st + length (filter se_Deleted (merge_out o' (mg_lastKey st) xs))
    \<and> mg_dropped st' + length (merge_out o' (mg_lastKey st) xs) = mg_dropped st + length xs"
  using assms
proof (induction xs arbitrary: st)
  case (Cons x xs)
  consider (dup) "mg_lastKey st \<noteq> None" "ikey x = sbytes (mg_lastKey st)"
    | (drop) "\<not> (mg_lastKey st \<noteq> None \<and> ikey x = sbytes (mg_lastKey st))" "mi_deleted x \<and> co_DropTombstones o'"
    | (keep) "\<not> (mg_lastKey st \<noteq> None \<and> ikey x = sbytes (mg_lastKey st))" "\<not> (mi_deleted x \<and> co_DropTombstones o')"
    by blast
  then show ?case
  proof cases
    case dup
    let ?st = "st\<lparr>mg_dropped := mg_dropped st + 1\<rparr>"
    have e: "merge_emit o' x st = (None, ?st)" using dup by (simp add: merge_emit_def ikey_def)
    have o: "merge_out o' (mg_lastKey st) (x # xs) = merge_out o' (mg_lastKey ?st) xs"
      using dup by (simp add: merge_out_def)
    from Cons.IH [of ?st] Cons.prems e o show ?thesis by auto
  next
    case drop
    let ?st = "st\<lparr>mg_lastKey := mi_key x, mg_dropped := mg_dropped st + 1\<rparr>"
    have e: "merge_emit o' x st = (None, ?st)"
      unfolding merge_emit_def Equal_iff using drop by (auto simp: ikey_def Let_def)
    have o: "merge_out o' (mg_lastKey st) (x # xs) = merge_out o' (mg_lastKey ?st) xs"
      using drop by (auto simp: merge_out_def)
    from Cons.IH [of ?st] Cons.prems e o show ?thesis by auto
  next
    case keep
    have o: "merge_out o' (mg_lastKey st) (x # xs) = item_entry x # merge_out o' (mi_key x) xs"
      using keep by (auto simp: merge_out_def)
    obtain w1 where w1: "Writer_Add (item_entry x) (mg_w st) = (None, w1)"
      "WriteFile_loop (merge_out o' (mi_key x) xs) w1 = (None, w')"
      using Cons.prems unfolding o by (auto split: prod.splits option.splits)
    let ?st = "st\<lparr>mg_w := w1, mg_kept := mg_kept st + (if mi_deleted x then 1 else 0), mg_lastKey := mi_key x\<rparr>"
    have e: "merge_emit o' x st = (None, ?st)"
      using keep w1(1) unfolding merge_emit_def item_entry_def by (auto simp: ikey_def Let_def)
    from Cons.IH [of ?st] w1(2) e obtain st' where
      "merge_emits o' xs ?st = (None, st')" "mg_w st' = w'"
      "mg_kept st' = mg_kept ?st + length (filter se_Deleted (merge_out o' (mi_key x) xs))"
      "mg_dropped st' + length (merge_out o' (mi_key x) xs) = mg_dropped ?st + length xs" by auto
    with e o show ?thesis by (auto simp: item_entry_def)
  qed
qed (simp add: merge_out_def)

text \<open>What is kept of a sorted list is strictly sorted, and the first item of every key.\<close>

lemma dedup_find:
  "lk = None \<or> sbytes lk \<noteq> k \<Longrightarrow> find (\<lambda>x. ikey x = k) (dedup lk xs) = find (\<lambda>x. ikey x = k) xs"
proof (induction xs arbitrary: lk)
  case (Cons x xs)
  show ?case
  proof (cases "ikey x = k")
    case False
    then have "mi_key x = None \<or> sbytes (mi_key x) \<noteq> k" by (simp add: ikey_def)
    from Cons.IH [OF this] Cons.IH [OF Cons.prems] False show ?thesis by simp
  qed (use Cons.prems in auto)
qed simp

lemma dedup_subset: "set (dedup lk xs) \<subseteq> set xs"
  by (induction xs arbitrary: lk) (auto split: if_splits)

lemma dedup_sorted:
  assumes "sorted (map ikey xs)" and "lk \<noteq> None \<Longrightarrow> \<forall>x\<in>set xs. sbytes lk \<le> ikey x"
    and "\<forall>x\<in>set xs. mi_key x \<noteq> None"
  shows "sorted_wrt (\<lambda>a b. ikey a < ikey b) (dedup lk xs) \<and> (lk \<noteq> None \<longrightarrow> (\<forall>x\<in>set (dedup lk xs). sbytes lk < ikey x))"
  using assms
proof (induction xs arbitrary: lk)
  case (Cons x xs)
  show ?case
  proof (cases "lk \<noteq> None \<and> ikey x = sbytes lk")
    case True
    with Cons show ?thesis by auto
  next
    case False
    have "\<forall>y\<in>set xs. sbytes (mi_key x) \<le> ikey y" using Cons.prems(1) by (simp add: ikey_def)
    then have IH: "sorted_wrt (\<lambda>a b. ikey a < ikey b) (dedup (mi_key x) xs)"
      "\<forall>y\<in>set (dedup (mi_key x) xs). ikey x < ikey y"
      using Cons.IH [of "mi_key x"] Cons.prems(1,3) by (auto simp: ikey_def)
    have "sbytes lk < ikey x" if "lk \<noteq> None" using Cons.prems(2) [OF that] False that by auto
    with IH False show ?thesis by (auto dest: order.strict_trans)
  qed
qed simp

lemma sorted_order_ikey: "sorted (map mi_order xs) \<Longrightarrow> sorted (map ikey xs)"
proof (induction xs)
  case (Cons x xs)
  have "ikey x \<le> ikey y" if "mi_order x \<le> mi_order y" for y
    using that by (auto simp: mi_order_def ikey_def le_less MergeKey_less)
  with Cons show ?case by auto
qed simp

lemma merge_out_sorted:
  assumes "sorted (map mi_order xs)" and "\<forall>x\<in>set xs. mi_key x \<noteq> None"
  shows "keys_sorted (merge_out o' None xs)" and "\<forall>e\<in>set (merge_out o' None xs). se_Key e \<noteq> None"
proof -
  have "sorted_wrt (\<lambda>a b. ikey a < ikey b) (dedup None xs)"
    using dedup_sorted [OF sorted_order_ikey [OF assms(1)] _ assms(2), of None] by simp
  then have "sorted_wrt (\<lambda>a b. ikey a < ikey b) (filter (\<lambda>x. \<not> (mi_deleted x \<and> co_DropTombstones o')) (dedup None xs))"
    by (rule sorted_wrt_filter)
  then show "keys_sorted (merge_out o' None xs)" by (simp add: keys_sorted_def merge_out_def sorted_wrt_map)
  show "\<forall>e\<in>set (merge_out o' None xs). se_Key e \<noteq> None"
    using assms(2) dedup_subset [of None xs] by (auto simp: merge_out_def item_entry_def)
qed

lemma find_sorted_least:
  "sorted (map mi_order xs) \<Longrightarrow> find P xs = Some x \<Longrightarrow> y \<in> set xs \<Longrightarrow> P y \<Longrightarrow> mi_order x \<le> mi_order y"
  by (induction xs) (auto split: if_splits)

section \<open>The entry of every key\<close>

text \<open>The newest of the versions that the inputs hold, the first of equals.\<close>

fun newest :: "sst_Entry option list \<Rightarrow> sst_Entry option" where
  "newest [] = None"
| "newest (None # cs) = newest cs"
| "newest (Some e # cs) =
     (case newest cs of None \<Rightarrow> Some e | Some e' \<Rightarrow> if se_Seq e < se_Seq e' then Some e' else Some e)"

lemma newest_None: "newest cs = None \<longleftrightarrow> (\<forall>c\<in>set cs. c = None)"
  by (induction cs rule: newest.induct) (auto split: option.splits if_splits)

lemma newest_mem: "newest cs = Some e \<Longrightarrow> Some e \<in> set cs"
  by (induction cs arbitrary: e rule: newest.induct) (auto split: option.splits if_splits)

lemma newest_max: "newest cs = Some e \<Longrightarrow> Some e' \<in> set cs \<Longrightarrow> se_Seq e' \<le> se_Seq e"
proof (induction cs arbitrary: e rule: newest.induct)
  case (3 c cs)
  then show ?case
    by (cases "newest cs") (auto simp: newest_None not_less split: if_splits dest: order.trans)
qed auto

lemma newest_first:
  assumes "i < length cs" and "cs ! i = Some e"
    and "\<And>j e'. j < length cs \<Longrightarrow> cs ! j = Some e' \<Longrightarrow> se_Seq e' < se_Seq e \<or> se_Seq e' = se_Seq e \<and> i \<le> j"
  shows "newest cs = Some e"
  using assms
proof (induction cs arbitrary: i)
  case (Cons c cs)
  show ?case
  proof (cases i)
    case 0
    then have c: "c = Some e" using Cons.prems(2) by simp
    have "\<not> se_Seq e < se_Seq e'" if "newest cs = Some e'" for e'
    proof -
      from newest_mem [OF that] obtain j where "j < length cs" "cs ! j = Some e'" by (auto simp: in_set_conv_nth)
      with Cons.prems(3) [of "Suc j" e'] show ?thesis by auto
    qed
    with c show ?thesis by (auto split: option.splits)
  next
    case (Suc i')
    have "newest cs = Some e"
    proof (rule Cons.IH)
      show "i' < length cs" "cs ! i' = Some e" using Cons.prems(1,2) Suc by auto
      fix j e' assume "j < length cs" "cs ! j = Some e'"
      with Cons.prems(3) [of "Suc j" e'] Suc show "se_Seq e' < se_Seq e \<or> se_Seq e' = se_Seq e \<and> i' \<le> j" by auto
    qed
    moreover have "se_Seq e0 < se_Seq e" if "c = Some e0" for e0
      using Cons.prems(3) [of 0 e0] that Suc by simp
    ultimately show ?thesis by (cases c) auto
  qed
qed simp

definition entry_item :: "nat \<Rightarrow> sst_Entry \<Rightarrow> mergeItem" where
  "entry_item i e =
     \<lparr>mi_idx = i, mi_key = se_Key e, mi_value = se_Value e, mi_seq = se_Seq e, mi_deleted = se_Deleted e\<rparr>"

lemma item_entry_item [simp]: "item_entry (entry_item i e) = e"
  by (simp add: item_entry_def entry_item_def)

lemma entry_item_simps [simp]:
  "ikey (entry_item i e) = skey e" "mi_idx (entry_item i e) = i" "mi_key (entry_item i e) = se_Key e"
  by (simp_all add: ikey_def entry_item_def skey_def)

lemma mi_order_entry: "mi_order (entry_item i e) = MergeKey (skey e) (se_Seq e) i"
  by (simp add: mi_order_def entry_item_def skey_def)

definition all_items :: "sst_Entry list list \<Rightarrow> mergeItem list" where
  "all_items ess = concat (map (\<lambda>i. map (entry_item i) (ess ! i)) [0..<length ess])"

lemma set_all_items: "x \<in> set (all_items ess) \<longleftrightarrow> (\<exists>i<length ess. \<exists>e\<in>set (ess ! i). x = entry_item i e)"
  by (auto simp: all_items_def)

definition find_key :: "bytes \<Rightarrow> sst_Entry list \<Rightarrow> sst_Entry option" where
  "find_key k es = find (\<lambda>e. skey e = k) es"

lemma keys_unique:
  "keys_sorted es \<Longrightarrow> e \<in> set es \<Longrightarrow> e' \<in> set es \<Longrightarrow> skey e = skey e' \<Longrightarrow> e = e'"
  by (induction es) (auto simp: keys_sorted_def)

lemma find_key_unique: "keys_sorted es \<Longrightarrow> find_key k es = Some e \<longleftrightarrow> e \<in> set es \<and> skey e = k"
proof
  assume s: "keys_sorted es" and e: "e \<in> set es \<and> skey e = k"
  then have "find_key k es \<noteq> None" by (auto simp: find_key_def find_None_iff)
  then obtain e' where e': "find_key k es = Some e'" by blast
  then have "e' \<in> set es" "skey e' = k" by (auto simp: find_key_def find_Some_iff)
  with keys_unique [OF s, of e e'] e e' show "find_key k es = Some e" by simp
qed (auto simp: find_key_def find_Some_iff)

lemma find_filter_unique:
  "sorted_wrt (\<lambda>a b. ikey a < ikey b) xs \<Longrightarrow> find (\<lambda>x. ikey x = k) (filter P xs) =
    (case find (\<lambda>x. ikey x = k) xs of None \<Rightarrow> None | Some x \<Rightarrow> if P x then Some x else None)"
proof (induction xs)
  case (Cons x xs)
  have "find (\<lambda>y. ikey y = ikey x) xs = None" using Cons.prems by (auto simp: find_None_iff)
  with Cons show ?case by auto
qed simp

text \<open>A winning tombstone is dropped on request.\<close>

definition kept :: "CompactOptions \<Rightarrow> sst_Entry option \<Rightarrow> sst_Entry option" where
  "kept o' c = (case c of None \<Rightarrow> None | Some e \<Rightarrow> if se_Deleted e \<and> co_DropTombstones o' then None else Some e)"

lemma merge_out_newest:
  assumes "sorted (map mi_order xs)" and "mset xs = mset (all_items ess)"
    and "\<forall>es\<in>set ess. keys_sorted es" and "\<forall>x\<in>set xs. mi_key x \<noteq> None"
  shows "find_key k (merge_out o' None xs) = kept o' (newest (map (find_key k) ess))"
proof -
  have sx: "set xs = set (all_items ess)" using assms(2) by (metis set_mset_mset)
  have "sorted_wrt (\<lambda>a b. ikey a < ikey b) (dedup None xs)"
    using dedup_sorted [OF sorted_order_ikey [OF assms(1)] _ assms(4), of None] by simp
  then have f: "find_key k (merge_out o' None xs) = kept o' (map_option item_entry (find (\<lambda>x. ikey x = k) xs))"
    using dedup_find [of None k xs]
    by (auto simp: find_key_def merge_out_def find_map_comp comp_def find_filter_unique kept_def
        split: option.splits)
  show ?thesis
  proof (cases "find (\<lambda>x. ikey x = k) xs")
    case None
    have "find_key k es = None" if "es \<in> set ess" for es
    proof -
      from that obtain i where i: "i < length ess" "es = ess ! i" by (auto simp: in_set_conv_nth)
      have "skey e \<noteq> k" if "e \<in> set es" for e
      proof -
        have "entry_item i e \<in> set xs" unfolding sx set_all_items using that i by blast
        with None show ?thesis by (fastforce simp: find_None_iff)
      qed
      then show ?thesis by (auto simp: find_key_def find_None_iff)
    qed
    with None f newest_None [of "map (find_key k) ess"] show ?thesis by simp
  next
    case (Some x)
    then have x: "x \<in> set xs" "ikey x = k" by (auto simp: find_Some_iff)
    then obtain i e where i: "i < length ess" "e \<in> set (ess ! i)" "x = entry_item i e"
      unfolding sx by (auto simp: set_all_items)
    have "newest (map (find_key k) ess) = Some e"
    proof (rule newest_first [of i])
      show "i < length (map (find_key k) ess)" using i(1) by simp
      show "map (find_key k) ess ! i = Some e"
        using i x(2) assms(3) find_key_unique [of "ess ! i" k e] by simp
      fix j e' assume j: "j < length (map (find_key k) ess)" "map (find_key k) ess ! j = Some e'"
      then have e': "e' \<in> set (ess ! j)" "skey e' = k" by (auto simp: find_key_def find_Some_iff)
      then have "entry_item j e' \<in> set xs" unfolding sx using j(1) by (auto simp: set_all_items)
      from find_sorted_least [OF assms(1) Some this] e'(2) have "mi_order x \<le> mi_order (entry_item j e')" by simp
      then show "se_Seq e' < se_Seq e \<or> se_Seq e' = se_Seq e \<and> i \<le> j"
        using x(2) e'(2) unfolding i(3) by (auto simp: le_less MergeKey_less mi_order_entry)
    qed
    with f Some i(3) show ?thesis by simp
  qed
qed

end
