(* ===== verification/Tables.thy ===== *)
theory Tables imports Sstable_Table Disk begin

text \<open>
  Tables as the rest of the program sees them: bytes that are a table of a list of entries, what
  writing and opening them in a directory gives, and the contract of a reader.
\<close>

section \<open>The bytes of a table and its readers\<close>

definition is_table :: "bytes \<Rightarrow> sst_Entry list \<Rightarrow> bool" where
  "is_table data es =
     (\<exists>ri bs bf bdata. data = table_bytes ri bs bdata \<and> concat bs = es \<and> table_ok bs \<and> filter_ok bf \<and>
        Filter_MarshalBinary (Some bf) = Inr bdata \<and> unat (fl_m bf) < 2 ^ 48 \<and> (\<forall>e\<in>set es. has_key bf (skey e)))"

definition reader_of :: "sst_Entry list \<Rightarrow> Reader \<Rightarrow> bool" where
  "reader_of es r =
     (\<exists>ri bs. concat bs = es \<and> table_ok bs \<and> reads ri bs r \<and> filter_ok (r_bloom r) \<and>
        (\<forall>e\<in>set es. has_key (r_bloom r) (skey e)))"

lemma is_table_sorted: "is_table data es \<Longrightarrow> keys_sorted es \<and> total_size es < 2 ^ 31"
  by (auto simp: is_table_def table_ok_def)

lemma reader_of_sorted: "reader_of es r \<Longrightarrow> keys_sorted es \<and> total_size es < 2 ^ 31"
  by (auto simp: reader_of_def table_ok_def)

lemma WriteFile_is_table:
  assumes "fresh_file f" and "table_input sz opts es"
  shows "\<exists>f'. sst_WriteFile sz path es opts f = (Inr (table_meta path es (length (f_data f'))), Some f')
    \<and> f_reliable f' \<and> f_stable f' = f_data f' \<and> is_table (f_data f') es"
proof -
  have T: "\<forall>e\<in>set es. se_Key e \<noteq> None" "keys_sorted es" "total_size es < 2 ^ 31"
    "unat (NumBits (table_filter sz opts es)) < 2 ^ 48"
    using assms(2) by (auto simp: table_input_def list_all_iff)
  from T(4) have nb: "unat (NumBits (table_filter sz opts es)) + 7 < 2 ^ 64" by simp
  have F0: "f_reliable f" "f_data f = []" "f_pos f = 0" using assms(1) by (simp_all add: fresh_file_def)
  obtain bf bdata bs f' where 1: "sst_WriteFile sz path es opts f =
      (Inr (table_meta path es (length (table_bytes (wf_ri opts) bs bdata))), Some f')"
    "at_end f' (table_bytes (wf_ri opts) bs bdata)" "f_stable f' = table_bytes (wf_ri opts) bs bdata"
    "concat bs = es" "[] \<notin> set bs" "filter_ok bf" "Filter_MarshalBinary (Some bf) = Inr bdata"
    "fl_m bf = NumBits (table_filter sz opts es)" "\<forall>e\<in>set es. has_key bf (skey e)"
    using WriteFile_table [OF F0 T(1,2) nb, of path] by blast
  have "table_ok bs" using 1(4,5) T(2,3) by (simp add: table_ok_def)
  moreover have "unat (fl_m bf) < 2 ^ 48" using T(4) 1(8) by simp
  ultimately have "is_table (table_bytes (wf_ri opts) bs bdata) es"
    unfolding is_table_def using 1(4,6,7,9) by blast
  moreover have F: "f_data f' = table_bytes (wf_ri opts) bs bdata" "f_reliable f'" using 1(2) by (simp_all add: at_end_def)
  ultimately show ?thesis using 1(1,3) by (intro exI [of _ f']) (simp add: F)
qed

lemma Open_is_table:
  assumes "is_table (f_data f) es" and "f_reliable f"
  shows "\<exists>r f'. sst_Open path f = (Inr r, f') \<and> reader_of es r \<and> Reader_Path r = path"
proof -
  from assms(1) obtain ri bs bf bdata where b: "f_data f = table_bytes ri bs bdata" "concat bs = es" "table_ok bs"
    "filter_ok bf" "Filter_MarshalBinary (Some bf) = Inr bdata" "unat (fl_m bf) < 2 ^ 48"
    "\<forall>e\<in>set es. has_key bf (skey e)" unfolding is_table_def by blast
  have ok: "[] \<notin> set bs" "total_size (concat bs) < 2 ^ 31" using b(3) by (simp_all add: table_ok_def)
  obtain t where t: "sst_Open path f =
      (Inr (table_reader ri bs bf path (length (table_bytes ri bs bdata)) (f\<lparr>f_tick := t\<rparr>)), f\<lparr>f_tick := t\<rparr>)"
    using Open_table [OF assms(2) b(1) ok b(4-6), of path] by blast
  let ?r = "table_reader ri bs bf path (length (table_bytes ri bs bdata)) (f\<lparr>f_tick := t\<rparr>)"
  have "reads ri bs ?r" using b(1) assms(2) by (simp add: reads_def table_reader_def table_bytes_def)
  moreover have "r_bloom ?r = bf" "Reader_Path ?r = path" by (simp_all add: table_reader_def Reader_Path_def)
  ultimately show ?thesis using t b(2-4,7) unfolding reader_of_def by metis
qed

lemma readBlock_path: "Reader_readBlock rec r = (x, r') \<Longrightarrow> r_path r' = r_path r"
  by (auto simp: Reader_readBlock_def Let_def split: if_splits option.splits sum.splits prod.splits)

lemma Reader_Get_path: "Reader_Get key r = (x, r') \<Longrightarrow> r_path r' = r_path r"
  by (auto simp: Reader_Get_def Let_def dest: readBlock_path [OF sym] readBlock_path
      split: if_splits sum.splits prod.splits)

lemma Reader_Get_of:
  assumes "reader_of es r"
  shows "\<exists>r'. Reader_Get key r = (Inr (table_lookup es key), r') \<and> reader_of es r' \<and> Reader_Path r' = Reader_Path r"
proof -
  from assms obtain ri bs where b: "concat bs = es" "table_ok bs" "reads ri bs r" "filter_ok (r_bloom r)"
    "\<forall>e\<in>set es. has_key (r_bloom r) (skey e)" by (auto simp: reader_of_def)
  then have "\<forall>e\<in>set (concat bs). has_key (r_bloom r) (skey e)" by simp
  from Reader_Get_table [OF b(3,2,4) this, of key] obtain r' where
    r': "Reader_Get key r = (Inr (table_lookup (concat bs) key), r')" "reads ri bs r'" "r_bloom r' = r_bloom r" by blast
  then have "reader_of es r'" unfolding reader_of_def using b by metis
  with r'(1) Reader_Get_path [OF r'(1)] b(1) show ?thesis by (simp add: Reader_Path_def)
qed

lemma NewIterator_of:
  assumes "reader_of es r"
  shows "\<exists>it r' ri. Reader_NewIterator r = (Inr it, r') \<and> table_cursor_at ri (map stored es) 0 (it, r')"
proof -
  from assms obtain ri bs where b: "concat bs = es" "table_ok bs" "reads ri bs r" by (auto simp: reader_of_def)
  from NewIterator_at [OF b(3,2)] obtain it r' where "Reader_NewIterator r = (Inr it, r')" "ti_at ri bs 0 it r'" by blast
  with b(1,2) show ?thesis by (auto simp: table_cursor_at_def)
qed

section \<open>Sizes\<close>

text \<open>
  The sizing arithmetic gives a filter of less than \<^verbatim>\<open>2 ^ 48\<close> bits for as many keys as a
  table of the size considered can hold (it takes about ten bits a key).
\<close>

definition sizing_ok :: "sizing \<Rightarrow> bool" where
  "sizing_ok sz = (\<forall>n < 2 ^ 25. unat (NumBits (Filter_New sz (int n) (1 / 100))) < 2 ^ 48)"

definition default_fp :: "WriterOptions option \<Rightarrow> bool" where
  "default_fp opts = (wro_BloomFP (WriterOptions_normalize opts) = 1 / 100)"

lemma table_input_default:
  assumes "sizing_ok sz" and "default_fp opts" and "\<forall>e\<in>set es. se_Key e \<noteq> None" and "keys_sorted es"
    and "total_size es < 2 ^ 31"
  shows "table_input sz opts es"
proof -
  have "length es < 2 ^ 25" using length_le_total [of es] assms(5) by simp
  then have "unat (NumBits (table_filter sz opts es)) < 2 ^ 48"
    unfolding table_filter_def assms(2) [unfolded default_fp_def] using assms(1) by (simp only: sizing_ok_def)
  with assms(3-5) show ?thesis by (simp add: table_input_def list_all_iff)
qed

lemma stored_simps [simp]:
  "skey (stored e) = skey e" "se_Key (stored e) = Some (skey e)" "se_Seq (stored e) = se_Seq e"
  "se_Deleted (stored e) = se_Deleted e" "stored (stored e) = stored e" "esize (stored e) = esize e"
  "sval (stored e) = sval e"
  by (simp_all add: stored_def skey_def sval_def esize_def)

lemma total_size_stored [simp]: "total_size (map stored es) = total_size es"
  by (simp add: total_size_def comp_def)

lemma keys_sorted_stored [simp]: "keys_sorted (map stored es) = keys_sorted es"
  by (simp add: keys_sorted_def sorted_wrt_map)

end
