(* ===== verification/Compact_Correct.thy ===== *)
theory Compact_Correct imports Compact_Merge Tables begin

text \<open>
  \<^verbatim>\<open>MergeFiles\<close> on tables that can be read: the loop with its heap and iterators takes the
  entries out in the order that the priority queue's interface promises, ends, and leaves the
  table of what it kept.
\<close>

interpretation mq: priority_queue mi_order "heap_Push mergeHeap_Less" "heap_Pop mergeHeap_Less" "is_heap mi_order" mset
  unfolding mergeHeap_Less_order by (rule heapq.priority_queue_axioms)

section \<open>The iterators and the heap\<close>

text \<open>
  Input i stands at entry \<^verbatim>\<open>ns ! i\<close> of \<^verbatim>\<open>ess ! i\<close>; this entry, and no other of the
  input, is in the heap.
\<close>

definition merge_rel :: "sst_Entry list list \<Rightarrow> nat list \<Rightarrow> merge_state \<Rightarrow> bool" where
  "merge_rel ess ns st =
     (length ns = length ess \<and> length (mg_iters st) = length ess \<and> is_heap mi_order (mg_heap st) \<and>
      (\<forall>x\<in>set (mg_heap st). mi_idx x < length ess) \<and>
      (\<forall>i<length ess. (\<exists>ri. table_cursor_at ri (ess ! i) (ns ! i) (mg_iters st ! i)) \<and>
        filter_mset (\<lambda>x. mi_idx x = i) (mset (mg_heap st)) =
          (if ns ! i < length (ess ! i) then {#entry_item i (ess ! i ! (ns ! i))#} else {#})))"

definition rests :: "sst_Entry list list \<Rightarrow> nat list \<Rightarrow> mergeItem list list" where
  "rests ess ns = map (\<lambda>i. map (entry_item i) (drop (ns ! i + 1) (ess ! i))) [0..<length ess]"

lemma make_item_entry: "ti_valid s \<Longrightarrow> make_item i s = entry_item i (ti_entry s)"
  by (simp add: make_item_def entry_item_def ti_entry_def ti_valid_def TIterator_Entry_def)

text \<open>One advance: the popped item was the current one of its input.\<close>

lemma merge_advance_rel:
  assumes rel: "merge_rel ess ns st" and ne: "mg_heap st \<noteq> []"
    and pop: "heap_Pop mergeHeap_Less (mg_heap st) = (x, h)"
  defines "i \<equiv> mi_idx x"
  shows "\<exists>st'. merge_advance st = Inr (x, st') \<and> merge_rel ess (ns[i := ns ! i + 1]) st'
    \<and> st' = st\<lparr>mg_heap := mg_heap st', mg_iters := mg_iters st'\<rparr>
    \<and> mg_heap st' = (case rests ess ns ! i of [] \<Rightarrow> h | y # ys \<Rightarrow> heap_Push mergeHeap_Less y h)
    \<and> rests ess (ns[i := ns ! i + 1]) = (case rests ess ns ! i of [] \<Rightarrow> rests ess ns | y # ys \<Rightarrow> (rests ess ns)[i := ys])
    \<and> i < length ess"
proof -
  have len: "length ns = length ess" "length (mg_iters st) = length ess" and hp: "is_heap mi_order (mg_heap st)"
    and idx: "\<forall>x\<in>set (mg_heap st). mi_idx x < length ess"
    and at: "\<And>j. j < length ess \<Longrightarrow> \<exists>ri. table_cursor_at ri (ess ! j) (ns ! j) (mg_iters st ! j)"
    and fl: "\<And>j. j < length ess \<Longrightarrow> filter_mset (\<lambda>x. mi_idx x = j) (mset (mg_heap st)) =
          (if ns ! j < length (ess ! j) then {#entry_item j (ess ! j ! (ns ! j))#} else {#})"
    using rel by (auto simp: merge_rel_def)
  note P = heap_Pop_heap [OF hp ne, of x h, folded mergeHeap_Less_order, OF pop]
  have xs: "x \<in> set (mg_heap st)" using P(2) by (metis set_mset_mset union_single_eq_member)
  then have i: "i < length ess" using idx by (simp add: i_def)
  have "x \<in># filter_mset (\<lambda>x. mi_idx x = i) (mset (mg_heap st))" using xs by (simp add: i_def)
  then have n: "ns ! i < length (ess ! i)" and xe: "x = entry_item i (ess ! i ! (ns ! i))"
    using fl [OF i] by (auto split: if_splits)
  from at [OF i] obtain ri where ci: "table_cursor_at ri (ess ! i) (ns ! i) (mg_iters st ! i)" by blast
  obtain s where s: "ti_next (mg_iters st ! i) = Inr s" "table_cursor_at ri (ess ! i) (ns ! i + 1) s"
    using ti.next_at [OF ci n] by blast
  have r: "rests ess ns ! i = map (entry_item i) (drop (ns ! i + 1) (ess ! i))" using i by (simp add: rests_def)
  have push: "merge_push i s h = (case rests ess ns ! i of [] \<Rightarrow> h | y # ys \<Rightarrow> heap_Push mergeHeap_Less y h)"
  proof (cases "ns ! i + 1 < length (ess ! i)")
    case True
    then have v: "ti_valid s" "ti_entry s = ess ! i ! (ns ! i + 1)"
      using ti.valid_at [OF s(2)] ti.entry_at [OF s(2)] by auto
    have "drop (ns ! i + 1) (ess ! i) = ess ! i ! (ns ! i + 1) # drop (ns ! i + 2) (ess ! i)"
      using Cons_nth_drop_Suc [OF True] by simp
    with v show ?thesis unfolding r by (simp add: merge_push_def make_item_entry)
  next
    case False
    then have "\<not> ti_valid s" using ti.valid_at [OF s(2)] by simp
    with False show ?thesis unfolding r by (simp add: merge_push_def)
  qed
  let ?st = "st\<lparr>mg_heap := merge_push i s h, mg_iters := (mg_iters st)[i := s]\<rparr>"
  have adv: "merge_advance st = Inr (x, ?st)"
    using s(1) by (simp add: merge_advance_def pop i_def)
  have oth: "filter_mset (\<lambda>x. mi_idx x = j) (mset h) = filter_mset (\<lambda>x. mi_idx x = j) (mset (mg_heap st))"
    if "j \<noteq> i" for j
    using that unfolding P(2) i_def by simp
  have here: "filter_mset (\<lambda>x. mi_idx x = i) (mset h) = {#}"
  proof -
    have "filter_mset (\<lambda>x. mi_idx x = i) (mset (mg_heap st)) = {#x#}"
      unfolding fl [OF i] if_P [OF n] by (simp only: xe [symmetric])
    then have "filter_mset (\<lambda>y. mi_idx y = i) (add_mset x (mset h)) = {#x#}" unfolding P(2) .
    then show ?thesis by (simp add: i_def)
  qed
  have heap: "is_heap mi_order (merge_push i s h)"
    using P(1) heap_Push_heap(1) [OF P(1)] by (simp add: merge_push_def mergeHeap_Less_order)
  let ?ns = "ns[i := ns ! i + 1]"
  have "(\<exists>ri. table_cursor_at ri (ess ! j) (?ns ! j) (mg_iters ?st ! j)) \<and>
      filter_mset (\<lambda>x. mi_idx x = j) (mset (mg_heap ?st)) =
        (if ?ns ! j < length (ess ! j) then {#entry_item j (ess ! j ! (?ns ! j))#} else {#})"
    if j: "j < length ess" for j
  proof (cases "j = i")
    case True
    have "filter_mset (\<lambda>x. mi_idx x = i) (mset (merge_push i s h)) =
        (if ns ! i + 1 < length (ess ! i) then {#entry_item i (ess ! i ! (ns ! i + 1))#} else {#})"
      using heap_Push_heap(2) [OF P(1), folded mergeHeap_Less_order] here ti.valid_at [OF s(2)] ti.entry_at [OF s(2)]
      by (auto simp: merge_push_def make_item_entry)
    with True s(2) len i show ?thesis by auto
  next
    case False
    have "filter_mset (\<lambda>x. mi_idx x = j) (mset (merge_push i s h)) = filter_mset (\<lambda>x. mi_idx x = j) (mset h)"
      using heap_Push_heap(2) [OF P(1), folded mergeHeap_Less_order] False
      by (auto simp: merge_push_def make_item_def)
    with False at [OF j] fl [OF j] oth [OF False] show ?thesis by simp
  qed
  moreover have "\<forall>y\<in>set (merge_push i s h). mi_idx y < length ess"
  proof -
    have "set h \<subseteq> set (mg_heap st)" using P(2) by (metis set_mset_mset set_mset_add_mset_insert subset_insertI)
    moreover have "set (merge_push i s h) \<subseteq> insert (make_item i s) (set h)"
      using heap_Push_heap(2) [OF P(1), folded mergeHeap_Less_order, of "make_item i s"]
      by (auto simp: merge_push_def dest: arg_cong [where f = set_mset])
    ultimately have "set (merge_push i s h) \<subseteq> insert (make_item i s) (set (mg_heap st))" by fast
    moreover have "\<forall>y\<in>insert (make_item i s) (set (mg_heap st)). mi_idx y < length ess"
      using idx i by (simp add: make_item_def)
    ultimately show ?thesis by (meson subsetD)
  qed
  ultimately have "merge_rel ess ?ns ?st" using heap len by (simp add: merge_rel_def)
  moreover have "rests ess ?ns = (case rests ess ns ! i of [] \<Rightarrow> rests ess ns | y # ys \<Rightarrow> (rests ess ns)[i := ys])"
  proof (rule nth_equalityI)
    show l: "length (rests ess ?ns) = length (case rests ess ns ! i of [] \<Rightarrow> rests ess ns | y # ys \<Rightarrow> (rests ess ns)[i := ys])"
      by (simp add: rests_def split: list.split)
    fix j assume "j < length (rests ess ?ns)"
    then have j: "j < length ess" by (simp add: rests_def)
    have "rests ess ?ns ! j = (if j = i then tl (rests ess ns ! i) else rests ess ns ! j)"
      using j i len by (simp add: rests_def tl_drop drop_Suc map_tl [symmetric])
    then show "rests ess ?ns ! j = (case rests ess ns ! i of [] \<Rightarrow> rests ess ns | y # ys \<Rightarrow> (rests ess ns)[i := ys]) ! j"
      using j i by (cases "rests ess ns ! i") (auto simp: nth_list_update rests_def)
  qed
  ultimately show ?thesis using adv push i by auto
qed

section \<open>The loop\<close>

lemma merge_emit_frame:
  "merge_emit o' x (st\<lparr>mg_heap := h, mg_iters := its\<rparr>) =
    (fst (merge_emit o' x st), (snd (merge_emit o' x st))\<lparr>mg_heap := h, mg_iters := its\<rparr>)"
  by (simp add: merge_emit_def Let_def split: prod.split)

lemma merge_emits_frame:
  "merge_emits o' xs (st\<lparr>mg_heap := h, mg_iters := its\<rparr>) =
    (fst (merge_emits o' xs st), (snd (merge_emits o' xs st))\<lparr>mg_heap := h, mg_iters := its\<rparr>)"
proof (induction xs arbitrary: st)
  case (Cons x xs)
  show ?case
  proof (cases "merge_emit o' x st")
    case (Pair r st1)
    then show ?thesis
      using Cons.IH [of st1] by (cases r) (simp_all add: merge_emit_frame [where st = st])
  qed
qed simp

lemma merge_emit_keeps:
  "merge_emit o' x st = (r, st') \<Longrightarrow> mg_heap st' = mg_heap st \<and> mg_iters st' = mg_iters st"
  by (auto simp: merge_emit_def Let_def split: if_splits prod.splits)

abbreviation merge_order :: "nat \<Rightarrow> mergeItem list \<Rightarrow> mergeItem list list \<Rightarrow> mergeItem list" where
  "merge_order \<equiv> kmerge (heap_Push mergeHeap_Less) (heap_Pop mergeHeap_Less) mi_idx"

lemma merge_loop_order:
  assumes "merge_rel ess ns st" and "n = length (mg_heap st) + length (concat (rests ess ns))"
    and "merge_emits o' (merge_order n (mg_heap st) (rests ess ns)) st = (None, st')"
  shows "\<exists>its. merge_loop o' st = Some (None, st'\<lparr>mg_heap := [], mg_iters := its\<rparr>)"
  using assms
proof (induction n arbitrary: ns st st')
  case 0
  then have "mg_heap st = []" "st' = st" by auto
  moreover have "st = st\<lparr>mg_heap := mg_heap st, mg_iters := mg_iters st\<rparr>" by simp
  ultimately have "merge_loop o' st = Some (None, st'\<lparr>mg_heap := [], mg_iters := mg_iters st\<rparr>)"
    by (subst merge_loop.simps) simp
  then show ?case by blast
next
  case (Suc n)
  show ?case
  proof (cases "mg_heap st = []")
    case True
    have "ns ! i < length (ess ! i) \<Longrightarrow> i < length ess \<Longrightarrow> False" for i
      using Suc.prems(1) True by (auto simp: merge_rel_def)
    then have "length (ess ! i) \<le> ns ! i" if "i < length ess" for i using that not_less by blast
    then have "concat (rests ess ns) = []" by (auto simp: rests_def intro: le_SucI)
    with True Suc.prems(2) show ?thesis by simp
  next
    case False
    obtain x h where pop: "heap_Pop mergeHeap_Less (mg_heap st) = (x, h)" by fastforce
    let ?ns = "ns[mi_idx x := ns ! mi_idx x + 1]"
    obtain st1 where 1: "merge_advance st = Inr (x, st1)" "merge_rel ess ?ns st1"
      "st1 = st\<lparr>mg_heap := mg_heap st1, mg_iters := mg_iters st1\<rparr>"
      "mg_heap st1 = (case rests ess ns ! mi_idx x of [] \<Rightarrow> h | y # ys \<Rightarrow> heap_Push mergeHeap_Less y h)"
      "rests ess ?ns = (case rests ess ns ! mi_idx x of [] \<Rightarrow> rests ess ns | y # ys \<Rightarrow> (rests ess ns)[mi_idx x := ys])"
      "mi_idx x < length ess"
      using merge_advance_rel [OF Suc.prems(1) False pop] by blast
    have k: "merge_order (Suc n) (mg_heap st) (rests ess ns) = x # merge_order n (mg_heap st1) (rests ess ?ns)"
      unfolding kmerge.simps pop prod.case 1(4,5) by (simp split: list.split)
    have hp: "is_heap mi_order (mg_heap st)" using Suc.prems(1) by (simp add: merge_rel_def)
    note P = heap_Pop_heap [OF hp False, of x h, folded mergeHeap_Less_order, OF pop]
    have "size (mset (mg_heap st)) = Suc (size (mset h))" unfolding P(2) by simp
    then have sz: "length (mg_heap st) = Suc (length h)" by simp
    have n: "n = length (mg_heap st1) + length (concat (rests ess ?ns))"
    proof (cases "rests ess ns ! mi_idx x")
      case Nil
      then show ?thesis using Suc.prems(2) sz unfolding 1(4,5) by simp
    next
      case (Cons y ys)
      have il: "mi_idx x < length (rests ess ns)" using 1(6) by (simp add: rests_def)
      have "size (mset (concat (rests ess ns))) = Suc (size (mset (concat ((rests ess ns)[mi_idx x := ys]))))"
        unfolding mset_concat_update [OF il Cons] by simp
      moreover have "size (mset (heap_Push mergeHeap_Less y h)) = Suc (size (mset h))"
        unfolding heap_Push_heap(2) [OF P(1), folded mergeHeap_Less_order] by simp
      ultimately show ?thesis using Suc.prems(2) sz Cons unfolding 1(4,5) by (simp del: mset_concat)
    qed
    obtain st2 where 2: "merge_emit o' x st = (None, st2)"
      "merge_emits o' (merge_order n (mg_heap st1) (rests ess ?ns)) st2 = (None, st')"
      using Suc.prems(3) unfolding k by (auto split: prod.splits option.splits)
    let ?st2 = "st2\<lparr>mg_heap := mg_heap st1, mg_iters := mg_iters st1\<rparr>"
    have e: "merge_emit o' x st1 = (None, ?st2)"
      using merge_emit_frame [where st = st and h = "mg_heap st1" and its = "mg_iters st1"] 2(1) 1(3) by simp
    have rel: "merge_rel ess ?ns ?st2" using 1(2) by (simp add: merge_rel_def)
    have es: "merge_emits o' (merge_order n (mg_heap ?st2) (rests ess ?ns)) ?st2 =
        (None, st'\<lparr>mg_heap := mg_heap st1, mg_iters := mg_iters st1\<rparr>)"
      using merge_emits_frame [where st = st2 and h = "mg_heap st1" and its = "mg_iters st1"] 2(2) by simp
    have n2: "n = length (mg_heap ?st2) + length (concat (rests ess ?ns))" using n by simp
    from Suc.IH [OF rel n2 es] obtain its where
      "merge_loop o' ?st2 = Some (None, st'\<lparr>mg_heap := [], mg_iters := its\<rparr>)" by auto
    with False 1(1) e have "merge_loop o' st = Some (None, st'\<lparr>mg_heap := [], mg_iters := its\<rparr>)"
      by (subst merge_loop.simps) simp
    then show ?thesis by blast
  qed
qed

section \<open>The start\<close>

lemma merge_rel_snoc:
  assumes "merge_rel ess (replicate (length ess) 0) st" and "table_cursor_at ri es 0 s"
  shows "merge_rel (ess @ [es]) (replicate (length (ess @ [es])) 0)
    (st\<lparr>mg_heap := merge_push (length ess) s (mg_heap st), mg_iters := mg_iters st @ [s]\<rparr>)"
proof -
  let ?k = "length ess" and ?h = "mg_heap st"
  have R: "length (mg_iters st) = ?k" "is_heap mi_order ?h" "\<forall>x\<in>set ?h. mi_idx x < ?k"
    and at: "\<And>i. i < ?k \<Longrightarrow> \<exists>ri. table_cursor_at ri (ess ! i) 0 (mg_iters st ! i)"
    and fl: "\<And>i. i < ?k \<Longrightarrow> filter_mset (\<lambda>x. mi_idx x = i) (mset ?h) =
        (if 0 < length (ess ! i) then {#entry_item i (ess ! i ! 0)#} else {#})"
    using assms(1) by (auto simp: merge_rel_def)
  note push = heap_Push_heap [OF R(2), folded mergeHeap_Less_order]
  have ms: "mset (merge_push ?k s ?h) = (if es = [] then mset ?h else add_mset (entry_item ?k (es ! 0)) (mset ?h))"
    using ti.valid_at [OF assms(2)] ti.entry_at [OF assms(2)] push(2)
    by (auto simp: merge_push_def make_item_entry)
  have new: "filter_mset (\<lambda>x. mi_idx x = ?k) (mset ?h) = {#}"
  proof -
    have "filter (\<lambda>x. mi_idx x = ?k) ?h = []" using R(3) by (auto simp: filter_empty_conv)
    then have "mset (filter (\<lambda>x. mi_idx x = ?k) ?h) = {#}" by simp
    then show ?thesis by simp
  qed
  have "(\<exists>ri. table_cursor_at ri ((ess @ [es]) ! i) 0 ((mg_iters st @ [s]) ! i)) \<and>
      filter_mset (\<lambda>x. mi_idx x = i) (mset (merge_push ?k s ?h)) =
        (if 0 < length ((ess @ [es]) ! i) then {#entry_item i ((ess @ [es]) ! i ! 0)#} else {#})"
    if "i < length (ess @ [es])" for i
  proof (cases "i = ?k")
    case True
    with assms(2) R(1) ms new show ?thesis by (auto simp: nth_append)
  next
    case False
    with that have i: "i < ?k" by simp
    with at [OF i] fl [OF i] R(1) ms show ?thesis by (auto simp: nth_append)
  qed
  moreover have "\<forall>x\<in>set (merge_push ?k s ?h). mi_idx x < length (ess @ [es])"
  proof -
    have "set_mset (mset (merge_push ?k s ?h)) \<subseteq> insert (entry_item ?k (es ! 0)) (set ?h)" unfolding ms by auto
    with R(3) show ?thesis by (auto simp: less_Suc_eq)
  qed
  moreover have "is_heap mi_order (merge_push ?k s ?h)" using push(1) R(2) by (simp add: merge_push_def)
  ultimately show ?thesis using R(1) by (simp add: merge_rel_def nth_append del: replicate.simps)
qed

lemma merge_init_rel:
  assumes "list_all2 reader_of es2 rs" and "merge_rel ess (replicate (length ess) 0) st"
  shows "\<exists>h its. merge_init (length ess) rs (mg_heap st) (mg_iters st) = Inr (h, its)
    \<and> merge_rel (ess @ map (map stored) es2) (replicate (length ess + length es2) 0) (st\<lparr>mg_heap := h, mg_iters := its\<rparr>)"
  using assms
proof (induction es2 rs arbitrary: ess st rule: list_all2_induct)
  case Nil
  then show ?case by auto
next
  case (Cons es es2 r rs)
  from NewIterator_of [OF Cons(1)] obtain it r' ri where
    n: "Reader_NewIterator r = (Inr it, r')" "table_cursor_at ri (map stored es) 0 (it, r')" by blast
  let ?st = "st\<lparr>mg_heap := merge_push (length ess) (it, r') (mg_heap st), mg_iters := mg_iters st @ [(it, r')]\<rparr>"
  from Cons.IH [OF merge_rel_snoc [OF Cons.prems n(2)]] n(1) show ?case by auto
qed

text \<open>Every entry is in the heap or still to come.\<close>

lemma mset_by_index: "\<forall>x\<in>#M. f x < k \<Longrightarrow> M = (\<Sum>i<k. filter_mset (\<lambda>x. f x = i) M)" for f :: "'a \<Rightarrow> nat"
proof (rule multiset_eqI)
  fix x assume M: "\<forall>x\<in>#M. f x < k"
  have "count (\<Sum>i<k. filter_mset (\<lambda>x. f x = i) M) x = (\<Sum>i<k. if i = f x then count M x else 0)"
    unfolding count_sum by (intro sum.cong) auto
  also have "\<dots> = (if f x < k then count M x else 0)" by simp
  also have "\<dots> = count M x" using M by (auto simp: count_eq_zero_iff)
  finally show "count M x = count (\<Sum>i<k. filter_mset (\<lambda>x. f x = i) M) x" by simp
qed

lemma mset_concat_upt: "mset (concat (map g [0..<k])) = (\<Sum>i<k. mset (g i))"
  by (induction k) auto

lemma merge_rel_items:
  assumes "merge_rel ess (replicate (length ess) 0) st"
  shows "mset (mg_heap st) + mset (concat (rests ess (replicate (length ess) 0))) = mset (all_items ess)"
proof -
  let ?ns = "replicate (length ess) 0" and ?k = "length ess"
  have "mset (mg_heap st) = (\<Sum>i<?k. filter_mset (\<lambda>x. mi_idx x = i) (mset (mg_heap st)))"
    using assms by (intro mset_by_index) (simp add: merge_rel_def)
  also have "\<dots> = (\<Sum>i<?k. if ess ! i = [] then {#} else {#entry_item i (ess ! i ! 0)#})"
    using assms by (intro sum.cong) (auto simp: merge_rel_def)
  finally have h: "mset (mg_heap st) = (\<Sum>i<?k. if ess ! i = [] then {#} else {#entry_item i (ess ! i ! 0)#})" .
  have r: "mset (concat (rests ess ?ns)) = (\<Sum>i<?k. mset (map (entry_item i) (drop 1 (ess ! i))))"
    unfolding rests_def mset_concat_upt by (intro sum.cong) auto
  have "(if es = [] then {#} else {#entry_item i (es ! 0)#}) + mset (map (entry_item i) (drop 1 es)) =
      mset (map (entry_item i) es)" for i es by (cases es) auto
  then show ?thesis unfolding h r all_items_def mset_concat_upt sum.distrib [symmetric] by simp
qed

lemma keys_sorted_drop: "keys_sorted es \<Longrightarrow> keys_sorted (drop n es)"
  by (metis append_take_drop_id keys_sorted_append)

lemma sorted_items: "keys_sorted es \<Longrightarrow> sorted (map mi_order (map (entry_item i) es))"
  by (induction es) (auto simp: keys_sorted_def mi_order_entry le_less MergeKey_less)

lemma merge_rel_feeds:
  assumes "merge_rel ess (replicate (length ess) 0) st" and "\<forall>es\<in>set ess. keys_sorted es"
  shows "mq.feeds mi_idx (mg_heap st) (rests ess (replicate (length ess) 0))"
proof -
  let ?ns = "replicate (length ess) 0" and ?h = "mg_heap st"
  have R: "is_heap mi_order ?h" "\<forall>x\<in>set ?h. mi_idx x < length ess"
    and fl: "\<And>i. i < length ess \<Longrightarrow> filter_mset (\<lambda>x. mi_idx x = i) (mset ?h) =
        (if 0 < length (ess ! i) then {#entry_item i (ess ! i ! 0)#} else {#})"
    using assms(1) by (auto simp: merge_rel_def)
  have "sorted (map mi_order (rests ess ?ns ! i)) \<and> (\<forall>y\<in>set (rests ess ?ns ! i). mi_idx y = i) \<and>
      (rests ess ?ns ! i \<noteq> [] \<longrightarrow> (\<exists>x\<in>#mset ?h. mi_idx x = i \<and> mi_order x \<le> mi_order (hd (rests ess ?ns ! i))))"
    if "i < length (rests ess ?ns)" for i
  proof -
    have i: "i < length ess" using that by (simp add: rests_def)
    then have r: "rests ess ?ns ! i = map (entry_item i) (drop 1 (ess ! i))" by (simp add: rests_def)
    have srt: "keys_sorted (ess ! i)" using assms(2) i by simp
    show ?thesis
    proof (cases "ess ! i")
      case Nil
      then show ?thesis unfolding r by simp
    next
      case (Cons e es)
      then have "entry_item i e \<in># filter_mset (\<lambda>x. mi_idx x = i) (mset ?h)" using fl [OF i] by simp
      then have eh: "entry_item i e \<in># mset ?h" by simp
      have s: "sorted (map mi_order (map (entry_item i) (e # es)))" using sorted_items [of "e # es" i] srt Cons by simp
      then have "mi_order (entry_item i e) \<le> mi_order (hd (map (entry_item i) es))" if "es \<noteq> []"
        using that by (cases es) auto
      with eh s show ?thesis unfolding r Cons by (auto intro!: bexI [of _ "entry_item i e"])
    qed
  qed
  moreover have "length (rests ess ?ns) = length ess" by (simp add: rests_def)
  ultimately show ?thesis using R by (simp add: mq.feeds_def)
qed

section \<open>The whole merge\<close>

lemma mset_dedup: "mset (dedup lk xs) \<subseteq># mset xs"
proof (induction xs arbitrary: lk)
  case (Cons x xs)
  from Cons [of lk] have "mset (dedup lk xs) \<subseteq># add_mset x (mset xs)"
    by (auto simp: mset_subset_eq_exists_conv intro: add_mset_add_single)
  with Cons [of "mi_key x"] show ?case by simp
qed simp

lemma total_size_mset: "total_size es = sum_mset (image_mset esize (mset es))"
  by (simp add: total_size_def sum_mset_sum_list [symmetric] mset_map [symmetric] del: mset_map)

lemma total_size_mono: "mset es \<subseteq># mset es' \<Longrightarrow> total_size es \<le> total_size es'"
  unfolding total_size_mset by (auto simp: subset_mset.le_iff_add)

lemma total_size_all_items: "total_size (map item_entry (all_items ess)) = sum_list (map total_size ess)"
proof -
  have "map item_entry (all_items ess) = concat (map (\<lambda>i. ess ! i) [0..<length ess])"
    by (simp add: all_items_def map_concat comp_def)
  then show ?thesis by (simp add: map_nth total_size_concat)
qed

lemma merge_out_size:
  assumes "mset xs = mset (all_items ess)"
  shows "total_size (merge_out o' None xs) \<le> sum_list (map total_size ess)"
proof -
  have "mset (filter P (dedup None xs)) \<subseteq># mset xs" for P
    using mset_dedup [of None xs] by (metis mset_filter multiset_filter_subset subset_mset.order_trans)
  then have "mset (merge_out o' None xs) \<subseteq># mset (map item_entry xs)"
    unfolding merge_out_def by (simp only: mset_map image_mset_subseteq_mono)
  then have "total_size (merge_out o' None xs) \<le> total_size (map item_entry xs)" by (rule total_size_mono)
  also have "\<dots> = total_size (map item_entry (all_items ess))" unfolding total_size_mset by (simp add: assms)
  finally show ?thesis unfolding total_size_all_items .
qed

definition holds_table :: "(string \<Rightarrow> bytes option) \<Rightarrow> string \<Rightarrow> sst_Entry list \<Rightarrow> bool" where
  "holds_table c path es = (\<exists>b. c path = Some b \<and> is_table b es)"

lemma dk_sst_Open_table:
  assumes "dk_reliable d" and "holds_table (dk_content d) path es"
  shows "\<exists>r d'. dk_sst_Open path d = (Inr r, d') \<and> reader_of es r \<and> Reader_Path r = path \<and> dk_reliable d'
    \<and> dk_content d' = dk_content d"
proof -
  from assms(2) obtain b where b: "dk_content d path = Some b" "is_table b es" by (auto simp: holds_table_def)
  obtain f d' where f: "dk_Open path d = (Inr f, d')" "dk_reliable d'" "f_reliable f" "f_data f = b"
    "dk_content d' = dk_content d" using dk_Open_reliable [OF assms(1) b(1)] by blast
  from Open_is_table [of f es path] b(2) f(3,4) obtain r f' where "sst_Open path f = (Inr r, f')" "reader_of es r"
    "Reader_Path r = path" by auto
  with f show ?thesis by (simp add: dk_sst_Open_def)
qed

lemma merge_open_tables:
  assumes "list_all2 (\<lambda>inp es. holds_table (dk_content d) (in_Path inp) es) inputs ess" and "dk_reliable d"
  shows "\<exists>rs d'. merge_open inputs acc d = (Inr (acc @ rs), d') \<and> list_all2 reader_of ess rs \<and> dk_reliable d'
    \<and> dk_content d' = dk_content d"
proof -
  { fix c
    assume "list_all2 (\<lambda>inp es. holds_table c (in_Path inp) es) inputs ess"
    then have "dk_content d = c \<Longrightarrow> dk_reliable d \<Longrightarrow>
      \<exists>rs d'. merge_open inputs acc d = (Inr (acc @ rs), d') \<and> list_all2 reader_of ess rs \<and> dk_reliable d' \<and> dk_content d' = c"
    proof (induction inputs ess arbitrary: acc d rule: list_all2_induct)
      case (Cons inp ins es ess)
      obtain r d1 where 1: "dk_sst_Open (in_Path inp) d = (Inr r, d1)" "reader_of es r" "dk_reliable d1"
        "dk_content d1 = c" using dk_sst_Open_table [OF Cons.prems(2)] Cons.hyps(1) Cons.prems(1) by blast
      from Cons.IH [OF 1(4,3), of "acc @ [r]"] obtain rs d' where
        "merge_open ins (acc @ [r]) d1 = (Inr (acc @ r # rs), d')" "list_all2 reader_of ess rs" "dk_reliable d'"
        "dk_content d' = c" by auto
      with 1(1,2) show ?case by (intro exI [of _ "r # rs"]) auto
    qed auto }
  from this [OF assms(1) refl assms(2)] show ?thesis .
qed

text \<open>The entries of the merged table.\<close>

definition merged :: "CompactOptions \<Rightarrow> sst_Entry list list \<Rightarrow> sst_Entry list \<Rightarrow> bool" where
  "merged o' ess out =
     (keys_sorted out \<and> total_size out \<le> sum_list (map total_size ess) \<and> (\<forall>e\<in>set out. stored e = e) \<and>
      (\<forall>k. find_key k out = kept o' (newest (map (\<lambda>es. find_key k (map stored es)) ess))))"

lemma merge_loop_tables:
  assumes "list_all2 reader_of ess rs"
  shows "\<exists>h its out. merge_init 0 rs [] [] = Inr (h, its) \<and> merged o' ess out \<and>
    (\<forall>w0 w'. WriteFile_loop out w0 = (None, w') \<longrightarrow>
      (\<exists>st'. merge_loop o' \<lparr>mg_heap = h, mg_iters = its, mg_w = w0, mg_kept = 0, mg_dropped = 0, mg_lastKey = None\<rparr> =
          Some (None, st') \<and> mg_w st' = w' \<and> mg_kept st' = length (filter se_Deleted out) \<and>
          mg_dropped st' + length out = sum_list (map length ess)))"
proof -
  let ?ess = "map (map stored) ess" and ?st0 = "\<lambda>h its w. \<lparr>mg_heap = h, mg_iters = its, mg_w = w, mg_kept = 0, mg_dropped = 0, mg_lastKey = None\<rparr>"
  have "merge_rel [] (replicate (length ([] :: sst_Entry list list)) 0) (?st0 [] [] undefined)"
    by (simp add: merge_rel_def is_heap_Nil)
  from merge_init_rel [OF assms this] obtain h its where init: "merge_init 0 rs [] [] = Inr (h, its)"
    and "merge_rel ?ess (replicate (length ?ess) 0) (?st0 h its undefined)" by auto
  then have rel: "merge_rel ?ess (replicate (length ?ess) 0) (?st0 h its w)" for w by (simp add: merge_rel_def)
  have srt: "\<forall>es\<in>set ?ess. keys_sorted es"
    using assms reader_of_sorted by (fastforce simp: list_all2_conv_all_nth in_set_conv_nth)
  let ?rests = "rests ?ess (replicate (length ?ess) 0)"
  define n where "n = length h + length (concat ?rests)"
  define L where "L = merge_order n h ?rests"
  define out where "out = merge_out o' None L"
  have feeds: "mq.feeds mi_idx h ?rests" using merge_rel_feeds [OF rel srt, of undefined] by simp
  have "size (mset h) + length (concat ?rests) = n" by (simp add: n_def del: mset_concat)
  from mq.kmerge_sorted [OF feeds this]
  have L: "sorted (map mi_order L)" "mset L = mset h + mset (concat ?rests)" by (simp_all add: L_def del: mset_concat)
  have items: "mset L = mset (all_items ?ess)" unfolding L(2) using merge_rel_items [OF rel [of undefined]] by simp
  then have "set L = set (all_items ?ess)" by (rule mset_eq_setD)
  then have keys: "\<forall>x\<in>set L. mi_key x \<noteq> None" "\<forall>x\<in>set L. stored (item_entry x) = item_entry x"
    by (auto simp: set_all_items)
  have m: "merged o' ess out"
    unfolding merged_def
  proof (intro conjI allI)
    show "keys_sorted out" unfolding out_def by (rule merge_out_sorted(1) [OF L(1) keys(1)])
    show "total_size out \<le> sum_list (map total_size ess)"
      using merge_out_size [OF items, of o'] by (simp add: out_def comp_def)
    show "\<forall>e\<in>set out. stored e = e"
      using keys(2) dedup_subset [of None L] by (auto simp: out_def merge_out_def)
    show "find_key k out = kept o' (newest (map (\<lambda>es. find_key k (map stored es)) ess))" for k
      using merge_out_newest [OF L(1) items srt keys(1), of k o'] by (simp add: out_def comp_def)
  qed
  have len: "length L = sum_list (map length ess)"
  proof -
    have "length L = length (all_items ?ess)" by (rule mset_eq_length [OF items])
    also have "\<dots> = sum_list (map length ?ess)"
    proof -
      have "map length ?ess = map (\<lambda>i. length (?ess ! i)) [0..<length ?ess]" by (rule nth_equalityI) simp_all
      then show ?thesis unfolding all_items_def length_concat map_map comp_def length_map by (simp only:)
    qed
    finally show ?thesis by (simp add: comp_def)
  qed
  have fin: "\<exists>st'. merge_loop o' (?st0 h its w0) = Some (None, st') \<and> mg_w st' = w' \<and>
        mg_kept st' = length (filter se_Deleted out) \<and> mg_dropped st' + length out = sum_list (map length ess)"
    if w: "WriteFile_loop out w0 = (None, w')" for w0 w'
  proof -
    let ?s = "?st0 h its w0"
    have "WriteFile_loop (merge_out o' (mg_lastKey ?s) L) (mg_w ?s) = (None, w')" using w by (simp add: out_def)
    from merge_emits_out [OF this] obtain st' where st': "merge_emits o' L ?s = (None, st')" "mg_w st' = w'"
      "mg_kept st' = length (filter se_Deleted out)" "mg_dropped st' + length out = length L"
      by (auto simp: out_def)
    have "n = length (mg_heap ?s) + length (concat ?rests)" by (simp add: n_def)
    moreover have "merge_emits o' (merge_order n (mg_heap ?s) ?rests) ?s = (None, st')" using st'(1) by (simp add: L_def)
    ultimately obtain its' where "merge_loop o' ?s = Some (None, st'\<lparr>mg_heap := [], mg_iters := its'\<rparr>)"
      using merge_loop_order [OF rel] by blast
    with st' len show ?thesis by auto
  qed
  with init m show ?thesis by (intro exI [of _ h] exI [of _ its] exI [of _ out]) simp
qed

lemma WriteFile_is_loop:
  assumes "sst_WriteFile sz path es opts f = (Inr mt, Some f')"
  shows "\<exists>w w'. WriteFile_loop es (sst_Create path opts f) = (None, w) \<and> Writer_Finish sz w = (Inr mt, w') \<and> w_f w' = f'"
  using assms by (auto simp: sst_WriteFile_def split: prod.splits option.splits)

lemma merge_writer_default: "default_fp (Some (merge_writer_opts o'))"
  by (simp add: default_fp_def WriterOptions_normalize_def merge_writer_opts_def Let_def)

definition merge_opts :: "CompactOptions option \<Rightarrow> CompactOptions" where
  "merge_opts opts = (case opts of None \<Rightarrow> zero_CompactOptions | Some o' \<Rightarrow> o')"

lemma MergeFiles_tables:
  assumes "dk_reliable d" and "inputs \<noteq> []"
    and "list_all2 (\<lambda>inp es. holds_table (dk_content d) (in_Path inp) es) inputs ess"
    and "sizing_ok sz" and "sum_list (map total_size ess) < 2 ^ 31"
  shows "\<exists>out b d' n. MergeFiles sz inputs outPath opts d =
      Some (Inr \<lparr>res_OutputPath = outPath, res_Meta = table_meta outPath out (length b),
        res_Removed = map in_Path inputs, res_KeptTombstones = length (filter se_Deleted out),
        res_DroppedObsolete = n\<rparr>, d')
    \<and> n + length out = sum_list (map length ess) \<and> merged (merge_opts opts) ess out \<and> is_table b out
    \<and> dk_content d' = (dk_content d)(outPath \<mapsto> b) \<and> dk_reliable d'"
proof -
  let ?o = "merge_opts opts"
  obtain rs d1 where 1: "merge_open inputs [] d = (Inr rs, d1)" "list_all2 reader_of ess rs" "dk_reliable d1"
    "dk_content d1 = dk_content d" using merge_open_tables [OF assms(3,1), of "[]"] by auto
  obtain h its out where 2: "merge_init 0 rs [] [] = Inr (h, its)" "merged ?o ess out"
    and loop: "\<And>w0 w'. WriteFile_loop out w0 = (None, w') \<Longrightarrow>
      \<exists>st'. merge_loop ?o \<lparr>mg_heap = h, mg_iters = its, mg_w = w0, mg_kept = 0, mg_dropped = 0, mg_lastKey = None\<rparr> =
          Some (None, st') \<and> mg_w st' = w' \<and> mg_kept st' = length (filter se_Deleted out) \<and>
          mg_dropped st' + length out = sum_list (map length ess)"
    using merge_loop_tables [OF 1(2), of ?o] by blast
  obtain f d2 where 3: "dk_Create outPath d1 = (Inr f, d2)" "dk_reliable d2" "f_reliable f" "f_data f = []" "f_pos f = 0"
    "dk_content d2 = (dk_content d1)(outPath \<mapsto> [])" using dk_Create_reliable [OF 1(3)] by blast
  let ?wo = "Some (merge_writer_opts ?o)"
  have "\<forall>e\<in>set out. se_Key e \<noteq> None"
    using 2(2) stored_simps(2) by (metis merged_def option.distinct(1))
  then have ti: "table_input sz ?wo out"
    using 2(2) assms(4,5) by (intro table_input_default merge_writer_default) (auto simp: merged_def)
  have "fresh_file f" using 3 by (simp add: fresh_file_def)
  from WriteFile_is_table [OF this ti, of outPath] obtain f' where
    f': "sst_WriteFile sz outPath out ?wo f = (Inr (table_meta outPath out (length (f_data f'))), Some f')"
    "is_table (f_data f') out" by blast
  obtain w w' where w: "WriteFile_loop out (sst_Create outPath ?wo f) = (None, w)"
    "Writer_Finish sz w = (Inr (table_meta outPath out (length (f_data f'))), w')" "w_f w' = f'"
    using WriteFile_is_loop [OF f'(1)] by blast
  from loop [OF w(1)] obtain st' where st': "merge_loop ?o \<lparr>mg_heap = h, mg_iters = its,
      mg_w = sst_Create outPath ?wo f, mg_kept = 0, mg_dropped = 0, mg_lastKey = None\<rparr> = Some (None, st')"
    "mg_w st' = w" "mg_kept st' = length (filter se_Deleted out)"
    "mg_dropped st' + length out = sum_list (map length ess)" by blast
  have i: "heap_Init mergeHeap_Less [] = []" by (simp add: heap_Init_def)
  have "MergeFiles sz inputs outPath opts d = Some (merge_finish sz outPath inputs st' d2)"
    unfolding MergeFiles_def if_not_P [OF assms(2)] Let_def 1(1) prod.case sum.case i 2(1) 3(1)
    using st'(1) by (simp add: merge_opts_def)
  also have "merge_finish sz outPath inputs st' d2 =
      (Inr \<lparr>res_OutputPath = outPath, res_Meta = table_meta outPath out (length (f_data f')),
        res_Removed = map in_Path inputs, res_KeptTombstones = length (filter se_Deleted out),
        res_DroppedObsolete = mg_dropped st'\<rparr>, dk_save outPath f' d2)"
    by (simp add: merge_finish_def st'(2,3) w(2,3))
  finally have M: "MergeFiles sz inputs outPath opts d = Some (Inr \<lparr>res_OutputPath = outPath,
      res_Meta = table_meta outPath out (length (f_data f')), res_Removed = map in_Path inputs,
      res_KeptTombstones = length (filter se_Deleted out), res_DroppedObsolete = mg_dropped st'\<rparr>, dk_save outPath f' d2)" .
  have "dk_content (dk_save outPath f' d2) = (dk_content d)(outPath \<mapsto> f_data f')"
    using 3(6) 1(4) by (auto simp: fun_eq_iff)
  with M st'(4) 2(2) f'(2) 3(2) show ?thesis
    by (intro exI [of _ out] exI [of _ "f_data f'"] exI [of _ "dk_save outPath f' d2"] exI [of _ "mg_dropped st'"]) simp
qed

end
