(* ===== verification/Compact_Table.thy ===== *)
theory Compact_Table imports Compact_Correct begin

text \<open>
  The properties of \<^verbatim>\<open>internal/compact\<close>: what a merged table answers, what a read error
  does to a merge, and the choice of files.
\<close>

section \<open>Lookups through a reader\<close>

lemma Reader_Gets_of:
  "reader_of es r \<Longrightarrow> fst (Reader_Gets ks r) = map (\<lambda>k. Inr (table_lookup es k)) ks"
proof (induction ks arbitrary: r)
  case (Cons k ks)
  from Reader_Get_of [OF Cons.prems, of k] obtain r1 where
    "Reader_Get k r = (Inr (table_lookup es k), r1)" "reader_of es r1" by blast
  with Cons.IH show ?case by (cases "Reader_Gets ks r1") fastforce
qed simp

text \<open>An answer of a lookup, from the entry found.\<close>

definition found :: "sst_Entry option \<Rightarrow> sst_Entry \<times> bool" where
  "found c = (case c of None \<Rightarrow> (zero_sst_Entry, False) | Some e \<Rightarrow> (e, True))"

lemma table_lookup_found:
  assumes "\<forall>e\<in>set es. stored e = e"
  shows "table_lookup es k = found (find_key k es)"
proof (cases "find_key k es")
  case (Some e)
  then have "e \<in> set es" by (auto simp: find_key_def find_Some_iff)
  with Some assms show ?thesis by (simp add: table_lookup_def found_def find_key_def)
qed (simp add: table_lookup_def found_def find_key_def)

section \<open>The exchange sort\<close>

lemma pick_inner_min:
  assumes "i < j" and "i < length cp" and "\<forall>k. i < k \<and> k < j \<and> k < length cp \<longrightarrow> fr_Size (cp ! i) \<le> fr_Size (cp ! k)"
  shows "mset (pick_inner i j cp) = mset cp \<and> take i (pick_inner i j cp) = take i cp \<and>
    (\<forall>k. i < k \<and> k < length cp \<longrightarrow> fr_Size (pick_inner i j cp ! i) \<le> fr_Size (pick_inner i j cp ! k))"
  using assms
proof (induction i j cp rule: pick_inner.induct)
  case (1 i j cp)
  show ?case
  proof (cases "j < length cp")
    case False
    with "1.prems" show ?thesis by (subst (1 2 3 4) pick_inner.simps) simp
  next
    case True
    define cp' where "cp' = (if fr_Size (cp ! j) < fr_Size (cp ! i) then swap_at i j cp else cp)"
    have l: "length cp' = length cp" by (simp add: cp'_def)
    have m: "mset cp' = mset cp" using True "1.prems"(2) by (simp add: cp'_def)
    have t: "take i cp' = take i cp" using "1.prems"(1) by (simp add: cp'_def swap_at_def)
    have "fr_Size (cp' ! i) \<le> fr_Size (cp' ! k)" if "i < k" "k < j + 1" "k < length cp'" for k
      using "1.prems" True that by (cases "k = j") (auto simp: cp'_def swap_at_def nth_list_update dest: order.trans less_imp_le)
    then have "mset (pick_inner i (j + 1) cp') = mset cp' \<and> take i (pick_inner i (j + 1) cp') = take i cp' \<and>
        (\<forall>k. i < k \<and> k < length cp' \<longrightarrow> fr_Size (pick_inner i (j + 1) cp' ! i) \<le> fr_Size (pick_inner i (j + 1) cp' ! k))"
      using "1.IH" [OF True] "1.prems"(1,2) l unfolding cp'_def by simp
    moreover have "pick_inner i j cp = pick_inner i (j + 1) cp'"
      using True unfolding cp'_def by (subst pick_inner.simps) simp
    ultimately show ?thesis using l m t by simp
  qed
qed

lemma pick_outer_sorted:
  assumes "\<forall>a b. a < i \<and> a < b \<and> b < length cp \<longrightarrow> fr_Size (cp ! a) \<le> fr_Size (cp ! b)"
  shows "mset (pick_outer i cp) = mset cp \<and> sorted (map fr_Size (pick_outer i cp))"
  using assms
proof (induction i cp rule: pick_outer.induct)
  case (1 i cp)
  show ?case
  proof (cases "i < length cp")
    case False
    with "1.prems" show ?thesis by (subst (1 2) pick_outer.simps) (simp add: sorted_iff_nth_mono_less)
  next
    case True
    define r where "r = pick_inner i (i + 1) cp"
    have R: "mset r = mset cp" "take i r = take i cp"
      "\<And>k. i < k \<Longrightarrow> k < length cp \<Longrightarrow> fr_Size (r ! i) \<le> fr_Size (r ! k)"
      using pick_inner_min [of i "i + 1" cp] True by (auto simp: r_def)
    have "mset (take i r) + mset (drop i r) = mset (take i cp) + mset (drop i cp)"
      using R(1) by (simp only: mset_append [symmetric] append_take_drop_id)
    then have "mset (drop i r) = mset (drop i cp)" using R(2) by simp
    then have d: "set (drop i r) = set (drop i cp)" by (rule mset_eq_setD)
    have pre: "r ! a = cp ! a" if "a < i" for a using R(2) that by (metis nth_take)
    have "fr_Size (r ! a) \<le> fr_Size (r ! b)" if ab: "a < i + 1" "a < b" "b < length r" for a b
    proof (cases "a = i \<or> b < i")
      case True
      with ab R(3) [of b] 1(2) mset_eq_length [OF R(1)] show ?thesis by (auto simp: pre)
    next
      case False
      then have "r ! b = drop i r ! (b - i)" "b - i < length (drop i r)" using ab by auto
      then have "r ! b \<in> set (drop i cp)" unfolding d [symmetric] by (metis nth_mem)
      then obtain c where "c < length (drop i cp)" "drop i cp ! c = r ! b" by (auto simp: in_set_conv_nth)
      then have "i + c < length cp" "r ! b = cp ! (i + c)" using \<open>i < length cp\<close> by auto
      moreover have "a < i" using False ab by simp
      ultimately show ?thesis using 1(2) by (simp add: pre)
    qed
    then have "mset (pick_outer (i + 1) r) = mset r \<and> sorted (map fr_Size (pick_outer (i + 1) r))"
      using "1.IH" [OF True] unfolding r_def by blast
    moreover have "pick_outer i cp = pick_outer (i + 1) r" using True unfolding r_def by (subst pick_outer.simps) simp
    ultimately show ?thesis using R(1) by simp
  qed
qed

section \<open>Properties\<close>


text \<open>Two tables, the first with an older version of a key that the second deletes.\<close>

definition example_older :: "sst_Entry list" where
  "example_older =
     [\<lparr>se_Key = Some [1, 2], se_Value = Some [20], se_Seq = 3, se_Deleted = False\<rparr>,
      \<lparr>se_Key = Some [3], se_Value = Some [30], se_Seq = 4, se_Deleted = False\<rparr>]"

definition example_table :: "sst_Entry list \<Rightarrow> bytes" where
  "example_table es =
     (case sst_WriteFile example_sizing ''t'' es None (os_file_of []) of
        (_, Some f) \<Rightarrow> f_data f | (_, None) \<Rightarrow> [])"

lemma example_sizing_ok: "sizing_ok example_sizing"
  by (simp add: sizing_ok_def Filter_New_def example_sizing_def NumBits_def OptimalBits_def Let_def)

lemma example_tables:
  "is_table (example_table example_entries) example_entries" "is_table (example_table example_older) example_older"
proof -
  have "table_input example_sizing None example_older"
    by (simp_all add: table_input_def example_older_def keys_sorted_def skey_def total_size_def esize_def sval_def
      table_filter_def Filter_New_def example_sizing_def NumBits_def OptimalBits_def Let_def)
  from WriteFile_is_table [OF example_input(2) this, of "''t''"]
  show "is_table (example_table example_older) example_older" by (auto simp: example_table_def)
  from WriteFile_is_table [OF example_input(2,1), of "''t''"]
  show "is_table (example_table example_entries) example_entries" by (auto simp: example_table_def)
qed


text \<open>A merge does not look at its iterators' errors: an input whose first block cannot be read
  (its checksum does not match, say) is passed over as if it were empty, and with it every entry it
  holds; the caller is then told to remove the file.\<close>

theorem compact_read_error_unreported:
  assumes "r_index r \<noteq> []" and "fst (Reader_readBlock (hd (r_index r)) r) = Inl e" and "e \<noteq> Panic"
  shows "\<exists>it r'. TIterator_Err it = Some e \<and> merge_init i (r # rs) h iters = merge_init (i + 1) rs h (iters @ [(it, r')])"
proof -
  from assms(2) obtain r' where rb: "Reader_readBlock (r_index r ! 0) r = (Inl e, r')"
    using assms(1) by (cases "Reader_readBlock (hd (r_index r)) r") (auto simp: hd_conv_nth)
  let ?it = "\<lparr>ti_bi = 0, ti_blockIt = None, ti_err = Some e\<rparr>"
  have "0 < length (r_index r)" using assms(1) by simp
  then have "Reader_NewIterator r = (Inr ?it, r')"
    using rb assms(3) unfolding Reader_NewIterator_def TIterator_Next_def
    by (subst TIterator_blocks.simps) (cases e; simp)
  then show ?thesis
    by (intro exI [of _ ?it] exI [of _ r'])
      (simp add: merge_push_def ti_valid_def TIterator_Valid_def TIterator_Err_def)
qed

theorem compact_read_error_unreported_witness:
  "\<exists>it r'. TIterator_Err it = Some OsError \<and>
    merge_init 0 [table_reader 16 [example_entries] (Filter_New example_sizing 2 1) ''t'' 0
      (os_file_of (block_bytes 16 example_entries)\<lparr>f_fault := \<lambda>_. Some 0\<rparr>)] [] [] = Inr ([], [(it, r')])"
proof -
  let ?r = "table_reader 16 [example_entries] (Filter_New example_sizing 2 1) ''t'' 0
      (os_file_of (block_bytes 16 example_entries)\<lparr>f_fault := \<lambda>_. Some 0\<rparr>)"
  have ix: "r_index ?r = index_of 16 0 [example_entries]" "r_f ?r = Some (os_file_of (block_bytes 16 example_entries)\<lparr>f_fault := \<lambda>_. Some 0\<rparr>)"
    by (simp_all add: table_reader_def)
  have "length (block_bytes 16 example_entries) \<le> 2 * total_size example_entries"
    by (rule length_block_bytes) (simp add: example_entries_def)
  then have "length (block_bytes 16 example_entries) < 2 ^ 32"
    by (simp add: example_entries_def total_size_def esize_def skey_def sval_def)
  moreover have "length (block_bytes 16 example_entries) \<noteq> 0" by (simp add: block_bytes_def del: le_put.simps)
  ultimately have l: "length (block_bytes 16 example_entries) < 2 ^ 32" "block_bytes 16 example_entries \<noteq> []" by simp_all
  have u: "unat (of_nat (length (block_bytes 16 example_entries)) :: u64) = length (block_bytes 16 example_entries)"
    using l(1) by (simp add: int_len_u64)
  have "fst (Reader_readBlock (hd (r_index ?r)) ?r) = Inl OsError"
    using l u by (simp add: Reader_readBlock_def ix make_ok_def f_ReadAt_def int_of_u64_def f_readAt_def f_next_def)
  moreover have "r_index ?r \<noteq> []" unfolding ix by simp
  ultimately show ?thesis using compact_read_error_unreported [of ?r OsError 0 "[]" "[]" "[]"] by simp
qed

text \<open>\<^verbatim>\<open>PickBySize\<close> returns as many of the files as asked for, or all, in the order of
  their sizes, and none of those it leaves is smaller.\<close>

theorem compact_PickBySize:
  "\<exists>rest. mset (PickBySize files n @ rest) = mset files \<and> sorted (map fr_Size (PickBySize files n @ rest))
    \<and> length (PickBySize files n) = min (nat n) (length files)"
proof (cases "n \<le> 0 \<or> files = []")
  case True
  have "mset (pick_outer 0 files) = mset files \<and> sorted (map fr_Size (pick_outer 0 files))"
    by (rule pick_outer_sorted) simp
  with True show ?thesis by (intro exI [of _ "pick_outer 0 files"]) (auto simp: PickBySize_def)
next
  case False
  have P: "mset (pick_outer 0 files) = mset files" "sorted (map fr_Size (pick_outer 0 files))"
    using pick_outer_sorted [of 0 files] by auto
  let ?n = "min (nat n) (length files)"
  have l: "length (pick_outer 0 files) = length files" using mset_eq_length [OF P(1)] .
  then have "PickBySize files n = take ?n (pick_outer 0 files)"
    using False by (auto simp: PickBySize_def Let_def min_def)
  then show ?thesis
    by (intro exI [of _ "drop ?n (pick_outer 0 files)"]) (simp only: append_take_drop_id P l length_take, simp)
qed

end
