(* ===== verification/Format.thy ===== *)
theory Format imports Prelude begin

text \<open>
  What the program uses of \<^verbatim>\<open>fmt.Sprintf\<close>: strings as bytes, decimal numbers and their
  padding with zeros (\<^verbatim>\<open>%d\<close> and \<^verbatim>\<open>%06d\<close>); the decimal printer is injective.
\<close>

definition string_bytes :: "string \<Rightarrow> bytes" where
  "string_bytes s = map of_char s"

definition bytes_string :: "bytes \<Rightarrow> string" where
  "bytes_string b = map (\<lambda>w. char_of (unat w)) b"

lemma length_string_bytes [simp]: "length (string_bytes s) = length s"
  by (simp add: string_bytes_def)

lemma bytes_string_bytes [simp]: "bytes_string (string_bytes s) = s"
proof -
  have "char_of (unat (of_char c :: byte)) = c" for c
  proof -
    have "(of_char c :: byte) = of_nat (of_char c)" by (rule of_nat_of_char [symmetric])
    moreover have "(of_char c :: nat) < 256" by (rule nat_of_char_less_256)
    ultimately have "unat (of_char c :: byte) = of_char c"
      by (simp add: unsigned_of_nat take_bit_nat_eq_self del: of_nat_of_char)
    then show ?thesis by simp
  qed
  then show ?thesis by (simp add: bytes_string_def string_bytes_def comp_def)
qed

definition digit :: "nat \<Rightarrow> char" where
  "digit n = char_of (48 + n)"

fun show_nat :: "nat \<Rightarrow> string" where
  "show_nat n = (if n < 10 then [digit n] else show_nat (n div 10) @ [digit (n mod 10)])"

declare show_nat.simps [simp del]

definition show_int :: "int \<Rightarrow> string" where
  "show_int z = (if z < 0 then CHR ''-'' # show_nat (nat (- z)) else show_nat (nat z))"

definition pad0 :: "nat \<Rightarrow> string \<Rightarrow> string" where
  "pad0 w s = replicate (w - length s) (digit 0) @ s"

section \<open>Reading back\<close>

definition undigit :: "char \<Rightarrow> nat" where
  "undigit c = of_char c - 48"

lemma undigit_digit [simp]: "n < 10 \<Longrightarrow> undigit (digit n) = n"
  by (simp add: undigit_def digit_def)

definition read_nat :: "string \<Rightarrow> nat" where
  "read_nat s = foldl (\<lambda>a c. a * 10 + undigit c) 0 s"

lemma read_show_nat [simp]: "read_nat (show_nat n) = n"
proof (induction n rule: show_nat.induct)
  case (1 n)
  then show ?case by (subst show_nat.simps) (simp add: read_nat_def)
qed

lemma read_pad0 [simp]: "read_nat (pad0 w s) = read_nat s"
proof -
  have "foldl (\<lambda>a c. a * 10 + undigit c) 0 (replicate k (digit 0)) = 0" for k by (induction k) simp_all
  then show ?thesis by (simp add: read_nat_def pad0_def)
qed

lemma pad0_show_inj: "pad0 w (show_nat m) = pad0 w (show_nat n) \<longleftrightarrow> m = n"
  by (metis read_pad0 read_show_nat)

lemma digit_cases: "c \<in> set (show_nat n) \<Longrightarrow> \<exists>k<10. c = digit k"
proof (induction n rule: show_nat.induct)
  case (1 n)
  then show ?case by (subst (asm) (2) show_nat.simps) (auto split: if_splits intro: exI [of _ "n mod 10"])
qed

lemma length_show_nat: "n < 10 ^ Suc k \<Longrightarrow> length (show_nat n) \<le> Suc k"
proof (induction k arbitrary: n)
  case 0
  then show ?case by (subst show_nat.simps) simp
next
  case (Suc k)
  then have "n div 10 < 10 ^ Suc k" by (simp add: less_mult_imp_div_less)
  from Suc.IH [OF this] show ?case by (subst show_nat.simps) simp
qed

end
