(* ===== verification/Filelock.thy ===== *)
theory Filelock imports Disk Format begin

text \<open>
  \<^verbatim>\<open>internal/filelock\<close>: the lock file of a directory, created exclusively, retried until a
  deadline, taken over when it is old, and removed on release.
\<close>

section \<open>Data\<close>

definition defaultLockName :: string where "defaultLockName = ''LOCK''"

text \<open>Durations and times are in nanoseconds.\<close>

definition defaultStaleAge :: int where "defaultStaleAge = 24 * 3600 * 1000000000"

record Lock =
  lk_dir :: string
  lk_path :: string
  lk_f :: "os_file option"
  lk_held :: bool
  lk_pid :: int
  lk_hostname :: string

record LockOptions =
  lo_Name :: string
  lo_Timeout :: int
  lo_RetryInterval :: int
  lo_StaleAge :: int

definition LockOptions_normalize :: "LockOptions option \<Rightarrow> LockOptions" where
  "LockOptions_normalize o' =
     (let out = (case o' of
            None \<Rightarrow> \<lparr>lo_Name = [], lo_Timeout = 0, lo_RetryInterval = 0, lo_StaleAge = 0\<rparr>
          | Some p \<Rightarrow> p);
          out = (if lo_Name out = [] then out\<lparr>lo_Name := defaultLockName\<rparr> else out);
          out = (if lo_RetryInterval out \<le> 0 then out\<lparr>lo_RetryInterval := 50 * 1000000\<rparr> else out);
          out = (if lo_StaleAge out \<le> 0 then out\<lparr>lo_StaleAge := defaultStaleAge\<rparr> else out)
      in out)"

text \<open>
  What the package asks the operating system and the Go runtime about the process: its pid, the
  host's name (\<^verbatim>\<open>[]\<close> when it is not known), the Go version, how a time is printed, and what
  happens to the disk while the process sleeps, other processes at work on it included.
\<close>

record process =
  pr_pid :: int
  pr_hostname :: string
  pr_goversion :: string
  pr_format :: "int \<Rightarrow> string"
  pr_sleep :: "int \<Rightarrow> disk \<Rightarrow> disk"

section \<open>Acquiring\<close>

definition lock_content :: "process \<Rightarrow> Lock \<Rightarrow> int \<Rightarrow> bytes" where
  "lock_content pr l now =
     string_bytes (''pid='' @ show_int (lk_pid l) @ ''\<newline>host='' @ lk_hostname l @ ''\<newline>go='' @ pr_goversion pr @
       ''\<newline>time='' @ pr_format pr now @ ''\<newline>'')"

definition maybeRemoveStale :: "string \<Rightarrow> int \<Rightarrow> disk \<Rightarrow> bool \<times> disk" where
  "maybeRemoveStale path staleAge d =
     (case dk_Stat path d of
        (Inl _, d) \<Rightarrow> (False, d)
      | (Inr mtime, d) \<Rightarrow>
          (case dk_now d of (now, d) \<Rightarrow>
             if now - mtime < staleAge then (False, d)
             else (True, snd (dk_Remove path d))))"

text \<open>The write and the sync of a lock file that was created; on failure it is closed and removed.\<close>

definition lock_fill :: "process \<Rightarrow> Lock \<Rightarrow> os_file \<Rightarrow> disk \<Rightarrow> (error option \<times> os_file) \<times> disk" where
  "lock_fill pr l f d =
     (case dk_now d of (now, d) \<Rightarrow>
        (case f_write (lock_content pr l now) f of
           ((_, Some e), f) \<Rightarrow> ((Some e, f), dk_save (lk_path l) f d)
         | ((_, None), f) \<Rightarrow> (case f_sync f of (e, f) \<Rightarrow> ((e, f), dk_save (lk_path l) f d))))"

definition lock_write :: "process \<Rightarrow> Lock \<Rightarrow> os_file \<Rightarrow> disk \<Rightarrow> (error option \<times> Lock) \<times> disk" where
  "lock_write pr l f d =
     (case lock_fill pr l f d of
        ((Some e, f), d) \<Rightarrow> ((Some e, l), snd (dk_Remove (lk_path l) d))
      | ((None, f), d) \<Rightarrow> ((None, l\<lparr>lk_f := Some f, lk_held := True\<rparr>), d))"

definition Lock_tryOnce :: "process \<Rightarrow> LockOptions \<Rightarrow> Lock \<Rightarrow> disk \<Rightarrow> (error option \<times> Lock) \<times> disk" where
  "Lock_tryOnce pr o' l d =
     (if lk_held l then ((None, l), d)
      else
        (case dk_CreateExcl (lk_path l) d of
           (Inr f, d) \<Rightarrow> lock_write pr l f d
         | (Inl e, d) \<Rightarrow>
             if e \<noteq> os_ErrExist then ((Some e, l), d)
             else
               (case maybeRemoveStale (lk_path l) (lo_StaleAge o') d of
                  (False, d) \<Rightarrow> ((Some filelock_ErrLocked, l), d)
                | (True, d) \<Rightarrow>
                    (case dk_CreateExcl (lk_path l) d of
                       (Inr f, d) \<Rightarrow> lock_write pr l f d
                     | (Inl e, d) \<Rightarrow>
                         ((Some (if e = os_ErrExist then filelock_ErrLocked else e), l), d)))))"

partial_function (option) Acquire_loop ::
  "process \<Rightarrow> LockOptions \<Rightarrow> int \<Rightarrow> Lock \<Rightarrow> disk \<Rightarrow> ((error + Lock) \<times> disk) option" where
  "Acquire_loop pr o' deadline l d =
     (case Lock_tryOnce pr o' l d of
        ((None, l), d) \<Rightarrow> Some (Inr l, d)
      | ((Some e, l), d) \<Rightarrow>
          if e \<noteq> filelock_ErrLocked then Some (Inl e, d)
          else
            (case dk_now d of (now, d) \<Rightarrow>
               if now > deadline then Some (Inl filelock_ErrTimeout, d)
               else Acquire_loop pr o' deadline l (pr_sleep pr (lo_RetryInterval o') d)))"

definition Acquire :: "process \<Rightarrow> string \<Rightarrow> LockOptions option \<Rightarrow> disk \<Rightarrow> ((error + Lock) \<times> disk) option" where
  "Acquire pr dir opts d =
     (let o' = LockOptions_normalize opts
      in if dir = [] then Some (Inl filelock_ErrInvalid, d)
         else
           (case dk_MkdirAll dir d of
              (Some e, d) \<Rightarrow> Some (Inl e, d)
            | (None, d) \<Rightarrow>
                (let l = \<lparr>lk_dir = dir, lk_path = lo_Name o', lk_f = None, lk_held = False, lk_pid = pr_pid pr,
                          lk_hostname = pr_hostname pr\<rparr>
                 in if lo_Timeout o' \<le> 0
                    then (case Lock_tryOnce pr o' l d of
                            ((Some e, _), d) \<Rightarrow> Some (Inl e, d)
                          | ((None, l), d) \<Rightarrow> Some (Inr l, d))
                    else (case dk_now d of (now, d) \<Rightarrow> Acquire_loop pr o' (now + lo_Timeout o') l d))))"

section \<open>Releasing and asking\<close>

definition Lock_Release :: "Lock option \<Rightarrow> disk \<Rightarrow> (error option \<times> Lock option) \<times> disk" where
  "Lock_Release lo d =
     (case lo of
        None \<Rightarrow> ((None, None), d)
      | Some l \<Rightarrow>
          (if \<not> lk_held l then ((Some filelock_ErrNotHeld, Some l), d)
           else
             (let first' = (case lk_f l of None \<Rightarrow> None | Some f \<Rightarrow> fst (f_close f))
              in case dk_Remove (lk_path l) d of
                   (err, d) \<Rightarrow>
                     ((if err \<noteq> None \<and> err \<noteq> Some os_ErrNotExist \<and> first' = None then err else first',
                       Some (l\<lparr>lk_f := None, lk_held := False\<rparr>)), d))))"

definition Lock_Held :: "Lock option \<Rightarrow> bool" where
  "Lock_Held l = (case l of None \<Rightarrow> False | Some l \<Rightarrow> lk_held l)"

definition Lock_Path :: "Lock option \<Rightarrow> string" where
  "Lock_Path l = (case l of None \<Rightarrow> [] | Some l \<Rightarrow> lk_path l)"

definition Lock_Dir :: "Lock option \<Rightarrow> string" where
  "Lock_Dir l = (case l of None \<Rightarrow> [] | Some l \<Rightarrow> lk_dir l)"

definition IsLocked :: "string \<Rightarrow> disk \<Rightarrow> bool \<times> disk" where
  "IsLocked name d =
     (case dk_Stat (if name = [] then defaultLockName else name) d of
        (Inl _, d) \<Rightarrow> (False, d) | (Inr _, d) \<Rightarrow> (True, d))"

definition MustAcquire :: "process \<Rightarrow> string \<Rightarrow> disk \<Rightarrow> ((error + Lock) \<times> disk) option" where
  "MustAcquire pr dir d =
     (case Acquire pr dir None d of
        None \<Rightarrow> None
      | Some (Inl _, d) \<Rightarrow> Some (Inl Panic, d)
      | Some (Inr l, d) \<Rightarrow> Some (Inr l, d))"

text \<open>The function run under the lock is a parameter; a deferred release runs when it panics, too.\<close>

definition WithLock ::
  "process \<Rightarrow> string \<Rightarrow> LockOptions option \<Rightarrow> (disk \<Rightarrow> error option \<times> disk) \<Rightarrow> disk \<Rightarrow> (error option \<times> disk) option" where
  "WithLock pr dir opts fn d =
     (case Acquire pr dir opts d of
        None \<Rightarrow> None
      | Some (Inl e, d) \<Rightarrow> Some (Some e, d)
      | Some (Inr l, d) \<Rightarrow> (case fn d of (r, d) \<Rightarrow> Some (r, snd (Lock_Release (Some l) d))))"

record LockInfo =
  li_Path :: string
  li_Size :: int
  li_ModTime :: int
  li_Content :: bytes

definition ReadInfo :: "string \<Rightarrow> disk \<Rightarrow> (error + LockInfo) \<times> disk" where
  "ReadInfo name d =
     (let path = (if name = [] then defaultLockName else name)
      in case dk_StatInfo path d of
           (Inl e, d) \<Rightarrow> (Inl e, d)
         | (Inr (size', mtime), d) \<Rightarrow>
             (case dk_ReadFile path d of
                (Inl e, d) \<Rightarrow> (Inl e, d)
              | (Inr b, d) \<Rightarrow> (Inr \<lparr>li_Path = path, li_Size = size', li_ModTime = mtime, li_Content = b\<rparr>, d)))"

end
