(* ===== verification/Filelock_Steps.thy ===== *)
theory Filelock_Steps imports Filelock begin

text \<open>
  The lock under concurrency: the system calls of \<^verbatim>\<open>tryOnce\<close> and \<^verbatim>\<open>Release\<close> as steps of any
  number of processes on one directory, interleaved in every way; the sequential operations are
  runs of these steps by one process.
\<close>

section \<open>The calls keep the clock\<close>

definition later :: "disk \<Rightarrow> disk \<Rightarrow> bool" where
  "later d d' = (dk_clock d' = dk_clock d \<and> dk_tick d \<le> dk_tick d')"

lemma later_refl [simp]: "later d d" by (simp add: later_def)

lemma later_trans [trans]: "later d d' \<Longrightarrow> later d' d'' \<Longrightarrow> later d d''"
  by (auto simp: later_def)

lemma later_calls:
  "dk_next d = (x, d') \<Longrightarrow> later d d'"
  "dk_now d = (t, d') \<Longrightarrow> later d d' \<and> t = dk_clock d (dk_tick d)"
  "dk_CreateExcl name d = (r, d') \<Longrightarrow> later d d'"
  "dk_Stat name d = (s, d') \<Longrightarrow> later d d'"
  "dk_Remove name d = (e, d') \<Longrightarrow> later d d'"
  "dk_MkdirAll name d = (e, d') \<Longrightarrow> later d d'"
  "later d (dk_save name f d)"
  by (auto simp: later_def dk_next_def dk_now_def dk_CreateExcl_def dk_Stat_def dk_Remove_def dk_MkdirAll_def
      dk_save_def dk_put_def split: option.splits if_splits)

lemma later_Remove: "later d (snd (dk_Remove name d))"
  by (cases "dk_Remove name d") (simp add: later_calls)

lemma later_fill: "lock_fill pr l f d = (r, d') \<Longrightarrow> later d d'"
  unfolding lock_fill_def
  by (auto split: prod.splits option.splits dest!: later_calls(2) [OF sym] later_calls(2)
      intro: later_trans later_calls(7))

lemma later_write: "lock_write pr l f d = (r, d') \<Longrightarrow> later d d'"
  unfolding lock_write_def
  by (auto split: prod.splits option.splits dest!: later_fill intro: later_trans later_Remove)

lemma later_stale: "maybeRemoveStale path age d = (r, d') \<Longrightarrow> later d d'"
  unfolding maybeRemoveStale_def
  by (auto split: prod.splits sum.splits if_splits dest!: later_calls(2,4) intro: later_trans later_Remove)

lemma later_tryOnce: "Lock_tryOnce pr o' l d = (r, d') \<Longrightarrow> later d d'"
  unfolding Lock_tryOnce_def
  by (auto split: prod.splits sum.splits if_splits bool.splits
      dest!: later_calls(3) later_stale later_write intro: later_trans)

lemma tryOnce_held: "Lock_tryOnce pr o' l d = ((None, l'), d') \<Longrightarrow> lk_held l'"
  unfolding Lock_tryOnce_def lock_write_def
  by (auto split: prod.splits sum.splits if_splits bool.splits option.splits)

section \<open>Waiting ends\<close>

lemma Acquire_loop_returns:
  assumes "\<forall>t\<ge>n. dk_clock d t > deadline"
    and "\<forall>i d. later d (pr_sleep pr i d)"
  shows "\<exists>r d'. Acquire_loop pr o' deadline l d = Some (r, d') \<and>
    (case r of Inr l' \<Rightarrow> lk_held l' | Inl e \<Rightarrow> e \<noteq> filelock_ErrLocked)"
  using assms(1)
proof (induction "n - dk_tick d" arbitrary: d l rule: less_induct)
  case less
  obtain r l1 d1 where 1: "Lock_tryOnce pr o' l d = ((r, l1), d1)" by (metis surj_pair)
  obtain d2 where 2: "dk_now d1 = (dk_clock d1 (dk_tick d1), d2)" "later d1 d2" "dk_tick d2 = dk_tick d1 + 1"
    by (simp add: dk_now_def later_def)
  have l1: "later d d1" by (rule later_tryOnce [OF 1])
  show ?case
  proof (cases "r = Some filelock_ErrLocked \<and> \<not> dk_clock d1 (dk_tick d1) > deadline")
    case False
    then show ?thesis
      using 1 2 tryOnce_held [of pr o' l d l1 d1] by (subst (1) Acquire_loop.simps) (auto split: option.split)
  next
    case True
    let ?d = "pr_sleep pr (lo_RetryInterval o') d2"
    have l: "later d2 ?d" using assms(2) by blast
    have c: "dk_clock ?d = dk_clock d" "dk_clock d1 = dk_clock d" "dk_tick d1 + 1 \<le> dk_tick ?d" "dk_tick d \<le> dk_tick d1"
      using l1 l 2 by (auto simp: later_def)
    have "\<not> n \<le> dk_tick d1" using True less.prems c(2) by auto
    then have "n - dk_tick ?d < n - dk_tick d" using c by simp
    from less.hyps [OF this] less.prems c(1) obtain r' d' where
      "Acquire_loop pr o' deadline l1 ?d = Some (r', d')"
      "case r' of Inr l' \<Rightarrow> lk_held l' | Inl e \<Rightarrow> e \<noteq> filelock_ErrLocked" by fastforce
    with True 1 2(1) show ?thesis by (subst (1) Acquire_loop.simps) auto
  qed
qed

section \<open>Steps\<close>

text \<open>
  Where a process stands: not in the package, told that the lock file exists, about to remove it as
  stale, about to create it again, about to fill the file it created, about to remove that file
  after a failure, holding the lock.
\<close>

datatype lock_pc = Idle | Exists | Stale | Again | Opened os_file | Failed | Holds os_file

record lock_sys =
  ls_disk :: disk
  ls_pc :: "nat \<Rightarrow> lock_pc"

definition goes :: "lock_sys \<Rightarrow> nat \<Rightarrow> lock_pc \<Rightarrow> disk \<Rightarrow> lock_sys" where
  "goes s p x d = \<lparr>ls_disk = d, ls_pc = (ls_pc s)(p := x)\<rparr>"

inductive lock_step :: "(nat \<Rightarrow> process) \<Rightarrow> (nat \<Rightarrow> Lock) \<Rightarrow> int \<Rightarrow> lock_sys \<Rightarrow> lock_sys \<Rightarrow> bool"
  for pr lk age where
  created: "ls_pc s p \<in> {Idle, Again} \<Longrightarrow> dk_CreateExcl (lk_path (lk p)) (ls_disk s) = (Inr f, d) \<Longrightarrow>
    lock_step pr lk age s (goes s p (Opened f) d)"
| exists: "ls_pc s p = Idle \<Longrightarrow> dk_CreateExcl (lk_path (lk p)) (ls_disk s) = (Inl os_ErrExist, d) \<Longrightarrow>
    lock_step pr lk age s (goes s p Exists d)"
| refused: "ls_pc s p \<in> {Idle, Again} \<Longrightarrow> dk_CreateExcl (lk_path (lk p)) (ls_disk s) = (Inl e, d) \<Longrightarrow>
    ls_pc s p = Idle \<longrightarrow> e \<noteq> os_ErrExist \<Longrightarrow> lock_step pr lk age s (goes s p Idle d)"
| unknown: "ls_pc s p = Exists \<Longrightarrow> dk_Stat (lk_path (lk p)) (ls_disk s) = (Inl e, d) \<Longrightarrow>
    lock_step pr lk age s (goes s p Idle d)"
| fresh: "ls_pc s p = Exists \<Longrightarrow> dk_Stat (lk_path (lk p)) (ls_disk s) = (Inr mtime, d) \<Longrightarrow>
    dk_now d = (now, d') \<Longrightarrow> now - mtime < age \<Longrightarrow> lock_step pr lk age s (goes s p Idle d')"
| stale: "ls_pc s p = Exists \<Longrightarrow> dk_Stat (lk_path (lk p)) (ls_disk s) = (Inr mtime, d) \<Longrightarrow>
    dk_now d = (now, d') \<Longrightarrow> \<not> now - mtime < age \<Longrightarrow> lock_step pr lk age s (goes s p Stale d')"
| removed: "ls_pc s p = Stale \<Longrightarrow> dk_Remove (lk_path (lk p)) (ls_disk s) = (e, d) \<Longrightarrow>
    lock_step pr lk age s (goes s p Again d)"
| filled: "ls_pc s p = Opened f \<Longrightarrow> lock_fill (pr p) (lk p) f (ls_disk s) = ((None, f'), d) \<Longrightarrow>
    lock_step pr lk age s (goes s p (Holds f') d)"
| unfilled: "ls_pc s p = Opened f \<Longrightarrow> lock_fill (pr p) (lk p) f (ls_disk s) = ((Some e, f'), d) \<Longrightarrow>
    lock_step pr lk age s (goes s p Failed d)"
| undone: "ls_pc s p = Failed \<Longrightarrow> dk_Remove (lk_path (lk p)) (ls_disk s) = (e, d) \<Longrightarrow>
    lock_step pr lk age s (goes s p Idle d)"
| released: "ls_pc s p = Holds f \<Longrightarrow> dk_Remove (lk_path (lk p)) (ls_disk s) = (e, d) \<Longrightarrow>
    lock_step pr lk age s (goes s p Idle d)"
| passed: "lock_step pr lk age s (s\<lparr>ls_disk := (ls_disk s)\<lparr>dk_tick := dk_tick (ls_disk s) + n\<rparr>\<rparr>)"

abbreviation lock_steps where "lock_steps pr lk age \<equiv> (lock_step pr lk age)\<^sup>*\<^sup>*"

lemma goes_simps [simp]:
  "ls_disk (goes s p x d) = d" "ls_pc (goes s p x d) = (ls_pc s)(p := x)"
  "goes (goes s p x d) p y d' = goes s p y d'"
  by (simp_all add: goes_def)

text \<open>A call of \<^verbatim>\<open>tryOnce\<close> is a run of steps by its process, and so is a release.\<close>

definition after_try :: "error option \<Rightarrow> Lock \<Rightarrow> lock_pc" where
  "after_try r l = (if r = None then Holds (the (lk_f l)) else Idle)"

lemma write_steps:
  assumes "ls_pc s p = Opened f" and "lock_write (pr p) (lk p) f (ls_disk s) = ((r, l'), d)"
  shows "lock_steps pr lk age s (goes s p (after_try r l') d)"
proof -
  obtain e f' d1 where F: "lock_fill (pr p) (lk p) f (ls_disk s) = ((e, f'), d1)" by (metis surj_pair)
  show ?thesis
  proof (cases e)
    case None
    then have "lock_step pr lk age s (goes s p (Holds f') d1)" using lock_step.filled [of s p f pr lk f' d1] assms F by simp
    with assms(2) F None show ?thesis by (auto simp: lock_write_def after_try_def)
  next
    case (Some x)
    then have 1: "lock_step pr lk age s (goes s p Failed d1)"
      using lock_step.unfilled [of s p f pr lk x f' d1] assms F by simp
    obtain y d2 where R: "dk_Remove (lk_path (lk p)) d1 = (y, d2)" by (metis surj_pair)
    then have 2: "lock_step pr lk age (goes s p Failed d1) (goes s p Idle d2)"
      using lock_step.undone [of "goes s p Failed d1" p lk y d2] by simp
    have "r = Some x" "d = d2" using assms(2) F Some R by (auto simp: lock_write_def)
    with 1 2 show ?thesis by (simp add: after_try_def)
  qed
qed

lemma create_steps:
  assumes "ls_pc s p \<in> {Idle, Again}" and "dk_CreateExcl (lk_path (lk p)) (ls_disk s) = (Inr f, d1)"
    and "lock_write (pr p) (lk p) f d1 = ((r, l'), d)"
  shows "lock_steps pr lk age s (goes s p (after_try r l') d)"
proof -
  have "lock_step pr lk age s (goes s p (Opened f) d1)" using lock_step.created [of s p lk f d1] assms(1,2) by simp
  moreover have "lock_steps pr lk age (goes s p (Opened f) d1) (goes s p (after_try r l') d)"
    using write_steps [of "goes s p (Opened f) d1" p f pr lk r l' d age] assms(3) by simp
  ultimately show ?thesis by (rule converse_rtranclp_into_rtranclp)
qed

lemma tryOnce_steps:
  assumes "ls_pc s p = Idle" and "\<not> lk_held (lk p)"
    and "Lock_tryOnce (pr p) o' (lk p) (ls_disk s) = ((r, l'), d)"
  shows "lock_steps pr lk (lo_StaleAge o') s (goes s p (after_try r l') d)"
proof -
  let ?path = "lk_path (lk p)" and ?steps = "lock_steps pr lk (lo_StaleAge o')"
  obtain c d1 where C: "dk_CreateExcl ?path (ls_disk s) = (c, d1)" by (metis surj_pair)
  show ?thesis
  proof (cases c)
    case (Inr f)
    with C assms show ?thesis by (intro create_steps) (auto simp: Lock_tryOnce_def)
  next
    case (Inl e)
    show ?thesis
    proof (cases "e = os_ErrExist")
      case False
      then have "lock_step pr lk (lo_StaleAge o') s (goes s p Idle d1)"
        using lock_step.refused [of s p lk e d1] assms(1) C Inl by simp
      with False C Inl assms(2,3) show ?thesis by (auto simp: Lock_tryOnce_def after_try_def)
    next
      case True
      then have 1: "?steps s (goes s p Exists d1)"
        using lock_step.exists [of s p lk d1] assms(1) C Inl by auto
      have T: "Lock_tryOnce (pr p) o' (lk p) (ls_disk s) =
          (case maybeRemoveStale ?path (lo_StaleAge o') d1 of
             (False, d) \<Rightarrow> ((Some filelock_ErrLocked, lk p), d)
           | (True, d) \<Rightarrow>
               (case dk_CreateExcl ?path d of
                  (Inr f, d) \<Rightarrow> lock_write (pr p) (lk p) f d
                | (Inl e, d) \<Rightarrow> ((Some (if e = os_ErrExist then filelock_ErrLocked else e), lk p), d)))"
        using assms(2) C Inl True by (simp add: Lock_tryOnce_def)
      obtain t d2 where S: "dk_Stat ?path d1 = (t, d2)" by (metis surj_pair)
      show ?thesis
      proof (cases t)
        case (Inl x)
        then have "lock_step pr lk (lo_StaleAge o') (goes s p Exists d1) (goes s p Idle d2)"
          using lock_step.unknown [of "goes s p Exists d1" p lk x d2] S by simp
        moreover have "r \<noteq> None" "d = d2" using assms(3) T S Inl by (auto simp: maybeRemoveStale_def)
        ultimately show ?thesis using 1 by (auto simp: after_try_def)
      next
        case (Inr mtime)
        obtain now d3 where N: "dk_now d2 = (now, d3)" by (metis surj_pair)
        show ?thesis
        proof (cases "now - mtime < lo_StaleAge o'")
          case True
          then have "lock_step pr lk (lo_StaleAge o') (goes s p Exists d1) (goes s p Idle d3)"
            using lock_step.fresh [of "goes s p Exists d1" p lk mtime d2 now d3] S Inr N by simp
          moreover have "r \<noteq> None" "d = d3" using assms(3) T S Inr N True by (auto simp: maybeRemoveStale_def)
          ultimately show ?thesis using 1 by (auto simp: after_try_def)
        next
          case False
          then have "lock_step pr lk (lo_StaleAge o') (goes s p Exists d1) (goes s p Stale d3)"
            using lock_step.stale [of "goes s p Exists d1" p lk mtime d2 now d3] S Inr N by simp
          moreover obtain y d4 where R: "dk_Remove ?path d3 = (y, d4)" by (metis surj_pair)
          then have "lock_step pr lk (lo_StaleAge o') (goes s p Stale d3) (goes s p Again d4)"
            using lock_step.removed [of "goes s p Stale d3" p lk y d4] by simp
          ultimately have 2: "?steps s (goes s p Again d4)" using 1 by (meson rtranclp.rtrancl_into_rtrancl)
          have T': "Lock_tryOnce (pr p) o' (lk p) (ls_disk s) =
              (case dk_CreateExcl ?path d4 of
                  (Inr f, d) \<Rightarrow> lock_write (pr p) (lk p) f d
                | (Inl e, d) \<Rightarrow> ((Some (if e = os_ErrExist then filelock_ErrLocked else e), lk p), d))"
            using T S Inr N False R by (simp add: maybeRemoveStale_def)
          obtain c d5 where C: "dk_CreateExcl ?path d4 = (c, d5)" by (metis surj_pair)
          show ?thesis
          proof (cases c)
            case (Inr f)
            then have "?steps (goes s p Again d4) (goes s p (after_try r l') d)"
              using create_steps [of "goes s p Again d4" p lk f d5 pr r l' d "lo_StaleAge o'"] C T' assms(3) by simp
            with 2 show ?thesis by (rule rtranclp_trans)
          next
            case (Inl z)
            then have "lock_step pr lk (lo_StaleAge o') (goes s p Again d4) (goes s p Idle d5)"
              using lock_step.refused [of "goes s p Again d4" p lk z d5] C by simp
            moreover have "r \<noteq> None" "d = d5" using T' C Inl assms(3) by auto
            ultimately show ?thesis using 2 by (auto simp: after_try_def)
          qed
        qed
      qed
    qed
  qed
qed

section \<open>Mutual exclusion\<close>

definition busy :: "lock_pc \<Rightarrow> bool" where
  "busy x = (case x of Opened _ \<Rightarrow> True | Failed \<Rightarrow> True | Holds _ \<Rightarrow> True | _ \<Rightarrow> False)"

lemma busy_simps [simp]:
  "\<not> busy Idle" "\<not> busy Exists" "\<not> busy Stale" "\<not> busy Again" "busy (Opened f)" "busy Failed" "busy (Holds f)"
  by (simp_all add: busy_def)

definition lock_inv :: "(nat \<Rightarrow> int) \<Rightarrow> string \<Rightarrow> lock_sys \<Rightarrow> bool" where
  "lock_inv c path s =
     (dk_clock (ls_disk s) = c \<and> (\<forall>p. ls_pc s p \<noteq> Stale \<and> ls_pc s p \<noteq> Again) \<and>
      (\<forall>p q. busy (ls_pc s p) \<longrightarrow> busy (ls_pc s q) \<longrightarrow> p = q) \<and>
      (\<forall>p. busy (ls_pc s p) \<longrightarrow> dk_files (ls_disk s) path \<noteq> None) \<and>
      (\<forall>b t. dk_files (ls_disk s) path = Some (b, t) \<longrightarrow> t \<in> range c))"

lemma dk_CreateExcl_cases:
  assumes "dk_CreateExcl name d = (r, d')"
  shows "dk_clock d' = dk_clock d"
    and "r = Inr f \<Longrightarrow> dk_files d name = None \<and> dk_files d' = (dk_files d)(name \<mapsto> ([], dk_clock d (dk_tick d + 1)))"
    and "r = Inl e \<Longrightarrow> dk_files d' = dk_files d"
  using assms
  by (cases "dk_files d name"; auto simp: dk_CreateExcl_def dk_next_def dk_put_def split: option.splits if_splits)+

lemma dk_Stat_cases:
  assumes "dk_Stat name d = (r, d')"
  shows "dk_clock d' = dk_clock d" and "dk_files d' = dk_files d"
    and "r = Inr t \<Longrightarrow> \<exists>b. dk_files d name = Some (b, t)"
  using assms by (auto simp: dk_Stat_def dk_next_def split: option.splits)

lemma dk_Remove_cases:
  assumes "dk_Remove name d = (r, d')"
  shows "dk_clock d' = dk_clock d" and "dk_files d' = dk_files d \<or> dk_files d' = (dk_files d)(name := None)"
  using assms by (auto simp: dk_Remove_def dk_next_def split: option.splits if_splits)

lemma dk_now_cases:
  assumes "dk_now d = (t, d')"
  shows "dk_clock d' = dk_clock d" and "dk_files d' = dk_files d" and "t \<in> range (dk_clock d)"
  using assms by (auto simp: dk_now_def)

lemma lock_fill_cases:
  assumes "lock_fill pr l f d = (r, d')" and "dk_files d (lk_path l) \<noteq> None"
  shows "dk_clock d' = dk_clock d \<and> (\<exists>b t. dk_files d' (lk_path l) = Some (b, t) \<and> t \<in> range (dk_clock d))"
  using assms
  by (auto simp: lock_fill_def dk_now_def dk_save_def dk_put_def split: prod.splits option.splits)

lemma lock_step_inv:
  assumes "lock_step pr lk age s s'" and "lock_inv c path s"
    and "\<forall>p. lk_path (lk p) = path" and "\<forall>a b. c a - c b < age"
  shows "lock_inv c path s'"
  using assms(1,2)
proof (induction rule: lock_step.induct)
  case (created s p f d)
  with dk_CreateExcl_cases [OF created(2)] assms(3) show ?case
    by (auto simp: lock_inv_def)
next
  case (exists s p d)
  with dk_CreateExcl_cases [OF exists(2)] assms(3) show ?case by (auto simp: lock_inv_def)
next
  case (refused s p e d)
  with dk_CreateExcl_cases [OF refused(2)] assms(3) show ?case by (auto simp: lock_inv_def)
next
  case (unknown s p e d)
  with dk_Stat_cases [OF unknown(2)] assms(3) show ?case by (auto simp: lock_inv_def)
next
  case (fresh s p mtime d now d')
  with dk_Stat_cases [OF fresh(2)] dk_now_cases [OF fresh(3)] assms(3) show ?case by (auto simp: lock_inv_def)
next
  case (stale s p mtime d now d')
  from dk_Stat_cases(3) [OF stale(2) refl] obtain b where "dk_files (ls_disk s) path = Some (b, mtime)"
    using assms(3) by auto
  then have "mtime \<in> range c" using stale by (auto simp: lock_inv_def)
  moreover have "now \<in> range c"
    using dk_now_cases(3) [OF stale(3)] dk_Stat_cases(1) [OF stale(2)] stale by (simp add: lock_inv_def)
  ultimately show ?case using stale(4) assms(4) by auto
next
  case (removed s p e d)
  then show ?case by (simp add: lock_inv_def)
next
  case (filled s p f f' d)
  then have "busy (ls_pc s p)" by simp
  then have "dk_files (ls_disk s) (lk_path (lk p)) \<noteq> None" using filled(3) assms(3) unfolding lock_inv_def by metis
  from lock_fill_cases [OF filled(2) this] filled assms(3) show ?case by (auto simp: lock_inv_def)
next
  case (unfilled s p f e f' d)
  then have "busy (ls_pc s p)" by simp
  then have "dk_files (ls_disk s) (lk_path (lk p)) \<noteq> None" using unfilled(3) assms(3) unfolding lock_inv_def by metis
  from lock_fill_cases [OF unfilled(2) this] unfilled assms(3) show ?case by (auto simp: lock_inv_def)
next
  case (undone s p e d)
  with dk_Remove_cases [OF undone(2)] assms(3) show ?case by (auto simp: lock_inv_def)
next
  case (released s p f e d)
  with dk_Remove_cases [OF released(2)] assms(3) show ?case by (auto simp: lock_inv_def)
next
  case (passed s n)
  then show ?case by (simp add: lock_inv_def)
qed

end
