(* ===== verification/Filelock_Correct.thy ===== *)
theory Filelock_Correct imports Filelock_Steps begin

text \<open>
  The properties of \<^verbatim>\<open>internal/filelock\<close>: one attempt on a directory whose calls succeed, the
  life of a lock, waiting, mutual exclusion and where it ends.
\<close>

section \<open>One attempt\<close>

lemma lock_write_reliable:
  assumes "dk_reliable d" and "f_reliable f" and "f_data f = []" and "f_pos f = 0" and "dk_files d (lk_path l) \<noteq> None"
  shows "\<exists>f'. lock_write pr l f d = ((None, l\<lparr>lk_f := Some f', lk_held := True\<rparr>), d\<lparr>dk_tick := dk_tick d + 1,
    dk_files := (dk_files d)(lk_path l \<mapsto> (lock_content pr l (dk_clock d (dk_tick d)), dk_clock d (dk_tick d + 1)))\<rparr>)
    \<and> f_reliable f'"
  using assms
  by (auto simp: lock_write_def lock_fill_def dk_now_def f_write_def f_sync_def overwrite_def dk_save_def dk_put_def)

lemma tryOnce_free:
  assumes "dk_reliable d" and "\<not> lk_held l" and "dk_files d (lk_path l) = None"
  shows "\<exists>f'. Lock_tryOnce pr o' l d = ((None, l\<lparr>lk_f := Some f', lk_held := True\<rparr>), d\<lparr>dk_tick := dk_tick d + 2,
    dk_files := (dk_files d)(lk_path l \<mapsto> (lock_content pr l (dk_clock d (dk_tick d + 1)), dk_clock d (dk_tick d + 2)))\<rparr>)
    \<and> f_reliable f'"
proof -
  let ?d = "dk_put (lk_path l) [] (d\<lparr>dk_tick := dk_tick d + 1\<rparr>)"
  have "dk_CreateExcl (lk_path l) d = (Inr (dk_handle [] (d\<lparr>dk_tick := dk_tick d + 1\<rparr>)), ?d)"
    using assms by (simp add: dk_CreateExcl_def)
  moreover obtain f' where "lock_write pr l (dk_handle [] (d\<lparr>dk_tick := dk_tick d + 1\<rparr>)) ?d =
      ((None, l\<lparr>lk_f := Some f', lk_held := True\<rparr>), ?d\<lparr>dk_tick := dk_tick ?d + 1, dk_files := (dk_files ?d)
        (lk_path l \<mapsto> (lock_content pr l (dk_clock ?d (dk_tick ?d)), dk_clock ?d (dk_tick ?d + 1)))\<rparr>)" "f_reliable f'"
    using lock_write_reliable [of ?d "dk_handle [] (d\<lparr>dk_tick := dk_tick d + 1\<rparr>)" l pr] assms(1)
    by (auto simp: dk_put_def)
  ultimately show ?thesis using assms(2) by (intro exI [of _ f']) (simp add: Lock_tryOnce_def dk_put_def)
qed

lemma tryOnce_fresh:
  assumes "dk_reliable d" and "\<not> lk_held l" and "dk_files d (lk_path l) = Some (b, t)"
    and "dk_clock d (dk_tick d + 2) - t < lo_StaleAge o'"
  shows "Lock_tryOnce pr o' l d = ((Some filelock_ErrLocked, l), d\<lparr>dk_tick := dk_tick d + 3\<rparr>)"
  using assms by (simp add: Lock_tryOnce_def dk_CreateExcl_def maybeRemoveStale_def dk_Stat_def dk_now_def)

lemma tryOnce_stale:
  assumes "dk_reliable d" and "\<not> lk_held l" and "dk_files d (lk_path l) = Some (b, t)"
    and "\<not> dk_clock d (dk_tick d + 2) - t < lo_StaleAge o'"
  shows "\<exists>f' d'. Lock_tryOnce pr o' l d = ((None, l\<lparr>lk_f := Some f', lk_held := True\<rparr>), d')"
proof -
  let ?d = "d\<lparr>dk_tick := Suc (Suc (Suc (Suc (dk_tick d)))), dk_files := (dk_files d)(lk_path l := None)\<rparr>"
  have "Lock_tryOnce pr o' l d = Lock_tryOnce pr o' l ?d"
    using assms by (simp add: Lock_tryOnce_def dk_CreateExcl_def maybeRemoveStale_def dk_Stat_def dk_now_def dk_Remove_def)
  with tryOnce_free [of ?d l pr o'] assms show ?thesis by auto
qed

section \<open>Properties\<close>

text \<open>C38: the life of a lock: on a directory without a lock file \<^verbatim>\<open>Acquire\<close> succeeds and puts the
  file there with its contents; while it is there and younger than \<^verbatim>\<open>StaleAge\<close> every other
  \<^verbatim>\<open>Acquire\<close> gets \<^verbatim>\<open>ErrLocked\<close> and changes nothing; \<^verbatim>\<open>Release\<close> leaves the directory as it
  was before, and a second one gets \<^verbatim>\<open>ErrNotHeld\<close>.\<close>

theorem filelock_life:
  assumes "dk_reliable d" and "dir \<noteq> []" and "lo_Timeout (LockOptions_normalize opts) \<le> 0"
    and "dk_content d (lo_Name (LockOptions_normalize opts)) = None"
    and "\<forall>a b. dk_clock d a - dk_clock d b < lo_StaleAge (LockOptions_normalize opts)"
  shows "\<exists>l d1 l' d2 t. Acquire pr dir opts d = Some (Inr l, d1) \<and> Lock_Held (Some l)
    \<and> dk_content d1 = (dk_content d)(lo_Name (LockOptions_normalize opts) \<mapsto> lock_content pr l t)
    \<and> (\<forall>pr'. \<exists>d'. Acquire pr' dir opts d1 = Some (Inl filelock_ErrLocked, d') \<and> dk_content d' = dk_content d1)
    \<and> Lock_Release (Some l) d1 = ((None, Some l'), d2) \<and> dk_content d2 = dk_content d
    \<and> Lock_Release (Some l') d2 = ((Some filelock_ErrNotHeld, Some l'), d2)"
proof -
  let ?o = "LockOptions_normalize opts" and ?d = "d\<lparr>dk_tick := dk_tick d + 1\<rparr>"
  let ?l = "\<lambda>pr. \<lparr>lk_dir = dir, lk_path = lo_Name ?o, lk_f = None, lk_held = False, lk_pid = pr_pid pr,
    lk_hostname = pr_hostname pr\<rparr>"
  have A: "Acquire pr dir opts d =
      (case Lock_tryOnce pr ?o (?l pr) (d\<lparr>dk_tick := dk_tick d + 1\<rparr>) of
         ((Some e, _), d) \<Rightarrow> Some (Inl e, d) | ((None, l), d) \<Rightarrow> Some (Inr l, d))" if "dk_reliable d" for pr d
    using assms(2,3) that by (simp add: Acquire_def Let_def dk_MkdirAll_def)
  have free: "dk_files d (lo_Name ?o) = None" using assms(4) by (simp add: dk_content_None)
  then obtain f' where f': "Lock_tryOnce pr ?o (?l pr) ?d = ((None, (?l pr)\<lparr>lk_f := Some f', lk_held := True\<rparr>),
      ?d\<lparr>dk_tick := dk_tick ?d + 2, dk_files := (dk_files ?d)
        (lo_Name ?o \<mapsto> (lock_content pr (?l pr) (dk_clock ?d (dk_tick ?d + 1)), dk_clock ?d (dk_tick ?d + 2)))\<rparr>)"
    "f_reliable f'" using tryOnce_free [of ?d "?l pr" pr ?o] assms(1) by auto
  let ?l1 = "(?l pr)\<lparr>lk_f := Some f', lk_held := True\<rparr>"
  let ?c = "lock_content pr ?l1 (dk_clock d (dk_tick d + 2))"
  let ?d1 = "d\<lparr>dk_tick := Suc (Suc (Suc (dk_tick d))), dk_files := (dk_files d)(lo_Name ?o \<mapsto> (?c, dk_clock d (Suc (Suc (Suc (dk_tick d))))))\<rparr>"
  have c: "lock_content pr (?l pr) = lock_content pr ?l1" by (simp add: lock_content_def fun_eq_iff)
  have 1: "Acquire pr dir opts d = Some (Inr ?l1, ?d1)"
    unfolding A [OF assms(1)] f'(1) c by simp
  have 2: "Acquire pr' dir opts ?d1 = Some (Inl filelock_ErrLocked, ?d1\<lparr>dk_tick := dk_tick ?d1 + 1 + 3\<rparr>)" for pr'
    using A [of ?d1 pr'] tryOnce_fresh [of "?d1\<lparr>dk_tick := dk_tick ?d1 + 1\<rparr>" "?l pr'" ?c "dk_clock d (Suc (Suc (Suc (dk_tick d))))" ?o pr']
      assms(1,5) by simp
  have 3: "Lock_Release (Some ?l1) ?d1 = ((None, Some (?l pr)), d\<lparr>dk_tick := Suc (Suc (Suc (Suc (dk_tick d))))\<rparr>)"
  proof -
    have "(dk_files d)(lo_Name ?o := None) = dk_files d" using free by auto
    with f'(2) assms(1) show ?thesis by (simp add: Lock_Release_def Let_def dk_Remove_def f_close_def)
  qed
  have "dk_content ?d1 = (dk_content d)(lo_Name ?o \<mapsto> ?c)" by (auto simp: dk_content_def fun_eq_iff)
  moreover have "dk_content (d\<lparr>dk_tick := k\<rparr>) = dk_content d" "dk_content (?d1\<lparr>dk_tick := k\<rparr>) = dk_content ?d1" for k
    by (simp_all add: dk_content_def fun_eq_iff)
  moreover have "lock_content pr ?l1 = lock_content pr (?l pr)" using c ..
  ultimately show ?thesis using 1 2 3
    by (intro exI [of _ ?l1] exI [of _ ?d1] exI [of _ "?l pr"] exI [of _ "d\<lparr>dk_tick := Suc (Suc (Suc (Suc (dk_tick d))))\<rparr>"]
        exI [of _ "dk_clock d (dk_tick d + 2)"]) (simp add: Lock_Held_def Lock_Release_def)
qed

definition example_process :: process where
  "example_process =
     \<lparr>pr_pid = 7, pr_hostname = ''h'', pr_goversion = ''go1'', pr_format = show_int,
      pr_sleep = (\<lambda>n d. d\<lparr>dk_tick := dk_tick d + 1\<rparr>)\<rparr>"

definition example_disk :: "(nat \<Rightarrow> int) \<Rightarrow> disk" where
  "example_disk c = \<lparr>dk_files = Map.empty, dk_fault = (\<lambda>_. None), dk_ffault = (\<lambda>_ _. None), dk_clock = c, dk_tick = 0\<rparr>"

lemma example_disk_simps [simp]:
  "dk_reliable (example_disk c)" "dk_content (example_disk c) = Map.empty" "dk_files (example_disk c) = Map.empty"
  "dk_clock (example_disk c) = c" "dk_tick (example_disk c) = 0"
  by (auto simp: example_disk_def dk_reliable_def dk_content_def)

lemma default_lock_options:
  "LockOptions_normalize None =
    \<lparr>lo_Name = ''LOCK'', lo_Timeout = 0, lo_RetryInterval = 50000000, lo_StaleAge = 86400000000000\<rparr>"
  by (simp add: LockOptions_normalize_def Let_def defaultLockName_def defaultStaleAge_def)

theorem filelock_life_witness:
  "\<exists>l d1 l' d2 t. Acquire example_process ''/db'' None (example_disk (\<lambda>_. 0)) = Some (Inr l, d1) \<and> Lock_Held (Some l)
    \<and> dk_content d1 = [''LOCK'' \<mapsto> lock_content example_process l t]
    \<and> Lock_Release (Some l) d1 = ((None, Some l'), d2) \<and> dk_content d2 = Map.empty"
  using filelock_life [of "example_disk (\<lambda>_. 0)" "''/db''" None example_process]
  by (simp add: default_lock_options) blast

text \<open>C34: waiting ends: whatever the other processes do to the directory in the meantime and
  whichever calls fail, an \<^verbatim>\<open>Acquire\<close> with a timeout returns once the clock runs past every
  bound: with the lock held, or with an error that is not \<^verbatim>\<open>ErrLocked\<close>.\<close>

theorem filelock_Acquire_returns:
  assumes "dir \<noteq> []" and "0 < lo_Timeout (LockOptions_normalize opts)"
    and "\<forall>b. \<exists>n. \<forall>t\<ge>n. b < dk_clock d t" and "\<forall>i d. later d (pr_sleep pr i d)"
  shows "\<exists>r d'. Acquire pr dir opts d = Some (r, d') \<and>
    (case r of Inr l \<Rightarrow> lk_held l | Inl e \<Rightarrow> e \<noteq> filelock_ErrLocked)"
proof -
  let ?o = "LockOptions_normalize opts"
  obtain e d1 where 1: "dk_MkdirAll dir d = (e, d1)" by (metis surj_pair)
  show ?thesis
  proof (cases e)
    case (Some x)
    then have "x \<noteq> filelock_ErrLocked" using 1 by (auto simp: dk_MkdirAll_def split: prod.splits option.splits)
    with 1 Some assms(1) show ?thesis by (simp add: Acquire_def)
  next
    case None
    obtain now d2 where 2: "dk_now d1 = (now, d2)" by (metis surj_pair)
    have "later d d2" using later_calls(6) [OF 1] later_calls(2) [OF 2] by (blast intro: later_trans)
    then have c: "dk_clock d2 = dk_clock d" by (simp add: later_def)
    from assms(3) obtain n where n: "\<forall>t\<ge>n. dk_clock d2 t > now + lo_Timeout ?o" unfolding c by blast
    from Acquire_loop_returns [OF n assms(4), of ?o] 1 2 None assms(1,2) show ?thesis by (simp add: Acquire_def Let_def)
  qed
qed

theorem filelock_Acquire_returns_witness:
  "\<exists>r d'. Acquire example_process ''/db''
      (Some \<lparr>lo_Name = [], lo_Timeout = 100, lo_RetryInterval = 0, lo_StaleAge = 0\<rparr>)
      (dk_put ''LOCK'' [] (example_disk int)) = Some (r, d') \<and>
    (case r of Inr l \<Rightarrow> lk_held l | Inl e \<Rightarrow> e \<noteq> filelock_ErrLocked)"
proof (rule filelock_Acquire_returns)
  show "\<forall>b. \<exists>n. \<forall>t\<ge>n. b < dk_clock (dk_put ''LOCK'' [] (example_disk int)) t"
  proof
    fix b :: int
    show "\<exists>n. \<forall>t\<ge>n. b < dk_clock (dk_put ''LOCK'' [] (example_disk int)) t"
      by (rule exI [of _ "nat (b + 1)"]) (auto simp: dk_put_def)
  qed
  show "\<forall>i d. later d (pr_sleep example_process i d)" by (simp add: example_process_def later_def)
qed (simp_all add: LockOptions_normalize_def Let_def)


definition example_lock :: "nat \<Rightarrow> Lock" where
  "example_lock p =
     \<lparr>lk_dir = ''/db'', lk_path = ''LOCK'', lk_f = None, lk_held = False, lk_pid = int p, lk_hostname = ''h''\<rparr>"

lemma example_run:
  "\<exists>f d. lock_steps (\<lambda>_. example_process) example_lock 86400000000000
      \<lparr>ls_disk = example_disk c, ls_pc = (\<lambda>_. Idle)\<rparr>
      \<lparr>ls_disk = d, ls_pc = (\<lambda>_. Idle)(0 := Holds f)\<rparr>
    \<and> dk_reliable d \<and> dk_clock d = c \<and> dk_tick d = 2 \<and> (\<exists>b. dk_files d ''LOCK'' = Some (b, c 2))"
proof -
  let ?s = "\<lparr>ls_disk = example_disk c, ls_pc = (\<lambda>_. Idle)\<rparr>"
  obtain f' where "Lock_tryOnce example_process (LockOptions_normalize None) (example_lock 0) (example_disk c) =
      ((None, example_lock 0\<lparr>lk_f := Some f', lk_held := True\<rparr>), (example_disk c)\<lparr>dk_tick := dk_tick (example_disk c) + 2,
        dk_files := (dk_files (example_disk c))(lk_path (example_lock 0) \<mapsto>
          (lock_content example_process (example_lock 0) (dk_clock (example_disk c) (dk_tick (example_disk c) + 1)),
           dk_clock (example_disk c) (dk_tick (example_disk c) + 2)))\<rparr>)"
    using tryOnce_free [of "example_disk c" "example_lock 0" example_process "LockOptions_normalize None"]
    by (auto simp: example_lock_def)
  then have T: "Lock_tryOnce example_process (LockOptions_normalize None) (example_lock 0) (ls_disk ?s) =
      ((None, example_lock 0\<lparr>lk_f := Some f', lk_held := True\<rparr>), (example_disk c)\<lparr>dk_tick := 2,
        dk_files := [''LOCK'' \<mapsto> (lock_content example_process (example_lock 0) (c 1), c 2)]\<rparr>)"
    by (simp add: example_lock_def numeral_2_eq_2)
  have "ls_pc ?s 0 = Idle" "\<not> lk_held (example_lock 0)" by (simp_all add: example_lock_def)
  from tryOnce_steps [where s = ?s and p = 0 and lk = example_lock and pr = "\<lambda>_. example_process", OF this T] show ?thesis
    by (intro exI [of _ f']) (auto simp: default_lock_options after_try_def goes_def)
qed


text \<open>C39: the lock ends by age alone: its file's time is never renewed and the process named in it is
  never asked about, so once the file is \<^verbatim>\<open>StaleAge\<close> old an idle process takes the lock while
  its owner, alive, still holds it.\<close>

theorem filelock_stale_lock_shared:
  assumes "dk_reliable (ls_disk s)" and "ls_pc s p = Holds f" and "ls_pc s q = Idle"
    and "dk_files (ls_disk s) (lk_path (lk q)) = Some (b, t)" and "\<not> lk_held (lk q)"
    and "age \<le> dk_clock (ls_disk s) (dk_tick (ls_disk s) + 2) - t"
  shows "\<exists>s' g. lock_steps pr lk age s s' \<and> ls_pc s' p = Holds f \<and> ls_pc s' q = Holds g"
proof -
  let ?o = "\<lparr>lo_Name = [], lo_Timeout = 0, lo_RetryInterval = 0, lo_StaleAge = age\<rparr>"
  obtain f' d' where "Lock_tryOnce (pr q) ?o (lk q) (ls_disk s) = ((None, lk q\<lparr>lk_f := Some f', lk_held := True\<rparr>), d')"
    using tryOnce_stale [OF assms(1,5,4), of ?o "pr q"] assms(6) by auto
  from tryOnce_steps [where s = s and p = q and lk = lk and pr = pr, OF assms(3,5) this] have "lock_steps pr lk age s (goes s q (Holds f') d')"
    by (simp add: after_try_def)
  moreover have "p \<noteq> q" using assms(2,3) by auto
  ultimately show ?thesis using assms(2) by (intro exI [of _ "goes s q (Holds f') d'"]) auto
qed

theorem filelock_stale_lock_shared_witness:
  "\<exists>s' f g. lock_steps (\<lambda>_. example_process) example_lock 86400000000000
      \<lparr>ls_disk = example_disk (\<lambda>n. if n < 4 then 0 else 86400000000000), ls_pc = (\<lambda>_. Idle)\<rparr> s' \<and>
    ls_pc s' 0 = Holds f \<and> ls_pc s' 1 = Holds g"
proof -
  let ?c = "\<lambda>n :: nat. if n < 4 then 0 else 86400000000000 :: int"
  obtain f d b where R: "lock_steps (\<lambda>_. example_process) example_lock 86400000000000
      \<lparr>ls_disk = example_disk ?c, ls_pc = (\<lambda>_. Idle)\<rparr> \<lparr>ls_disk = d, ls_pc = (\<lambda>_. Idle)(0 := Holds f)\<rparr>"
    "dk_reliable d" "dk_clock d = ?c" "dk_tick d = 2" "dk_files d ''LOCK'' = Some (b, ?c 2)"
    using example_run [of ?c] by blast
  let ?s = "\<lparr>ls_disk = d, ls_pc = (\<lambda>_. Idle)(0 := Holds f)\<rparr>"
  obtain s' g where "lock_steps (\<lambda>_. example_process) example_lock 86400000000000 ?s s'"
    "ls_pc s' 0 = Holds f" "ls_pc s' 1 = Holds g"
    using filelock_stale_lock_shared [of ?s 0 f 1 example_lock b 0 86400000000000 "\<lambda>_. example_process"] R(2-5)
    by (auto simp: example_lock_def)
  with R(1) show ?thesis by (meson rtranclp_trans)
qed

end
