(* ===== verification/Manifest.thy ===== *)
theory Manifest imports Disk Format Binary Byteutil Crc32x begin

text \<open>
  \<^verbatim>\<open>internal/manifest\<close>: the list of the live table files, kept in a file that is replaced as a
  whole; its binary form, its updates and the names it gives out.
\<close>

section \<open>Data\<close>

definition mf_fileName :: string where "mf_fileName = ''MANIFEST''"

definition tmpSuffix :: string where "tmpSuffix = ''.tmp''"

definition magicBinary :: u32 where "magicBinary = 0x4D4E4653"

definition versionJSON :: int where "versionJSON = 1"

record FileMeta =
  fm_Name :: string
  fm_Level :: int
  fm_MinKey :: slice
  fm_MaxKey :: slice
  fm_MaxSeq :: u64
  fm_Entries :: u64
  fm_FileSize :: int

record State =
  st_Version :: int
  st_NextFile :: u64
  st_LogSeq :: u64
  st_Files :: "FileMeta list"
  st_UpdatedAt :: string

record Manifest =
  mf_dir :: string
  mf_path :: string
  mf_state :: State

text \<open>
  The text form: \<^verbatim>\<open>json.MarshalIndent\<close> and \<^verbatim>\<open>json.Unmarshal\<close> of a \<^verbatim>\<open>State\<close>, and a
  time printed as \<^verbatim>\<open>RFC3339Nano\<close>.
\<close>

record codec =
  js_Marshal :: "State \<Rightarrow> error + bytes"
  js_Unmarshal :: "bytes \<Rightarrow> State option"
  js_time :: "int \<Rightarrow> string"

definition zero_State :: State where
  "zero_State = \<lparr>st_Version = 0, st_NextFile = 0, st_LogSeq = 0, st_Files = [], st_UpdatedAt = []\<rparr>"

section \<open>The binary form\<close>

text \<open>A byte string behind its 16-bit length.\<close>

definition enc_blob16 :: "bytes \<Rightarrow> bytes" where
  "enc_blob16 b = le_put 2 (of_nat (length b) :: u16) @ b"

definition dec_blob16 :: "bytes \<Rightarrow> nat \<Rightarrow> error + (bytes \<times> nat)" where
  "dec_blob16 data off =
     (if off + 2 > length data then Inl manifest_ErrCorrupt
      else
        (let n = unat (le_get (take 2 (drop off data)) :: u16); off = off + 2
         in if off + n > length data then Inl manifest_ErrCorrupt
            else Inr (take n (drop off data), off + n)))"

definition enc_FileMeta :: "FileMeta \<Rightarrow> bytes" where
  "enc_FileMeta f =
     enc_blob16 (string_bytes (fm_Name f)) @ le_put 4 (of_int (fm_Level f) :: u32) @ le_put 8 (fm_MaxSeq f) @
     le_put 8 (fm_Entries f) @ le_put 8 (of_int (fm_FileSize f) :: u64) @ enc_blob16 (sbytes (fm_MinKey f)) @
     enc_blob16 (sbytes (fm_MaxKey f))"

definition dec_FileMeta :: "bytes \<Rightarrow> nat \<Rightarrow> error + (FileMeta \<times> nat)" where
  "dec_FileMeta data off =
     (case dec_blob16 data off of
        Inl e \<Rightarrow> Inl e
      | Inr (name, off) \<Rightarrow>
          if off + 4 + 8 + 8 + 8 > length data then Inl manifest_ErrCorrupt
          else
            (let level = uint (le_get (take 4 (drop off data)) :: u32); off = off + 4;
                 maxSeq = le_get (take 8 (drop off data)); off = off + 8;
                 entries = le_get (take 8 (drop off data)); off = off + 8;
                 fileSize = int_of_u64 (le_get (take 8 (drop off data))); off = off + 8
             in case dec_blob16 data off of
                  Inl e \<Rightarrow> Inl e
                | Inr (minKey, off) \<Rightarrow>
                    (case dec_blob16 data off of
                       Inl e \<Rightarrow> Inl e
                     | Inr (maxKey, off) \<Rightarrow>
                         Inr (\<lparr>fm_Name = bytes_string name, fm_Level = level, fm_MinKey = Clone (Some minKey),
                               fm_MaxKey = Clone (Some maxKey), fm_MaxSeq = maxSeq, fm_Entries = entries,
                               fm_FileSize = fileSize\<rparr>, off))))"

fun dec_files :: "nat \<Rightarrow> bytes \<Rightarrow> nat \<Rightarrow> FileMeta list \<Rightarrow> error + (FileMeta list \<times> nat)" where
  "dec_files 0 data off files = Inr (files, off)"
| "dec_files (Suc n) data off files =
     (case dec_FileMeta data off of
        Inl e \<Rightarrow> Inl e
      | Inr (f, off) \<Rightarrow> dec_files n data off (files @ [f]))"

definition decodeBinary :: "codec \<Rightarrow> bytes \<Rightarrow> disk \<Rightarrow> (error + State) \<times> disk" where
  "decodeBinary js data d =
     (if length data < 4 + 4 + 8 + 8 + 4 then (Inl manifest_ErrCorrupt, d)
      else if (le_get (take 4 data) :: u32) \<noteq> magicBinary then (Inl manifest_ErrCorrupt, d)
      else
        (let ver = le_get (take 4 (drop 4 data)) :: u32; next = le_get (take 8 (drop 8 data));
             logSeq = le_get (take 8 (drop 16 data)); n = le_get (take 4 (drop 24 data)) :: u32
         in case dec_files (unat n) data 28 [] of
              Inl e \<Rightarrow> (Inl e, d)
            | Inr (files, off) \<Rightarrow>
                if off + 4 > length data then (Inl manifest_ErrCorrupt, d)
                else if ChecksumCastagnoli (take off data) \<noteq> le_get (take 4 (drop off data))
                then (Inl manifest_ErrCorrupt, d)
                else
                  (case dk_now d of (now, d) \<Rightarrow>
                     (Inr \<lparr>st_Version = uint ver, st_NextFile = next, st_LogSeq = logSeq, st_Files = files,
                           st_UpdatedAt = js_time js now\<rparr>, d))))"

definition EncodeBinary :: "State \<Rightarrow> bytes" where
  "EncodeBinary st =
     (let b = le_put 4 magicBinary @ le_put 4 (of_int (st_Version st) :: u32) @ le_put 8 (st_NextFile st) @
            le_put 8 (st_LogSeq st) @ le_put 4 (of_nat (length (st_Files st)) :: u32) @
            concat (map enc_FileMeta (st_Files st))
      in b @ le_put 4 (ChecksumCastagnoli b))"

section \<open>Opening and writing\<close>

definition mf_decode :: "codec \<Rightarrow> bytes \<Rightarrow> disk \<Rightarrow> (error + State) \<times> disk" where
  "mf_decode js data d =
     (if length data \<ge> 4 \<and> (le_get (take 4 data) :: u32) = magicBinary then decodeBinary js data d
      else
        (case js_Unmarshal js data of
           None \<Rightarrow> (Inl manifest_ErrCorrupt, d)
         | Some st \<Rightarrow> (Inr (if st_Version st = 0 then st\<lparr>st_Version := versionJSON\<rparr> else st), d)))"

definition Manifest_persist :: "codec \<Rightarrow> Manifest \<Rightarrow> disk \<Rightarrow> (error option \<times> Manifest) \<times> disk" where
  "Manifest_persist js m d =
     (case dk_now d of (now, d) \<Rightarrow>
        let m = m\<lparr>mf_state := mf_state m\<lparr>st_UpdatedAt := js_time js now, st_Version := versionJSON\<rparr>\<rparr>;
            tmp = mf_path m @ tmpSuffix
        in case js_Marshal js (mf_state m) of
             Inl e \<Rightarrow> ((Some e, m), d)
           | Inr data \<Rightarrow>
               (case dk_WriteFile tmp data d of
                  (Some e, d) \<Rightarrow> ((Some e, m), d)
                | (None, d) \<Rightarrow>
                    (case dk_Open tmp d of
                       (Inl e, d) \<Rightarrow> ((Some e, m), d)
                     | (Inr f, d) \<Rightarrow>
                         (case f_sync f of
                            (Some e, _) \<Rightarrow> ((Some e, m), d)
                          | (None, _) \<Rightarrow>
                              (case dk_Rename tmp (mf_path m) d of
                                 (Some e, d) \<Rightarrow> ((Some e, m), d)
                               | (None, d) \<Rightarrow> ((None, m), snd (dk_next d)))))))"

definition Manifest_Open :: "codec \<Rightarrow> string \<Rightarrow> disk \<Rightarrow> (error + Manifest) \<times> disk" where
  "Manifest_Open js dir d =
     (case dk_MkdirAll dir d of
        (Some e, d) \<Rightarrow> (Inl e, d)
      | (None, d) \<Rightarrow>
          (let m = \<lparr>mf_dir = dir, mf_path = mf_fileName, mf_state = zero_State\<rparr>
           in case dk_ReadFile mf_fileName d of
                (Inl e, d) \<Rightarrow>
                  if e = os_ErrNotExist
                  then (case dk_now d of (now, d) \<Rightarrow>
                          (case Manifest_persist js
                              (m\<lparr>mf_state := \<lparr>st_Version = versionJSON, st_NextFile = 1, st_LogSeq = 0, st_Files = [],
                                            st_UpdatedAt = js_time js now\<rparr>\<rparr>) d of
                             ((Some e, _), d) \<Rightarrow> (Inl e, d)
                           | ((None, m), d) \<Rightarrow> (Inr m, d)))
                  else (Inl e, d)
              | (Inr data, d) \<Rightarrow>
                  (case mf_decode js data d of
                     (Inl e, d) \<Rightarrow> (Inl e, d)
                   | (Inr st, d) \<Rightarrow> (Inr (m\<lparr>mf_state := st\<rparr>), d))))"

section \<open>Asking\<close>

definition cloneState :: "State \<Rightarrow> State" where
  "cloneState st = st\<lparr>st_Files := map (\<lambda>f. f\<lparr>fm_MinKey := Clone (fm_MinKey f), fm_MaxKey := Clone (fm_MaxKey f)\<rparr>) (st_Files st)\<rparr>"

definition Manifest_Current :: "Manifest \<Rightarrow> State" where "Manifest_Current m = cloneState (mf_state m)"

definition Manifest_Files :: "Manifest \<Rightarrow> FileMeta list" where "Manifest_Files m = st_Files (Manifest_Current m)"

definition Manifest_LogSeq :: "Manifest \<Rightarrow> u64" where "Manifest_LogSeq m = st_LogSeq (mf_state m)"

definition Manifest_Count :: "Manifest \<Rightarrow> nat" where "Manifest_Count m = length (st_Files (mf_state m))"

fun max_seq_loop :: "FileMeta list \<Rightarrow> u64 \<Rightarrow> u64" where
  "max_seq_loop [] mx = mx"
| "max_seq_loop (f # fs) mx = max_seq_loop fs (if fm_MaxSeq f > mx then fm_MaxSeq f else mx)"

definition Manifest_MaxSeqAmongFiles :: "Manifest \<Rightarrow> u64" where
  "Manifest_MaxSeqAmongFiles m = max_seq_loop (st_Files (mf_state m)) 0"

definition Manifest_Path :: "Manifest \<Rightarrow> string" where "Manifest_Path m = mf_path m"

definition Manifest_Dir :: "Manifest \<Rightarrow> string" where "Manifest_Dir m = mf_dir m"

section \<open>Updating\<close>

definition bump_seq :: "u64 \<Rightarrow> State \<Rightarrow> State" where
  "bump_seq seq st = (if seq > st_LogSeq st then st\<lparr>st_LogSeq := seq\<rparr> else st)"

definition sst_name :: "u64 \<Rightarrow> string" where
  "sst_name n = pad0 6 (show_nat (unat n)) @ ''.sst''"

definition Manifest_AllocFileName :: "codec \<Rightarrow> Manifest \<Rightarrow> disk \<Rightarrow> ((error + string) \<times> Manifest) \<times> disk" where
  "Manifest_AllocFileName js m d =
     (let name = sst_name (st_NextFile (mf_state m));
          m = m\<lparr>mf_state := mf_state m\<lparr>st_NextFile := st_NextFile (mf_state m) + 1\<rparr>\<rparr>
      in case Manifest_persist js m d of
           ((Some e, m), d) \<Rightarrow> ((Inl e, m), d)
         | ((None, m), d) \<Rightarrow> ((Inr name, m), d))"

definition Manifest_AddFile :: "codec \<Rightarrow> FileMeta \<Rightarrow> u64 \<Rightarrow> Manifest \<Rightarrow> disk \<Rightarrow> (error option \<times> Manifest) \<times> disk" where
  "Manifest_AddFile js meta logSeq m d =
     Manifest_persist js
       (m\<lparr>mf_state := bump_seq logSeq (mf_state m\<lparr>st_Files := st_Files (mf_state m) @ [meta]\<rparr>)\<rparr>) d"

definition Manifest_Replace ::
  "codec \<Rightarrow> string list \<Rightarrow> FileMeta list \<Rightarrow> u64 \<Rightarrow> Manifest \<Rightarrow> disk \<Rightarrow> (error option \<times> Manifest) \<times> disk" where
  "Manifest_Replace js remove add logSeq m d =
     (let kept = filter (\<lambda>f. fm_Name f \<notin> set remove) (st_Files (mf_state m))
      in Manifest_persist js
           (m\<lparr>mf_state := bump_seq logSeq (mf_state m\<lparr>st_Files := kept @ add\<rparr>)\<rparr>) d)"

definition Manifest_SetLogSeq :: "codec \<Rightarrow> u64 \<Rightarrow> Manifest \<Rightarrow> disk \<Rightarrow> (error option \<times> Manifest) \<times> disk" where
  "Manifest_SetLogSeq js seq m d = Manifest_persist js (m\<lparr>mf_state := bump_seq seq (mf_state m)\<rparr>) d"

end
