(* ===== verification/Manifest_Correct.thy ===== *)
theory Manifest_Correct imports Manifest begin

text \<open>
  The properties of \<^verbatim>\<open>internal/manifest\<close>: the binary form reads back and no truncation of it is
  accepted, an update is written as a whole or not at all, and file names are never given out twice.
\<close>

section \<open>The binary form\<close>

lemma dec_blob16_enc:
  assumes "length b < 2 ^ 16"
  shows "dec_blob16 (pre @ enc_blob16 b @ rest) (length pre) = Inr (b, length (pre @ enc_blob16 b))"
proof -
  have n: "unat (of_nat (length b) :: u16) = length b" using assms by (simp add: unsigned_of_nat take_bit_nat_eq_self)
  have "le_get (take 2 (drop (length pre) (pre @ enc_blob16 b @ rest))) = (of_nat (length b) :: u16)"
    using le16.get_at [of pre "of_nat (length b)" "b @ rest"] by (simp add: enc_blob16_def del: le_put.simps)
  moreover have "take (length b) (drop (length pre + 2) (pre @ enc_blob16 b @ rest)) = b"
    by (simp add: enc_blob16_def del: le_put.simps)
  ultimately show ?thesis using n by (simp add: dec_blob16_def Let_def enc_blob16_def del: le_put.simps)
qed

text \<open>What the binary form can hold of a file: names and keys of 16-bit lengths, a 32-bit level.\<close>

definition file_fits :: "FileMeta \<Rightarrow> bool" where
  "file_fits f =
     (length (fm_Name f) < 2 ^ 16 \<and> length (sbytes (fm_MinKey f)) < 2 ^ 16 \<and> length (sbytes (fm_MaxKey f)) < 2 ^ 16 \<and>
      0 \<le> fm_Level f \<and> fm_Level f < 2 ^ 32 \<and> - (2 ^ 63) \<le> fm_FileSize f \<and> fm_FileSize f < 2 ^ 63)"

definition file_read :: "FileMeta \<Rightarrow> FileMeta" where
  "file_read f = f\<lparr>fm_MinKey := Some (sbytes (fm_MinKey f)), fm_MaxKey := Some (sbytes (fm_MaxKey f))\<rparr>"

lemma int_words:
  "0 \<le> z \<Longrightarrow> z < 2 ^ 32 \<Longrightarrow> uint (of_int z :: u32) = z"
  "- (2 ^ 63) \<le> z \<Longrightarrow> z < 2 ^ 63 \<Longrightarrow> int_of_u64 (of_int z) = z"
  by (simp_all add: int_of_u64_def uint_word_of_int_eq sint_sbintrunc' take_bit_int_eq_self signed_take_bit_int_eq_self)

lemma dec_FileMeta_enc:
  assumes "file_fits f"
  shows "dec_FileMeta (pre @ enc_FileMeta f @ rest) (length pre) = Inr (file_read f, length (pre @ enc_FileMeta f))"
proof -
  have F: "length (string_bytes (fm_Name f)) < 2 ^ 16" "length (sbytes (fm_MinKey f)) < 2 ^ 16"
    "length (sbytes (fm_MaxKey f)) < 2 ^ 16" "uint (of_int (fm_Level f) :: u32) = fm_Level f"
    "int_of_u64 (of_int (fm_FileSize f)) = fm_FileSize f"
    using assms by (auto simp: file_fits_def int_words)
  define nm lv sq en sz where D: "nm = enc_blob16 (string_bytes (fm_Name f))" "lv = le_put 4 (of_int (fm_Level f) :: u32)"
    "sq = le_put 8 (fm_MaxSeq f)" "en = le_put 8 (fm_Entries f)" "sz = le_put 8 (of_int (fm_FileSize f) :: u64)"
  define mn mx where E: "mn = enc_blob16 (sbytes (fm_MinKey f))" "mx = enc_blob16 (sbytes (fm_MaxKey f))"
  let ?data = "pre @ enc_FileMeta f @ rest"
  have data: "enc_FileMeta f = nm @ lv @ sq @ en @ sz @ mn @ mx" by (simp add: enc_FileMeta_def D E)
  have L: "length lv = 4" "length sq = 8" "length en = 8" "length sz = 8" by (simp_all add: D del: le_put.simps)
  have 1: "dec_blob16 ?data (length pre) = Inr (string_bytes (fm_Name f), length (pre @ nm))"
    using dec_blob16_enc [OF F(1), of pre "lv @ sq @ en @ sz @ mn @ mx @ rest"] by (simp add: data D)
  have 2: "le_get (take 4 (drop (length (pre @ nm)) ?data)) = (of_int (fm_Level f) :: u32)"
    using le32.get_at [of "pre @ nm" "of_int (fm_Level f)" "sq @ en @ sz @ mn @ mx @ rest"] by (simp only: data D append_assoc)
  have 3: "le_get (take 8 (drop (length (pre @ nm) + 4) ?data)) = fm_MaxSeq f"
    using le64.get_at [of "pre @ nm @ lv" "fm_MaxSeq f" "en @ sz @ mn @ mx @ rest"] L
    by (simp only: data D(3) append_assoc length_append add.assoc)
  have 4: "le_get (take 8 (drop (length (pre @ nm) + 4 + 8) ?data)) = fm_Entries f"
    using le64.get_at [of "pre @ nm @ lv @ sq" "fm_Entries f" "sz @ mn @ mx @ rest"] L
    by (simp only: data D(4) append_assoc length_append add.assoc)
  have 5: "le_get (take 8 (drop (length (pre @ nm) + 4 + 8 + 8) ?data)) = (of_int (fm_FileSize f) :: u64)"
    using le64.get_at [of "pre @ nm @ lv @ sq @ en" "of_int (fm_FileSize f)" "mn @ mx @ rest"] L
    by (simp only: data D(5) append_assoc length_append add.assoc)
  have 6: "dec_blob16 ?data (length (pre @ nm) + 4 + 8 + 8 + 8) =
      Inr (sbytes (fm_MinKey f), length (pre @ nm @ lv @ sq @ en @ sz @ mn))"
    using dec_blob16_enc [OF F(2), of "pre @ nm @ lv @ sq @ en @ sz" "mx @ rest"] L by (simp add: data E add.assoc)
  have 7: "dec_blob16 ?data (length (pre @ nm @ lv @ sq @ en @ sz @ mn)) =
      Inr (sbytes (fm_MaxKey f), length (pre @ enc_FileMeta f))"
    using dec_blob16_enc [OF F(3), of "pre @ nm @ lv @ sq @ en @ sz @ mn" rest] by (simp add: data E add.assoc)
  have 8: "\<not> length (pre @ nm) + 4 + 8 + 8 + 8 > length ?data" using L by (simp add: data)
  show ?thesis
    unfolding dec_FileMeta_def 1 sum.case prod.case Let_def if_not_P [OF 8] 2 3 4 5 6 7 F
    by (simp add: file_read_def Clone_def)
qed

lemma dec_files_enc:
  assumes "\<forall>f\<in>set fs. file_fits f"
  shows "dec_files (length fs) (pre @ concat (map enc_FileMeta fs) @ rest) (length pre) acc =
    Inr (acc @ map file_read fs, length (pre @ concat (map enc_FileMeta fs)))"
  using assms
proof (induction fs arbitrary: pre acc)
  case (Cons f fs)
  from Cons.prems have 1: "dec_FileMeta (pre @ enc_FileMeta f @ concat (map enc_FileMeta fs) @ rest) (length pre) =
      Inr (file_read f, length (pre @ enc_FileMeta f))" by (intro dec_FileMeta_enc) simp
  have "dec_files (length fs) ((pre @ enc_FileMeta f) @ concat (map enc_FileMeta fs) @ rest) (length (pre @ enc_FileMeta f))
      (acc @ [file_read f]) = Inr ((acc @ [file_read f]) @ map file_read fs,
        length ((pre @ enc_FileMeta f) @ concat (map enc_FileMeta fs)))"
    by (rule Cons.IH) (use Cons.prems in simp)
  with 1 show ?case by simp
qed simp

definition state_fits :: "State \<Rightarrow> bool" where
  "state_fits st =
     (0 \<le> st_Version st \<and> st_Version st < 2 ^ 32 \<and> length (st_Files st) < 2 ^ 32 \<and> (\<forall>f\<in>set (st_Files st). file_fits f))"

definition mf_header :: "State \<Rightarrow> bytes" where
  "mf_header st = le_put 4 magicBinary @ le_put 4 (of_int (st_Version st) :: u32) @ le_put 8 (st_NextFile st) @
     le_put 8 (st_LogSeq st) @ le_put 4 (of_nat (length (st_Files st)) :: u32)"

definition mf_body :: "State \<Rightarrow> bytes" where
  "mf_body st = mf_header st @ concat (map enc_FileMeta (st_Files st))"

lemma EncodeBinary_eq: "EncodeBinary st = mf_body st @ le_put 4 (ChecksumCastagnoli (mf_body st))"
  by (simp add: EncodeBinary_def mf_body_def mf_header_def Let_def del: le_put.simps)

lemma length_mf_header [simp]: "length (mf_header st) = 28"
  by (simp add: mf_header_def del: le_put.simps)

lemma mf_header_fields:
  "le_get (take 4 (mf_header st @ r)) = magicBinary"
  "le_get (take 4 (drop 4 (mf_header st @ r))) = (of_int (st_Version st) :: u32)"
  "le_get (take 8 (drop 8 (mf_header st @ r))) = st_NextFile st"
  "le_get (take 8 (drop 16 (mf_header st @ r))) = st_LogSeq st"
  "le_get (take 4 (drop 24 (mf_header st @ r))) = (of_nat (length (st_Files st)) :: u32)"
  by (simp_all add: mf_header_def drop_append take_append le32.get_put le64.get_put del: le_put.simps)

lemma decodeBinary_enc:
  assumes "state_fits st"
  shows "decodeBinary js (EncodeBinary st) d =
    (Inr (st\<lparr>st_Files := map file_read (st_Files st), st_UpdatedAt := js_time js (dk_clock d (dk_tick d))\<rparr>),
     d\<lparr>dk_tick := dk_tick d + 1\<rparr>)"
proof -
  let ?body = "mf_body st" and ?crc = "le_put 4 (ChecksumCastagnoli (mf_body st))"
  let ?fs = "concat (map enc_FileMeta (st_Files st))"
  let ?data = "mf_header st @ ?fs @ ?crc"
  have data: "EncodeBinary st = ?data" by (simp add: EncodeBinary_eq mf_body_def del: le_put.simps)
  have body: "length ?body = 28 + length ?fs" "take (28 + length ?fs) ?data = ?body"
    "take 4 (drop (28 + length ?fs) ?data) = ?crc"
    by (simp_all add: mf_body_def del: le_put.simps)
  have n: "unat (of_nat (length (st_Files st)) :: u32) = length (st_Files st)"
    using assms by (simp add: state_fits_def unsigned_of_nat take_bit_nat_eq_self)
  have ver: "uint (of_int (st_Version st) :: u32) = st_Version st"
    using assms by (simp add: state_fits_def int_words)
  have files: "dec_files (length (st_Files st)) ?data 28 [] = Inr (map file_read (st_Files st), 28 + length ?fs)"
    using dec_files_enc [of "st_Files st" "mf_header st" ?crc "[]"] assms by (simp add: state_fits_def del: le_put.simps)
  have c: "\<not> length ?data < 4 + 4 + 8 + 8 + 4" "\<not> 28 + length ?fs + 4 > length ?data" by (simp_all del: le_put.simps)
  have ck: "\<not> ChecksumCastagnoli (take (28 + length ?fs) ?data) \<noteq> le_get (take 4 (drop (28 + length ?fs) ?data))"
    unfolding body(2,3) le32.get_put by simp
  show ?thesis
    unfolding data decodeBinary_def if_not_P [OF c(1)] mf_header_fields Let_def n ver files sum.case prod.case
      if_not_P [OF c(2)] if_not_P [OF ck]
    by (simp add: dk_now_def)
qed

text \<open>Reading a prefix of the data finds what is in the data or stops at the end.\<close>

lemma take_drop_prefix: "off + n \<le> length (take k data) \<Longrightarrow> take n (drop off (take k data)) = take n (drop off data)"
proof -
  assume "off + n \<le> length (take k data)"
  then have "off + n \<le> k" by simp
  then have "min n (k - off) = n" by linarith
  then show ?thesis by (simp only: drop_take take_take)
qed

lemma dec_blob16_prefix: "dec_blob16 (take k data) off = Inl manifest_ErrCorrupt \<or> dec_blob16 (take k data) off = dec_blob16 data off"
proof (cases "off + 2 > length (take k data)")
  case False
  then have h: "take 2 (drop off (take k data)) = take 2 (drop off data)" by (intro take_drop_prefix) linarith
  let ?n = "unat (le_get (take 2 (drop off data)) :: u16)"
  show ?thesis
  proof (cases "off + 2 + ?n > length (take k data)")
    case False2: False
    then have "take ?n (drop (off + 2) (take k data)) = take ?n (drop (off + 2) data)" by (intro take_drop_prefix) linarith
    with False False2 h show ?thesis by (simp add: dec_blob16_def Let_def)
  qed (use False h in \<open>simp add: dec_blob16_def Let_def\<close>)
qed (simp add: dec_blob16_def)

lemma dec_FileMeta_prefix:
  "dec_FileMeta (take k data) off = Inl manifest_ErrCorrupt \<or> dec_FileMeta (take k data) off = dec_FileMeta data off"
proof -
  let ?C = "Inl manifest_ErrCorrupt"
  show ?thesis
  proof (cases "dec_blob16 (take k data) off = ?C")
    case False
    then have 1: "dec_blob16 (take k data) off = dec_blob16 data off" using dec_blob16_prefix by blast
    show ?thesis
    proof (cases "dec_blob16 data off")
      case (Inl e)
      with 1 show ?thesis by (simp add: dec_FileMeta_def)
    next
      case (Inr r)
      obtain name o1 where r: "r = (name, o1)" by (cases r)
      show ?thesis
      proof (cases "o1 + 4 + 8 + 8 + 8 > length (take k data)")
        case True
        with 1 Inr r show ?thesis by (simp add: dec_FileMeta_def)
      next
        case False
        then have t: "take 4 (drop o1 (take k data)) = take 4 (drop o1 data)"
          "take 8 (drop (o1 + 4) (take k data)) = take 8 (drop (o1 + 4) data)"
          "take 8 (drop (o1 + 4 + 8) (take k data)) = take 8 (drop (o1 + 4 + 8) data)"
          "take 8 (drop (o1 + 4 + 8 + 8) (take k data)) = take 8 (drop (o1 + 4 + 8 + 8) data)"
          by (intro take_drop_prefix; linarith)+
        have l: "\<not> o1 + 4 + 8 + 8 + 8 > length data" using False by simp
        note D = dec_FileMeta_def 1 Inr r sum.case prod.case Let_def if_not_P [OF False] if_not_P [OF l] t
        from dec_blob16_prefix [of k data "o1 + 4 + 8 + 8 + 8"] show ?thesis
        proof
          assume "dec_blob16 (take k data) (o1 + 4 + 8 + 8 + 8) = ?C"
          then have "dec_FileMeta (take k data) off = ?C" unfolding D by simp
          then show ?thesis ..
        next
          assume 2: "dec_blob16 (take k data) (o1 + 4 + 8 + 8 + 8) = dec_blob16 data (o1 + 4 + 8 + 8 + 8)"
          show ?thesis
          proof (cases "dec_blob16 data (o1 + 4 + 8 + 8 + 8)")
            case (Inl e)
            then show ?thesis unfolding D 2 by simp
          next
            case (Inr r2)
            from dec_blob16_prefix [of k data "snd r2"] show ?thesis
            proof
              assume "dec_blob16 (take k data) (snd r2) = ?C"
              then have "dec_FileMeta (take k data) off = ?C" unfolding D 2 Inr by (simp add: case_prod_unfold)
              then show ?thesis ..
            next
              assume "dec_blob16 (take k data) (snd r2) = dec_blob16 data (snd r2)"
              then show ?thesis unfolding D 2 Inr by (simp add: case_prod_unfold)
            qed
          qed
        qed
      qed
    qed
  qed (simp add: dec_FileMeta_def)
qed

lemma dec_files_prefix:
  "dec_files n (take k data) off acc = Inl manifest_ErrCorrupt \<or> dec_files n (take k data) off acc = dec_files n data off acc"
proof (induction n arbitrary: off acc)
  case (Suc n)
  from dec_FileMeta_prefix [of k data off] show ?case
  proof
    assume e: "dec_FileMeta (take k data) off = dec_FileMeta data off"
    show ?thesis
    proof (cases "dec_FileMeta data off")
      case (Inr r)
      then show ?thesis using e Suc.IH [of "snd r" "acc @ [fst r]"] by (cases r) simp
    qed (use e in simp)
  qed simp
qed simp

lemma decodeBinary_truncated:
  assumes "state_fits st" and "4 \<le> k" and "k < length (EncodeBinary st)"
  shows "decodeBinary js (take k (EncodeBinary st)) d = (Inl manifest_ErrCorrupt, d)"
proof (cases "k < 28")
  case True
  then show ?thesis by (simp add: decodeBinary_def)
next
  case False
  let ?fs = "concat (map enc_FileMeta (st_Files st))"
  let ?data = "mf_header st @ ?fs @ le_put 4 (ChecksumCastagnoli (mf_body st))"
  have data: "EncodeBinary st = ?data" by (simp add: EncodeBinary_eq mf_body_def del: le_put.simps)
  define cut where "cut = take k ?data"
  have tk: "take k ?data = mf_header st @ take (k - 28) (?fs @ le_put 4 (ChecksumCastagnoli (mf_body st)))"
    using False by (simp del: le_put.simps)
  have n: "unat (of_nat (length (st_Files st)) :: u32) = length (st_Files st)"
    using assms by (simp add: state_fits_def unsigned_of_nat take_bit_nat_eq_self)
  have files: "dec_files (length (st_Files st)) ?data 28 [] = Inr (map file_read (st_Files st), 28 + length ?fs)"
    using dec_files_enc [of "st_Files st" "mf_header st" "le_put 4 (ChecksumCastagnoli (mf_body st))" "[]"] assms
    by (simp add: state_fits_def del: le_put.simps)
  have l: "length (take k ?data) = k" "k < 28 + length ?fs + 4" using assms(3) unfolding data by (simp_all del: le_put.simps)
  have c: "\<not> length (take k ?data) < 4 + 4 + 8 + 8 + 4" using False l(1) by simp
  have c2: "28 + length ?fs + 4 > length (take k ?data)" using l by simp
  have D: "decodeBinary js cut d =
      (case dec_files (length (st_Files st)) cut 28 [] of
         Inl e \<Rightarrow> (Inl e, d)
       | Inr (files, off) \<Rightarrow>
           if off + 4 > length cut then (Inl manifest_ErrCorrupt, d)
           else if ChecksumCastagnoli (take off cut) \<noteq> le_get (take 4 (drop off cut))
           then (Inl manifest_ErrCorrupt, d)
           else (case dk_now d of (now, d) \<Rightarrow>
             (Inr \<lparr>st_Version = uint (of_int (st_Version st) :: u32), st_NextFile = st_NextFile st,
                   st_LogSeq = st_LogSeq st, st_Files = files, st_UpdatedAt = js_time js now\<rparr>, d)))"
    unfolding decodeBinary_def cut_def if_not_P [OF c] unfolding tk mf_header_fields Let_def n by simp
  have c3: "28 + length ?fs + 4 > length cut" using c2 by (simp only: cut_def)
  from dec_files_prefix [of "length (st_Files st)" k ?data 28 "[]", folded cut_def] show ?thesis
  proof
    assume "dec_files (length (st_Files st)) cut 28 [] = Inl manifest_ErrCorrupt"
    then show ?thesis unfolding data cut_def [symmetric] D by simp
  next
    assume "dec_files (length (st_Files st)) cut 28 [] = dec_files (length (st_Files st)) ?data 28 []"
    then show ?thesis unfolding data cut_def [symmetric] D files sum.case prod.case if_P [OF c3] by (simp only: files sum.case prod.case if_P [OF c3])
  qed
qed

end
