(* ===== verification/Manifest_Update.thy ===== *)
theory Manifest_Update imports Manifest_Correct begin

text \<open>
  Updates of the manifest: what an update leaves in the directory whichever call fails, reading it
  back, and the names of files.
\<close>

section \<open>The text form\<close>

text \<open>
  What \<^verbatim>\<open>encoding/json\<close> documents: a state whose strings are ASCII and whose integers have 64
  bits reads back as it was, from a text that does not start with the binary form's magic number.
\<close>

definition ascii :: "string \<Rightarrow> bool" where
  "ascii s = (\<forall>c\<in>set s. (of_char c :: nat) < 128)"

definition int64 :: "int \<Rightarrow> bool" where
  "int64 z = (- (2 ^ 63) \<le> z \<and> z < 2 ^ 63)"

definition file_json :: "FileMeta \<Rightarrow> bool" where
  "file_json f = (ascii (fm_Name f) \<and> int64 (fm_Level f) \<and> int64 (fm_FileSize f))"

definition state_json :: "State \<Rightarrow> bool" where
  "state_json st = (int64 (st_Version st) \<and> ascii (st_UpdatedAt st) \<and> (\<forall>f\<in>set (st_Files st). file_json f))"

definition codec_ok :: "codec \<Rightarrow> bool" where
  "codec_ok js =
     ((\<forall>t. ascii (js_time js t)) \<and>
      (\<forall>st. state_json st \<longrightarrow> (\<exists>b. js_Marshal js st = Inr b \<and> js_Unmarshal js b = Some st \<and>
        take 4 b \<noteq> le_put 4 magicBinary)))"

lemma codec_okD:
  assumes "codec_ok js"
  shows "ascii (js_time js t)"
    and "state_json st \<Longrightarrow> \<exists>b. js_Marshal js st = Inr b \<and> js_Unmarshal js b = Some st \<and> take 4 b \<noteq> le_put 4 magicBinary"
  using assms by (auto simp: codec_ok_def)

section \<open>Writing the file\<close>

definition stamped :: "string \<Rightarrow> Manifest \<Rightarrow> Manifest" where
  "stamped t m = m\<lparr>mf_state := mf_state m\<lparr>st_UpdatedAt := t, st_Version := versionJSON\<rparr>\<rparr>"

lemma stamped_simps [simp]:
  "mf_path (stamped t m) = mf_path m" "st_Files (mf_state (stamped t m)) = st_Files (mf_state m)"
  "st_NextFile (mf_state (stamped t m)) = st_NextFile (mf_state m)"
  "st_LogSeq (mf_state (stamped t m)) = st_LogSeq (mf_state m)" "st_Version (mf_state (stamped t m)) = 1"
  "mf_dir (stamped t m) = mf_dir m"
  by (simp_all add: stamped_def versionJSON_def)

lemma tmpSuffix_ne [simp]: "tmpSuffix \<noteq> []"
  by (simp add: tmpSuffix_def)

lemma tmp_neq: "p @ tmpSuffix \<noteq> p"
  by simp

lemma dk_WriteFile_content:
  "dk_WriteFile name b d = (r, d') \<Longrightarrow> (\<forall>p. p \<noteq> name \<longrightarrow> dk_content d' p = dk_content d p) \<and>
    (r = None \<longrightarrow> dk_content d' name = Some b)"
  by (auto simp: dk_WriteFile_def dk_next_def split: option.splits)

lemma dk_Open_content: "dk_Open name d = (r, d') \<Longrightarrow> dk_content d' = dk_content d"
  by (auto simp: dk_Open_def dk_next_def fun_eq_iff split: option.splits)

lemma dk_next_content: "dk_next d = (r, d') \<Longrightarrow> dk_content d' = dk_content d"
  by (auto simp: dk_next_def fun_eq_iff)

lemma dk_now_content: "dk_now d = (r, d') \<Longrightarrow> dk_content d' = dk_content d"
  by (auto simp: dk_now_def fun_eq_iff)

lemma dk_Rename_content:
  "dk_Rename a b d = (r, d') \<Longrightarrow> a \<noteq> b \<Longrightarrow>
    (if r = None then dk_content d' = (dk_content d)(a := None, b := dk_content d a) \<and> dk_content d a \<noteq> None
     else dk_content d' = dk_content d)"
  by (auto simp: dk_Rename_def dk_next_def dk_content_def fun_eq_iff split: option.splits)

lemma persist_cases:
  assumes "Manifest_persist js m d = ((r, m'), d')"
  shows "(\<exists>t. m' = stamped (js_time js t) m) \<and>
    (if r = None then \<exists>b. js_Marshal js (mf_state m') = Inr b \<and>
        dk_content d' = (dk_content d)(mf_path m @ tmpSuffix := None, mf_path m \<mapsto> b)
     else \<forall>p. p \<noteq> mf_path m @ tmpSuffix \<longrightarrow> dk_content d' p = dk_content d p)"
proof -
  let ?tmp = "mf_path m @ tmpSuffix"
  obtain now d1 where 1: "dk_now d = (now, d1)" by (metis surj_pair)
  let ?m = "stamped (js_time js now) m"
  have P: "Manifest_persist js m d =
      (case js_Marshal js (mf_state ?m) of
         Inl e \<Rightarrow> ((Some e, ?m), d1)
       | Inr data \<Rightarrow>
           (case dk_WriteFile ?tmp data d1 of
              (Some e, d) \<Rightarrow> ((Some e, ?m), d)
            | (None, d) \<Rightarrow>
                (case dk_Open ?tmp d of
                   (Inl e, d) \<Rightarrow> ((Some e, ?m), d)
                 | (Inr f, d) \<Rightarrow>
                     (case f_sync f of
                        (Some e, _) \<Rightarrow> ((Some e, ?m), d)
                      | (None, _) \<Rightarrow>
                          (case dk_Rename ?tmp (mf_path m) d of
                             (Some e, d) \<Rightarrow> ((Some e, ?m), d)
                           | (None, d) \<Rightarrow> ((None, ?m), snd (dk_next d)))))))"
    unfolding Manifest_persist_def 1 prod.case Let_def stamped_def [symmetric] stamped_simps ..
  have c1: "dk_content d1 = dk_content d" by (rule dk_now_content [OF 1])
  show ?thesis
  proof (cases "js_Marshal js (mf_state ?m)")
    case (Inl e)
    with P assms c1 show ?thesis by auto
  next
    case (Inr b)
    obtain w d2 where 2: "dk_WriteFile ?tmp b d1 = (w, d2)" by (metis surj_pair)
    note c2 = dk_WriteFile_content [OF 2]
    obtain o' d3 where 3: "dk_Open ?tmp d2 = (o', d3)" by (metis surj_pair)
    note c3 = dk_Open_content [OF 3]
    obtain rn d4 where 4: "dk_Rename ?tmp (mf_path m) d3 = (rn, d4)" by (metis surj_pair)
    note c4 = dk_Rename_content [OF 4 tmp_neq]
    obtain x d5 where 5: "dk_next d4 = (x, d5)" by (metis surj_pair)
    note c5 = dk_next_content [OF 5]
    show ?thesis
    proof (cases "r = None")
      case True
      then have "w = None" "\<exists>f. o' = Inr f" "rn = None" "m' = ?m" "d' = d5"
        using assms unfolding P Inr sum.case 2 by (auto simp: 3 4 5 split: option.splits sum.splits prod.splits)
      moreover have "dk_content d5 = (dk_content d)(?tmp := None, mf_path m \<mapsto> b)"
        using calculation c1 c2 c3 c4 c5 by (auto simp: fun_eq_iff)
      ultimately show ?thesis using True Inr by auto
    next
      case False
      then have "m' = ?m" "d' = d2 \<or> d' = d3 \<or> (d' = d4 \<and> rn \<noteq> None)"
        using assms unfolding P Inr sum.case 2 by (auto simp: 3 4 5 split: option.splits sum.splits prod.splits)
      with False c1 c2 c3 c4 show ?thesis by auto
    qed
  qed
qed

lemma dk_reliable_steps:
  assumes "dk_reliable d"
  shows "dk_now d = (t, d1) \<Longrightarrow> dk_reliable d1" "dk_WriteFile n b d = (w, d2) \<Longrightarrow> dk_reliable d2 \<and> w = None"
    "dk_Open n d = (r, d3) \<Longrightarrow> dk_reliable d3" "dk_Rename x y d = (e, d4) \<Longrightarrow> dk_reliable d4"
    "dk_Open n d = (Inr f, d3) \<Longrightarrow> f_reliable f"
  using assms by (auto simp: dk_now_def dk_WriteFile_def dk_Open_def dk_Rename_def split: option.splits)

lemma persist_reliable:
  assumes "dk_reliable d" and "js_Marshal js (mf_state (stamped (js_time js (dk_clock d (dk_tick d))) m)) = Inr b"
  shows "\<exists>m' d'. Manifest_persist js m d = ((None, m'), d') \<and> dk_reliable d'"
  using assms
  by (simp add: Manifest_persist_def stamped_def dk_now_def dk_WriteFile_def dk_Open_def dk_put_def f_sync_def
      dk_Rename_def Let_def)

lemma persist_write_fails:
  assumes "dk_fault d (dk_tick d + 1) = Some k"
    and "js_Marshal js (mf_state (stamped (js_time js (dk_clock d (dk_tick d))) m)) = Inr b"
  shows "\<exists>m' d'. Manifest_persist js m d = ((Some OsError, m'), d')"
  using assms by (simp add: Manifest_persist_def stamped_def dk_now_def dk_WriteFile_def dk_next_def Let_def)

lemma stamped_json: "codec_ok js \<Longrightarrow> state_json (mf_state m) \<Longrightarrow> state_json (mf_state (stamped (js_time js t) m))"
  by (simp add: state_json_def stamped_def codec_okD versionJSON_def int64_def)

lemma persist_ok:
  assumes "dk_reliable d" and "codec_ok js" and "state_json (mf_state m)"
  shows "\<exists>t d' b. Manifest_persist js m d = ((None, stamped (js_time js t) m), d') \<and> dk_reliable d' \<and>
    js_Marshal js (mf_state (stamped (js_time js t) m)) = Inr b \<and>
    dk_content d' = (dk_content d)(mf_path m @ tmpSuffix := None, mf_path m \<mapsto> b)"
proof -
  from codec_okD(2) [OF assms(2) stamped_json [OF assms(2,3)]] obtain b where
    "js_Marshal js (mf_state (stamped (js_time js (dk_clock d (dk_tick d))) m)) = Inr b" by blast
  from persist_reliable [OF assms(1) this] obtain m' d' where
    P: "Manifest_persist js m d = ((None, m'), d')" "dk_reliable d'" by blast
  from persist_cases [OF P(1)] P show ?thesis by auto
qed

section \<open>Reading it back\<close>

text \<open>The directory's contents hold a manifest of the state.\<close>

definition holds_state :: "codec \<Rightarrow> (string \<Rightarrow> bytes option) \<Rightarrow> State \<Rightarrow> bool" where
  "holds_state js c st =
     (state_json st \<and> st_Version st = 1 \<and> (\<exists>b. c mf_fileName = Some b \<and> js_Marshal js st = Inr b))"

lemma decode_holds:
  assumes "codec_ok js" and "holds_state js c st" and "c mf_fileName = Some b"
  shows "mf_decode js b d = (Inr st, d)"
proof -
  have m: "js_Marshal js st = Inr b" "state_json st" "st_Version st = 1" using assms(2,3) by (auto simp: holds_state_def)
  with codec_okD(2) [OF assms(1) m(2)] have b: "js_Unmarshal js b = Some st" "take 4 b \<noteq> le_put 4 magicBinary" by auto
  have "\<not> (4 \<le> length b \<and> (le_get (take 4 b) :: u32) = magicBinary)"
  proof
    assume a: "4 \<le> length b \<and> (le_get (take 4 b) :: u32) = magicBinary"
    then have "le_put (length (take 4 b)) (le_get (take 4 b) :: u32) = take 4 b" by (intro le_put_le_get) simp
    moreover have "length (take 4 b) = 4" using a by simp
    ultimately show False using a b(2) by simp
  qed
  then show ?thesis
    unfolding mf_decode_def using b(1) m(3) by (subst if_not_P) simp_all
qed

lemma Manifest_Open_holds:
  assumes "codec_ok js" and "holds_state js (dk_content d) st" and "dk_reliable d"
  shows "\<exists>d'. Manifest_Open js dir d = (Inr \<lparr>mf_dir = dir, mf_path = mf_fileName, mf_state = st\<rparr>, d') \<and>
    dk_reliable d' \<and> dk_content d' = dk_content d"
proof -
  obtain b t where b: "dk_files d mf_fileName = Some (b, t)"
    using assms(2) by (auto simp: holds_state_def dk_content_def)
  then have "dk_content d mf_fileName = Some b" by (simp add: dk_content_def)
  from decode_holds [OF assms(1,2) this] b assms(3) show ?thesis
    by (auto simp: Manifest_Open_def dk_MkdirAll_def dk_ReadFile_def Let_def fun_eq_iff)
qed

lemma persist_holds:
  assumes "Manifest_persist js m d = ((None, m'), d')" and "codec_ok js" and "state_json (mf_state m)"
    and "mf_path m = mf_fileName"
  shows "holds_state js (dk_content d') (mf_state m')"
  using persist_cases [OF assms(1)] assms(4) stamped_json [OF assms(2,3)] by (auto simp: holds_state_def)

lemma bump_seq_simps [simp]:
  "st_Files (bump_seq q st) = st_Files st" "st_NextFile (bump_seq q st) = st_NextFile st"
  "st_LogSeq (bump_seq q st) = max q (st_LogSeq st)" "st_Version (bump_seq q st) = st_Version st"
  "state_json (bump_seq q st) = state_json st"
  by (auto simp: bump_seq_def state_json_def max_def)

section \<open>Names\<close>

lemma sst_name_inj [simp]: "sst_name a = sst_name b \<longleftrightarrow> a = b"
  by (simp add: sst_name_def pad0_show_inj word_unat_eq_iff)

definition names_ok :: "Manifest \<Rightarrow> bool" where
  "names_ok m =
     (distinct (map fm_Name (st_Files (mf_state m))) \<and>
      (\<forall>f\<in>set (st_Files (mf_state m)). \<exists>k < st_NextFile (mf_state m). fm_Name f = sst_name k))"

lemma names_ok_stamped [simp]: "names_ok (stamped t m) = names_ok m"
  by (simp add: names_ok_def)

lemma names_ok_next: "names_ok m \<Longrightarrow> st_NextFile (mf_state m) < - 1 \<Longrightarrow>
    names_ok (m\<lparr>mf_state := mf_state m\<lparr>st_NextFile := st_NextFile (mf_state m) + 1\<rparr>\<rparr>)"
proof -
  assume n: "names_ok m" and lt: "st_NextFile (mf_state m) < - 1"
  have "k < st_NextFile (mf_state m) + 1" if "k < st_NextFile (mf_state m)" for k
  proof -
    have "1 + st_NextFile (mf_state m) \<noteq> 0" using lt by (metis add.commute add_eq_0_iff2 less_irrefl)
    then have "unat (1 + st_NextFile (mf_state m)) = Suc (unat (st_NextFile (mf_state m)))" by (rule unatSuc)
    with that show ?thesis by (simp add: word_less_nat_alt add.commute)
  qed
  with n show ?thesis by (fastforce simp: names_ok_def)
qed

section \<open>Properties\<close>

text \<open>C36: the binary form round-trips: a state whose lengths and numbers fit their fields is read
  back, up to nil keys, which come back empty, and the time, which is that of the reading; and
  every truncation of it that keeps its magic number is refused.\<close>

theorem manifest_binary_roundtrip:
  assumes "state_fits st"
  shows "mf_decode js (EncodeBinary st) d =
      (Inr (st\<lparr>st_Files := map file_read (st_Files st), st_UpdatedAt := js_time js (dk_clock d (dk_tick d))\<rparr>),
       d\<lparr>dk_tick := dk_tick d + 1\<rparr>)
    \<and> (\<forall>k. 4 \<le> k \<longrightarrow> k < length (EncodeBinary st) \<longrightarrow>
        mf_decode js (take k (EncodeBinary st)) d = (Inl manifest_ErrCorrupt, d))"
proof (intro conjI allI impI)
  have m: "le_get (take 4 (EncodeBinary st)) = magicBinary" "4 \<le> length (EncodeBinary st)"
    using mf_header_fields(1) [of st] by (simp_all add: EncodeBinary_eq mf_body_def del: le_put.simps)
  then show "mf_decode js (EncodeBinary st) d =
      (Inr (st\<lparr>st_Files := map file_read (st_Files st), st_UpdatedAt := js_time js (dk_clock d (dk_tick d))\<rparr>),
       d\<lparr>dk_tick := dk_tick d + 1\<rparr>)"
    using decodeBinary_enc [OF assms] by (simp add: mf_decode_def)
  fix k assume k: "4 \<le> k" "k < length (EncodeBinary st)"
  then have "take 4 (take k (EncodeBinary st)) = take 4 (EncodeBinary st)" by (simp add: min_def)
  with m k show "mf_decode js (take k (EncodeBinary st)) d = (Inl manifest_ErrCorrupt, d)"
    using decodeBinary_truncated [OF assms k] by (simp add: mf_decode_def)
qed

text \<open>A codec with the documented behaviour, on which the hypotheses hold: numbers in unary, each
  behind its sign, strings behind their lengths.\<close>

definition enc_nats :: "nat list \<Rightarrow> bytes" where
  "enc_nats ns = concat (map (\<lambda>n. replicate n 1 @ [0]) ns)"

fun dec_nats :: "nat \<Rightarrow> bytes \<Rightarrow> nat list" where
  "dec_nats a [] = []"
| "dec_nats a (c # cs) = (if c = 0 then a # dec_nats 0 cs else dec_nats (a + 1) cs)"

lemma dec_enc_nats [simp]: "dec_nats 0 (enc_nats ns) = ns"
proof (induction ns)
  case (Cons n ns)
  have "dec_nats a (replicate n 1 @ 0 # r) = (a + n) # dec_nats 0 r" for a r by (induction n arbitrary: a) simp_all
  with Cons show ?case by (simp add: enc_nats_def)
qed (simp add: enc_nats_def)

definition nats_string :: "string \<Rightarrow> nat list" where "nats_string s = length s # map of_char s"

definition nats_slice :: "slice \<Rightarrow> nat list" where
  "nats_slice s = (case s of None \<Rightarrow> [0] | Some b \<Rightarrow> (length b + 1) # map unat b)"

definition nats_int :: "int \<Rightarrow> nat list" where "nats_int z = [if z < 0 then 1 else 0, nat \<bar>z\<bar>]"

definition get_string :: "nat list \<Rightarrow> string \<times> nat list" where
  "get_string ns = (map char_of (take (hd ns) (tl ns)), drop (hd ns) (tl ns))"

definition get_slice :: "nat list \<Rightarrow> slice \<times> nat list" where
  "get_slice ns =
     (if hd ns = 0 then (None, tl ns) else (Some (map of_nat (take (hd ns - 1) (tl ns))), drop (hd ns - 1) (tl ns)))"

definition get_int :: "nat list \<Rightarrow> int \<times> nat list" where
  "get_int ns = (if hd ns = 1 then - int (ns ! 1) else int (ns ! 1), drop 2 ns)"

definition get_word :: "nat list \<Rightarrow> u64 \<times> nat list" where "get_word ns = (of_nat (hd ns), tl ns)"

lemma get_nats [simp]:
  "get_string (nats_string s @ ns) = (s, ns)" "get_slice (nats_slice b @ ns) = (b, ns)"
  "get_int (nats_int z @ ns) = (z, ns)" "get_word (unat w # ns) = (w, ns)"
  by (auto simp: get_string_def nats_string_def get_slice_def nats_slice_def get_int_def nats_int_def get_word_def
      comp_def split: option.splits)

definition nats_file :: "FileMeta \<Rightarrow> nat list" where
  "nats_file f =
     nats_string (fm_Name f) @ nats_int (fm_Level f) @ nats_slice (fm_MinKey f) @ nats_slice (fm_MaxKey f) @
     unat (fm_MaxSeq f) # unat (fm_Entries f) # nats_int (fm_FileSize f)"

definition get_file :: "nat list \<Rightarrow> FileMeta \<times> nat list" where
  "get_file ns =
     (let (name, ns) = get_string ns; (level, ns) = get_int ns; (mn, ns) = get_slice ns; (mx, ns) = get_slice ns;
          (sq, ns) = get_word ns; (en, ns) = get_word ns; (sz, ns) = get_int ns
      in (\<lparr>fm_Name = name, fm_Level = level, fm_MinKey = mn, fm_MaxKey = mx, fm_MaxSeq = sq, fm_Entries = en,
           fm_FileSize = sz\<rparr>, ns))"

lemma get_file_nats [simp]: "get_file (nats_file f @ ns) = (f, ns)"
  by (simp add: get_file_def nats_file_def)

fun get_files :: "nat \<Rightarrow> nat list \<Rightarrow> FileMeta list" where
  "get_files 0 ns = []"
| "get_files (Suc n) ns = (case get_file ns of (f, ns) \<Rightarrow> f # get_files n ns)"

lemma get_files_nats [simp]: "get_files (length fs) (concat (map nats_file fs)) = fs"
  by (induction fs) simp_all

definition example_codec :: codec where
  "example_codec =
     \<lparr>js_Marshal = (\<lambda>st. Inr (enc_nats (nats_int (st_Version st) @ unat (st_NextFile st) # unat (st_LogSeq st) #
        nats_string (st_UpdatedAt st) @ length (st_Files st) # concat (map nats_file (st_Files st))))),
      js_Unmarshal = (\<lambda>b.
        let ns = dec_nats 0 b; (v, ns) = get_int ns; (nf, ns) = get_word ns; (ls, ns) = get_word ns;
            (t, ns) = get_string ns
        in Some \<lparr>st_Version = v, st_NextFile = nf, st_LogSeq = ls, st_Files = get_files (hd ns) (tl ns),
                 st_UpdatedAt = t\<rparr>),
      js_time = (\<lambda>_. ''t'')\<rparr>"

lemma example_codec_ok: "codec_ok example_codec"
proof -
  have h: "hd (le_put 4 magicBinary) = 0x53" by code_simp
  have ne: "take 4 (enc_nats (nats_int z @ ns)) \<noteq> le_put 4 magicBinary" for z ns
  proof
    assume eq: "take 4 (enc_nats (nats_int z @ ns)) = le_put 4 magicBinary"
    have "hd (take 4 (enc_nats (nats_int z @ ns))) \<in> {0, 1}" by (auto simp: enc_nats_def nats_int_def)
    then show False unfolding eq h by simp
  qed
  have rt: "js_Unmarshal example_codec b = Some st" if "js_Marshal example_codec st = Inr b" for st b
    using that by (auto simp: example_codec_def Let_def)
  have "\<exists>b. js_Marshal example_codec st = Inr b \<and> take 4 b \<noteq> le_put 4 magicBinary" for st
    using ne by (simp add: example_codec_def del: le_put.simps)
  with rt have "\<exists>b. js_Marshal example_codec st = Inr b \<and> js_Unmarshal example_codec b = Some st \<and>
      take 4 b \<noteq> le_put 4 magicBinary" for st by blast
  moreover have "ascii (js_time example_codec t)" for t by (simp add: ascii_def example_codec_def)
  ultimately show ?thesis unfolding codec_ok_def by blast
qed

definition example_state :: State where
  "example_state =
     \<lparr>st_Version = 1, st_NextFile = 2, st_LogSeq = 9,
      st_Files = [\<lparr>fm_Name = sst_name 1, fm_Level = 0, fm_MinKey = None, fm_MaxKey = Some [7], fm_MaxSeq = 9,
        fm_Entries = 2, fm_FileSize = 100\<rparr>], st_UpdatedAt = ''u''\<rparr>"

lemma sst_name_1: "sst_name 1 = ''000001.sst''"
  by code_simp

lemma example_state_fits: "state_fits example_state"
  by (simp add: state_fits_def example_state_def file_fits_def sst_name_1)

theorem manifest_binary_roundtrip_witness:
  "fst (mf_decode example_codec (EncodeBinary example_state) (disk_of [])) =
      Inr (example_state\<lparr>st_Files := [(hd (st_Files example_state))\<lparr>fm_MinKey := Some []\<rparr>], st_UpdatedAt := ''t''\<rparr>)
    \<and> fst (mf_decode example_codec (take 40 (EncodeBinary example_state)) (disk_of [])) = Inl manifest_ErrCorrupt"
proof -
  have "40 < length (EncodeBinary example_state)"
    by (simp add: EncodeBinary_eq mf_body_def example_state_def enc_FileMeta_def enc_blob16_def sst_name_1 del: le_put.simps)
  with manifest_binary_roundtrip [OF example_state_fits, of example_codec "disk_of []"] show ?thesis
    by (simp add: example_state_def file_read_def example_codec_def)
qed

lemma Manifest_Files_eq [simp]: "Manifest_Files m = st_Files (mf_state m)"
proof -
  have "f\<lparr>fm_MinKey := Clone (fm_MinKey f), fm_MaxKey := Clone (fm_MaxKey f)\<rparr> = f" for f :: FileMeta
    by (simp add: Clone_def split: option.split)
  then show ?thesis by (simp add: Manifest_Files_def Manifest_Current_def cloneState_def)
qed

lemma Replace_state:
  "Manifest_Replace js rm add seq m d = ((r, m'), d') \<Longrightarrow>
    st_Files (mf_state m') = filter (\<lambda>f. fm_Name f \<notin> set rm) (st_Files (mf_state m)) @ add \<and>
    st_LogSeq (mf_state m') = max seq (st_LogSeq (mf_state m))"
  by (auto simp: Manifest_Replace_def Let_def dest!: persist_cases)

lemma state_json_files:
  "state_json st \<Longrightarrow> \<forall>f\<in>set fs. f \<in> set (st_Files st) \<or> file_json f \<Longrightarrow> state_json (st\<lparr>st_Files := fs\<rparr>)"
  by (auto simp: state_json_def)

text \<open>C35: an update is made as a whole or not at all: whichever call of \<^verbatim>\<open>Replace\<close> fails, the
  \<^verbatim>\<open>MANIFEST\<close> in the directory is the old one when an error is returned, and otherwise one that
  every later \<^verbatim>\<open>Open\<close> reads as the files kept and added, with the greater log sequence number;
  no file but it and its temporary copy is touched.\<close>

theorem manifest_Replace_atomic:
  assumes "Manifest_Replace js rm add seq m d = ((r, m'), d')" and "codec_ok js" and "mf_path m = mf_fileName"
    and "state_json (mf_state m)" and "\<forall>f\<in>set add. file_json f"
  shows "(if r = None
      then \<forall>c. dk_reliable c \<longrightarrow> dk_content c mf_fileName = dk_content d' mf_fileName \<longrightarrow>
        (\<exists>m'' c'. Manifest_Open js dir c = (Inr m'', c') \<and>
          Manifest_Files m'' = filter (\<lambda>f. fm_Name f \<notin> set rm) (Manifest_Files m) @ add \<and>
          Manifest_LogSeq m'' = max seq (Manifest_LogSeq m))
      else dk_content d' mf_fileName = dk_content d mf_fileName)
    \<and> (\<forall>p. p \<noteq> mf_fileName \<longrightarrow> p \<noteq> mf_fileName @ tmpSuffix \<longrightarrow> dk_content d' p = dk_content d p)"
proof -
  let ?m = "m\<lparr>mf_state := bump_seq seq (mf_state m\<lparr>st_Files :=
    filter (\<lambda>f. fm_Name f \<notin> set rm) (st_Files (mf_state m)) @ add\<rparr>)\<rparr>"
  have P: "Manifest_persist js ?m d = ((r, m'), d')" using assms(1) by (simp add: Manifest_Replace_def Let_def)
  have j: "state_json (mf_state ?m)" using assms(4,5) by (auto intro!: state_json_files)
  have p: "mf_path ?m = mf_fileName" using assms(3) by simp
  note C = persist_cases [OF P, unfolded p]
  have S: "st_Files (mf_state m') = filter (\<lambda>f. fm_Name f \<notin> set rm) (st_Files (mf_state m)) @ add"
    "st_LogSeq (mf_state m') = max seq (st_LogSeq (mf_state m))" using Replace_state [OF assms(1)] by simp_all
  show ?thesis
  proof (cases r)
    case None
    from persist_holds [OF P [unfolded None] assms(2) j p] have H: "holds_state js (dk_content d') (mf_state m')" .
    have "\<exists>m'' c'. Manifest_Open js dir c = (Inr m'', c') \<and>
          Manifest_Files m'' = filter (\<lambda>f. fm_Name f \<notin> set rm) (Manifest_Files m) @ add \<and>
          Manifest_LogSeq m'' = max seq (Manifest_LogSeq m)"
      if "dk_reliable c" "dk_content c mf_fileName = dk_content d' mf_fileName" for c
    proof -
      have "holds_state js (dk_content c) (mf_state m')" using H that(2) by (simp add: holds_state_def)
      from Manifest_Open_holds [OF assms(2) this that(1), of dir] S show ?thesis
        by (auto simp: Manifest_LogSeq_def)
    qed
    with None C show ?thesis by auto
  qed (use C in auto)
qed

definition example_manifest :: Manifest where
  "example_manifest = \<lparr>mf_dir = ''/db'', mf_path = ''MANIFEST'', mf_state = example_state\<rparr>"

lemma example_manifest_ok:
  "mf_path example_manifest = mf_fileName" "state_json (mf_state example_manifest)" "names_ok example_manifest"
proof -
  show "names_ok example_manifest"
    by (auto simp: names_ok_def example_manifest_def example_state_def intro: exI [of _ 1])
qed (simp_all add: example_manifest_def mf_fileName_def state_json_def example_state_def file_json_def sst_name_1
    ascii_def int64_def)

definition example_file :: FileMeta where
  "example_file =
     \<lparr>fm_Name = ''000002.sst'', fm_Level = 1, fm_MinKey = Some [1], fm_MaxKey = Some [7], fm_MaxSeq = 9,
      fm_Entries = 2, fm_FileSize = 100\<rparr>"

lemma example_file_json: "file_json example_file"
  by (simp add: file_json_def example_file_def ascii_def int64_def)

theorem manifest_Replace_atomic_witness:
  "\<exists>m' d' m'' c'. Manifest_Replace example_codec [''000001.sst''] [example_file] 12 example_manifest (disk_of []) =
      ((None, m'), d')
    \<and> Manifest_Open example_codec ''/db'' d' = (Inr m'', c')
    \<and> Manifest_Files m'' = [example_file] \<and> Manifest_LogSeq m'' = 12"
proof -
  let ?m = "example_manifest\<lparr>mf_state := bump_seq 12 (mf_state example_manifest\<lparr>st_Files :=
    filter (\<lambda>f. fm_Name f \<notin> set [''000001.sst'']) (st_Files (mf_state example_manifest)) @ [example_file]\<rparr>)\<rparr>"
  have "state_json (mf_state ?m)"
    using example_file_json by (auto intro!: state_json_files simp: example_manifest_ok)
  from persist_ok [OF disk_of_simps(1) [of "[]"] example_codec_ok this] obtain m' d' where
    P: "Manifest_persist example_codec ?m (disk_of []) = ((None, m'), d')" "dk_reliable d'" by blast
  then have R: "Manifest_Replace example_codec [''000001.sst''] [example_file] 12 example_manifest (disk_of []) =
      ((None, m'), d')" by (simp add: Manifest_Replace_def Let_def)
  have "\<forall>f\<in>set [example_file]. file_json f" using example_file_json by simp
  from manifest_Replace_atomic [OF R example_codec_ok example_manifest_ok(1,2) this, of "''/db''",
      THEN conjunct1, unfolded if_P [OF refl], rule_format, OF P(2) refl]
  obtain m'' c' where "Manifest_Open example_codec ''/db'' d' = (Inr m'', c')"
    "Manifest_Files m'' = filter (\<lambda>f. fm_Name f \<notin> set [''000001.sst'']) (Manifest_Files example_manifest) @ [example_file]"
    "Manifest_LogSeq m'' = max 12 (Manifest_LogSeq example_manifest)" by blast
  with R show ?thesis
    by (auto simp: Manifest_LogSeq_def example_manifest_def example_state_def sst_name_1)
qed

text \<open>C37: file names are given out once: as long as the number of the next file has not run over,
  the name \<^verbatim>\<open>AllocFileName\<close> returns is that of no listed file, whichever calls fail, and
  listing the new file, with \<^verbatim>\<open>AddFile\<close> or with \<^verbatim>\<open>Replace\<close>, keeps the names distinct and
  below the next one.\<close>

theorem manifest_names_unique:
  assumes "names_ok m" and "st_NextFile (mf_state m) < - 1"
    and "Manifest_AllocFileName js m d = ((res, m1), d1)"
  shows "names_ok m1 \<and>
    (\<forall>name. res = Inr name \<longrightarrow> name \<notin> fm_Name ` set (Manifest_Files m1) \<and>
      (\<forall>meta seq d r m2 d2. fm_Name meta = name \<longrightarrow>
        Manifest_AddFile js meta seq m1 d = ((r, m2), d2) \<longrightarrow> names_ok m2) \<and>
      (\<forall>meta rm seq d r m2 d2. fm_Name meta = name \<longrightarrow>
        Manifest_Replace js rm [meta] seq m1 d = ((r, m2), d2) \<longrightarrow> names_ok m2))"
proof -
  let ?n = "st_NextFile (mf_state m)"
  let ?m = "m\<lparr>mf_state := mf_state m\<lparr>st_NextFile := ?n + 1\<rparr>\<rparr>"
  obtain r where P: "Manifest_persist js ?m d = ((r, m1), d1)" and res: "res = (case r of None \<Rightarrow> Inr (sst_name ?n) | Some e \<Rightarrow> Inl e)"
    using assms(3) by (auto simp: Manifest_AllocFileName_def Let_def split: prod.splits option.splits)
  from persist_cases [OF P] obtain t where m1: "m1 = stamped t ?m" by blast
  have ok: "names_ok m1" using names_ok_next [OF assms(1,2)] by (simp add: m1)
  have fresh: "sst_name ?n \<notin> fm_Name ` set (st_Files (mf_state m1))"
    using assms(1) by (fastforce simp: m1 names_ok_def)
  have lt: "?n < st_NextFile (mf_state m1)"
  proof -
    have "1 + ?n \<noteq> 0" using assms(2) by (metis add.commute add_eq_0_iff2 less_irrefl)
    then have "unat (1 + ?n) = Suc (unat ?n)" by (rule unatSuc)
    then show ?thesis by (simp add: m1 word_less_nat_alt add.commute)
  qed
  have add: "names_ok m2" if "st_Files (mf_state m2) = filter Q (st_Files (mf_state m1)) @ [meta]" "fm_Name meta = sst_name ?n"
    "st_NextFile (mf_state m2) = st_NextFile (mf_state m1)" for m2 Q meta
    using ok fresh lt that by (auto simp: names_ok_def distinct_map_filter)
  have A: "names_ok m2" if "Manifest_AddFile js meta seq m1 d = ((r, m2), d2)" "fm_Name meta = sst_name ?n" for meta seq d r m2 d2
    using that(1) add [of m2 "\<lambda>_. True" meta, OF _ that(2)] by (auto simp: Manifest_AddFile_def dest!: persist_cases)
  have R: "names_ok m2" if "Manifest_Replace js rm [meta] seq m1 d = ((r, m2), d2)" "fm_Name meta = sst_name ?n" for meta rm seq d r m2 d2
    using that(1) add [of m2 "\<lambda>f. fm_Name f \<notin> set rm" meta, OF _ that(2)]
    by (auto simp: Manifest_Replace_def Let_def dest!: persist_cases)
  show ?thesis using ok fresh A R by (auto simp: res split: option.splits)
qed

theorem manifest_names_unique_witness:
  "\<exists>m1 d1. Manifest_AllocFileName example_codec example_manifest (disk_of []) = ((Inr ''000002.sst'', m1), d1)
    \<and> names_ok m1 \<and> ''000002.sst'' \<notin> fm_Name ` set (Manifest_Files m1)"
proof -
  let ?m = "example_manifest\<lparr>mf_state := mf_state example_manifest\<lparr>st_NextFile := 2 + 1\<rparr>\<rparr>"
  have "state_json (mf_state ?m)" using example_manifest_ok(2) by (simp add: state_json_def)
  from persist_ok [OF disk_of_simps(1) [of "[]"] example_codec_ok this] obtain m' d' where
    P: "Manifest_persist example_codec ?m (disk_of []) = ((None, m'), d')" by blast
  have n: "st_NextFile (mf_state example_manifest) = 2" by (simp add: example_manifest_def example_state_def)
  have s: "sst_name 2 = ''000002.sst''" by code_simp
  have A: "Manifest_AllocFileName example_codec example_manifest (disk_of []) = ((Inr ''000002.sst'', m'), d')"
    unfolding Manifest_AllocFileName_def n s Let_def P by simp
  have "st_NextFile (mf_state example_manifest) < - 1" unfolding n by simp
  from manifest_names_unique [OF example_manifest_ok(3) this A] A
  show ?thesis by (intro exI [of _ m'] exI [of _ d']) simp
qed



end
