(* ===== verification/Wal.thy ===== *)
theory Wal imports Decoding Crc32x OsFile begin

text \<open>
  \<^verbatim>\<open>internal/wal\<close>: the write-ahead log.  A log file is a sequence of frames (length, type,
  checksum, payload); a payload holds one record or a batch.  The first part models the code:
  appending, recovering the valid prefix of the file when it is opened, replaying it, and
  resetting it.  A run-time panic (a slice bound out of range on a malformed payload) is the
  error \<^verbatim>\<open>Panic\<close>.
\<close>

unbundle bit_operations_syntax

section \<open>Types\<close>

definition TypePut :: byte where [go_defs]: "TypePut = 1"
definition TypeDelete :: byte where [go_defs]: "TypeDelete = 2"
definition TypeBatch :: byte where [go_defs]: "TypeBatch = 3"
definition headerSize :: nat where [go_defs]: "headerSize = 4 + 1 + 4"

record Record =
  rc_Type :: byte
  rc_Key :: slice
  rc_Value :: bytes
  rc_Seq :: u64
  rc_Deleted :: bool

record WalOptions =
  wo_SyncEveryN :: int
  wo_SyncOnWrite :: bool
  wo_FileName :: string

definition WalOptions_normalize :: "WalOptions option \<Rightarrow> WalOptions" where
  "WalOptions_normalize o' =
     (case o' of
        None \<Rightarrow> \<lparr>wo_SyncEveryN = 0, wo_SyncOnWrite = True, wo_FileName = ''wal.log''\<rparr>
      | Some out \<Rightarrow> if wo_FileName out = '''' then out\<lparr>wo_FileName := ''wal.log''\<rparr> else out)"

record Log =
  lg_f :: os_file
  lg_opts :: WalOptions
  lg_appends :: nat
  lg_closed :: bool
  lg_size :: nat
  lg_nextSeq :: u64

record BatchEntry =
  be_Key :: slice
  be_Value :: slice
  be_Deleted :: bool

section \<open>Decoding payloads\<close>

definition decodeOne :: "byte \<Rightarrow> bytes \<Rightarrow> error + Record" where
  "decodeOne typ payload =
     (case decode_at wal_ErrCorrupt payload 0 of
        Inl e \<Rightarrow> Inl e
      | Inr (seq, off) \<Rightarrow>
          (case decode_blob wal_ErrCorrupt payload (int off) of
             Inl e \<Rightarrow> Inl e
           | Inr (key, off) \<Rightarrow>
               (case decode_blob wal_ErrCorrupt payload off of
                  Inl e \<Rightarrow> Inl e
                | Inr (val, off) \<Rightarrow>
                    Inr \<lparr>rc_Type = typ, rc_Key = append_nil key, rc_Value = val, rc_Seq = seq,
                        rc_Deleted = (typ = TypeDelete)\<rparr>)))"

fun decodeBatch_loop :: "nat \<Rightarrow> bytes \<Rightarrow> int \<Rightarrow> Record list \<Rightarrow> error + Record list" where
  "decodeBatch_loop 0 payload off out = Inr out"
| "decodeBatch_loop (Suc left) payload off out =
     (case decode_at wal_ErrCorrupt payload off of
        Inl e \<Rightarrow> Inl e
      | Inr (seq, noff) \<Rightarrow>
          let off = off + int noff
          in if int (length payload) \<le> off then Inl wal_ErrCorrupt
             else
               let typ = payload ! nat off; off = off + 1
               in (case decode_blob wal_ErrCorrupt payload off of
                     Inl e \<Rightarrow> Inl e
                   | Inr (key, off) \<Rightarrow>
                       (case decode_blob wal_ErrCorrupt payload off of
                          Inl e \<Rightarrow> Inl e
                        | Inr (val, off) \<Rightarrow>
                            decodeBatch_loop left payload off
                              (out @ [\<lparr>rc_Type = typ, rc_Key = append_nil key, rc_Value = val,
                                       rc_Seq = seq, rc_Deleted = (typ = TypeDelete)\<rparr>]))))"

text \<open>A \<^verbatim>\<open>Record\<close> has 72 bytes.\<close>

definition decodeBatch :: "bytes \<Rightarrow> error + Record list" where
  "decodeBatch payload =
     (case decode_at wal_ErrCorrupt payload 0 of
        Inl e \<Rightarrow> Inl e
      | Inr (n, off) \<Rightarrow>
          if \<not> make_ok (unat n) 72 then Inl Panic
          else decodeBatch_loop (unat n) payload (int off) [])"

definition decodeFrame :: "byte \<Rightarrow> bytes \<Rightarrow> error + Record list" where
  "decodeFrame typ payload =
     (if typ = TypePut \<or> typ = TypeDelete then
        (case decodeOne typ payload of Inl e \<Rightarrow> Inl e | Inr r \<Rightarrow> Inr [r])
      else if typ = TypeBatch then decodeBatch payload
      else Inl wal_ErrBadType)"

text \<open>
  \<^verbatim>\<open>peekSeq\<close> returns a sequence number and whether there is one (\<^verbatim>\<open>None\<close> if not).  It adds
  the lengths it skips to the offset without checking them, so the next slice may panic.
\<close>

fun peekSeq_loop :: "nat \<Rightarrow> bytes \<Rightarrow> int \<Rightarrow> u64 \<Rightarrow> error + u64 option" where
  "peekSeq_loop 0 payload off max' = Inr (Some max')"
| "peekSeq_loop (Suc left) payload off max' =
     (case slice_from payload off of
        None \<Rightarrow> Inl Panic
      | Some b \<Rightarrow>
     (case DecodeUint64 b of
        Inl _ \<Rightarrow> Inr None
      | Inr (seq, noff) \<Rightarrow>
          let off = off + int noff; max' = (if max' < seq then seq else max')
          in if int (length payload) \<le> off then Inr None
             else
               let off = off + 1
               in (case slice_from payload off of
                     None \<Rightarrow> Inl Panic
                   | Some b \<Rightarrow>
                  (case DecodeUint64 b of
                     Inl _ \<Rightarrow> Inr None
                   | Inr (klen, noff) \<Rightarrow>
                       let off = wrap_int (off + wrap_int (int noff + int_of_u64 klen))
                       in (case slice_from payload off of
                             None \<Rightarrow> Inl Panic
                           | Some b \<Rightarrow>
                          (case DecodeUint64 b of
                             Inl _ \<Rightarrow> Inr None
                           | Inr (vlen, noff) \<Rightarrow>
                               let off = wrap_int (off + wrap_int (int noff + int_of_u64 vlen))
                               in peekSeq_loop left payload off max'))))))"

definition peekSeq :: "byte \<Rightarrow> bytes \<Rightarrow> error + u64 option" where
  "peekSeq typ payload =
     (if typ = TypePut \<or> typ = TypeDelete then
        (case DecodeUint64 payload of Inl _ \<Rightarrow> Inr None | Inr (seq, _) \<Rightarrow> Inr (Some seq))
      else if typ = TypeBatch then
        (case DecodeUint64 payload of
           Inl _ \<Rightarrow> Inr None
         | Inr (n, off) \<Rightarrow> peekSeq_loop (unat n) payload (int off) 0)
      else Inr None)"

section \<open>Opening and scanning\<close>

text \<open>
  The frame at an offset, as both loops read it: the two \<^verbatim>\<open>ReadAt\<close> calls, the second only
  for a payload that is not empty.  \<^verbatim>\<open>frame_header\<close> splits the nine header bytes.
\<close>

definition frame_header :: "bytes \<Rightarrow> nat \<times> byte \<times> u32" where
  "frame_header buf =
     (unat (le_get (take 4 buf) :: u32), buf ! 4, le_get (take 4 (drop 5 buf)))"

definition read_payload :: "nat \<Rightarrow> nat \<Rightarrow> os_file \<Rightarrow> (error + bytes) \<times> os_file" where
  "read_payload plen off f = (if plen > 0 then f_readAt plen off f else (Inr [], f))"

function scanValidPrefix_loop ::
  "nat \<Rightarrow> nat \<Rightarrow> u64 \<Rightarrow> os_file \<Rightarrow> (error + (nat \<times> u64)) \<times> os_file" where
  "scanValidPrefix_loop fsize off maxSeq f =
     (if off + headerSize \<le> fsize then
        (case f_readAt headerSize off f of
           (Inl _, f) \<Rightarrow> (Inr (off, maxSeq), f)
         | (Inr buf, f) \<Rightarrow>
             (case frame_header buf of (plen, typ, wantCRC) \<Rightarrow>
              if typ \<noteq> TypePut \<and> typ \<noteq> TypeDelete \<and> typ \<noteq> TypeBatch
              then (Inr (off, maxSeq), f)
              else if off + headerSize + plen > fsize then (Inr (off, maxSeq), f)
              else
                (case read_payload plen (off + headerSize) f of
                   (Inl _, f) \<Rightarrow> (Inr (off, maxSeq), f)
                 | (Inr payload, f) \<Rightarrow>
                     if FrameChecksum typ payload \<noteq> wantCRC then (Inr (off, maxSeq), f)
                     else
                       (case peekSeq typ payload of
                          Inl e \<Rightarrow> (Inl e, f)
                        | Inr seq \<Rightarrow>
                            scanValidPrefix_loop fsize (off + headerSize + plen)
                              (case seq of
                                 None \<Rightarrow> maxSeq
                               | Some seq \<Rightarrow> if maxSeq < seq then seq else maxSeq) f))))
      else (Inr (off, maxSeq), f))"
  by pat_completeness auto
termination
  by (relation "measure (\<lambda>(fsize, off, maxSeq, f). fsize - off)") (auto simp: headerSize_def)

declare scanValidPrefix_loop.simps [simp del]

definition scanValidPrefix :: "nat \<Rightarrow> os_file \<Rightarrow> (error + (nat \<times> u64)) \<times> os_file" where
  "scanValidPrefix fsize f =
     (case f_seek 0 f of
        (Some e, f) \<Rightarrow> (Inl e, f)
      | (None, f) \<Rightarrow> scanValidPrefix_loop fsize 0 0 f)"

definition Log_recoverTail :: "Log \<Rightarrow> error option \<times> Log" where
  "Log_recoverTail l =
     (if lg_size l = 0 then (None, l)
      else
        (case scanValidPrefix (lg_size l) (lg_f l) of
           (Inl e, f) \<Rightarrow> (Some e, l\<lparr>lg_f := f\<rparr>)
         | (Inr (validEnd, maxSeq), f) \<Rightarrow>
             let l = l\<lparr>lg_f := f, lg_nextSeq := maxSeq\<rparr>
             in if validEnd < lg_size l then
                  (case f_truncate validEnd (lg_f l) of
                     (Some e, f) \<Rightarrow> (Some e, l\<lparr>lg_f := f\<rparr>)
                   | (None, f) \<Rightarrow>
                       (case f_seek validEnd f of
                          (Some e, f) \<Rightarrow> (Some e, l\<lparr>lg_f := f\<rparr>)
                        | (None, f) \<Rightarrow> (None, l\<lparr>lg_f := f, lg_size := validEnd\<rparr>)))
                else
                  (case f_seek (length (f_data (lg_f l))) (lg_f l) of
                     (Some e, f) \<Rightarrow> (Some e, l\<lparr>lg_f := f\<rparr>)
                   | (None, f) \<Rightarrow> (None, l\<lparr>lg_f := f\<rparr>))))"

text \<open>
  \<^verbatim>\<open>Open\<close>, from the point where the operating system has opened the file f (creating it
  empty when there was none) and told its size.
\<close>

definition wal_Open :: "os_file \<Rightarrow> WalOptions option \<Rightarrow> error + Log" where
  "wal_Open f opts =
     (let l = \<lparr>lg_f = f\<lparr>f_pos := 0\<rparr>, lg_opts = WalOptions_normalize opts, lg_appends = 0,
               lg_closed = False, lg_size = length (f_data f), lg_nextSeq = 0\<rparr>
      in case Log_recoverTail l of (Some e, _) \<Rightarrow> Inl e | (None, l) \<Rightarrow> Inr l)"

section \<open>Appending\<close>

definition Log_Size :: "Log \<Rightarrow> nat" where "Log_Size l = lg_size l"

definition Log_NextSeq :: "Log \<Rightarrow> u64" where "Log_NextSeq l = lg_nextSeq l + 1"

definition Log_allocSeq :: "Log \<Rightarrow> u64 \<times> Log" where
  "Log_allocSeq l = (let l = l\<lparr>lg_nextSeq := lg_nextSeq l + 1\<rparr> in (lg_nextSeq l, l))"

definition encodeKV :: "u64 \<Rightarrow> bytes \<Rightarrow> bytes \<Rightarrow> bytes" where
  "encodeKV seq key val =
     (let b = EncodeUint64 [] seq;
          b = EncodeUint64 b (of_nat (length key));
          b = b @ key;
          b = EncodeUint64 b (of_nat (length val))
      in b @ val)"

definition frame_hdr :: "byte \<Rightarrow> bytes \<Rightarrow> bytes" where
  "frame_hdr typ payload =
     le_put 4 (of_nat (length payload) :: u32) @ [typ] @ le_put 4 (FrameChecksum typ payload)"

definition Log_writeFrame :: "byte \<Rightarrow> bytes \<Rightarrow> Log \<Rightarrow> error option \<times> Log" where
  "Log_writeFrame typ payload l =
     (if length payload > 2 ^ 28 then (Some wal_PayloadTooLarge, l)
      else
        let hdr = frame_hdr typ payload
        in (case f_write hdr (lg_f l) of
              ((n, Some e), f) \<Rightarrow> (Some e, l\<lparr>lg_f := f\<rparr>)
            | ((n, None), f) \<Rightarrow>
                if n \<noteq> length hdr then (Some wal_ErrShortWrite, l\<lparr>lg_f := f\<rparr>)
                else
                  (case (if length payload > 0 then f_write payload f
                         else ((length payload, None), f)) of
                     ((n, Some e), f) \<Rightarrow> (Some e, l\<lparr>lg_f := f\<rparr>)
                   | ((n, None), f) \<Rightarrow>
                       if n \<noteq> length payload then (Some wal_ErrShortWrite, l\<lparr>lg_f := f\<rparr>)
                       else (None, l\<lparr>lg_f := f, lg_size := lg_size l + (headerSize + length payload),
                                     lg_appends := lg_appends l + 1\<rparr>))))"

definition Log_maybeSync :: "Log \<Rightarrow> error option \<times> Log" where
  "Log_maybeSync l =
     (if wo_SyncEveryN (lg_opts l) > 0 then
        (if int (lg_appends l) mod wo_SyncEveryN (lg_opts l) = 0
         then (case f_sync (lg_f l) of (e, f) \<Rightarrow> (e, l\<lparr>lg_f := f\<rparr>))
         else (None, l))
      else if wo_SyncOnWrite (lg_opts l)
      then (case f_sync (lg_f l) of (e, f) \<Rightarrow> (e, l\<lparr>lg_f := f\<rparr>))
      else (None, l))"

text \<open>The appends return the sequence number beside the error, as the code does.\<close>

definition Log_append :: "byte \<Rightarrow> bytes \<Rightarrow> bytes \<Rightarrow> Log \<Rightarrow> (u64 \<times> error option) \<times> Log" where
  "Log_append typ key val l =
     (if lg_closed l then ((0, Some wal_ErrClosed), l)
      else
        (case Log_allocSeq l of (seq, l) \<Rightarrow>
         let payload = encodeKV seq key val
         in (case Log_writeFrame typ payload l of
               (Some e, l) \<Rightarrow> ((0, Some e), l)
             | (None, l) \<Rightarrow> (case Log_maybeSync l of (e, l) \<Rightarrow> ((seq, e), l)))))"

definition Log_AppendPut :: "bytes \<Rightarrow> bytes \<Rightarrow> Log \<Rightarrow> (u64 \<times> error option) \<times> Log" where
  "Log_AppendPut key val l = Log_append TypePut key val l"

definition Log_AppendDelete :: "bytes \<Rightarrow> Log \<Rightarrow> (u64 \<times> error option) \<times> Log" where
  "Log_AppendDelete key l = Log_append TypeDelete key [] l"

definition batch_entry_type :: "BatchEntry \<Rightarrow> byte" where
  "batch_entry_type e = (if be_Deleted e then TypeDelete else TypePut)"

fun AppendBatch_loop :: "BatchEntry list \<Rightarrow> bytes \<Rightarrow> u64 \<Rightarrow> Log \<Rightarrow> (bytes \<times> u64) \<times> Log" where
  "AppendBatch_loop [] payload last' l = ((payload, last'), l)"
| "AppendBatch_loop (e # es) payload last' l =
     (case Log_allocSeq l of (seq, l) \<Rightarrow>
      let payload = EncodeUint64 payload seq;
          payload = payload @ [batch_entry_type e];
          payload = EncodeUint64 payload (of_nat (length (sbytes (be_Key e))));
          payload = payload @ sbytes (be_Key e);
          payload = EncodeUint64 payload (of_nat (length (sbytes (be_Value e))));
          payload = payload @ sbytes (be_Value e)
      in AppendBatch_loop es payload seq l)"

definition Log_AppendBatch :: "BatchEntry list \<Rightarrow> Log \<Rightarrow> (u64 \<times> error option) \<times> Log" where
  "Log_AppendBatch entries l =
     (if lg_closed l then ((0, Some wal_ErrClosed), l)
      else if entries = [] then ((lg_nextSeq l, None), l)
      else
        (case AppendBatch_loop entries (EncodeUint64 [] (of_nat (length entries))) 0 l of
           ((payload, last'), l) \<Rightarrow>
             (case Log_writeFrame TypeBatch payload l of
                (Some e, l) \<Rightarrow> ((0, Some e), l)
              | (None, l) \<Rightarrow> (case Log_maybeSync l of (e, l) \<Rightarrow> ((last', e), l)))))"

section \<open>Sync, Close, Replay, Reset\<close>

definition Log_Sync :: "Log \<Rightarrow> error option \<times> Log" where
  "Log_Sync l =
     (if lg_closed l then (Some wal_ErrClosed, l)
      else (case f_sync (lg_f l) of (e, f) \<Rightarrow> (e, l\<lparr>lg_f := f\<rparr>)))"

text \<open>The file is closed whether or not the last \<^verbatim>\<open>Sync\<close> succeeds.\<close>

definition Log_Close :: "Log \<Rightarrow> error option \<times> Log" where
  "Log_Close l =
     (if lg_closed l then (None, l)
      else
        (case f_sync (lg_f l) of (e1, f) \<Rightarrow>
         case f_next f of (out, f) \<Rightarrow>
           let e2 = (if out = None then None else Some OsError)
           in (if e1 = None then e2 else e1, l\<lparr>lg_closed := True, lg_f := f\<rparr>)))"

fun replay_records :: "(Record \<Rightarrow> 's \<Rightarrow> error option \<times> 's) \<Rightarrow> Record list \<Rightarrow> 's \<Rightarrow> error option \<times> 's" where
  "replay_records fn [] s = (None, s)"
| "replay_records fn (r # rs) s =
     (case fn r s of (Some e, s) \<Rightarrow> (Some e, s) | (None, s) \<Rightarrow> replay_records fn rs s)"

function Replay_loop ::
  "(Record \<Rightarrow> 's \<Rightarrow> error option \<times> 's) \<Rightarrow> nat \<Rightarrow> nat \<Rightarrow> 's \<Rightarrow> os_file \<Rightarrow> (error option \<times> 's) \<times> os_file" where
  "Replay_loop fn fsize off s f =
     (if off + headerSize \<le> fsize then
        (case f_readAt headerSize off f of
           (Inl _, f) \<Rightarrow> ((None, s), f)
         | (Inr hdr, f) \<Rightarrow>
             (case frame_header hdr of (plen, typ, want) \<Rightarrow>
              if off + headerSize + plen > fsize then ((None, s), f)
              else
                (case read_payload plen (off + headerSize) f of
                   (Inl _, f) \<Rightarrow> ((None, s), f)
                 | (Inr payload, f) \<Rightarrow>
                     if FrameChecksum typ payload \<noteq> want then ((None, s), f)
                     else
                       (case decodeFrame typ payload of
                          Inl e \<Rightarrow> ((Some e, s), f)
                        | Inr recs \<Rightarrow>
                            (case replay_records fn recs s of
                               (Some e, s) \<Rightarrow> ((Some e, s), f)
                             | (None, s) \<Rightarrow> Replay_loop fn fsize (off + headerSize + plen) s f)))))
      else ((None, s), f))"
  by pat_completeness auto
termination
  by (relation "measure (\<lambda>(fn, fsize, off, s, f). fsize - off)") (auto simp: headerSize_def)

declare Replay_loop.simps [simp del]

definition Log_Replay :: "(Record \<Rightarrow> 's \<Rightarrow> error option \<times> 's) \<Rightarrow> 's \<Rightarrow> Log \<Rightarrow> (error option \<times> 's) \<times> Log" where
  "Log_Replay fn s l =
     (if lg_closed l then ((Some wal_ErrClosed, s), l)
      else
        (case f_seek 0 (lg_f l) of
           (Some e, f) \<Rightarrow> ((Some e, s), l\<lparr>lg_f := f\<rparr>)
         | (None, f) \<Rightarrow>
             (case Replay_loop fn (lg_size l) 0 s f of
                ((Some e, s), f) \<Rightarrow> ((Some e, s), l\<lparr>lg_f := f\<rparr>)
              | ((None, s), f) \<Rightarrow>
                  (case f_seek (lg_size l) f of (e, f) \<Rightarrow> ((e, s), l\<lparr>lg_f := f\<rparr>)))))"

definition Log_Reset :: "Log \<Rightarrow> error option \<times> Log" where
  "Log_Reset l =
     (if lg_closed l then (Some wal_ErrClosed, l)
      else
        (case f_truncate 0 (lg_f l) of
           (Some e, f) \<Rightarrow> (Some e, l\<lparr>lg_f := f\<rparr>)
         | (None, f) \<Rightarrow>
             (case f_seek 0 f of
                (Some e, f) \<Rightarrow> (Some e, l\<lparr>lg_f := f\<rparr>)
              | (None, f) \<Rightarrow>
                  (case f_sync f of
                     (e, f) \<Rightarrow> (e, l\<lparr>lg_f := f, lg_size := 0, lg_appends := 0\<rparr>)))))"

definition Log_SetNextSeq :: "u64 \<Rightarrow> Log \<Rightarrow> Log" where
  "Log_SetNextSeq seq l = (if lg_nextSeq l < seq then l\<lparr>lg_nextSeq := seq\<rparr> else l)"

section \<open>Decoding what was encoded\<close>

lemma encodeKV_eq:
  "encodeKV seq key val = EncodeUint64 [] seq @ EncodeUint64 [] (of_nat (length key)) @ key @
     EncodeUint64 [] (of_nat (length val)) @ val"
  unfolding encodeKV_def Let_def by (metis EncodeUint64_acc append_assoc)

lemma decodeOne_encodeKV:
  assumes "length (encodeKV seq key val) < 2 ^ 63"
  shows "decodeOne typ (encodeKV seq key val) =
    Inr \<lparr>rc_Type = typ, rc_Key = append_nil key, rc_Value = val, rc_Seq = seq,
        rc_Deleted = (typ = TypeDelete)\<rparr>"
proof -
  let ?p = "encodeKV seq key val" and ?K = "EncodeUint64 [] (of_nat (length key))"
  have 1: "decode_at wal_ErrCorrupt ?p 0 = Inr (seq, SizeUint64 seq)"
    using decode_at_enc [of wal_ErrCorrupt "[]" seq] by (simp add: encodeKV_eq)
  have 2: "decode_blob wal_ErrCorrupt ?p (int (SizeUint64 seq)) =
      Inr (key, int (length (EncodeUint64 [] seq @ ?K @ key)))"
    by (rule decode_blob_enc [OF _ assms, of "EncodeUint64 [] seq"]) (simp_all add: encodeKV_eq)
  have 3: "decode_blob wal_ErrCorrupt ?p (int (length (EncodeUint64 [] seq @ ?K @ key))) =
      Inr (val, int (length ?p))"
    using decode_blob_enc [OF _ assms, of "EncodeUint64 [] seq @ ?K @ key" val "[]"]
    by (simp add: encodeKV_eq)
  show ?thesis unfolding decodeOne_def 1 using 2 3 by simp
qed

text \<open>The body of a batch whose first entry gets the sequence number after s, and its records.\<close>

fun batch_body :: "u64 \<Rightarrow> BatchEntry list \<Rightarrow> bytes" where
  "batch_body s [] = []"
| "batch_body s (e # es) =
     EncodeUint64 [] (s + 1) @ [batch_entry_type e] @
     EncodeUint64 [] (of_nat (length (sbytes (be_Key e)))) @ sbytes (be_Key e) @
     EncodeUint64 [] (of_nat (length (sbytes (be_Value e)))) @ sbytes (be_Value e) @ batch_body (s + 1) es"

fun batch_records :: "u64 \<Rightarrow> BatchEntry list \<Rightarrow> Record list" where
  "batch_records s [] = []"
| "batch_records s (e # es) =
     \<lparr>rc_Type = batch_entry_type e, rc_Key = append_nil (sbytes (be_Key e)),
      rc_Value = sbytes (be_Value e), rc_Seq = s + 1, rc_Deleted = be_Deleted e\<rparr> # batch_records (s + 1) es"

lemma length_batch_records [simp]: "length (batch_records s es) = length es"
  by (induction es arbitrary: s) auto

lemma length_batch_body: "length es \<le> length (batch_body s es)"
  by (induction es arbitrary: s) (auto simp: le_SucI trans_le_add2)

lemma AppendBatch_loop_eq:
  "AppendBatch_loop es payload last' l =
     ((payload @ batch_body (lg_nextSeq l) es,
       if es = [] then last' else lg_nextSeq l + of_nat (length es)),
      l\<lparr>lg_nextSeq := lg_nextSeq l + of_nat (length es)\<rparr>)"
proof (induction es arbitrary: payload last' l)
  case (Cons e es)
  have enc: "EncodeUint64 (p @ q) x = p @ EncodeUint64 q x" for p q x
    by (metis EncodeUint64_acc append_assoc)
  have acc: "EncodeUint64 (b # q) x = b # EncodeUint64 q x" for b q x
    using enc [of "[b]" q x] by simp
  show ?case
    by (simp add: Cons Log_allocSeq_def EncodeUint64_acc [of payload] EncodeUint64_acc [of "sbytes (be_Key e)"]
        enc acc ac_simps)
qed simp

lemma type_Delete_iff [simp]: "batch_entry_type e = TypeDelete \<longleftrightarrow> be_Deleted e"
  by (simp add: batch_entry_type_def TypeDelete_def TypePut_def)

lemma decodeBatch_loop_body:
  assumes "payload = pre @ batch_body s es @ rest" and "length payload < 2 ^ 63"
    and "off = int (length pre)"
  shows "decodeBatch_loop (length es) payload off out = Inr (out @ batch_records s es)"
  using assms
proof (induction es arbitrary: pre s off out)
  case (Cons e es)
  let ?S = "EncodeUint64 [] (s + 1)" and ?k = "sbytes (be_Key e)" and ?v = "sbytes (be_Value e)"
  let ?K = "EncodeUint64 [] (of_nat (length ?k))" and ?V = "EncodeUint64 [] (of_nat (length ?v))"
  let ?p1 = "pre @ ?S @ [batch_entry_type e]"
  let ?p2 = "?p1 @ ?K @ ?k" and ?p3 = "?p1 @ ?K @ ?k @ ?V @ ?v"
  have 1: "decode_at wal_ErrCorrupt payload off = Inr (s + 1, SizeUint64 (s + 1))"
    using Cons.prems by simp
  have 2: "payload ! (length pre + SizeUint64 (s + 1)) = batch_entry_type e"
    using Cons.prems(1) nth_append_length [of "pre @ ?S" "batch_entry_type e"] by simp
  have 3: "decode_blob wal_ErrCorrupt payload (int (length ?p1)) = Inr (?k, int (length ?p2))"
    using decode_blob_enc [of payload ?p1 ?k "?V @ ?v @ batch_body (s + 1) es @ rest"] Cons.prems
    by simp
  have 4: "decode_blob wal_ErrCorrupt payload (int (length ?p2)) = Inr (?v, int (length ?p3))"
    using decode_blob_enc [of payload ?p2 ?v "batch_body (s + 1) es @ rest"] Cons.prems
    by simp
  have 5: "decodeBatch_loop (length es) payload (int (length ?p3)) out' =
      Inr (out' @ batch_records (s + 1) es)" for out'
    by (rule Cons.IH [of ?p3 "s + 1"]) (use Cons.prems in simp_all)
  have "length pre + SizeUint64 (s + 1) < length payload" using Cons.prems(1) by simp
  then show ?case
    using 1 2 3 4 5 Cons.prems(3)
    by (simp add: nat_add_distrib add_ac not_le Let_def)
qed simp

lemma peekSeq_skip:
  assumes "payload = pre @ EncodeUint64 [] (of_nat (length b)) @ b @ rest"
    and "length payload < 2 ^ 63"
  shows "wrap_int (int (length pre) + wrap_int (int (SizeUint64 (of_nat (length b))) +
      int_of_u64 (of_nat (length b)))) =
    int (length (pre @ EncodeUint64 [] (of_nat (length b)) @ b))"
proof -
  have i: "int_of_u64 (of_nat (length b)) = int (length b)"
    using assms by (intro int_of_u64_of_nat) simp
  show ?thesis
    unfolding i using assms by (subst (2) wrap_int_id, simp, simp, subst wrap_int_id) simp_all
qed

lemma peekSeq_loop_body:
  assumes "payload = pre @ batch_body s es @ rest" and "length payload < 2 ^ 63"
    and "off = int (length pre)"
  shows "peekSeq_loop (length es) payload off m =
    Inr (Some (fold max (map rc_Seq (batch_records s es)) m))"
  using assms
proof (induction es arbitrary: pre s off m)
  case (Cons e es)
  let ?S = "EncodeUint64 [] (s + 1)" and ?k = "sbytes (be_Key e)" and ?v = "sbytes (be_Value e)"
  let ?K = "EncodeUint64 [] (of_nat (length ?k))" and ?V = "EncodeUint64 [] (of_nat (length ?v))"
  let ?p1 = "pre @ ?S @ [batch_entry_type e]"
  let ?p2 = "?p1 @ ?K @ ?k" and ?p3 = "?p1 @ ?K @ ?k @ ?V @ ?v"
  have 0: "slice_from payload (int (length pre)) = Some (drop (length pre) payload)"
    "DecodeUint64 (drop (length pre) payload) = Inr (s + 1, SizeUint64 (s + 1))"
    using Cons.prems by simp_all
  have 1: "slice_from payload (int (length ?p1)) = Some (drop (length ?p1) payload)"
    by (rule slice_from_nat) (use Cons.prems(1) in simp)
  have d1: "DecodeUint64 (drop (length ?p1) payload) = Inr (of_nat (length ?k), SizeUint64 (of_nat (length ?k)))"
    using Cons.prems by simp
  have 2: "slice_from payload (int (length ?p2)) = Some (drop (length ?p2) payload)"
    by (rule slice_from_nat) (use Cons.prems(1) in simp)
  have d2: "DecodeUint64 (drop (length ?p2) payload) = Inr (of_nat (length ?v), SizeUint64 (of_nat (length ?v)))"
    using Cons.prems by simp
  have s1: "wrap_int (int (length ?p1) + wrap_int (int (SizeUint64 (of_nat (length ?k))) +
      int_of_u64 (of_nat (length ?k)))) = int (length ?p2)"
    using peekSeq_skip [of payload ?p1 ?k "?V @ ?v @ batch_body (s + 1) es @ rest"] Cons.prems by simp
  have s2: "wrap_int (int (length ?p2) + wrap_int (int (SizeUint64 (of_nat (length ?v))) +
      int_of_u64 (of_nat (length ?v)))) = int (length ?p3)"
    using peekSeq_skip [of payload ?p2 ?v "batch_body (s + 1) es @ rest"] Cons.prems by simp
  have IH: "peekSeq_loop (length es) payload (int (length ?p3)) m' =
      Inr (Some (fold max (map rc_Seq (batch_records (s + 1) es)) m'))" for m'
    by (rule Cons.IH [of ?p3 "s + 1"]) (use Cons.prems in simp_all)
  have p1: "int (length pre) + int (SizeUint64 (s + 1)) + 1 = int (length ?p1)" by simp
  have max: "(if m < s + 1 then s + 1 else m) = max (s + 1) m"
    by (auto simp: max_def intro: antisym)
  have "length pre + SizeUint64 (s + 1) < length payload" using Cons.prems(1) by simp
  then show ?case
    unfolding peekSeq_loop.simps length_Cons Cons.prems(3)
    using 0 1 d1 2 d2 IH
    by (simp only: option.case sum.case prod.case Let_def p1 s1 s2 max batch_records.simps) simp
qed simp

section \<open>Frames\<close>

text \<open>What the three appends write, as data: the sequence numbers of a batch follow s.\<close>

datatype wframe = FPut u64 bytes bytes | FDelete u64 bytes | FBatch u64 "BatchEntry list"

fun frame_type :: "wframe \<Rightarrow> byte" where
  "frame_type (FPut _ _ _) = TypePut"
| "frame_type (FDelete _ _) = TypeDelete"
| "frame_type (FBatch _ _) = TypeBatch"

fun frame_payload :: "wframe \<Rightarrow> bytes" where
  "frame_payload (FPut seq k v) = encodeKV seq k v"
| "frame_payload (FDelete seq k) = encodeKV seq k []"
| "frame_payload (FBatch s es) = EncodeUint64 [] (of_nat (length es)) @ batch_body s es"

fun frame_records :: "wframe \<Rightarrow> Record list" where
  "frame_records (FPut seq k v) =
     [\<lparr>rc_Type = TypePut, rc_Key = append_nil k, rc_Value = v, rc_Seq = seq, rc_Deleted = False\<rparr>]"
| "frame_records (FDelete seq k) =
     [\<lparr>rc_Type = TypeDelete, rc_Key = append_nil k, rc_Value = [], rc_Seq = seq, rc_Deleted = True\<rparr>]"
| "frame_records (FBatch s es) = batch_records s es"

definition frame_bytes :: "wframe \<Rightarrow> bytes" where
  "frame_bytes fr = frame_hdr (frame_type fr) (frame_payload fr) @ frame_payload fr"

definition frame_ok :: "wframe \<Rightarrow> bool" where
  "frame_ok fr = (length (frame_payload fr) \<le> 2 ^ 28)"

definition frames_bytes :: "wframe list \<Rightarrow> bytes" where
  "frames_bytes frs = concat (map frame_bytes frs)"

definition frames_records :: "wframe list \<Rightarrow> Record list" where
  "frames_records frs = concat (map frame_records frs)"

definition max_seq :: "Record list \<Rightarrow> u64 \<Rightarrow> u64" where
  "max_seq rs m = fold max (map rc_Seq rs) m"

lemma frames_simps [simp]:
  "frames_bytes [] = []" "frames_bytes (fr # frs) = frame_bytes fr @ frames_bytes frs"
  "frames_bytes (frs @ frs') = frames_bytes frs @ frames_bytes frs'"
  "frames_records [] = []" "frames_records (fr # frs) = frame_records fr @ frames_records frs"
  "frames_records (frs @ frs') = frames_records frs @ frames_records frs'"
  by (simp_all add: frames_bytes_def frames_records_def)

lemma max_seq_simps [simp]:
  "max_seq [] m = m" "max_seq (r # rs) m = max_seq rs (max (rc_Seq r) m)"
  "max_seq (rs @ rs') m = max_seq rs' (max_seq rs m)"
  by (simp_all add: max_seq_def)

lemma max_seq_eq: "max_seq rs m = max m (max_seq rs 0)"
proof (induction rs arbitrary: m)
  case (Cons r rs)
  from Cons [of "max (rc_Seq r) m"] Cons [of "max (rc_Seq r) 0"] show ?case
    by (simp add: max.assoc max.commute max.left_commute)
qed simp

lemma length_frame_hdr [simp]: "length (frame_hdr typ payload) = headerSize"
  by (simp add: frame_hdr_def headerSize_def)

lemma frame_type_cases:
  "frame_type fr = TypePut \<or> frame_type fr = TypeDelete \<or> frame_type fr = TypeBatch"
  by (cases fr) auto

lemma types_distinct [simp]:
  "TypePut \<noteq> TypeDelete" "TypePut \<noteq> TypeBatch" "TypeDelete \<noteq> TypeBatch"
  "TypeDelete \<noteq> TypePut" "TypeBatch \<noteq> TypePut" "TypeBatch \<noteq> TypeDelete"
  by (simp_all add: TypePut_def TypeDelete_def TypeBatch_def)

lemma frame_header_hdr:
  assumes "length payload < 2 ^ 32"
  shows "frame_header (frame_hdr typ payload) = (length payload, typ, FrameChecksum typ payload)"
proof -
  have "unat (of_nat (length payload) :: u32) = length payload"
    using assms by (simp add: unsigned_of_nat take_bit_nat_eq_self)
  moreover have "frame_hdr typ payload ! 4 = typ"
    by (simp add: frame_hdr_def nth_append)
  ultimately show ?thesis
    using le32.get_put by (simp add: frame_header_def frame_hdr_def del: le_put.simps)
qed

lemma length_es_payload: "length es \<le> length (frame_payload (FBatch s es))"
  using length_batch_body [of es s] by simp

lemma decodeFrame_frame:
  assumes "frame_ok fr"
  shows "decodeFrame (frame_type fr) (frame_payload fr) = Inr (frame_records fr)"
proof (cases fr)
  case (FBatch s es)
  let ?N = "EncodeUint64 [] (of_nat (length es))"
  have len: "length es \<le> 2 ^ 28"
    using assms length_es_payload [of es s] by (simp add: frame_ok_def FBatch)
  then have n: "unat (of_nat (length es) :: u64) = length es"
    by (simp add: unsigned_of_nat take_bit_nat_eq_self)
  have "decode_at wal_ErrCorrupt (frame_payload fr) 0 = Inr (of_nat (length es), SizeUint64 (of_nat (length es)))"
    using decode_at_enc [of wal_ErrCorrupt "[]"] FBatch by simp
  moreover have "make_ok (unat (of_nat (length es) :: u64)) 72"
    using len by (simp add: make_ok_def n)
  moreover have "decodeBatch_loop (length es) (frame_payload fr) (int (length ?N)) [] =
      Inr ([] @ batch_records s es)"
    by (rule decodeBatch_loop_body [of _ ?N s es "[]"])
      (use assms FBatch in \<open>simp_all add: frame_ok_def\<close>)
  ultimately show ?thesis using FBatch n by (simp add: decodeFrame_def decodeBatch_def)
qed (use assms decodeOne_encodeKV in \<open>simp_all add: decodeFrame_def frame_ok_def\<close>)

lemma peekSeq_frame:
  assumes "frame_ok fr"
  shows "peekSeq (frame_type fr) (frame_payload fr) = Inr (Some (max_seq (frame_records fr) 0))"
proof (cases fr)
  case (FBatch s es)
  let ?N = "EncodeUint64 [] (of_nat (length es))"
  have "length es \<le> 2 ^ 28"
    using assms length_es_payload [of es s] by (simp add: frame_ok_def FBatch)
  then have "unat (of_nat (length es) :: u64) = length es"
    by (simp add: unsigned_of_nat take_bit_nat_eq_self)
  moreover have "peekSeq_loop (length es) (frame_payload fr) (int (length ?N)) 0 =
      Inr (Some (fold max (map rc_Seq (batch_records s es)) 0))"
    by (rule peekSeq_loop_body [of _ ?N s es "[]"])
      (use assms FBatch in \<open>simp_all add: frame_ok_def\<close>)
  ultimately show ?thesis using FBatch by (simp add: peekSeq_def max_seq_def)
qed (simp_all add: peekSeq_def encodeKV_eq)

end
