(* ===== verification/Lsmkv.thy ===== *)
theory Lsmkv imports Compact Filelock Manifest Wal Memtable "HOL-Library.AList" begin

text \<open>
  \<^verbatim>\<open>lsmkv\<close>: the database over all the packages.  A \<^verbatim>\<open>DB\<close> holds the lock, the log with its
  open file, the memtable, the manifest and the open tables; the directory is threaded beside it.
  While the database is open the log's file lives in the \<^verbatim>\<open>Log\<close> and goes back into the
  directory when it is closed.  A call that does not return, or in which the skip list panics,
  gives \<^verbatim>\<open>None\<close>; locks between goroutines are not modelled.
\<close>

section \<open>Options\<close>

definition SyncFull :: int where "SyncFull = 0"
definition SyncBatch :: int where "SyncBatch = 1"
definition SyncNone :: int where "SyncNone = 2"

record DbOptions =
  do_MemtableBytes :: int
  do_SyncPolicy :: int
  do_SyncEveryN :: int
  do_CompactThreshold :: int
  do_ReadOnly :: bool

definition DbOptions_normalize :: "DbOptions option \<Rightarrow> DbOptions" where
  "DbOptions_normalize o' =
     (let out = \<lparr>do_MemtableBytes = 4 * 2 ^ 20, do_SyncPolicy = SyncFull, do_SyncEveryN = 32,
                 do_CompactThreshold = 2, do_ReadOnly = False\<rparr>
      in case o' of
           None \<Rightarrow> out
         | Some p \<Rightarrow>
             (let out = (if do_MemtableBytes p > 0 then out\<lparr>do_MemtableBytes := do_MemtableBytes p\<rparr> else out);
                  out = out\<lparr>do_SyncPolicy := do_SyncPolicy p\<rparr>;
                  out = (if do_SyncEveryN p > 0 then out\<lparr>do_SyncEveryN := do_SyncEveryN p\<rparr> else out);
                  out = (if do_CompactThreshold p > 0
                         then out\<lparr>do_CompactThreshold := do_CompactThreshold p\<rparr> else out)
              in out\<lparr>do_ReadOnly := do_ReadOnly p\<rparr>))"

definition walOpts :: "DbOptions \<Rightarrow> WalOptions" where
  "walOpts o' =
     (if do_SyncPolicy o' = SyncNone then \<lparr>wo_SyncEveryN = 0, wo_SyncOnWrite = False, wo_FileName = []\<rparr>
      else if do_SyncPolicy o' = SyncBatch
      then \<lparr>wo_SyncEveryN = do_SyncEveryN o', wo_SyncOnWrite = False, wo_FileName = []\<rparr>
      else \<lparr>wo_SyncEveryN = 0, wo_SyncOnWrite = True, wo_FileName = []\<rparr>)"

section \<open>The database and its surroundings\<close>

record DB =
  db_dir :: string
  db_opts :: DbOptions
  db_lock :: Lock
  db_wal :: Log
  db_mem :: MemTable
  db_manif :: Manifest
  db_tables :: "Reader list"
  db_closed :: bool

text \<open>What stays the same while a database is used: the process, the text codec of the manifest, the
  floating-point sizes of the filters and the memtable's source of random numbers.\<close>

record world =
  wd_process :: process
  wd_codec :: codec
  wd_sizing :: sizing
  wd_rnd :: "nat \<Rightarrow> nat"

text \<open>\<^verbatim>\<open>wal.Open\<close> and \<^verbatim>\<open>sstable.WriteFile\<close> with the files they open in the directory.\<close>

definition dk_OpenRW :: "string \<Rightarrow> disk \<Rightarrow> (error + os_file) \<times> disk" where
  "dk_OpenRW name d =
     (case dk_next d of
        (None, d) \<Rightarrow>
          (case dk_files d name of
             None \<Rightarrow> (Inr (dk_handle [] d), dk_put name [] d)
           | Some (b, _) \<Rightarrow> (Inr (dk_handle b d), d))
      | (Some _, d) \<Rightarrow> (Inl OsError, d))"

definition dk_wal_Open :: "string \<Rightarrow> WalOptions \<Rightarrow> disk \<Rightarrow> (error + Log) \<times> disk" where
  "dk_wal_Open dir opts d =
     (let o' = WalOptions_normalize (Some opts); name = wo_FileName o'
      in case dk_MkdirAll dir d of
           (Some e, d) \<Rightarrow> (Inl e, d)
         | (None, d) \<Rightarrow>
             (case dk_OpenRW name d of
                (Inl e, d) \<Rightarrow> (Inl e, d)
              | (Inr f, d) \<Rightarrow>
                  (case f_stat_size f of
                     (Inl e, _) \<Rightarrow> (Inl e, d)
                   | (Inr n, f) \<Rightarrow>
                       (case Log_recoverTail \<lparr>lg_f = f, lg_opts = o', lg_appends = 0, lg_closed = False,
                                             lg_size = n, lg_nextSeq = 0\<rparr> of
                          (Some e, l) \<Rightarrow> (Inl e, dk_save name (lg_f l) d)
                        | (None, l) \<Rightarrow> (Inr l, d)))))"

definition dk_wal_Close :: "Log \<Rightarrow> disk \<Rightarrow> (error option \<times> Log) \<times> disk" where
  "dk_wal_Close l d =
     (case Log_Close l of (e, l) \<Rightarrow> ((e, l), dk_save (wo_FileName (lg_opts l)) (lg_f l) d))"

definition dk_sst_WriteFile ::
  "sizing \<Rightarrow> string \<Rightarrow> sst_Entry list \<Rightarrow> WriterOptions option \<Rightarrow> disk \<Rightarrow> (error + Meta) \<times> disk" where
  "dk_sst_WriteFile sz path entries opts d =
     (case dk_Create path d of
        (Inl e, d) \<Rightarrow> (Inl e, d)
      | (Inr f, d) \<Rightarrow>
          (case sst_WriteFile sz path entries opts f of
             (r, Some f) \<Rightarrow> (r, dk_save path f d)
           | (r, None) \<Rightarrow> (r, d\<lparr>dk_files := (dk_files d)(path := None)\<rparr>)))"

section \<open>Flushing\<close>

definition to_sst :: "Entry \<Rightarrow> sst_Entry" where
  "to_sst e = \<lparr>se_Key = e_Key e, se_Value = e_Value e, se_Seq = e_Seq e, se_Deleted = e_Deleted e\<rparr>"

text \<open>The greatest number and the bounds of the keys of a snapshot.\<close>

fun flush_bounds :: "Entry list \<Rightarrow> u64 \<Rightarrow> slice \<Rightarrow> slice \<Rightarrow> u64 \<times> slice \<times> slice" where
  "flush_bounds [] maxSeq minKey maxKey = (maxSeq, minKey, maxKey)"
| "flush_bounds (e # es) maxSeq minKey maxKey =
     flush_bounds es (if e_Seq e > maxSeq then e_Seq e else maxSeq)
       (if minKey = None \<or> Compare (sbytes (e_Key e)) (sbytes minKey) < 0 then e_Key e else minKey)
       (if maxKey = None \<or> Compare (sbytes (e_Key e)) (sbytes maxKey) > 0 then e_Key e else maxKey)"

definition DB_flushLocked :: "world \<Rightarrow> DB \<Rightarrow> disk \<Rightarrow> (error option \<times> DB \<times> disk) option" where
  "DB_flushLocked wd db d =
     (case MemTable_Snapshot (db_mem db) of
        None \<Rightarrow> None
      | Some snap \<Rightarrow>
          if snap = [] then Some (None, db, d)
          else
            (case Manifest_AllocFileName (wd_codec wd) (db_manif db) d of
               ((Inl e, mf), d) \<Rightarrow> Some (Some e, db\<lparr>db_manif := mf\<rparr>, d)
             | ((Inr path, mf), d) \<Rightarrow>
                 (let db = db\<lparr>db_manif := mf\<rparr>; entries = map to_sst snap
                  in case flush_bounds snap 0 None None of (maxSeq, minKey, maxKey) \<Rightarrow>
                     (case dk_sst_WriteFile (wd_sizing wd) path entries None d of
                        (Inl e, d) \<Rightarrow> Some (Some e, db, d)
                      | (Inr meta, d) \<Rightarrow>
                          (let fm = \<lparr>fm_Name = path, fm_Level = 0, fm_MinKey = Clone minKey, fm_MaxKey = Clone maxKey,
                                     fm_MaxSeq = maxSeq, fm_Entries = of_nat (length entries),
                                     fm_FileSize = int (mt_FileSize meta)\<rparr>
                           in case Manifest_AddFile (wd_codec wd) fm maxSeq (db_manif db) d of
                                ((Some e, mf), d) \<Rightarrow> Some (Some e, db\<lparr>db_manif := mf\<rparr>, snd (dk_Remove path d))
                              | ((None, mf), d) \<Rightarrow>
                                  (let db = db\<lparr>db_manif := mf\<rparr>
                                   in case dk_sst_Open path d of
                                        (Inl e, d) \<Rightarrow> Some (Some e, db, d)
                                      | (Inr r, d) \<Rightarrow>
                                          (let db = db\<lparr>db_tables := db_tables db @ [r],
                                                       db_mem := MemTable_Clear (db_mem db)\<rparr>
                                           in case Log_Reset (db_wal db) of
                                                (Some e, l) \<Rightarrow> Some (Some e, db\<lparr>db_wal := l\<rparr>, d)
                                              | (None, l) \<Rightarrow>
                                                  Some (None, db\<lparr>db_wal := Log_SetNextSeq maxSeq l\<rparr>, d))))))))"

text \<open>The end of the writes: a flush when the memtable is full.\<close>

definition DB_maybeFlush :: "world \<Rightarrow> DB \<Rightarrow> disk \<Rightarrow> (error option \<times> DB \<times> disk) option" where
  "DB_maybeFlush wd db d =
     (if MemTable_ShouldFlush (db_mem db) then DB_flushLocked wd db d else Some (None, db, d))"

section \<open>Closing\<close>

definition first_error :: "error option \<Rightarrow> error option \<Rightarrow> error option" where
  "first_error first' err = (if err \<noteq> None \<and> first' = None then err else first')"

fun close_tables :: "Reader list \<Rightarrow> error option \<Rightarrow> error option \<times> Reader list" where
  "close_tables [] first' = (first', [])"
| "close_tables (t # ts) first' =
     (case Reader_Close t of (e, t) \<Rightarrow>
        (case close_tables ts (first_error first' e) of (first', ts) \<Rightarrow> (first', t # ts)))"

definition DB_closeUnlocked :: "world \<Rightarrow> DB \<Rightarrow> disk \<Rightarrow> (error option \<times> DB \<times> disk) option" where
  "DB_closeUnlocked wd db d =
     (if db_closed db then Some (None, db, d)
      else
        (let db = db\<lparr>db_closed := True\<rparr>
         in case (if \<not> do_ReadOnly (db_opts db) \<and> MemTable_Len (db_mem db) > 0
                  then DB_flushLocked wd db d else Some (None, db, d)) of
              None \<Rightarrow> None
            | Some (first', db, d) \<Rightarrow>
                (case dk_wal_Close (db_wal db) d of ((e, l), d) \<Rightarrow>
                   (case close_tables (db_tables db) (first_error first' e) of (first', ts) \<Rightarrow>
                      (case Lock_Release (Some (db_lock db)) d of ((e, lk), d) \<Rightarrow>
                         Some (first_error first' e,
                           db\<lparr>db_wal := l, db_tables := ts, db_lock := the lk\<rparr>, d))))))"

definition DB_Close :: "world \<Rightarrow> DB \<Rightarrow> disk \<Rightarrow> (error option \<times> DB \<times> disk) option" where
  "DB_Close wd db d = DB_closeUnlocked wd db d"

section \<open>Opening\<close>

fun DB_openTables :: "FileMeta list \<Rightarrow> Reader list \<Rightarrow> disk \<Rightarrow> (error + Reader list) \<times> disk" where
  "DB_openTables [] tables d = (Inr tables, d)"
| "DB_openTables (f # fs) tables d =
     (case dk_sst_Open (fm_Name f) d of
        (Inl e, d) \<Rightarrow> (Inl e, d)
      | (Inr r, d) \<Rightarrow> DB_openTables fs (tables @ [r]) d)"

text \<open>The callback of the replay; the record's value is nil when it has no byte.\<close>

definition replay_record :: "Record \<Rightarrow> MemTable option \<Rightarrow> error option \<times> MemTable option" where
  "replay_record rec m =
     (None,
      (case m of
         None \<Rightarrow> None
       | Some m \<Rightarrow>
           if rc_Deleted rec then MemTable_Delete (rc_Key rec) (rc_Seq rec) m
           else MemTable_Put (rc_Key rec) (append_nil (rc_Value rec)) (rc_Seq rec) m))"

definition DB_replayWAL :: "DB \<Rightarrow> (error option \<times> DB) option" where
  "DB_replayWAL db =
     (case Log_Replay replay_record (Some (db_mem db)) (db_wal db) of
        ((_, None), _) \<Rightarrow> None
      | ((e, Some m), l) \<Rightarrow> Some (e, db\<lparr>db_mem := m, db_wal := l\<rparr>))"

definition DB_Open :: "world \<Rightarrow> string \<Rightarrow> DbOptions option \<Rightarrow> disk \<Rightarrow> ((error + DB) \<times> disk) option" where
  "DB_Open wd dir opts d =
     (let o' = DbOptions_normalize opts; rel = (\<lambda>lk d. snd (Lock_Release (Some lk) d))
      in if dir = [] then Some (Inl lsmkv_ErrInvalid, d)
         else
           (case dk_MkdirAll dir d of
              (Some e, d) \<Rightarrow> Some (Inl e, d)
            | (None, d) \<Rightarrow>
                (case Acquire (wd_process wd) dir None d of
                   None \<Rightarrow> None
                 | Some (Inl e, d) \<Rightarrow> Some (Inl e, d)
                 | Some (Inr lk, d) \<Rightarrow>
                     (case Manifest_Open (wd_codec wd) dir d of
                        (Inl e, d) \<Rightarrow> Some (Inl e, rel lk d)
                      | (Inr mf, d) \<Rightarrow>
                          (case dk_wal_Open dir (walOpts o') d of
                             (Inl e, d) \<Rightarrow> Some (Inl e, rel lk d)
                           | (Inr w, d) \<Rightarrow>
                               (let maxSeq = Manifest_MaxSeqAmongFiles mf;
                                    maxSeq = (if Manifest_LogSeq mf > maxSeq then Manifest_LogSeq mf else maxSeq);
                                    w = Log_SetNextSeq maxSeq w
                                in case DB_openTables (Manifest_Files mf) [] d of
                                     (Inl e, d) \<Rightarrow>
                                       (case dk_wal_Close w d of (_, d) \<Rightarrow> Some (Inl e, rel lk d))
                                   | (Inr ts, d) \<Rightarrow>
                                       (let db = \<lparr>db_dir = dir, db_opts = o', db_lock = lk, db_wal = w,
                                                  db_mem = NewMemTable (wd_rnd wd) (of_int (do_MemtableBytes o')),
                                                  db_manif = mf, db_tables = ts, db_closed = False\<rparr>
                                        in case DB_replayWAL db of
                                             None \<Rightarrow> None
                                           | Some (Some e, db) \<Rightarrow>
                                               (case DB_closeUnlocked wd db d of
                                                  None \<Rightarrow> None | Some (_, _, d) \<Rightarrow> Some (Inl e, d))
                                           | Some (None, db) \<Rightarrow> Some (Inr db, d))))))))"

section \<open>Writing\<close>

definition DB_Dir :: "DB \<Rightarrow> string" where
  "DB_Dir db = db_dir db"

definition DB_writable :: "DB \<Rightarrow> error option" where
  "DB_writable db =
     (if db_closed db then Some lsmkv_ErrClosed
      else if do_ReadOnly (db_opts db) then Some lsmkv_ErrReadOnly else None)"

definition DB_Put :: "world \<Rightarrow> slice \<Rightarrow> slice \<Rightarrow> DB \<Rightarrow> disk \<Rightarrow> (error option \<times> DB \<times> disk) option" where
  "DB_Put wd key val db d =
     (if sbytes key = [] then Some (Some lsmkv_ErrInvalid, db, d)
      else if DB_writable db \<noteq> None then Some (DB_writable db, db, d)
      else
        (case Log_AppendPut (sbytes key) (sbytes val) (db_wal db) of
           ((_, Some e), l) \<Rightarrow> Some (Some e, db\<lparr>db_wal := l\<rparr>, d)
         | ((seq, None), l) \<Rightarrow>
             (case MemTable_Put key val seq (db_mem db) of
                None \<Rightarrow> None
              | Some m \<Rightarrow> DB_maybeFlush wd (db\<lparr>db_wal := l, db_mem := m\<rparr>) d)))"

definition DB_Delete :: "world \<Rightarrow> slice \<Rightarrow> DB \<Rightarrow> disk \<Rightarrow> (error option \<times> DB \<times> disk) option" where
  "DB_Delete wd key db d =
     (if sbytes key = [] then Some (Some lsmkv_ErrInvalid, db, d)
      else if DB_writable db \<noteq> None then Some (DB_writable db, db, d)
      else
        (case Log_AppendDelete (sbytes key) (db_wal db) of
           ((_, Some e), l) \<Rightarrow> Some (Some e, db\<lparr>db_wal := l\<rparr>, d)
         | ((seq, None), l) \<Rightarrow>
             (case MemTable_Delete key seq (db_mem db) of
                None \<Rightarrow> None
              | Some m \<Rightarrow> DB_maybeFlush wd (db\<lparr>db_wal := l, db_mem := m\<rparr>) d)))"

record WriteBatch =
  wb_entries :: "BatchEntry list"

definition NewWriteBatch :: WriteBatch where "NewWriteBatch = \<lparr>wb_entries = []\<rparr>"

definition WriteBatch_Put :: "slice \<Rightarrow> slice \<Rightarrow> WriteBatch \<Rightarrow> WriteBatch" where
  "WriteBatch_Put key val b =
     b\<lparr>wb_entries := wb_entries b @ [\<lparr>be_Key = Clone key, be_Value = Clone val, be_Deleted = False\<rparr>]\<rparr>"

definition WriteBatch_Delete :: "slice \<Rightarrow> WriteBatch \<Rightarrow> WriteBatch" where
  "WriteBatch_Delete key b =
     b\<lparr>wb_entries := wb_entries b @ [\<lparr>be_Key = Clone key, be_Value = None, be_Deleted = True\<rparr>]\<rparr>"

definition WriteBatch_Len :: "WriteBatch \<Rightarrow> nat" where "WriteBatch_Len b = length (wb_entries b)"

definition WriteBatch_Clear :: "WriteBatch \<Rightarrow> WriteBatch" where "WriteBatch_Clear b = b\<lparr>wb_entries := []\<rparr>"

fun write_loop :: "u64 \<Rightarrow> BatchEntry list \<Rightarrow> MemTable \<Rightarrow> MemTable option" where
  "write_loop seq [] m = Some m"
| "write_loop seq (e # es) m =
     (case (if be_Deleted e then MemTable_Delete (be_Key e) seq m
            else MemTable_Put (be_Key e) (be_Value e) seq m) of
        None \<Rightarrow> None
      | Some m \<Rightarrow> write_loop (seq + 1) es m)"

definition DB_Write :: "world \<Rightarrow> WriteBatch option \<Rightarrow> DB \<Rightarrow> disk \<Rightarrow> (error option \<times> DB \<times> disk) option" where
  "DB_Write wd batch db d =
     (case batch of
        None \<Rightarrow> Some (None, db, d)
      | Some b \<Rightarrow>
          if wb_entries b = [] then Some (None, db, d)
          else if DB_writable db \<noteq> None then Some (DB_writable db, db, d)
          else
            (case Log_AppendBatch (wb_entries b) (db_wal db) of
               ((_, Some e), l) \<Rightarrow> Some (Some e, db\<lparr>db_wal := l\<rparr>, d)
             | ((_, None), l) \<Rightarrow>
                 (let last' = Log_NextSeq l - 1; first' = last' - of_nat (length (wb_entries b)) + 1
                  in case write_loop first' (wb_entries b) (db_mem db) of
                       None \<Rightarrow> None
                     | Some m \<Rightarrow> DB_maybeFlush wd (db\<lparr>db_wal := l, db_mem := m\<rparr>) d)))"

definition DB_Sync :: "DB \<Rightarrow> error option \<times> DB" where
  "DB_Sync db =
     (if db_closed db then (Some lsmkv_ErrClosed, db)
      else (case Log_Sync (db_wal db) of (e, l) \<Rightarrow> (e, db\<lparr>db_wal := l\<rparr>)))"

definition DB_Flush :: "world \<Rightarrow> DB \<Rightarrow> disk \<Rightarrow> (error option \<times> DB \<times> disk) option" where
  "DB_Flush wd db d = (if DB_writable db \<noteq> None then Some (DB_writable db, db, d) else DB_flushLocked wd db d)"

section \<open>Reading\<close>

text \<open>The scan over the tables, from the i-th down, with the best entry so far.\<close>

fun get_loop :: "nat \<Rightarrow> bytes \<Rightarrow> sst_Entry option \<Rightarrow> Reader list \<Rightarrow> (error + sst_Entry option) \<times> Reader list" where
  "get_loop 0 key best ts = (Inr best, ts)"
| "get_loop (Suc i) key best ts =
     (case Reader_Get key (ts ! i) of
        (Inl e, t) \<Rightarrow> (Inl e, ts[i := t])
      | (Inr (e, ok), t) \<Rightarrow>
          get_loop i key
            (if ok \<and> (case best of None \<Rightarrow> True | Some b \<Rightarrow> se_Seq e > se_Seq b) then Some e else best)
            (ts[i := t]))"

definition DB_Get :: "slice \<Rightarrow> DB \<Rightarrow> ((error + slice) \<times> DB) option" where
  "DB_Get key db =
     (if db_closed db then Some (Inl lsmkv_ErrClosed, db)
      else
        (case MemTable_Get key (db_mem db) of
           None \<Rightarrow> None
         | Some (e, True) \<Rightarrow>
             Some (if e_Deleted e then Inl lsmkv_ErrNotFound else Inr (Clone (e_Value e)), db)
         | Some (_, False) \<Rightarrow>
             (case get_loop (length (db_tables db)) (sbytes key) None (db_tables db) of
                (r, ts) \<Rightarrow>
                  Some (case r of
                      Inl e \<Rightarrow> Inl e
                    | Inr None \<Rightarrow> Inl lsmkv_ErrNotFound
                    | Inr (Some best) \<Rightarrow>
                        if se_Deleted best then Inl lsmkv_ErrNotFound else Inr (Clone (se_Value best)),
                    db\<lparr>db_tables := ts\<rparr>))))"

definition DB_Has :: "slice \<Rightarrow> DB \<Rightarrow> ((error + bool) \<times> DB) option" where
  "DB_Has key db =
     (case DB_Get key db of
        None \<Rightarrow> None
      | Some (Inl e, db) \<Rightarrow> Some (if e = lsmkv_ErrNotFound then Inr False else Inl e, db)
      | Some (Inr _, db) \<Rightarrow> Some (Inr True, db))"

section \<open>Compaction\<close>

definition zero_FileMeta :: FileMeta where
  "zero_FileMeta =
     \<lparr>fm_Name = [], fm_Level = 0, fm_MinKey = None, fm_MaxKey = None, fm_MaxSeq = 0, fm_Entries = 0, fm_FileSize = 0\<rparr>"

text \<open>\<^verbatim>\<open>nameByPath\<close>: of two files of one path the later one counts.\<close>

definition name_by_path :: "FileMeta list \<Rightarrow> string \<Rightarrow> FileMeta" where
  "name_by_path files path =
     (case map_of (rev (map (\<lambda>f. (fm_Name f, f)) files)) path of None \<Rightarrow> zero_FileMeta | Some f \<Rightarrow> f)"

definition compact_refs :: "FileMeta list \<Rightarrow> Reader list \<Rightarrow> FileRef list" where
  "compact_refs files ts =
     map (\<lambda>t. let fm = name_by_path files (Reader_Path t)
              in \<lparr>fr_Path = Reader_Path t, fr_Name = fm_Name fm, fr_Level = fm_Level fm,
                  fr_Size = Reader_FileSize t\<rparr>) ts"

definition db_alloc :: "codec \<Rightarrow> Manifest \<times> disk \<Rightarrow> (error + string) \<times> (Manifest \<times> disk)" where
  "db_alloc js s = (case Manifest_AllocFileName js (fst s) (snd s) of ((r, mf), d) \<Rightarrow> (r, (mf, d)))"

text \<open>The merged files' tables are closed in place, the others kept.\<close>

definition close_removed :: "string list \<Rightarrow> Reader list \<Rightarrow> Reader list" where
  "close_removed removed ts = map (\<lambda>t. if Reader_Path t \<in> set removed then snd (Reader_Close t) else t) ts"

fun remove_files :: "string list \<Rightarrow> disk \<Rightarrow> disk" where
  "remove_files [] d = d"
| "remove_files (p # ps) d = remove_files ps (snd (dk_Remove p d))"

definition compact_meta :: "Result \<Rightarrow> FileMeta" where
  "compact_meta res =
     \<lparr>fm_Name = res_OutputPath res, fm_Level = 1, fm_MinKey = Clone (mt_MinKey (res_Meta res)),
      fm_MaxKey = Clone (mt_MaxKey (res_Meta res)), fm_MaxSeq = mt_MaxSeq (res_Meta res),
      fm_Entries = mt_Entries (res_Meta res), fm_FileSize = int (mt_FileSize (res_Meta res))\<rparr>"

definition DB_install :: "world \<Rightarrow> Result \<Rightarrow> DB \<Rightarrow> disk \<Rightarrow> error option \<times> DB \<times> disk" where
  "DB_install wd res db d =
     (let removed = res_Removed res;
          kept = filter (\<lambda>t. Reader_Path t \<notin> set removed) (db_tables db);
          removeNames = map Reader_Path (filter (\<lambda>t. Reader_Path t \<in> set removed) (db_tables db));
          db = db\<lparr>db_tables := close_removed removed (db_tables db)\<rparr>
      in case dk_sst_Open (res_OutputPath res) d of
           (Inl e, d) \<Rightarrow> (Some e, db, d)
         | (Inr r, d) \<Rightarrow>
             (case Manifest_Replace (wd_codec wd) removeNames [compact_meta res] (mt_MaxSeq (res_Meta res))
                 (db_manif db) d of
                ((Some e, mf), d) \<Rightarrow> (Some e, db\<lparr>db_manif := mf\<rparr>, d)
              | ((None, mf), d) \<Rightarrow>
                  (None, db\<lparr>db_manif := mf, db_tables := kept @ [r]\<rparr>, remove_files (remdups removed) d)))"

definition DB_Compact :: "world \<Rightarrow> DB \<Rightarrow> disk \<Rightarrow> (error option \<times> DB \<times> disk) option" where
  "DB_Compact wd db d =
     (if DB_writable db \<noteq> None then Some (DB_writable db, db, d)
      else if int (length (db_tables db)) < do_CompactThreshold (db_opts db) then Some (None, db, d)
      else
        (case CompactDir (wd_sizing wd) (compact_refs (Manifest_Files (db_manif db)) (db_tables db))
            (db_alloc (wd_codec wd))
            (Some \<lparr>co_DropTombstones = False, co_OutputLevel = 0, co_BlockSize = 0\<rparr>) (db_manif db, d) of
           None \<Rightarrow> None
         | Some (Inl e, (mf, d)) \<Rightarrow>
             Some (if e = compact_ErrNoInputs then None else Some e, db\<lparr>db_manif := mf\<rparr>, d)
         | Some (Inr res, (mf, d)) \<Rightarrow> Some (DB_install wd res (db\<lparr>db_manif := mf\<rparr>) d)))"

section \<open>Statistics\<close>

record DbStats =
  ds_MemtableBytes :: u64
  ds_MemtableKeys :: nat
  ds_SSTFiles :: nat
  ds_WALSize :: nat

definition DB_Stats :: "DB \<Rightarrow> DbStats" where
  "DB_Stats db =
     \<lparr>ds_MemtableBytes = MemTable_Bytes (db_mem db), ds_MemtableKeys = MemTable_Len (db_mem db),
      ds_SSTFiles = length (db_tables db), ds_WALSize = Log_Size (db_wal db)\<rparr>"

definition DB_TableCount :: "DB \<Rightarrow> nat" where "DB_TableCount db = length (db_tables db)"

section \<open>Iterating\<close>

record iterItem =
  ii_key :: slice
  ii_value :: slice
  ii_deleted :: bool
  ii_seq :: u64

type_synonym cands = "(bytes \<times> iterItem) list"

definition cand_update :: "slice \<Rightarrow> slice \<Rightarrow> u64 \<Rightarrow> bool \<Rightarrow> cands \<Rightarrow> cands" where
  "cand_update k v seq del m =
     (case map_of m (sbytes k) of
        Some cur \<Rightarrow>
          if ii_seq cur \<ge> seq then m
          else AList.update (sbytes k) \<lparr>ii_key = Clone k, ii_value = Clone v, ii_deleted = del, ii_seq = seq\<rparr> m
      | None \<Rightarrow> AList.update (sbytes k) \<lparr>ii_key = Clone k, ii_value = Clone v, ii_deleted = del, ii_seq = seq\<rparr> m)"

definition cand_entry :: "sst_Entry \<Rightarrow> cands \<Rightarrow> cands" where
  "cand_entry e m = cand_update (se_Key e) (se_Value e) (se_Seq e) (se_Deleted e) m"

text \<open>The loop over one table; as in the code its error is not looked at.\<close>

partial_function (option) collect_table :: "TIterator \<times> Reader \<Rightarrow> cands \<Rightarrow> (error + (cands \<times> Reader)) option" where
  "collect_table s m =
     (if TIterator_Valid (fst s)
      then (case ti_next s of
              Inl e \<Rightarrow> Some (Inl e)
            | Inr s' \<Rightarrow> collect_table s' (cand_entry (TIterator_Entry (fst s)) m))
      else Some (Inr (m, snd s)))"

fun collect_tables :: "Reader list \<Rightarrow> cands \<Rightarrow> (error + (cands \<times> Reader list)) option" where
  "collect_tables [] m = Some (Inr (m, []))"
| "collect_tables (t # ts) m =
     (case Reader_NewIterator t of
        (Inl e, t) \<Rightarrow> Some (Inl e)
      | (Inr it, t) \<Rightarrow>
          (case collect_table (it, t) m of
             None \<Rightarrow> None
           | Some (Inl e) \<Rightarrow> Some (Inl e)
           | Some (Inr (m, t)) \<Rightarrow>
               (case collect_tables ts m of
                  None \<Rightarrow> None
                | Some (Inl e) \<Rightarrow> Some (Inl e)
                | Some (Inr (m, ts)) \<Rightarrow> Some (Inr (m, t # ts)))))"

definition visible_items :: "cands \<Rightarrow> iterItem list" where
  "visible_items m =
     (let keys = sort (map fst (filter (\<lambda>(k, c). \<not> ii_deleted c) m))
      in map (\<lambda>k. (the (map_of m k))\<lparr>ii_deleted := False\<rparr>) keys)"

definition DB_collectMerged :: "DB \<Rightarrow> ((error + iterItem list) \<times> DB) option" where
  "DB_collectMerged db =
     (case MemTable_Snapshot (db_mem db) of
        None \<Rightarrow> None
      | Some snap \<Rightarrow>
          (case collect_tables (db_tables db) (fold (\<lambda>e. cand_entry (to_sst e)) snap []) of
             None \<Rightarrow> None
           | Some (Inl e) \<Rightarrow> Some (Inl e, db)
           | Some (Inr (m, ts)) \<Rightarrow> Some (Inr (visible_items m), db\<lparr>db_tables := ts\<rparr>)))"

record DbIterator =
  di_items :: "iterItem list"
  di_idx :: int

definition DB_NewIterator :: "DB \<Rightarrow> ((error + DbIterator) \<times> DB) option" where
  "DB_NewIterator db =
     (case DB_collectMerged db of
        None \<Rightarrow> None
      | Some (Inl e, db) \<Rightarrow> Some (Inl e, db)
      | Some (Inr items, db) \<Rightarrow> Some (Inr \<lparr>di_items = items, di_idx = -1\<rparr>, db))"

definition DbIterator_SeekToFirst :: "DbIterator \<Rightarrow> DbIterator" where
  "DbIterator_SeekToFirst it = (if di_items it = [] then it\<lparr>di_idx := -1\<rparr> else it\<lparr>di_idx := 0\<rparr>)"

definition DbIterator_Seek :: "bytes \<Rightarrow> DbIterator \<Rightarrow> DbIterator" where
  "DbIterator_Seek target it =
     (let idx = sort_Search (length (di_items it)) (\<lambda>i. bytes_compare (sbytes (ii_key (di_items it ! i))) target \<ge> 0)
      in if idx \<ge> length (di_items it) then it\<lparr>di_idx := -1\<rparr> else it\<lparr>di_idx := int idx\<rparr>)"

definition DbIterator_Valid :: "DbIterator \<Rightarrow> bool" where
  "DbIterator_Valid it = (di_idx it \<ge> 0 \<and> di_idx it < int (length (di_items it)))"

definition DbIterator_Next :: "DbIterator \<Rightarrow> DbIterator" where
  "DbIterator_Next it =
     (if di_idx it < 0 then it
      else (let it = it\<lparr>di_idx := di_idx it + 1\<rparr>
            in if di_idx it \<ge> int (length (di_items it)) then it\<lparr>di_idx := -1\<rparr> else it))"

definition DbIterator_Key :: "DbIterator \<Rightarrow> slice" where
  "DbIterator_Key it =
     (if \<not> DbIterator_Valid it then None else Clone (ii_key (di_items it ! nat (di_idx it))))"

definition DbIterator_Value :: "DbIterator \<Rightarrow> slice" where
  "DbIterator_Value it =
     (if \<not> DbIterator_Valid it then None else Clone (ii_value (di_items it ! nat (di_idx it))))"

end
