(* ===== verification/Wal_Recovery.thy ===== *)
theory Wal_Recovery imports Wal begin

text \<open>
  What the write-ahead log promises, over the frames it holds: opening a file recovers exactly
  its complete frames, replaying yields their records, an append adds one frame.
\<close>

section \<open>Recovery\<close>

text \<open>What a crash leaves of a frame: a proper prefix of its bytes.\<close>

definition torn :: "bytes \<Rightarrow> bool" where
  "torn b = (\<exists>fr n. frame_ok fr \<and> n < length (frame_bytes fr) \<and> b = take n (frame_bytes fr))"

lemma length_frame_bytes: "length (frame_bytes fr) = headerSize + length (frame_payload fr)"
  by (simp add: frame_bytes_def)

lemma torn_Nil [simp]: "torn []"
  unfolding torn_def
  by (rule exI [of _ "FPut 0 [] []"], rule exI [of _ 0])
    (use SizeUint64_le_10 [of 0] in \<open>simp add: MaxUint64Len_def frame_ok_def encodeKV_eq length_frame_bytes headerSize_def\<close>)

lemma read_payload_eq:
  assumes "f_reliable f" and "f_data f = pre @ b @ rest"
  shows "\<exists>t. read_payload (length b) (length pre) f = (Inr b, f\<lparr>f_tick := t\<rparr>)"
proof (cases "b = []")
  case True
  then show ?thesis by (auto simp: read_payload_def intro: exI [of _ "f_tick f"])
qed (use f_readAt_eq [OF assms] in \<open>auto simp: read_payload_def\<close>)

lemma frame_payload_bound: "frame_ok fr \<Longrightarrow> length (frame_payload fr) < 2 ^ 32"
  by (simp add: frame_ok_def)

text \<open>Both loops read one whole frame and go on behind it.\<close>

lemma read_frame:
  assumes "f_reliable f" and "frame_ok fr" and "f_data f = pre @ frame_bytes fr @ rest"
  shows "\<exists>t t'. f_readAt headerSize (length pre) f =
      (Inr (frame_hdr (frame_type fr) (frame_payload fr)), f\<lparr>f_tick := t\<rparr>)
    \<and> read_payload (length (frame_payload fr)) (length pre + headerSize) (f\<lparr>f_tick := t\<rparr>) =
      (Inr (frame_payload fr), f\<lparr>f_tick := t'\<rparr>)"
proof -
  let ?h = "frame_hdr (frame_type fr) (frame_payload fr)" and ?p = "frame_payload fr"
  have d: "f_data f = pre @ ?h @ ?p @ rest" "f_data f = (pre @ ?h) @ ?p @ rest"
    using assms(3) by (simp_all add: frame_bytes_def)
  from f_readAt_eq [OF assms(1) d(1)] obtain t
    where 1: "f_readAt headerSize (length pre) f = (Inr ?h, f\<lparr>f_tick := t\<rparr>)" by auto
  have "f_reliable (f\<lparr>f_tick := t\<rparr>)" "f_data (f\<lparr>f_tick := t\<rparr>) = (pre @ ?h) @ ?p @ rest"
    using assms(1) d(2) by simp_all
  from read_payload_eq [OF this] obtain t'
    where "read_payload (length ?p) (length pre + headerSize) (f\<lparr>f_tick := t\<rparr>) =
      (Inr ?p, f\<lparr>f_tick := t'\<rparr>)" by auto
  with 1 show ?thesis by blast
qed

lemma scan_frame:
  assumes "f_reliable f" and "frame_ok fr" and "f_data f = pre @ frame_bytes fr @ rest"
  shows "\<exists>t. scanValidPrefix_loop (length (f_data f)) (length pre) m f =
    scanValidPrefix_loop (length (f_data f)) (length (pre @ frame_bytes fr))
      (max_seq (frame_records fr) m) (f\<lparr>f_tick := t\<rparr>)"
proof -
  let ?p = "frame_payload fr"
  from read_frame [OF assms] obtain t t' where
    1: "f_readAt headerSize (length pre) f = (Inr (frame_hdr (frame_type fr) ?p), f\<lparr>f_tick := t\<rparr>)"
    and 2: "read_payload (length ?p) (length pre + headerSize) (f\<lparr>f_tick := t\<rparr>) = (Inr ?p, f\<lparr>f_tick := t'\<rparr>)"
    by blast
  have len: "length (f_data f) = length pre + headerSize + length ?p + length rest"
    using assms(3) by (simp add: length_frame_bytes)
  have m: "(if m < M then M else m) = max m M" for M :: u64 by (auto simp: max_def intro: antisym)
  have "scanValidPrefix_loop (length (f_data f)) (length pre) m f =
      scanValidPrefix_loop (length (f_data f)) (length pre + headerSize + length ?p)
        (max m (max_seq (frame_records fr) 0)) (f\<lparr>f_tick := t'\<rparr>)"
    by (subst scanValidPrefix_loop.simps)
      (use frame_type_cases [of fr] in \<open>auto simp: 1 2 len m peekSeq_frame [OF assms(2)]
        frame_header_hdr [OF frame_payload_bound [OF assms(2)]]\<close>)
  then show ?thesis
    using max_seq_eq [of "frame_records fr" m] by (auto simp: length_frame_bytes add.assoc)
qed

lemma take_frame_bytes:
  assumes "n < length (frame_bytes fr)" and "headerSize \<le> n"
  shows "take n (frame_bytes fr) =
    frame_hdr (frame_type fr) (frame_payload fr) @ take (n - headerSize) (frame_payload fr)"
  using assms by (simp add: frame_bytes_def)

lemma scan_torn:
  assumes "f_reliable f" and "torn b" and "f_data f = pre @ b"
  shows "\<exists>t. scanValidPrefix_loop (length (f_data f)) (length pre) m f =
    (Inr (length pre, m), f\<lparr>f_tick := t\<rparr>)"
proof (cases "length b < headerSize")
  case True
  then show ?thesis
    using assms(3) by (subst scanValidPrefix_loop.simps) (auto intro: exI [of _ "f_tick f"])
next
  case False
  from assms(2) obtain fr n where fr: "frame_ok fr" "n < length (frame_bytes fr)"
    "b = take n (frame_bytes fr)" by (auto simp: torn_def)
  let ?h = "frame_hdr (frame_type fr) (frame_payload fr)"
  have b: "b = ?h @ take (n - headerSize) (frame_payload fr)"
    using False fr by (auto intro: take_frame_bytes)
  have "f_readAt headerSize (length pre) f = (Inr ?h, f\<lparr>f_tick := f_tick f + 1\<rparr>)"
    using f_readAt_eq [OF assms(1), of pre ?h] assms(3) b by auto
  moreover have "length (f_data f) < length pre + headerSize + length (frame_payload fr)"
    using assms(3) fr by (simp add: length_frame_bytes)
  ultimately show ?thesis
    using False assms(3) frame_type_cases [of fr]
    by (subst scanValidPrefix_loop.simps)
      (auto simp: frame_header_hdr [OF frame_payload_bound [OF fr(1)]])
qed

lemma scan_frames:
  assumes "f_reliable f" and "list_all frame_ok frs" and "f_data f = pre @ frames_bytes frs @ b"
  shows "\<exists>t. scanValidPrefix_loop (length (f_data f)) (length pre) m f =
    scanValidPrefix_loop (length (f_data f)) (length (pre @ frames_bytes frs))
      (max_seq (frames_records frs) m) (f\<lparr>f_tick := t\<rparr>)"
  using assms
proof (induction frs arbitrary: pre m f)
  case Nil
  then show ?case by (auto intro: exI [of _ "f_tick f"])
next
  case (Cons fr frs)
  obtain t where t: "scanValidPrefix_loop (length (f_data f)) (length pre) m f =
      scanValidPrefix_loop (length (f_data f)) (length (pre @ frame_bytes fr))
        (max_seq (frame_records fr) m) (f\<lparr>f_tick := t\<rparr>)"
    using scan_frame [of f fr pre "frames_bytes frs @ b" m] Cons.prems by auto
  show ?case
    unfolding t using Cons.IH [of "f\<lparr>f_tick := t\<rparr>" "pre @ frame_bytes fr" "max_seq (frame_records fr) m"]
      Cons.prems by simp
qed

text \<open>Recovery stops in front of these bytes.\<close>

definition stops :: "bytes \<Rightarrow> bool" where
  "stops b = (\<forall>pre f m. f_reliable f \<longrightarrow> f_data f = pre @ b \<longrightarrow>
     (\<exists>t. scanValidPrefix_loop (length (f_data f)) (length pre) m f =
       (Inr (length pre, m), f\<lparr>f_tick := t\<rparr>)))"

lemma stops_torn: "torn b \<Longrightarrow> stops b"
  using scan_torn unfolding stops_def by blast

lemma stops_bad_type:
  assumes "headerSize \<le> length b" and "b ! 4 \<notin> {TypePut, TypeDelete, TypeBatch}"
  shows "stops b"
  unfolding stops_def
proof (intro allI impI)
  fix pre m and f :: os_file
  assume f: "f_reliable f" "f_data f = pre @ b"
  have d: "f_data f = pre @ take headerSize b @ drop headerSize b" using f(2) by simp
  have "f_readAt headerSize (length pre) f = (Inr (take headerSize b), f\<lparr>f_tick := f_tick f + 1\<rparr>)"
    using f_readAt_eq [OF f(1) d] assms(1) by simp
  moreover have "take headerSize b ! 4 = b ! 4" by (simp add: headerSize_def)
  ultimately show "\<exists>t. scanValidPrefix_loop (length (f_data f)) (length pre) m f =
      (Inr (length pre, m), f\<lparr>f_tick := t\<rparr>)"
    using assms f by (subst scanValidPrefix_loop.simps) (auto simp: frame_header_def)
qed

section \<open>The log as a list of frames\<close>

text \<open>An open log holds these frames, and writes go behind the last of them.\<close>

definition log_abs :: "wframe list \<Rightarrow> Log \<Rightarrow> bool" where
  "log_abs frs l =
     (f_data (lg_f l) = frames_bytes frs \<and> lg_size l = length (frames_bytes frs) \<and>
      f_pos (lg_f l) = length (frames_bytes frs) \<and> \<not> lg_closed l \<and> list_all frame_ok frs)"

lemma wal_Open_frames:
  assumes "f_reliable f" and "list_all frame_ok frs" and "stops b"
    and "f_data f = frames_bytes frs @ b"
  shows "\<exists>l. wal_Open f opts = Inr l \<and> log_abs frs l \<and> lg_nextSeq l = max_seq (frames_records frs) 0
    \<and> lg_appends l = 0 \<and> lg_opts l = WalOptions_normalize opts \<and> f_reliable (lg_f l)
    \<and> f_stable (lg_f l) = f_stable f"
proof (cases "f_data f = []")
  case True
  have "frs = []"
  proof (cases frs)
    case (Cons fr frs')
    with True assms(4) have "frame_bytes fr = []" by simp
    then have "length (frame_bytes fr) = 0" by simp
    then show ?thesis by (simp add: length_frame_bytes headerSize_def)
  qed
  with True assms show ?thesis by (simp add: wal_Open_def Let_def Log_recoverTail_def log_abs_def)
next
  case False
  let ?f = "f\<lparr>f_tick := f_tick f + 1, f_pos := 0\<rparr>"
  have f: "f_reliable ?f" "f_data ?f = [] @ frames_bytes frs @ b" using assms by simp_all
  from scan_frames [OF f(1) assms(2) f(2), of 0] obtain t0 where t0:
    "scanValidPrefix_loop (length (f_data f)) 0 0 ?f =
     scanValidPrefix_loop (length (f_data f)) (length (frames_bytes frs)) (max_seq (frames_records frs) 0)
      (?f\<lparr>f_tick := t0\<rparr>)"
    by auto
  have "f_reliable (?f\<lparr>f_tick := t0\<rparr>)" "f_data (?f\<lparr>f_tick := t0\<rparr>) = frames_bytes frs @ b"
    using assms by simp_all
  with assms(3) obtain t where
    "scanValidPrefix_loop (length (f_data (?f\<lparr>f_tick := t0\<rparr>))) (length (frames_bytes frs))
       (max_seq (frames_records frs) 0) (?f\<lparr>f_tick := t0\<rparr>) =
     (Inr (length (frames_bytes frs), max_seq (frames_records frs) 0), ?f\<lparr>f_tick := t0, f_tick := t\<rparr>)"
    unfolding stops_def by blast
  with t0 have t: "scanValidPrefix_loop (length (f_data f)) 0 0 ?f =
     (Inr (length (frames_bytes frs), max_seq (frames_records frs) 0), f\<lparr>f_pos := 0, f_tick := t\<rparr>)"
    by simp
  have len: "length (frames_bytes frs) \<le> length (f_data f)" using assms(4) by simp
  show ?thesis
  proof (cases "length (frames_bytes frs) < length (f_data f)")
    case True
    then show ?thesis using assms False t
      by (auto simp: wal_Open_def Let_def Log_recoverTail_def scanValidPrefix_def f_seek_def
        f_truncate_def log_abs_def)
  next
    case False
    with len assms(4) have "b = []" by simp
    with False show ?thesis using assms \<open>f_data f \<noteq> []\<close> t
      by (auto simp: wal_Open_def Let_def Log_recoverTail_def scanValidPrefix_def f_seek_def
        f_truncate_def log_abs_def)
  qed
qed

text \<open>Every prefix of a log file is some complete frames and a torn one.\<close>

lemma take_frames_torn:
  assumes "list_all frame_ok frs"
  shows "\<exists>j b. take n (frames_bytes frs) = frames_bytes (take j frs) @ b \<and> torn b \<and> j \<le> length frs
    \<and> length (frames_bytes (take j frs)) \<le> n
    \<and> (j < length frs \<longrightarrow> n < length (frames_bytes (take (Suc j) frs)))"
  using assms
proof (induction frs arbitrary: n)
  case Nil
  show ?case by (rule exI [of _ 0], rule exI [of _ "[]"]) simp
next
  case (Cons fr frs)
  show ?case
  proof (cases "n < length (frame_bytes fr)")
    case True
    then have "torn (take n (frame_bytes fr))" using Cons.prems unfolding torn_def by auto
    with True show ?thesis
      by (intro exI [of _ 0] exI [of _ "take n (frame_bytes fr)"]) simp
  next
    case False
    from Cons.IH [of "n - length (frame_bytes fr)"] Cons.prems obtain j b where
      "take (n - length (frame_bytes fr)) (frames_bytes frs) = frames_bytes (take j frs) @ b"
      "torn b" "j \<le> length frs" "length (frames_bytes (take j frs)) \<le> n - length (frame_bytes fr)"
      "j < length frs \<longrightarrow> n - length (frame_bytes fr) < length (frames_bytes (take (Suc j) frs))"
      by auto
    with False show ?thesis by (intro exI [of _ "Suc j"] exI [of _ b]) auto
  qed
qed

section \<open>Replay\<close>

lemma Replay_frames:
  assumes "f_reliable f" and "list_all frame_ok frs" and "f_data f = pre @ frames_bytes frs"
  shows "\<exists>t. Replay_loop fn (length (f_data f)) (length pre) s f =
    (replay_records fn (frames_records frs) s, f\<lparr>f_tick := t\<rparr>)"
  using assms
proof (induction frs arbitrary: pre s f)
  case Nil
  then show ?case
    by (subst Replay_loop.simps) (auto simp: headerSize_def intro: exI [of _ "f_tick f"])
next
  case (Cons fr frs)
  let ?p = "frame_payload fr"
  have ok: "frame_ok fr" using Cons.prems by simp
  from read_frame [of f fr pre "frames_bytes frs"] Cons.prems obtain t t' where
    1: "f_readAt headerSize (length pre) f = (Inr (frame_hdr (frame_type fr) ?p), f\<lparr>f_tick := t\<rparr>)"
    and 2: "read_payload (length ?p) (length pre + headerSize) (f\<lparr>f_tick := t\<rparr>) = (Inr ?p, f\<lparr>f_tick := t'\<rparr>)"
    by auto
  have len: "length (f_data f) = length pre + headerSize + length ?p + length (frames_bytes frs)"
    using Cons.prems(3) by (simp add: length_frame_bytes)
  have IH: "\<exists>t. Replay_loop fn (length (f_data f)) (length pre + headerSize + length ?p) s' (f\<lparr>f_tick := t'\<rparr>) =
      (replay_records fn (frames_records frs) s', f\<lparr>f_tick := t\<rparr>)" for s'
    using Cons.IH [of "f\<lparr>f_tick := t'\<rparr>" "pre @ frame_bytes fr" s'] Cons.prems
    by (simp add: length_frame_bytes add.assoc)
  have step: "Replay_loop fn (length (f_data f)) (length pre) s f =
      (case replay_records fn (frame_records fr) s of
         (Some e, s) \<Rightarrow> ((Some e, s), f\<lparr>f_tick := t'\<rparr>)
       | (None, s) \<Rightarrow> Replay_loop fn (length (f_data f)) (length pre + headerSize + length ?p) s
           (f\<lparr>f_tick := t'\<rparr>))"
    by (subst Replay_loop.simps)
      (simp add: 1 2 len decodeFrame_frame [OF ok] frame_header_hdr [OF frame_payload_bound [OF ok]])
  have app: "replay_records fn (rs @ rs') s' =
      (case replay_records fn rs s' of (Some e, s) \<Rightarrow> (Some e, s) | (None, s) \<Rightarrow> replay_records fn rs' s)"
    for rs rs' and s' :: 'a
    by (induction rs arbitrary: s') (auto split: prod.splits option.splits)
  show ?case unfolding step using IH by (auto simp: app split: prod.splits option.splits)
qed

lemma replay_records_ok:
  assumes "\<And>r s. fst (fn r s) = None"
  shows "replay_records fn rs s = (None, fold (\<lambda>r s. snd (fn r s)) rs s)"
proof (induction rs arbitrary: s)
  case (Cons r rs)
  then show ?case using assms [of r s] by (cases "fn r s") simp
qed simp

lemma Log_Replay_frames:
  assumes "log_abs frs l" and "f_reliable (lg_f l)"
  shows "fst (Log_Replay fn s l) = replay_records fn (frames_records frs) s"
    and "fst (replay_records fn (frames_records frs) s) = None \<Longrightarrow>
      \<exists>t. snd (Log_Replay fn s l) = l\<lparr>lg_f := (lg_f l)\<lparr>f_tick := t\<rparr>\<rparr>"
proof -
  let ?f = "(lg_f l)\<lparr>f_tick := f_tick (lg_f l) + 1, f_pos := 0\<rparr>"
  have "f_reliable ?f" "list_all frame_ok frs" "f_data ?f = [] @ frames_bytes frs"
    using assms by (simp_all add: log_abs_def)
  from Replay_frames [OF this, of fn s] obtain t where
    t: "Replay_loop fn (lg_size l) 0 s ?f = (replay_records fn (frames_records frs) s, ?f\<lparr>f_tick := t\<rparr>)"
    using assms by (auto simp: log_abs_def)
  have c: "\<not> lg_closed l" and p: "lg_size l = f_pos (lg_f l)" using assms by (simp_all add: log_abs_def)
  obtain e s' where r: "replay_records fn (frames_records frs) s = (e, s')" by fastforce
  show "fst (Log_Replay fn s l) = replay_records fn (frames_records frs) s"
    using assms(2) t c r by (cases e) (auto simp: Log_Replay_def f_seek_def)
  assume "fst (replay_records fn (frames_records frs) s) = None"
  then show "\<exists>t. snd (Log_Replay fn s l) = l\<lparr>lg_f := (lg_f l)\<lparr>f_tick := t\<rparr>\<rparr>"
    using assms(2) t c p r by (auto simp: Log_Replay_def f_seek_def)
qed

section \<open>Appending\<close>

lemma f_write_end:
  assumes "f_write b f = ((n, e), f')" and "f_pos f = length (f_data f)"
  shows "f_data f' = f_data f @ take n b" and "f_pos f' = length (f_data f')"
    and "e = None \<Longrightarrow> n = length b" and "f_fault f' = f_fault f" and "f_stable f' = f_stable f"
    and "f_reliable f \<Longrightarrow> e = None"
proof -
  have t: "take (min (length b) k) b = take k b" for k by (simp add: min_def)
  show "f_data f' = f_data f @ take n b" "f_pos f' = length (f_data f')"
    "e = None \<Longrightarrow> n = length b" "f_fault f' = f_fault f" "f_stable f' = f_stable f"
    "f_reliable f \<Longrightarrow> e = None"
    using assms by (auto simp: f_write_def f_next_def Let_def f_reliable_def t split: option.splits)
qed

lemma f_sync_cases:
  assumes "f_sync f = (e, f')"
  shows "f_data f' = f_data f" and "f_pos f' = f_pos f" and "f_fault f' = f_fault f"
    and "e = None \<Longrightarrow> f_stable f' = f_data f" and "f_reliable f \<Longrightarrow> e = None"
    and "e \<noteq> None \<Longrightarrow> f_stable f' = f_stable f"
  using assms by (auto simp: f_sync_def f_next_def f_reliable_def split: option.splits)

text \<open>
  What \<^verbatim>\<open>writeFrame\<close> does under any plan of failures: a payload over the limit changes
  nothing, an error leaves a proper part or all of the frame behind, success leaves all of it.
\<close>

lemma writeFrame_outcome:
  assumes "Log_writeFrame (frame_type fr) (frame_payload fr) l = (r, l')" and "log_abs frs l"
  shows "\<not> frame_ok fr \<Longrightarrow> r = Some wal_PayloadTooLarge \<and> l' = l"
    and "frame_ok fr \<Longrightarrow> r = None \<Longrightarrow> log_abs (frs @ [fr]) l' \<and> lg_appends l' = lg_appends l + 1"
    and "frame_ok fr \<Longrightarrow> \<exists>n. f_data (lg_f l') = frames_bytes frs @ take n (frame_bytes fr)"
    and "lg_opts l' = lg_opts l \<and> lg_nextSeq l' = lg_nextSeq l \<and> f_fault (lg_f l') = f_fault (lg_f l)
      \<and> f_stable (lg_f l') = f_stable (lg_f l)"
    and "frame_ok fr \<Longrightarrow> f_reliable (lg_f l) \<Longrightarrow> r = None"
proof -
  let ?h = "frame_hdr (frame_type fr) (frame_payload fr)" and ?p = "frame_payload fr"
  have pos: "f_pos (lg_f l) = length (f_data (lg_f l))" "f_data (lg_f l) = frames_bytes frs"
    using assms(2) by (simp_all add: log_abs_def)
  show "\<not> frame_ok fr \<Longrightarrow> r = Some wal_PayloadTooLarge \<and> l' = l"
    using assms(1) by (simp add: Log_writeFrame_def frame_ok_def)
  obtain n1 e1 f1 where w1: "f_write ?h (lg_f l) = ((n1, e1), f1)" by (metis prod.exhaust)
  note W1 = f_write_end [OF w1 pos(1)]
  obtain n2 e2 f2 where w2: "(if length ?p > 0 then f_write ?p f1 else ((length ?p, None), f1)) = ((n2, e2), f2)"
    by (metis prod.exhaust)
  have W2: "f_data f2 = f_data f1 @ take n2 ?p" "f_pos f2 = length (f_data f2)"
    "e2 = None \<Longrightarrow> n2 = length ?p" "f_fault f2 = f_fault f1" "f_stable f2 = f_stable f1"
    "f_reliable f1 \<Longrightarrow> e2 = None"
  proof -
    consider "?p = []" "n2 = 0" "e2 = None" "f2 = f1" | "f_write ?p f1 = ((n2, e2), f2)"
      using w2 by (cases "?p = []") simp_all
    then have "f_data f2 = f_data f1 @ take n2 ?p \<and> f_pos f2 = length (f_data f2) \<and>
      (e2 = None \<longrightarrow> n2 = length ?p) \<and> f_fault f2 = f_fault f1 \<and> f_stable f2 = f_stable f1 \<and>
      (f_reliable f1 \<longrightarrow> e2 = None)"
    proof cases
      case 1
      with W1(2) show ?thesis by simp
    next
      case 2
      from f_write_end [OF this W1(2)] show ?thesis by blast
    qed
    then show "f_data f2 = f_data f1 @ take n2 ?p" "f_pos f2 = length (f_data f2)"
      "e2 = None \<Longrightarrow> n2 = length ?p" "f_fault f2 = f_fault f1" "f_stable f2 = f_stable f1"
      "f_reliable f1 \<Longrightarrow> e2 = None" by blast+
  qed
  have step: "frame_ok fr \<Longrightarrow> (r, l') =
      (case e1 of Some e \<Rightarrow> (Some e, l\<lparr>lg_f := f1\<rparr>)
       | None \<Rightarrow> (case e2 of Some e \<Rightarrow> (Some e, l\<lparr>lg_f := f2\<rparr>)
         | None \<Rightarrow> (None, l\<lparr>lg_f := f2, lg_size := lg_size l + (headerSize + length ?p),
             lg_appends := lg_appends l + 1\<rparr>)))"
    using assms(1) w1 w2 W1(3) W2(3)
    by (auto simp: Log_writeFrame_def frame_ok_def Let_def split: option.splits)
  have R: "f_reliable (lg_f l) \<Longrightarrow> e1 = None \<and> e2 = None"
    using W1(4,6) W2(6) by (simp add: f_reliable_def)
  show "frame_ok fr \<Longrightarrow> f_reliable (lg_f l) \<Longrightarrow> r = None" using step R by auto
  show "frame_ok fr \<Longrightarrow> r = None \<Longrightarrow> log_abs (frs @ [fr]) l' \<and> lg_appends l' = lg_appends l + 1"
    using step W1 W2 assms(2)
    by (auto simp: log_abs_def frame_bytes_def split: option.splits)
  show "lg_opts l' = lg_opts l \<and> lg_nextSeq l' = lg_nextSeq l \<and> f_fault (lg_f l') = f_fault (lg_f l)
      \<and> f_stable (lg_f l') = f_stable (lg_f l)"
    using step W1(4,5) W2(4,5) assms(1)
    by (cases "frame_ok fr") (auto simp: Log_writeFrame_def frame_ok_def split: option.splits)
  assume ok: "frame_ok fr"
  show "\<exists>n. f_data (lg_f l') = frames_bytes frs @ take n (frame_bytes fr)"
  proof (cases e1)
    case (Some e)
    then show ?thesis using step [OF ok] W1(1) pos
      by (cases "n1 \<le> headerSize")
        (auto simp: frame_bytes_def intro: exI [of _ n1] exI [of _ headerSize])
  next
    case None
    then have "f_data (lg_f l') = frames_bytes frs @ take (headerSize + n2) (frame_bytes fr)"
      using step [OF ok] W1(1,3) W2(1) pos by (auto simp: frame_bytes_def split: option.splits)
    then show ?thesis ..
  qed
qed

lemma maybeSync_outcome:
  assumes "Log_maybeSync l = (r, l')"
  shows "log_abs frs l' = log_abs frs l" and "lg_nextSeq l' = lg_nextSeq l" and "lg_opts l' = lg_opts l"
    and "f_reliable (lg_f l') = f_reliable (lg_f l)" and "f_reliable (lg_f l) \<Longrightarrow> r = None"
    and "r = None \<Longrightarrow> wo_SyncOnWrite (lg_opts l) \<Longrightarrow> wo_SyncEveryN (lg_opts l) \<le> 0 \<Longrightarrow>
      f_stable (lg_f l') = f_data (lg_f l')"
    and "r = None \<Longrightarrow> wo_SyncEveryN (lg_opts l) > 0 \<Longrightarrow>
      int (lg_appends l) mod wo_SyncEveryN (lg_opts l) = 0 \<Longrightarrow> f_stable (lg_f l') = f_data (lg_f l')"
    and "lg_appends l' = lg_appends l" and "f_data (lg_f l') = f_data (lg_f l)"
proof -
  obtain e f' where s: "f_sync (lg_f l) = (e, f')" by fastforce
  note S = f_sync_cases [OF s]
  show "log_abs frs l' = log_abs frs l" "lg_nextSeq l' = lg_nextSeq l" "lg_opts l' = lg_opts l"
    "f_reliable (lg_f l') = f_reliable (lg_f l)" "lg_appends l' = lg_appends l"
    "f_data (lg_f l') = f_data (lg_f l)" "f_reliable (lg_f l) \<Longrightarrow> r = None"
    "r = None \<Longrightarrow> wo_SyncOnWrite (lg_opts l) \<Longrightarrow> wo_SyncEveryN (lg_opts l) \<le> 0 \<Longrightarrow>
      f_stable (lg_f l') = f_data (lg_f l')"
    "r = None \<Longrightarrow> wo_SyncEveryN (lg_opts l) > 0 \<Longrightarrow>
      int (lg_appends l) mod wo_SyncEveryN (lg_opts l) = 0 \<Longrightarrow> f_stable (lg_f l') = f_data (lg_f l')"
    using assms S by (auto simp: Log_maybeSync_def s log_abs_def f_reliable_def split: if_splits)
qed

text \<open>
  The common end of the appends.  \<^verbatim>\<open>durable\<close> says when the options make a successful append
  also a durable one.
\<close>

definition durable :: "Log \<Rightarrow> bool" where
  "durable l = (wo_SyncOnWrite (lg_opts l) \<and> wo_SyncEveryN (lg_opts l) \<le> 0 \<or> wo_SyncEveryN (lg_opts l) = 1)"

definition append_frame :: "wframe \<Rightarrow> u64 \<Rightarrow> Log \<Rightarrow> (u64 \<times> error option) \<times> Log" where
  "append_frame fr seq l =
     (case Log_writeFrame (frame_type fr) (frame_payload fr) l of
        (Some e, l) \<Rightarrow> ((0, Some e), l)
      | (None, l) \<Rightarrow> (case Log_maybeSync l of (e, l) \<Rightarrow> ((seq, e), l)))"

lemma append_frame_outcome:
  assumes "append_frame fr seq l = ((sq, r), l')" and "log_abs frs l"
  shows "\<not> frame_ok fr \<Longrightarrow> sq = 0 \<and> r = Some wal_PayloadTooLarge \<and> l' = l"
    and "r = None \<Longrightarrow> sq = seq \<and> frame_ok fr \<and> log_abs (frs @ [fr]) l' \<and>
      (durable l \<longrightarrow> f_stable (lg_f l') = f_data (lg_f l'))"
    and "\<exists>n. f_data (lg_f l') = frames_bytes frs @ take n (frame_bytes fr)"
    and "lg_opts l' = lg_opts l" and "lg_nextSeq l' = lg_nextSeq l"
    and "frame_ok fr \<Longrightarrow> f_reliable (lg_f l) \<Longrightarrow> r = None \<and> f_reliable (lg_f l')"
proof -
  obtain e1 l1 where w: "Log_writeFrame (frame_type fr) (frame_payload fr) l = (e1, l1)" by fastforce
  note W = writeFrame_outcome [OF w assms(2)]
  obtain e2 l2 where m: "Log_maybeSync l1 = (e2, l2)" by fastforce
  note M = maybeSync_outcome [OF m]
  have step: "((sq, r), l') = (case e1 of Some e \<Rightarrow> ((0, Some e), l1) | None \<Rightarrow> ((seq, e2), l2))"
    using assms(1) w m by (cases e1) (auto simp: append_frame_def)
  show "\<not> frame_ok fr \<Longrightarrow> sq = 0 \<and> r = Some wal_PayloadTooLarge \<and> l' = l"
    using W(1) step by simp
  then show "r = None \<Longrightarrow> sq = seq \<and> frame_ok fr \<and> log_abs (frs @ [fr]) l' \<and>
      (durable l \<longrightarrow> f_stable (lg_f l') = f_data (lg_f l'))"
    using W(2,4) M(1,6,7) step by (cases "frame_ok fr") (auto simp: durable_def split: option.splits)
  show "\<exists>n. f_data (lg_f l') = frames_bytes frs @ take n (frame_bytes fr)"
  proof (cases "frame_ok fr")
    case True
    with W(3) obtain n where "f_data (lg_f l1) = frames_bytes frs @ take n (frame_bytes fr)" by auto
    with M(9) step show ?thesis by (auto split: option.splits)
  next
    case False
    with W(1) step assms(2) have "f_data (lg_f l') = frames_bytes frs @ take 0 (frame_bytes fr)"
      by (simp add: log_abs_def)
    then show ?thesis ..
  qed
  show "lg_opts l' = lg_opts l" "lg_nextSeq l' = lg_nextSeq l"
    using W(4) M(2,3) step by (cases e1, simp_all)+
  show "frame_ok fr \<Longrightarrow> f_reliable (lg_f l) \<Longrightarrow> r = None \<and> f_reliable (lg_f l')"
    using W(4,5) M(4,5) step by (cases e1) (auto simp: f_reliable_def)
qed

lemma log_abs_nextSeq [simp]: "log_abs frs (l\<lparr>lg_nextSeq := s\<rparr>) = log_abs frs l"
  by (simp add: log_abs_def)

lemma AppendPut_eq:
  assumes "log_abs frs l"
  shows "Log_AppendPut key val l =
    append_frame (FPut (lg_nextSeq l + 1) key val) (lg_nextSeq l + 1) (l\<lparr>lg_nextSeq := lg_nextSeq l + 1\<rparr>)"
  using assms
  by (simp add: Log_AppendPut_def Log_append_def log_abs_def Log_allocSeq_def append_frame_def)

lemma AppendDelete_eq:
  assumes "log_abs frs l"
  shows "Log_AppendDelete key l =
    append_frame (FDelete (lg_nextSeq l + 1) key) (lg_nextSeq l + 1) (l\<lparr>lg_nextSeq := lg_nextSeq l + 1\<rparr>)"
  using assms
  by (simp add: Log_AppendDelete_def Log_append_def log_abs_def Log_allocSeq_def append_frame_def)

lemma AppendBatch_eq:
  assumes "log_abs frs l" and "es \<noteq> []"
  shows "Log_AppendBatch es l =
    append_frame (FBatch (lg_nextSeq l) es) (lg_nextSeq l + of_nat (length es))
      (l\<lparr>lg_nextSeq := lg_nextSeq l + of_nat (length es)\<rparr>)"
  using assms by (simp add: Log_AppendBatch_def log_abs_def AppendBatch_loop_eq append_frame_def)

section \<open>Sequence numbers\<close>

text \<open>The log never hands out a number its records do not stay below.\<close>

definition seqs_below :: "wframe list \<Rightarrow> Log \<Rightarrow> bool" where
  "seqs_below frs l = (\<forall>r\<in>set (frames_records frs). rc_Seq r \<le> lg_nextSeq l)"

lemma max_seq_ge: "m \<le> max_seq rs m"
  by (subst max_seq_eq) simp

lemma max_seq_mem: "r \<in> set rs \<Longrightarrow> rc_Seq r \<le> max_seq rs m"
proof (induction rs arbitrary: m)
  case (Cons a rs)
  then show ?case using max_seq_ge [of "max (rc_Seq a) m" rs] by auto
qed simp

lemma wal_Open_seqs_below:
  assumes "f_reliable f" and "list_all frame_ok frs" and "stops b"
    and "f_data f = frames_bytes frs @ b" and "wal_Open f opts = Inr l"
  shows "seqs_below frs l"
  using wal_Open_frames [OF assms(1-4), of opts] assms(5) max_seq_mem by (auto simp: seqs_below_def)

lemma batch_records_seq:
  assumes "r \<in> set (batch_records s es)" and "unat s + length es < 2 ^ 64"
  shows "s < rc_Seq r \<and> rc_Seq r \<le> s + of_nat (length es)"
  using assms
proof (induction es arbitrary: s)
  case (Cons e es)
  have s1: "unat (s + 1) = unat s + 1"
    using Cons.prems(2) by (simp add: unat_word_ariths unsigned_of_nat take_bit_nat_eq_self)
  have u: "unat (of_nat (length es) :: u64) = length es"
    using Cons.prems(2) by (simp add: unsigned_of_nat take_bit_nat_eq_self)
  have s2: "unat (s + 1 + of_nat (length es)) = unat s + 1 + length es"
    using Cons.prems(2) s1 u by (simp add: unat_word_ariths take_bit_nat_eq_self del: of_nat_add)
  have lt: "s < s + 1" and le: "s + 1 \<le> s + 1 + of_nat (length es)"
    using s1 s2 by (simp_all add: word_less_nat_alt word_le_nat_alt)
  show ?case
  proof (cases "r \<in> set (batch_records (s + 1) es)")
    case True
    with Cons.IH [of "s + 1"] Cons.prems(2) s1 lt show ?thesis by (auto simp: ac_simps)
  next
    case False
    with Cons.prems(1) lt le show ?thesis by (auto simp: ac_simps)
  qed
qed simp

text \<open>A frame whose records carry the numbers after the log's.\<close>

fun frame_next :: "u64 \<Rightarrow> wframe \<Rightarrow> u64" where
  "frame_next s (FPut seq _ _) = seq"
| "frame_next s (FDelete seq _) = seq"
| "frame_next s (FBatch s' es) = s' + of_nat (length es)"

lemma append_seqs_below:
  assumes "seqs_below frs l" and "lg_nextSeq l < lg_nextSeq l'" 
    and "\<forall>r\<in>set (frame_records fr). lg_nextSeq l < rc_Seq r \<and> rc_Seq r \<le> lg_nextSeq l'"
  shows "seqs_below (frs @ [fr]) l'"
    and "r \<in> set (frames_records frs) \<Longrightarrow> r' \<in> set (frame_records fr) \<Longrightarrow> rc_Seq r < rc_Seq r'"
  using assms by (auto simp: seqs_below_def intro: order.trans less_imp_le le_less_trans)

section \<open>Reset\<close>

lemma Log_Reset_empties:
  assumes "\<not> lg_closed l" and "Log_Reset l = (None, l')"
  shows "log_abs [] l' \<and> lg_nextSeq l' = lg_nextSeq l \<and> f_stable (lg_f l') = []"
  using assms
  by (auto simp: Log_Reset_def f_truncate_def f_seek_def f_sync_def f_next_def log_abs_def
      split: option.splits)

lemma Log_Reset_reliable:
  assumes "\<not> lg_closed l" and "f_reliable (lg_f l)"
  shows "\<exists>l'. Log_Reset l = (None, l') \<and> f_reliable (lg_f l') \<and> lg_opts l' = lg_opts l"
  using assms by (simp add: Log_Reset_def f_truncate_def f_seek_def f_sync_def)

section \<open>A write that fails part of the way\<close>

text \<open>
  After a failed header write the log goes on behind the bytes that write left.  The next
  append succeeds, but its frame is not where recovery looks: with three stray bytes recovery
  reads the second length byte of the new frame as a type, and stops.
\<close>

lemma le_put_byte1:
  assumes "n < 256" shows "le_put 4 (of_nat n :: u32) ! Suc 0 = 0"
proof -
  have "unat (of_nat n :: u32) = n" using assms by (simp add: unsigned_of_nat take_bit_nat_eq_self)
  then have "unat (drop_bit 8 (of_nat n :: u32)) = 0"
    using assms by (simp add: drop_bit_eq_div unat_div_distrib)
  then have "drop_bit 8 (of_nat n :: u32) = 0" by (simp only: unsigned_eq_0_iff)
  then show ?thesis by (simp add: numeral_eq_Suc)
qed

lemma stray_type:
  assumes "length (frame_payload fr2) < 256" and "length x = 3"
  shows "(x @ frame_bytes fr2) ! 4 = 0"
proof -
  have "(x @ frame_bytes fr2) ! 4 = frame_bytes fr2 ! 1" using assms(2) by (simp add: nth_append)
  also have "\<dots> = le_put 4 (of_nat (length (frame_payload fr2)) :: u32) ! Suc 0"
    by (simp add: frame_bytes_def frame_hdr_def nth_append)
  finally show ?thesis using le_put_byte1 [OF assms(1)] by simp
qed

lemma stray_append:
  assumes "log_abs frs l" and "f_fault (lg_f l) (f_tick (lg_f l)) = Some 3"
  shows "\<exists>l'. Log_AppendPut k v l = ((0, if frame_ok (FPut (lg_nextSeq l + 1) k v) then Some OsError
        else Some wal_PayloadTooLarge), l') \<and> lg_nextSeq l' = lg_nextSeq l + 1
    \<and> (frame_ok (FPut (lg_nextSeq l + 1) k v) \<longrightarrow>
        (\<exists>x. length x = 3 \<and> f_data (lg_f l') = frames_bytes frs @ x)
        \<and> f_pos (lg_f l') = length (frames_bytes frs) + 3 \<and> f_fault (lg_f l') = f_fault (lg_f l)
        \<and> f_tick (lg_f l') = f_tick (lg_f l) + 1 \<and> lg_opts l' = lg_opts l \<and> \<not> lg_closed l')"
proof -
  let ?h = "frame_hdr TypePut (encodeKV (lg_nextSeq l + 1) k v)"
  have pos: "f_data (lg_f l) = frames_bytes frs" "f_pos (lg_f l) = length (f_data (lg_f l))" "\<not> lg_closed l"
    using assms(1) by (simp_all add: log_abs_def)
  have "f_write ?h (lg_f l) = ((3, Some OsError), (lg_f l)\<lparr>f_tick := f_tick (lg_f l) + 1,
      f_data := frames_bytes frs @ take 3 ?h, f_pos := length (frames_bytes frs) + 3\<rparr>)"
    using assms(2) pos by (simp add: f_write_def f_next_def Let_def headerSize_def)
  then show ?thesis
    using pos by (auto simp: AppendPut_eq [OF assms(1)] append_frame_def Log_writeFrame_def Let_def
        frame_ok_def headerSize_def)
qed

text \<open>An append that meets no failure, on whatever the file holds.\<close>

lemma append_anywhere:
  assumes "\<forall>t\<ge>f_tick (lg_f l). f_fault (lg_f l) t = None" and "f_pos (lg_f l) = length (f_data (lg_f l))"
    and "\<not> lg_closed l" and "frame_ok (FPut (lg_nextSeq l + 1) k v)" and "durable l"
    and "wo_SyncEveryN (lg_opts l) \<le> 0"
  shows "\<exists>l'. Log_AppendPut k v l = ((lg_nextSeq l + 1, None), l')
    \<and> f_data (lg_f l') = f_data (lg_f l) @ frame_bytes (FPut (lg_nextSeq l + 1) k v)
    \<and> f_stable (lg_f l') = f_data (lg_f l')"
proof -
  have "wo_SyncOnWrite (lg_opts l)" using assms(5,6) by (simp add: durable_def)
  have pe: "encodeKV (lg_nextSeq l + 1) k v \<noteq> []"
  proof -
    have "0 < length (encodeKV (lg_nextSeq l + 1) k v)"
      unfolding encodeKV_eq length_append length_EncodeUint64 using SizeUint64_pos by simp
    then show ?thesis by auto
  qed
  let ?f = "lg_f l" and ?p = "encodeKV (lg_nextSeq l + 1) k v"
  let ?h = "frame_hdr TypePut ?p"
  let ?f1 = "?f\<lparr>f_tick := f_tick ?f + 1, f_data := f_data ?f @ ?h, f_pos := length (f_data ?f) + headerSize\<rparr>"
  let ?f2 = "?f\<lparr>f_tick := f_tick ?f + 2, f_data := f_data ?f @ ?h @ ?p,
    f_pos := length (f_data ?f) + headerSize + length ?p\<rparr>"
  have ok: "f_fault ?f (f_tick ?f) = None" "f_fault ?f (f_tick ?f + 1) = None" "f_fault ?f (f_tick ?f + 2) = None"
    using assms(1) by auto
  have ow: "overwrite (d @ h) (length d + headerSize) b = (d @ h) @ b" if "length h = headerSize" for d h b
    using overwrite_end [of "d @ h" b] that by simp
  have w1: "f_write ?h ?f = ((length ?h, None), ?f1)"
    using ok(1) assms(2) by (simp add: f_write_def f_next_def)
  have w2: "f_write ?p ?f1 = ((length ?p, None), ?f2)"
    using ok(2) by (simp add: f_write_def f_next_def ow)
  have w3: "f_sync ?f2 = (None, ?f2\<lparr>f_tick := f_tick ?f + 3, f_stable := f_data ?f2\<rparr>)"
    using ok(3) by (simp add: f_sync_def f_next_def)
  have "Log_writeFrame TypePut ?p (l\<lparr>lg_nextSeq := lg_nextSeq l + 1\<rparr>) =
    (None, l\<lparr>lg_nextSeq := lg_nextSeq l + 1, lg_f := ?f2, lg_size := lg_size l + (headerSize + length ?p),
      lg_appends := lg_appends l + 1\<rparr>)"
    using assms(4) pe by (simp add: Log_writeFrame_def Let_def w1 w2 frame_ok_def del: One_nat_def)
  then show ?thesis
    using assms(3,6) \<open>wo_SyncOnWrite (lg_opts l)\<close> w3
    by (simp add: Log_AppendPut_def Log_append_def Log_allocSeq_def Log_maybeSync_def frame_bytes_def)
qed

section \<open>A session of appends\<close>

datatype wop = WPut bytes bytes | WDelete bytes | WBatch "BatchEntry list"

fun wal_op :: "wop \<Rightarrow> Log \<Rightarrow> (u64 \<times> error option) \<times> Log" where
  "wal_op (WPut k v) l = Log_AppendPut k v l"
| "wal_op (WDelete k) l = Log_AppendDelete k l"
| "wal_op (WBatch es) l = Log_AppendBatch es l"

text \<open>The frames an operation adds to a log whose last number is s, and its last number after.\<close>

fun wop_frames :: "u64 \<Rightarrow> wop \<Rightarrow> wframe list" where
  "wop_frames s (WPut k v) = [FPut (s + 1) k v]"
| "wop_frames s (WDelete k) = [FDelete (s + 1) k]"
| "wop_frames s (WBatch es) = (if es = [] then [] else [FBatch s es])"

fun wop_count :: "wop \<Rightarrow> nat" where
  "wop_count (WBatch es) = length es"
| "wop_count _ = 1"

fun wal_ops :: "wop list \<Rightarrow> Log \<Rightarrow> error option list \<times> Log" where
  "wal_ops [] l = ([], l)"
| "wal_ops (op # ops) l =
     (case wal_op op l of ((_, e), l) \<Rightarrow> (case wal_ops ops l of (es, l) \<Rightarrow> (e # es, l)))"

fun ops_frames :: "u64 \<Rightarrow> wop list \<Rightarrow> wframe list" where
  "ops_frames s [] = []"
| "ops_frames s (op # ops) = wop_frames s op @ ops_frames (s + of_nat (wop_count op)) ops"

lemma wal_op_frames:
  assumes "log_abs frs l" and "f_reliable (lg_f l)" and "list_all frame_ok (wop_frames (lg_nextSeq l) op)"
  shows "\<exists>sq l'. wal_op op l = ((sq, None), l') \<and> log_abs (frs @ wop_frames (lg_nextSeq l) op) l'
    \<and> f_reliable (lg_f l') \<and> lg_nextSeq l' = lg_nextSeq l + of_nat (wop_count op)"
proof -
  have ap: "\<exists>sq l'. append_frame fr s l0 = ((sq, None), l') \<and> log_abs (frs @ [fr]) l' \<and> f_reliable (lg_f l')
      \<and> lg_nextSeq l' = lg_nextSeq l0"
    if "log_abs frs l0" "f_reliable (lg_f l0)" "frame_ok fr" for fr s l0
  proof -
    obtain sq r l' where "append_frame fr s l0 = ((sq, r), l')" by (metis prod.exhaust)
    from append_frame_outcome [OF this that(1)] that this show ?thesis by auto
  qed
  have l0: "log_abs frs (l\<lparr>lg_nextSeq := s\<rparr>)" "f_reliable (lg_f (l\<lparr>lg_nextSeq := s\<rparr>))" for s
    using assms by simp_all
  show ?thesis
  proof (cases op)
    case (WPut k v)
    with ap [OF l0] assms AppendPut_eq [OF assms(1)] show ?thesis by fastforce
  next
    case (WDelete k)
    with ap [OF l0] assms AppendDelete_eq [OF assms(1)] show ?thesis by fastforce
  next
    case (WBatch es)
    show ?thesis
    proof (cases "es = []")
      case True
      with WBatch assms show ?thesis by (auto simp: Log_AppendBatch_def log_abs_def)
    next
      case False
      with WBatch ap [OF l0] assms AppendBatch_eq [OF assms(1) False] show ?thesis by fastforce
    qed
  qed
qed

lemma wal_ops_frames:
  assumes "log_abs frs l" and "f_reliable (lg_f l)" and "list_all frame_ok (ops_frames (lg_nextSeq l) ops)"
  shows "\<exists>l'. wal_ops ops l = (replicate (length ops) None, l') \<and> f_reliable (lg_f l')
    \<and> log_abs (frs @ ops_frames (lg_nextSeq l) ops) l'"
  using assms
proof (induction ops arbitrary: frs l)
  case (Cons op ops)
  from Cons.prems wal_op_frames [of frs l op] obtain sq l1 where 1: "wal_op op l = ((sq, None), l1)"
    "log_abs (frs @ wop_frames (lg_nextSeq l) op) l1" "f_reliable (lg_f l1)"
    "lg_nextSeq l1 = lg_nextSeq l + of_nat (wop_count op)" by auto
  with Cons.IH [OF 1(2,3)] Cons.prems(3) show ?case by auto
qed simp

section \<open>A malformed batch\<close>

lemma wal_Open_peek_error:
  assumes "peekSeq typ p = Inl e" and "length p < 2 ^ 32" and "typ \<in> {TypePut, TypeDelete, TypeBatch}"
    and "f_reliable f" and "f_data f = frame_hdr typ p @ p"
  shows "wal_Open f opts = Inl e"
proof -
  let ?f = "f\<lparr>f_tick := f_tick f + 1, f_pos := 0\<rparr>"
  have f: "f_reliable ?f" "f_data ?f = [] @ frame_hdr typ p @ p" "f_data ?f = frame_hdr typ p @ p @ []"
    using assms(4,5) by simp_all
  let ?f1 = "?f\<lparr>f_tick := f_tick ?f + 1\<rparr>"
  have 1: "f_readAt headerSize 0 ?f = (Inr (frame_hdr typ p), ?f1)"
    using f_readAt_eq [OF f(1,2)] by simp
  obtain t where 2: "read_payload (length p) headerSize ?f1 = (Inr p, ?f1\<lparr>f_tick := t\<rparr>)"
    using read_payload_eq [of ?f1 "frame_hdr typ p" p "[]"] f by auto
  have "length (f_data f) = headerSize + length p" using assms(5) by simp
  then have "scanValidPrefix_loop (length (f_data f)) 0 0 ?f = (Inl e, ?f1\<lparr>f_tick := t\<rparr>)"
    using assms(1,3) 1 2
    by (subst scanValidPrefix_loop.simps) (auto simp: frame_header_hdr [OF assms(2)])
  moreover have "length (f_data f) \<noteq> 0" using assms(5) by (simp add: headerSize_def)
  ultimately show ?thesis using assms(4)
    by (auto simp: wal_Open_def Let_def Log_recoverTail_def scanValidPrefix_def f_seek_def)
qed

section \<open>Properties\<close>

text \<open>C8: opening a log whose file was cut at any byte (a crash in the middle of a write) succeeds,
  keeps exactly the longest run of complete frames, continues after the largest sequence number
  in them, and replaying it then yields the records of those frames, in order.\<close>

theorem wal_crash_recovery:
  assumes "f_reliable f" and "list_all frame_ok frs" and "f_data f = take n (frames_bytes frs)"
  shows "\<exists>j l. wal_Open f opts = Inr l \<and> j \<le> length frs
    \<and> length (frames_bytes (take j frs)) \<le> n
    \<and> (j < length frs \<longrightarrow> n < length (frames_bytes (take (Suc j) frs)))
    \<and> f_data (lg_f l) = frames_bytes (take j frs) \<and> lg_size l = length (frames_bytes (take j frs))
    \<and> lg_nextSeq l = max_seq (frames_records (take j frs)) 0
    \<and> fst (Log_Replay fn s l) = replay_records fn (frames_records (take j frs)) s"
proof -
  from take_frames_torn [OF assms(2), of n] obtain j b where
    j: "take n (frames_bytes frs) = frames_bytes (take j frs) @ b" "torn b" "j \<le> length frs"
    "length (frames_bytes (take j frs)) \<le> n"
    "j < length frs \<longrightarrow> n < length (frames_bytes (take (Suc j) frs))" by auto
  have ok: "list_all frame_ok (take j frs)"
    using assms(2) by (auto simp: list_all_iff dest: in_set_takeD)
  from wal_Open_frames [OF assms(1) ok stops_torn [OF j(2)], of opts] assms(3) j(1) obtain l
    where l: "wal_Open f opts = Inr l" "log_abs (take j frs) l"
      "lg_nextSeq l = max_seq (frames_records (take j frs)) 0" "f_reliable (lg_f l)" by auto
  with Log_Replay_frames(1) [OF l(2,4), of fn s] j(3-5) show ?thesis
    by (intro exI [of _ j] exI [of _ l]) (simp add: log_abs_def)
qed

lemma frame_ok_small: "length k + length v \<le> 1000 \<Longrightarrow> frame_ok (FPut s k v)"
  using SizeUint64_le_10 [of s] SizeUint64_le_10 [of "of_nat (length k)"] SizeUint64_le_10 [of "of_nat (length v)"]
  by (simp add: frame_ok_def encodeKV_eq MaxUint64Len_def)

theorem wal_crash_recovery_witness:
  "\<exists>j l. wal_Open (os_file_of (take 30 (frames_bytes [FPut 1 [107] [118], FPut 2 [107] []]))) None = Inr l
    \<and> j \<le> length [FPut 1 [107] [118], FPut 2 [107] []]
    \<and> lg_size l = length (frames_bytes (take j [FPut 1 [107] [118], FPut 2 [107] []]))"
proof -
  have "list_all frame_ok [FPut 1 [107] [118], FPut 2 [107] []]" using frame_ok_small by simp
  from wal_crash_recovery [OF os_file_of_simps(6) this os_file_of_simps(1),
      of 30 None "\<lambda>r (n :: nat). (None, n)" 0]
  show ?thesis by blast
qed


definition new_log :: "WalOptions option \<Rightarrow> Log" where
  "new_log opts = \<lparr>lg_f = os_file_of [], lg_opts = WalOptions_normalize opts, lg_appends = 0,
     lg_closed = False, lg_size = 0, lg_nextSeq = 0\<rparr>"

lemma new_log_simps [simp]:
  "log_abs [] (new_log opts)" "f_reliable (lg_f (new_log opts))" "lg_nextSeq (new_log opts) = 0"
  "durable (new_log None)"
  by (simp_all add: new_log_def log_abs_def durable_def WalOptions_normalize_def)


text \<open>C11: a batch is atomic.  Whatever calls fail while it is appended and whether or not it is
  acknowledged, opening the file it leaves recovers either none of its entries or all of them.\<close>

theorem wal_batch_atomic:
  assumes "log_abs frs l" and "es \<noteq> []" and "Log_AppendBatch es l = ((seq, r), l')"
    and "f_reliable g" and "f_data g = f_data (lg_f l')"
  shows "\<exists>frs' l2. wal_Open g opts = Inr l2 \<and> log_abs frs' l2
    \<and> frames_records frs' \<in> {frames_records frs, frames_records frs @ batch_records (lg_nextSeq l) es}
    \<and> (r = None \<longrightarrow> frames_records frs' = frames_records frs @ batch_records (lg_nextSeq l) es
        \<and> seq = lg_nextSeq l + of_nat (length es))"
proof -
  let ?fr = "FBatch (lg_nextSeq l) es" and ?seq = "lg_nextSeq l + of_nat (length es)"
  have ap: "append_frame ?fr ?seq (l\<lparr>lg_nextSeq := ?seq\<rparr>) = ((seq, r), l')"
    using assms(1-3) by (simp add: AppendBatch_eq)
  have l: "log_abs frs (l\<lparr>lg_nextSeq := ?seq\<rparr>)" using assms(1) by simp
  note O = append_frame_outcome [OF ap l]
  have ok: "list_all frame_ok frs" using assms(1) by (simp add: log_abs_def)
  from O(3) obtain n where n: "f_data g = frames_bytes frs @ take n (frame_bytes ?fr)" using assms(5) by auto
  show ?thesis
  proof (cases "frame_ok ?fr \<and> length (frame_bytes ?fr) \<le> n")
    case True
    then have "f_data g = frames_bytes (frs @ [?fr]) @ []" "list_all frame_ok (frs @ [?fr])"
      using n ok by simp_all
    from wal_Open_frames [OF assms(4) this(2) stops_torn [OF torn_Nil] this(1), of opts] obtain l2
      where "wal_Open g opts = Inr l2" "log_abs (frs @ [?fr]) l2" by auto
    with O(2) show ?thesis by (intro exI [of _ "frs @ [?fr]"]) auto
  next
    case False
    obtain b where b: "f_data g = frames_bytes frs @ b" "torn b"
    proof (cases "frame_ok ?fr")
      case True
      with False have "torn (take n (frame_bytes ?fr))"
        unfolding torn_def by (intro exI [of _ ?fr] exI [of _ n]) auto
      with n that show ?thesis by blast
    next
      case False
      with O(1) assms(1,5) that [of "[]"] show ?thesis by (simp add: log_abs_def)
    qed
    have "r \<noteq> None"
    proof
      assume "r = None"
      with O(2) have "f_data g = frames_bytes frs @ frame_bytes ?fr" "frame_ok ?fr"
        using assms(5) by (auto simp: log_abs_def)
      with n have "length (take n (frame_bytes ?fr)) = length (frame_bytes ?fr)" by simp
      with \<open>frame_ok ?fr\<close> False show False by (simp only: length_take simp_thms)
    qed
    with wal_Open_frames [OF assms(4) ok stops_torn [OF b(2)] b(1), of opts] show ?thesis by auto
  qed
qed

theorem wal_batch_atomic_witness:
  "\<exists>seq r l' frs' l2. Log_AppendBatch [\<lparr>be_Key = Some [1], be_Value = Some [2], be_Deleted = False\<rparr>] (new_log None) =
      ((seq, r), l')
    \<and> wal_Open (os_file_of (f_data (lg_f l'))) None = Inr l2 \<and> log_abs frs' l2"
proof -
  let ?es = "[\<lparr>be_Key = Some [1], be_Value = Some [2], be_Deleted = False\<rparr>]"
  obtain seq r l' where a: "Log_AppendBatch ?es (new_log None) = ((seq, r), l')" by (metis prod.exhaust)
  from wal_batch_atomic [OF new_log_simps(1) _ a os_file_of_simps(6) os_file_of_simps(1), of None] a
  show ?thesis by blast
qed

text \<open>C12: a session of appends, batches and deletes on a log is all acknowledged, and reopening the
  file and replaying it applies exactly the records of the session after the older ones, each
  operation's records numbered on from the last number handed out.\<close>

theorem wal_session_replays:
  assumes "log_abs frs l" and "f_reliable (lg_f l)"
    and "list_all frame_ok (ops_frames (lg_nextSeq l) ops)" and "wal_ops ops l = (res, l')"
    and "f_reliable g" and "f_data g = f_data (lg_f l')"
  shows "res = replicate (length ops) None \<and>
    (\<exists>l2. wal_Open g opts = Inr l2 \<and>
      fst (Log_Replay fn s l2) =
        replay_records fn (frames_records frs @ frames_records (ops_frames (lg_nextSeq l) ops)) s)"
proof -
  let ?frs = "frs @ ops_frames (lg_nextSeq l) ops"
  from wal_ops_frames [OF assms(1-3)] assms(4)
  have res: "res = replicate (length ops) None" and a: "log_abs ?frs l'" by auto
  then have "list_all frame_ok ?frs" "f_data g = frames_bytes ?frs @ []"
    using assms(6) by (simp_all add: log_abs_def)
  from wal_Open_frames [OF assms(5) this(1) stops_torn [OF torn_Nil] this(2), of opts] obtain l2
    where "wal_Open g opts = Inr l2" "log_abs ?frs l2" "f_reliable (lg_f l2)" by auto
  with Log_Replay_frames(1) [OF this(2,3), of fn s] res show ?thesis by auto
qed

theorem wal_session_replays_witness:
  "\<exists>res l' l2. wal_ops [WPut [107] [118], WDelete [107]] (new_log None) = (res, l')
    \<and> wal_Open (os_file_of (f_data (lg_f l'))) None = Inr l2
    \<and> fst (Log_Replay (\<lambda>r n. (None, Suc n)) 0 l2) = (None, 2)"
proof -
  have ok: "list_all frame_ok (ops_frames (lg_nextSeq (new_log None)) [WPut [107] [118], WDelete [107]])"
    using frame_ok_small [of "[107]" "[118]" 1] SizeUint64_le_10 [of 0] SizeUint64_le_10 [of 1]
      SizeUint64_le_10 [of 2] by (simp add: frame_ok_def encodeKV_eq MaxUint64Len_def)
  obtain res l' where w: "wal_ops [WPut [107] [118], WDelete [107]] (new_log None) = (res, l')" by fastforce
  from wal_session_replays [OF new_log_simps(1,2) ok w os_file_of_simps(6) os_file_of_simps(1),
      of None "\<lambda>r n. (None, Suc n)" 0] w
  show ?thesis by auto
qed

text \<open>C20: an append that fails after three bytes of its frame header were written leaves them in
  the file and the log goes on behind them.  The next append is acknowledged and synced, yet
  opening the durable contents recovers neither it nor anything after it.\<close>

theorem wal_acknowledged_append_lost:
  assumes "log_abs frs l" and "f_fault (lg_f l) (f_tick (lg_f l)) = Some 3"
    and "\<forall>t>f_tick (lg_f l). f_fault (lg_f l) t = None"
    and "wo_SyncOnWrite (lg_opts l)" and "wo_SyncEveryN (lg_opts l) = 0"
    and "length k1 + length v1 \<le> 100" and "length k2 + length v2 \<le> 100"
  shows "\<exists>l1 l2. Log_AppendPut k1 v1 l = ((0, Some OsError), l1)
    \<and> Log_AppendPut k2 v2 l1 = ((lg_nextSeq l + 2, None), l2)
    \<and> (\<forall>g opts. f_reliable g \<and> f_data g = f_stable (lg_f l2) \<longrightarrow>
        (\<exists>l3. wal_Open g opts = Inr l3 \<and> log_abs frs l3))"
proof -
  have ok: "frame_ok (FPut s k1 v1)" "frame_ok (FPut s k2 v2)" for s
    using assms(6,7) by (auto intro!: frame_ok_small)
  from stray_append [OF assms(1,2), of k1 v1] ok(1) obtain l1 x where
    1: "Log_AppendPut k1 v1 l = ((0, Some OsError), l1)" "lg_nextSeq l1 = lg_nextSeq l + 1"
    "length x = 3" "f_data (lg_f l1) = frames_bytes frs @ x" "f_pos (lg_f l1) = length (frames_bytes frs) + 3"
    "f_fault (lg_f l1) = f_fault (lg_f l)" "f_tick (lg_f l1) = f_tick (lg_f l) + 1"
    "lg_opts l1 = lg_opts l" "\<not> lg_closed l1" by auto
  let ?fr = "FPut (lg_nextSeq l + 2) k2 v2"
  have "\<forall>t\<ge>f_tick (lg_f l1). f_fault (lg_f l1) t = None" using 1(6,7) assms(3) by simp
  moreover have "durable l1" using assms(4,5) 1(8) by (simp add: durable_def)
  ultimately obtain l2 where 2: "Log_AppendPut k2 v2 l1 = ((lg_nextSeq l + 2, None), l2)"
    "f_stable (lg_f l2) = frames_bytes frs @ x @ frame_bytes ?fr"
    using append_anywhere [of l1 k2 v2] 1 assms(5) ok(2) by (auto simp: add.assoc)
  have "length (frame_payload ?fr) < 256"
    using assms(7) SizeUint64_le_10 [of "lg_nextSeq l + 2"] SizeUint64_le_10 [of "of_nat (length k2)"]
      SizeUint64_le_10 [of "of_nat (length v2)"] by (simp add: encodeKV_eq MaxUint64Len_def)
  from stray_type [OF this 1(3)] have "stops (x @ frame_bytes ?fr)"
    by (intro stops_bad_type) (simp_all add: length_frame_bytes TypePut_def TypeDelete_def TypeBatch_def)
  moreover have "list_all frame_ok frs" using assms(1) by (simp add: log_abs_def)
  ultimately have "\<exists>l3. wal_Open g opts = Inr l3 \<and> log_abs frs l3"
    if "f_reliable g" "f_data g = f_stable (lg_f l2)" for g opts
    using wal_Open_frames [of g frs "x @ frame_bytes ?fr" opts] that 2(2) by auto
  with 1(1) 2(1) show ?thesis by blast
qed

theorem wal_acknowledged_append_lost_witness:
  "\<exists>l1 l2. Log_AppendPut [97] [1] ((new_log None)\<lparr>lg_f := (os_file_of [])\<lparr>f_fault := (\<lambda>_. None)(0 := Some 3)\<rparr>\<rparr>) =
      ((0, Some OsError), l1)
    \<and> Log_AppendPut [98] [2] l1 = ((2, None), l2)
    \<and> (\<exists>l3. wal_Open (os_file_of (f_stable (lg_f l2))) None = Inr l3 \<and> lg_size l3 = 0)"
proof -
  let ?l = "(new_log None)\<lparr>lg_f := (os_file_of [])\<lparr>f_fault := (\<lambda>_. None)(0 := Some 3)\<rparr>\<rparr>"
  have "log_abs [] ?l" "wo_SyncOnWrite (lg_opts ?l)" "wo_SyncEveryN (lg_opts ?l) = 0" "lg_nextSeq ?l = 0"
    "f_tick (lg_f ?l) = 0" "f_fault (lg_f ?l) = (\<lambda>_. None)(0 := Some 3)"
    by (simp_all add: log_abs_def new_log_def WalOptions_normalize_def)
  with wal_acknowledged_append_lost [of "[]" ?l "[97]" "[1]" "[98]" "[2]"] obtain l1 l2 where
    l12: "Log_AppendPut [97] [1] ?l = ((0, Some OsError), l1)" "Log_AppendPut [98] [2] l1 = ((2, None), l2)"
    and "\<forall>g opts. f_reliable g \<and> f_data g = f_stable (lg_f l2) \<longrightarrow> (\<exists>l3. wal_Open g opts = Inr l3 \<and> log_abs [] l3)"
    by auto
  then obtain l3 where "wal_Open (os_file_of (f_stable (lg_f l2))) None = Inr l3" "log_abs [] l3"
    using os_file_of_simps(1,6) by blast
  with l12 show ?thesis by (intro exI [of _ l1] exI [of _ l2]) (simp add: log_abs_def)
qed



end
