(* ===== verification/Versions.thy ===== *)
theory Versions imports Compact_Table Lsmkv Memtable_Refinement Wal_Recovery begin

text \<open>
  What a list of versions of keys means.  The tables and the memtable hold entries with sequence
  numbers; a key reads as its entry with the greatest number, and as absent when that entry is a
  tombstone.  The meaning depends only on the set of the entries, so that flushing, merging and
  replaying, which move entries about, keep it.
\<close>

section \<open>The newest entry of a key\<close>

definition lookup :: "sst_Entry list list \<Rightarrow> bytes \<Rightarrow> sst_Entry option" where
  "lookup vs k = newest (map (find_key k) vs)"

definition visible :: "sst_Entry option \<Rightarrow> bytes option" where
  "visible c = (case c of None \<Rightarrow> None | Some e \<Rightarrow> if se_Deleted e then None else Some (sval e))"

definition view :: "sst_Entry list list \<Rightarrow> bytes \<Rightarrow> bytes option" where
  "view vs k = visible (lookup vs k)"

definition latest_of :: "sst_Entry set \<Rightarrow> bytes \<Rightarrow> sst_Entry \<Rightarrow> bool" where
  "latest_of E k e = (e \<in> E \<and> skey e = k \<and> (\<forall>e'\<in>E. skey e' = k \<longrightarrow> se_Seq e' \<le> se_Seq e))"

text \<open>One entry for each key and number, and strictly sorted lists.\<close>

definition one_version :: "sst_Entry set \<Rightarrow> bool" where
  "one_version E = (\<forall>a\<in>E. \<forall>b\<in>E. skey a = skey b \<longrightarrow> se_Seq a = se_Seq b \<longrightarrow> a = b)"

definition lists_ok :: "sst_Entry list list \<Rightarrow> bool" where
  "lists_ok vs = ((\<forall>es\<in>set vs. keys_sorted es) \<and> one_version (set (concat vs)))"

lemma one_version_insert: "one_version E \<Longrightarrow> \<forall>x\<in>E. se_Seq x < se_Seq e \<Longrightarrow> one_version (insert e E)"
  unfolding one_version_def by (metis insertE order_less_irrefl)

lemma latest_unique: "one_version E \<Longrightarrow> latest_of E k a \<Longrightarrow> latest_of E k b \<Longrightarrow> a = b"
  unfolding latest_of_def one_version_def by (metis order_antisym)

lemma one_version_mono: "one_version E \<Longrightarrow> E' \<subseteq> E \<Longrightarrow> one_version E'"
  by (auto simp: one_version_def)

lemma lookup_mem:
  assumes "\<forall>es\<in>set vs. keys_sorted es" and "lookup vs k = Some e"
  shows "latest_of (set (concat vs)) k e"
proof -
  from assms(2) have "Some e \<in> (\<lambda>es. find_key k es) ` set vs"
    using newest_mem [of "map (find_key k) vs" e] by (simp add: lookup_def)
  then obtain es where es: "es \<in> set vs" "find_key k es = Some e" by auto
  with assms(1) have e: "e \<in> set es" "skey e = k" by (simp_all add: find_key_unique)
  have "se_Seq e' \<le> se_Seq e" if "es' \<in> set vs" "e' \<in> set es'" "skey e' = k" for e' es'
  proof -
    have "find_key k es' = Some e'" using that assms(1) by (simp add: find_key_unique)
    then have "Some e' \<in> set (map (find_key k) vs)" using that(1) by force
    then show ?thesis using newest_max assms(2) by (simp add: lookup_def)
  qed
  with es e show ?thesis by (auto simp: latest_of_def)
qed

lemma lookup_none:
  assumes "\<forall>es\<in>set vs. keys_sorted es" and "lookup vs k = None" and "e \<in> set (concat vs)"
  shows "skey e \<noteq> k"
proof
  assume k: "skey e = k"
  from assms(3) obtain es where es: "es \<in> set vs" "e \<in> set es" by auto
  then have "find_key k es = Some e" using assms(1) k by (simp add: find_key_unique)
  then show False using assms(2) es(1) by (force simp: lookup_def newest_None)
qed

lemma lookup_latest:
  assumes "lists_ok vs"
  shows "lookup vs k = Some e \<longleftrightarrow> latest_of (set (concat vs)) k e"
proof
  assume l: "latest_of (set (concat vs)) k e"
  then have "lookup vs k \<noteq> None" using lookup_none [of vs k e] assms by (auto simp: lists_ok_def latest_of_def)
  then obtain e' where "lookup vs k = Some e'" by blast
  moreover from this have "latest_of (set (concat vs)) k e'" using lookup_mem assms by (simp add: lists_ok_def)
  ultimately show "lookup vs k = Some e" using latest_unique [OF _ l] assms by (auto simp: lists_ok_def)
qed (use assms lookup_mem in \<open>simp add: lists_ok_def\<close>)

lemma lookup_cong:
  assumes "lists_ok vs" and "lists_ok vs'"
    and "\<And>e. latest_of (set (concat vs)) k e \<longleftrightarrow> latest_of (set (concat vs')) k e"
  shows "lookup vs k = lookup vs' k"
proof -
  have "lookup vs k = Some e \<longleftrightarrow> lookup vs' k = Some e" for e using assms by (simp add: lookup_latest)
  then show ?thesis by (metis option.exhaust)
qed

lemma view_cong:
  "lists_ok vs \<Longrightarrow> lists_ok vs' \<Longrightarrow> set (concat vs) = set (concat vs') \<Longrightarrow> view vs = view vs'"
  by (rule ext) (simp add: view_def lookup_cong [of vs vs'])

text \<open>Entries that a newer one of their key covers may go.\<close>

lemma latest_covered:
  assumes "one_version E" and "E' \<subseteq> E" and "\<And>e. e \<in> E \<Longrightarrow> \<exists>e'\<in>E'. skey e' = skey e \<and> se_Seq e \<le> se_Seq e'"
  shows "latest_of E' k e \<longleftrightarrow> latest_of E k e"
proof
  assume l: "latest_of E' k e"
  have "se_Seq x \<le> se_Seq e" if "x \<in> E" "skey x = k" for x
    using assms(3) [OF that(1)] l that(2) order_trans by (fastforce simp: latest_of_def)
  with l assms(2) show "latest_of E k e" by (auto simp: latest_of_def)
next
  assume l: "latest_of E k e"
  then obtain e' where e': "e' \<in> E'" "skey e' = k" "se_Seq e \<le> se_Seq e'" using assms(3) [of e] by (auto simp: latest_of_def)
  moreover from e' l assms(2) have "se_Seq e' \<le> se_Seq e" by (auto simp: latest_of_def)
  ultimately have "e' = e" using assms(1,2) l unfolding one_version_def latest_of_def
    by (metis order_antisym subsetD)
  with e' l assms(2) show "latest_of E' k e" by (auto simp: latest_of_def)
qed

section \<open>The memtable as a list of stored entries\<close>

fun put_entry :: "sst_Entry \<Rightarrow> sst_Entry list \<Rightarrow> sst_Entry list" where
  "put_entry e [] = [e]"
| "put_entry e (x # xs) =
     (if skey x < skey e then x # put_entry e xs
      else if skey x = skey e then (if se_Seq x \<le> se_Seq e then e else x) # xs
      else e # x # xs)"

definition entry_of :: "bytes \<Rightarrow> bytes \<Rightarrow> u64 \<Rightarrow> bool \<Rightarrow> sst_Entry" where
  "entry_of k v q d = \<lparr>se_Key = Some k, se_Value = Some v, se_Seq = q, se_Deleted = d\<rparr>"

lemma entry_of_simps [simp]:
  "skey (entry_of k v q d) = k" "sval (entry_of k v q d) = v" "se_Seq (entry_of k v q d) = q"
  "se_Deleted (entry_of k v q d) = d" "stored (entry_of k v q d) = entry_of k v q d"
  "esize (entry_of k v q d) = length k + length v + 64"
  by (simp_all add: entry_of_def skey_def sval_def stored_def esize_def)

lemma mem_set_stored:
  "map (\<lambda>e. stored (to_sst e)) (mem_set k v q d es) =
    put_entry (entry_of (sbytes k) (sbytes v) q d) (map (\<lambda>e. stored (to_sst e)) es)"
  by (induction es)
    (auto simp: new_Entry_def update_Entry_def to_sst_def stored_def skey_def sval_def entry_of_def)

lemma set_put_entry_subset: "set (put_entry e es) \<subseteq> insert e (set es)"
  by (induction es) auto

lemma set_put_entry:
  assumes "keys_sorted es" and "\<forall>x\<in>set es. se_Seq x < se_Seq e"
  shows "set (put_entry e es) = insert e {x \<in> set es. skey x \<noteq> skey e}"
  using assms
proof (induction es)
  case (Cons x xs)
  have x: "\<forall>y\<in>set xs. skey x < skey y" using Cons.prems(1) by (simp add: keys_sorted_def)
  have IH: "set (put_entry e xs) = insert e {x \<in> set xs. skey x \<noteq> skey e}"
    using Cons by (simp add: keys_sorted_def)
  consider "skey x < skey e" | "skey x = skey e" | "skey e < skey x" by (metis linorder_less_linear)
  then show ?case
  proof cases
    case 1
    then have "skey x \<noteq> skey e" by auto
    with 1 show ?thesis unfolding put_entry.simps if_P [OF 1] list.set IH by blast
  next
    case 2
    then have "\<forall>y\<in>set xs. skey y \<noteq> skey e" using x by auto
    with 2 Cons.prems(2) show ?thesis by (auto simp: order_less_imp_le)
  next
    case 3
    then have "\<forall>y\<in>set xs. skey y \<noteq> skey e" using x by (metis order_less_trans order_less_irrefl)
    with 3 show ?thesis by auto
  qed
qed simp

lemma keys_sorted_put:
  assumes "keys_sorted es"
  shows "keys_sorted (put_entry e es)"
  using assms
proof (induction es)
  case (Cons x xs)
  have x: "\<forall>y\<in>set xs. skey x < skey y" using Cons.prems by (simp add: keys_sorted_def)
  have IH: "keys_sorted (put_entry e xs)" using Cons by (simp add: keys_sorted_def)
  consider "skey x < skey e" | "skey x = skey e" | "skey e < skey x" by (metis linorder_less_linear)
  then show ?case
  proof cases
    case 1
    then have "\<forall>y\<in>set (put_entry e xs). skey x < skey y" using x set_put_entry_subset [of e xs] by blast
    then show ?thesis using IH 1 by (simp add: keys_sorted_def)
  next
    case 2
    then show ?thesis using Cons.prems by (simp add: keys_sorted_def)
  next
    case 3
    then have "skey e < skey x" "\<forall>y\<in>set xs. skey e < skey y" using x order_less_trans by blast+
    moreover from 3 have "\<not> skey x < skey e" "skey x \<noteq> skey e" by auto
    ultimately show ?thesis using Cons.prems by (simp add: keys_sorted_def)
  qed
qed (simp add: keys_sorted_def)

lemma total_size_put: "total_size (put_entry e es) \<le> esize e + total_size es"
  by (induction es) auto

section \<open>Tables and memtable together\<close>

definition versions_ok :: "sst_Entry list list \<Rightarrow> sst_Entry list \<Rightarrow> bool" where
  "versions_ok ess L =
     (lists_ok (ess @ [L]) \<and> (\<forall>e\<in>set L. skey e \<noteq> []) \<and>
      (\<forall>a\<in>set (concat ess). \<forall>b\<in>set L. skey a = skey b \<longrightarrow> se_Seq a \<le> se_Seq b))"

lemma versions_okD:
  assumes "versions_ok ess L"
  shows "lists_ok (ess @ [L])" "lists_ok ess" "keys_sorted L" "\<And>e. e \<in> set L \<Longrightarrow> skey e \<noteq> []"
  using assms one_version_mono [of "set (concat (ess @ [L]))" "set (concat ess)"]
  by (auto simp: versions_ok_def lists_ok_def)

lemma lookup_memtable:
  assumes "versions_ok ess L" and "find_key k L = Some e"
  shows "lookup (ess @ [L]) k = Some e"
proof -
  have e: "e \<in> set L" "skey e = k" using assms(2) versions_okD(3) [OF assms(1)] by (simp_all add: find_key_unique)
  have "se_Seq x \<le> se_Seq e" if "x \<in> set L" "skey x = k" for x
    using that e keys_unique [OF versions_okD(3) [OF assms(1)]] by auto
  then have "latest_of (set (concat (ess @ [L]))) k e"
    using e assms(1) by (auto simp: latest_of_def versions_ok_def)
  then show ?thesis using lookup_latest [OF versions_okD(1) [OF assms(1)]] by blast
qed

lemma newest_snoc_None: "newest (cs @ [None]) = newest cs"
  by (induction cs rule: newest.induct) (auto split: option.splits)

lemma lookup_tables: "find_key k L = None \<Longrightarrow> lookup (ess @ [L]) k = lookup ess k"
  by (simp add: lookup_def newest_snoc_None)

lemma versions_put:
  assumes ok: "versions_ok ess L" and "\<forall>x\<in>set (concat (ess @ [L])). se_Seq x < se_Seq e" and "skey e \<noteq> []"
  shows "versions_ok ess (put_entry e L)"
    and "view (ess @ [put_entry e L]) = (view (ess @ [L]))(skey e := visible (Some e))"
proof -
  let ?E = "set (concat (ess @ [L]))" and ?E' = "set (concat (ess @ [put_entry e L]))"
  have new: "set (put_entry e L) = insert e {x \<in> set L. skey x \<noteq> skey e}"
    using set_put_entry [OF versions_okD(3) [OF ok]] assms(2) by auto
  have ov: "one_version (insert e ?E)"
    using one_version_insert assms(2) versions_okD(1) [OF ok] by (simp only: lists_ok_def)
  have sub: "?E' \<subseteq> insert e ?E" using new by auto
  have lok: "lists_ok (ess @ [put_entry e L])"
    using versions_okD(1) [OF ok] keys_sorted_put [OF versions_okD(3) [OF ok], of e] one_version_mono [OF ov sub]
    by (auto simp: lists_ok_def)
  show ok': "versions_ok ess (put_entry e L)"
    unfolding versions_ok_def
  proof (intro conjI ballI impI lok)
    fix x assume "x \<in> set (put_entry e L)"
    then show "skey x \<noteq> []" using new assms(3) versions_okD(4) [OF ok] by auto
  next
    fix a b assume ab: "a \<in> set (concat ess)" "b \<in> set (put_entry e L)" "skey a = skey b"
    show "se_Seq a \<le> se_Seq b"
    proof (cases "b = e")
      case True
      with ab(1) assms(2) show ?thesis by (simp add: order_less_imp_le)
    next
      case False
      then have "b \<in> set L" using ab(2) new by blast
      with ab ok show ?thesis unfolding versions_ok_def by blast
    qed
  qed
  show "view (ess @ [put_entry e L]) = (view (ess @ [L]))(skey e := visible (Some e))"
  proof
    fix k
    show "view (ess @ [put_entry e L]) k = ((view (ess @ [L]))(skey e := visible (Some e))) k"
    proof (cases "k = skey e")
      case True
      have "find_key k (put_entry e L) = Some e"
        using new True keys_sorted_put [OF versions_okD(3) [OF ok], of e] by (simp add: find_key_unique)
      then show ?thesis using lookup_memtable [OF ok'] True by (simp add: view_def)
    next
      case False
      have "lookup (ess @ [put_entry e L]) k = lookup (ess @ [L]) k"
        by (rule lookup_cong [OF lok versions_okD(1) [OF ok]]) (use new False in \<open>auto simp: latest_of_def\<close>)
      with False show ?thesis by (simp add: view_def)
    qed
  qed
qed

text \<open>The entries of the memtable in a table, with and without the memtable they came from.\<close>

lemma versions_flush:
  assumes "versions_ok ess L"
  shows "versions_ok (ess @ [L]) L" "view (ess @ [L] @ [L]) = view (ess @ [L])"
    "versions_ok (ess @ [L]) []" "view (ess @ [L] @ [[]]) = view (ess @ [L])"
proof -
  have [simp]: "keys_sorted []" by (simp add: keys_sorted_def)
  have u: "a = b" if "a \<in> set L" "b \<in> set L" "skey a = skey b" for a b
    using keys_unique [OF versions_okD(3) [OF assms]] that by blast
  show 1: "versions_ok (ess @ [L]) L" and 2: "versions_ok (ess @ [L]) []"
    using assms u by (auto simp: versions_ok_def lists_ok_def)
  show "view (ess @ [L] @ [L]) = view (ess @ [L])" "view (ess @ [L] @ [[]]) = view (ess @ [L])"
    by (rule view_cong; use versions_okD(1) [OF assms] versions_okD(1) [OF 1] versions_okD(1) [OF 2] in auto)+
qed

text \<open>Tables merged into one, kept beside others.\<close>

lemma versions_merge:
  assumes ok: "versions_ok ess L" and "keys_sorted out" and "\<And>k. find_key k out = lookup ins k"
    and "set (concat ess) = set (concat kept') \<union> set (concat ins)" and "set kept' \<union> set ins \<subseteq> set ess"
  shows "versions_ok (kept' @ [out]) L" and "view ((kept' @ [out]) @ [L]) = view (ess @ [L])"
    and "set out \<subseteq> set (concat ins)"
proof -
  let ?E = "set (concat (ess @ [L]))" and ?E' = "set (concat ((kept' @ [out]) @ [L]))"
  have lins: "lists_ok ins"
    using versions_okD(2) [OF ok] assms(4,5) one_version_mono [of "set (concat ess)" "set (concat ins)"]
    by (auto simp: lists_ok_def)
  have out: "e \<in> set out \<longleftrightarrow> latest_of (set (concat ins)) (skey e) e" for e
    using assms(2,3) lookup_latest [OF lins] by (metis find_key_unique)
  then show sub: "set out \<subseteq> set (concat ins)" by (auto simp: latest_of_def)
  have sub': "?E' \<subseteq> ?E" using sub assms(4) by auto
  have ov: "one_version ?E" using versions_okD(1) [OF ok] by (simp add: lists_ok_def)
  have lok: "lists_ok ((kept' @ [out]) @ [L])"
    using versions_okD(1) [OF ok] assms(2,5) one_version_mono [OF ov sub'] by (auto simp: lists_ok_def)
  then show ok': "versions_ok (kept' @ [out]) L"
    using ok sub assms(4) unfolding versions_ok_def by simp blast
  have cover: "\<exists>e'\<in>?E'. skey e' = skey e \<and> se_Seq e \<le> se_Seq e'" if "e \<in> ?E" for e
  proof (cases "e \<in> set (concat ins)")
    case True
    then have "lookup ins (skey e) \<noteq> None" using lookup_none [of ins "skey e" e] lins by (auto simp: lists_ok_def)
    then obtain e' where "lookup ins (skey e) = Some e'" by blast
    then have l: "latest_of (set (concat ins)) (skey e) e'" using lookup_latest [OF lins] by blast
    then have "e' \<in> set out" using out by (auto simp: latest_of_def)
    with l True show ?thesis by (auto simp: latest_of_def)
  next
    case False
    then have "e \<in> ?E'" using that assms(4) by auto
    then show ?thesis by blast
  qed
  have "lookup ((kept' @ [out]) @ [L]) k = lookup (ess @ [L]) k" for k
    by (rule lookup_cong [OF lok versions_okD(1) [OF ok]]) (rule latest_covered [OF ov sub' cover])
  then show "view ((kept' @ [out]) @ [L]) = view (ess @ [L])" by (simp add: view_def fun_eq_iff)
qed

end
