(* ===== verification/Lsmkv_Rel.thy ===== *)
theory Lsmkv_Rel imports Versions Manifest_Update begin

text \<open>
  What an open database means: the map from keys to values that its tables and its memtable show,
  the files it relies on, and the log that holds the memtable's records.
\<close>

section \<open>Records and the memtable\<close>

definition record_entry :: "Record \<Rightarrow> sst_Entry" where
  "record_entry r = entry_of (sbytes (rc_Key r)) (if rc_Deleted r then [] else rc_Value r) (rc_Seq r) (rc_Deleted r)"

definition replayed :: "Record list \<Rightarrow> sst_Entry list" where
  "replayed rs = fold put_entry (map record_entry rs) []"

definition mem_entries :: "Entry list \<Rightarrow> sst_Entry list" where
  "mem_entries L = map (\<lambda>e. stored (to_sst e)) L"

lemma replayed_simps [simp]:
  "replayed [] = []" "replayed (rs @ rs') = fold put_entry (map record_entry rs') (replayed rs)"
  by (simp_all add: replayed_def)

lemma mem_entries_simps [simp]: "mem_entries [] = []" "mem_entries L = [] \<longleftrightarrow> L = []"
  by (simp_all add: mem_entries_def)

lemma mem_entries_set:
  "mem_entries (mem_set k v q d L) = put_entry (entry_of (sbytes k) (sbytes v) q d) (mem_entries L)"
  by (simp add: mem_entries_def mem_set_stored)

lemma find_key_mem: "find_key k (mem_entries L) = map_option (\<lambda>e. stored (to_sst e)) (mem_map L k)"
  by (induction L) (simp_all add: mem_entries_def find_key_def to_sst_def stored_def skey_def)

lemma set_replayed: "e \<in> set (replayed rs) \<Longrightarrow> e \<in> record_entry ` set rs"
proof (induction rs rule: rev_induct)
  case (snoc r rs)
  then show ?case using set_put_entry_subset [of "record_entry r" "replayed rs"] by auto
qed simp

section \<open>The relation\<close>

text \<open>The files the manifest names are tables, and no table holds a number beyond the manifest's.\<close>

definition store_ok :: "codec \<Rightarrow> (string \<Rightarrow> bytes option) \<Rightarrow> Manifest \<Rightarrow> sst_Entry list list \<Rightarrow> bool" where
  "store_ok js c m ess =
     (mf_path m = mf_fileName \<and> names_ok m \<and> holds_state js c (mf_state m) \<and>
      list_all2 (holds_table c) (map fm_Name (st_Files (mf_state m))) ess \<and>
      (\<forall>e\<in>set (concat ess). se_Seq e \<le> st_LogSeq (mf_state m)) \<and>
      (\<forall>f\<in>set (st_Files (mf_state m)). fm_MaxSeq f \<le> st_LogSeq (mf_state m)))"

abbreviation table_entries :: "sst_Entry list list \<Rightarrow> sst_Entry list list" where
  "table_entries ess \<equiv> map (map stored) ess"

text \<open>
  The entries of tables and memtable together, and a bound u on their sizes and on the numbers in
  use, so that an operation that adds less than what is left cannot overflow anything.
\<close>

definition fits_in :: "nat \<Rightarrow> Manifest \<Rightarrow> sst_Entry list list \<Rightarrow> Record list \<Rightarrow> bool" where
  "fits_in u m ess rs =
     (versions_ok (table_entries ess) (replayed rs) \<and>
      sum_list (map total_size ess) + total_size (replayed rs) \<le> u \<and>
      unat (st_LogSeq (mf_state m)) \<le> u \<and> unat (st_NextFile (mf_state m)) \<le> u \<and>
      (\<forall>r\<in>set rs. unat (rc_Seq r) \<le> u))"

definition shows_map :: "sst_Entry list list \<Rightarrow> Record list \<Rightarrow> (bytes \<Rightarrow> bytes option) \<Rightarrow> bool" where
  "shows_map ess rs M = (M = view (table_entries ess @ [replayed rs]))"

definition log_path :: string where "log_path = ''wal.log''"

text \<open>The log of an open database: its frames are in the file, and on the disk when each append is
  synced, behind which a torn frame may stand that recovery removed.\<close>

definition log_open :: "wframe list \<Rightarrow> Manifest \<Rightarrow> nat \<Rightarrow> Log \<Rightarrow> bool" where
  "log_open frs m u l =
     (log_abs frs l \<and> f_reliable (lg_f l) \<and> seqs_below frs l \<and> st_LogSeq (mf_state m) \<le> lg_nextSeq l \<and>
      unat (lg_nextSeq l) \<le> u \<and> wo_FileName (lg_opts l) = log_path \<and>
      (durable l \<longrightarrow> (\<exists>b. stops b \<and> f_stable (lg_f l) = frames_bytes frs @ b)))"

definition lock_open :: "Lock \<Rightarrow> bool" where
  "lock_open lk = (lk_held lk \<and> lk_path lk = defaultLockName \<and> (\<exists>f. lk_f lk = Some f \<and> f_reliable f))"

definition db_rel :: "world \<Rightarrow> nat \<Rightarrow> (bytes \<Rightarrow> bytes option) \<Rightarrow> DB \<Rightarrow> disk \<Rightarrow> bool" where
  "db_rel wd u M db d =
     (dk_reliable d \<and> dk_content d log_path \<noteq> None \<and> \<not> db_closed db \<and> lock_open (db_lock db) \<and>
      (\<exists>ess L frs.
        mt_rel (db_mem db) L \<and> mem_entries L = replayed (frames_records frs) \<and>
        list_all2 reader_of ess (db_tables db) \<and>
        map Reader_Path (db_tables db) = map fm_Name (st_Files (mf_state (db_manif db))) \<and>
        store_ok (wd_codec wd) (dk_content d) (db_manif db) ess \<and>
        fits_in u (db_manif db) ess (frames_records frs) \<and>
        log_open frs (db_manif db) u (db_wal db) \<and>
        shows_map ess (frames_records frs) M))"

definition world_ok :: "world \<Rightarrow> bool" where
  "world_ok wd = (codec_ok (wd_codec wd) \<and> sizing_ok (wd_sizing wd))"

lemma db_relE:
  assumes "db_rel wd u M db d"
  obtains ess L frs where "dk_reliable d" "dk_content d log_path \<noteq> None" "\<not> db_closed db" "lock_open (db_lock db)"
    "mt_rel (db_mem db) L" "mem_entries L = replayed (frames_records frs)" "list_all2 reader_of ess (db_tables db)"
    "map Reader_Path (db_tables db) = map fm_Name (st_Files (mf_state (db_manif db)))"
    "store_ok (wd_codec wd) (dk_content d) (db_manif db) ess" "fits_in u (db_manif db) ess (frames_records frs)"
    "log_open frs (db_manif db) u (db_wal db)" "M = view (table_entries ess @ [replayed (frames_records frs)])"
  using assms unfolding db_rel_def shows_map_def by blast

lemma db_relI:
  assumes "dk_reliable d" "dk_content d log_path \<noteq> None" "\<not> db_closed db" "lock_open (db_lock db)"
    "mt_rel (db_mem db) L" "mem_entries L = replayed (frames_records frs)" "list_all2 reader_of ess (db_tables db)"
    "map Reader_Path (db_tables db) = map fm_Name (st_Files (mf_state (db_manif db)))"
    "store_ok (wd_codec wd) (dk_content d) (db_manif db) ess" "fits_in u (db_manif db) ess (frames_records frs)"
    "log_open frs (db_manif db) u (db_wal db)" "M = view (table_entries ess @ [replayed (frames_records frs)])"
  shows "db_rel wd u M db d"
  using assms unfolding db_rel_def shows_map_def by blast

lemma db_rel_mono:
  assumes "db_rel wd u M db d" and "u \<le> v"
  shows "db_rel wd v M db d"
proof -
  have "fits_in u m ess rs \<Longrightarrow> fits_in v m ess rs" for m ess rs using assms(2) unfolding fits_in_def by (meson order_trans)
  moreover have "log_open frs m u l \<Longrightarrow> log_open frs m v l" for frs m l
    using assms(2) unfolding log_open_def by (meson order_trans)
  ultimately show ?thesis using assms(1) unfolding db_rel_def by blast
qed

section \<open>Get\<close>

definition better :: "sst_Entry option \<Rightarrow> sst_Entry option \<Rightarrow> sst_Entry option" where
  "better c best =
     (case c of
        None \<Rightarrow> best
      | Some e \<Rightarrow> if (case best of None \<Rightarrow> True | Some b \<Rightarrow> se_Seq e > se_Seq b) then Some e else best)"

lemma fold_better:
  "case fold better cs best of
     None \<Rightarrow> best = None \<and> (\<forall>c\<in>set cs. c = None)
   | Some e \<Rightarrow> (Some e \<in> insert best (set cs)) \<and> (\<forall>e'. Some e' \<in> insert best (set cs) \<longrightarrow> se_Seq e' \<le> se_Seq e)"
proof (induction cs arbitrary: best)
  case (Cons c cs)
  show ?case
    using Cons.IH [of "better c best"]
    by (cases c; cases best) (auto simp: better_def split: option.splits if_splits)
qed (simp split: option.splits)

lemma fold_better_lookup:
  assumes "lists_ok vs"
  shows "fold better (rev (map (find_key k) vs)) None = lookup vs k"
proof (cases "fold better (rev (map (find_key k) vs)) None")
  case None
  then have "\<forall>es\<in>set vs. find_key k es = None"
    using fold_better [where cs = "rev (map (find_key k) vs)" and best = None] by simp
  then have "lookup vs k = None" by (simp add: lookup_def newest_None)
  with None show ?thesis by simp
next
  case (Some e)
  then have e: "Some e \<in> find_key k ` set vs" "\<And>es e'. es \<in> set vs \<Longrightarrow> find_key k es = Some e' \<Longrightarrow> se_Seq e' \<le> se_Seq e"
    using fold_better [where cs = "rev (map (find_key k) vs)" and best = None] by (auto simp: rev_image_eqI)
  from e(1) obtain es where es: "es \<in> set vs" "find_key k es = Some e" by force
  then have e': "e \<in> set es" "skey e = k" using assms by (simp_all add: find_key_unique lists_ok_def)
  have "se_Seq x \<le> se_Seq e" if "xs \<in> set vs" "x \<in> set xs" "skey x = k" for x xs
    using e(2) [OF that(1)] that assms by (simp add: find_key_unique lists_ok_def)
  with es(1) e' have "latest_of (set (concat vs)) k e" by (auto simp: latest_of_def)
  then show ?thesis using lookup_latest [OF assms] Some by metis
qed

lemma table_lookup_stored: "table_lookup es k = found (find_key k (map stored es))"
proof -
  have "find_key k (map stored es) = map_option stored (find (\<lambda>e. skey e = k) es)"
    by (induction es) (simp_all add: find_key_def)
  then show ?thesis by (simp add: table_lookup_def found_def split: option.splits)
qed

lemma get_loop_tables:
  assumes "list_all2 reader_of ess ts" and "i \<le> length ts"
  shows "\<exists>ts'. get_loop i key best ts =
      (Inr (fold better (rev (map (\<lambda>es. find_key key (map stored es)) (take i ess))) best), ts')
    \<and> list_all2 reader_of ess ts' \<and> map Reader_Path ts' = map Reader_Path ts"
  using assms
proof (induction i arbitrary: best ts)
  case (Suc i)
  have len: "length ess = length ts" using Suc.prems(1) by (rule list_all2_lengthD)
  then have i: "i < length ts" "i < length ess" using Suc.prems(2) by simp_all
  have "reader_of (ess ! i) (ts ! i)" using Suc.prems(1) i by (simp add: list_all2_conv_all_nth)
  then obtain t where t: "Reader_Get key (ts ! i) = (Inr (found (find_key key (map stored (ess ! i)))), t)"
    "reader_of (ess ! i) t" "Reader_Path t = Reader_Path (ts ! i)"
    using Reader_Get_of [of "ess ! i" "ts ! i" key] by (auto simp: table_lookup_stored)
  have ts: "list_all2 reader_of ess (ts[i := t])"
    using Suc.prems(1) t(2) i by (auto simp: list_all2_conv_all_nth nth_list_update)
  have P: "map Reader_Path (ts[i := t]) = map Reader_Path ts"
    using t(3) i by (simp add: map_update list_update_same_conv)
  let ?c = "find_key key (map stored (ess ! i))"
  have b: "(if snd (found ?c) \<and> (case best of None \<Rightarrow> True | Some b \<Rightarrow> se_Seq (fst (found ?c)) > se_Seq b)
      then Some (fst (found ?c)) else best) = better ?c best"
    by (cases ?c; cases best) (simp_all add: found_def better_def)
  have "get_loop (Suc i) key best ts = get_loop i key (better ?c best) (ts[i := t])"
    using b t(1) by (cases "found ?c") (simp only: get_loop.simps prod.case sum.case fst_conv snd_conv)
  with Suc.IH [OF ts, of "better ?c best"] i P show ?case by (auto simp: take_Suc_conv_app_nth)
qed simp

text \<open>What a lookup returns, up to the difference between nil and empty values.\<close>

definition got :: "bytes option \<Rightarrow> error + bytes" where
  "got c = (case c of None \<Rightarrow> Inl lsmkv_ErrNotFound | Some v \<Rightarrow> Inr v)"

lemma DB_Get_rel:
  assumes rel: "db_rel wd u M db d"
  shows "\<exists>r db'. DB_Get key db = Some (r, db') \<and> map_sum id sbytes r = got (M (sbytes key)) \<and> db_rel wd u M db' d
    \<and> db_opts db' = db_opts db"
proof -
  from rel obtain ess L frs where R: "dk_reliable d" "dk_content d log_path \<noteq> None" "\<not> db_closed db"
    "lock_open (db_lock db)" "mt_rel (db_mem db) L" "mem_entries L = replayed (frames_records frs)"
    "list_all2 reader_of ess (db_tables db)"
    "map Reader_Path (db_tables db) = map fm_Name (st_Files (mf_state (db_manif db)))"
    "store_ok (wd_codec wd) (dk_content d) (db_manif db) ess" "fits_in u (db_manif db) ess (frames_records frs)"
    "log_open frs (db_manif db) u (db_wal db)" "M = view (table_entries ess @ [replayed (frames_records frs)])"
    by (rule db_relE)
  let ?L = "replayed (frames_records frs)" and ?k = "sbytes key"
  have ok: "versions_ok (table_entries ess) ?L" using R(10) by (simp add: fits_in_def)
  have fk: "find_key ?k ?L = map_option (\<lambda>e. stored (to_sst e)) (mem_map L ?k)"
    using find_key_mem [of ?k L] R(6) by simp
  show ?thesis
  proof (cases "mem_map L ?k")
    case (Some e)
    have "lookup (table_entries ess @ [?L]) ?k = Some (stored (to_sst e))"
      by (rule lookup_memtable [OF ok]) (simp add: fk Some)
    then have "M ?k = visible (Some (stored (to_sst e)))" by (simp add: R(12) view_def)
    moreover have "DB_Get key db = Some (if e_Deleted e then Inl lsmkv_ErrNotFound else Inr (Clone (e_Value e)), db)"
      using R(3) mt.get_rel [OF R(5), of key] by (simp add: DB_Get_def Some)
    ultimately show ?thesis using rel by (simp add: got_def visible_def) (simp add: to_sst_def sval_def stored_def)
  next
    case None
    let ?cs = "map (find_key ?k) (table_entries ess)"
    have len: "length ess = length (db_tables db)" using R(7) by (rule list_all2_lengthD)
    then obtain ts where ts: "get_loop (length (db_tables db)) ?k None (db_tables db) =
        (Inr (fold better (rev ?cs) None), ts)"
      "list_all2 reader_of ess ts" "map Reader_Path ts = map Reader_Path (db_tables db)"
      using get_loop_tables [OF R(7) order_refl, of ?k None] by (auto simp: comp_def)
    have l: "lists_ok (table_entries ess)" by (rule versions_okD(2) [OF ok])
    have "fold better (rev ?cs) None = lookup (table_entries ess) ?k" by (rule fold_better_lookup [OF l])
    then have ts1: "get_loop (length (db_tables db)) ?k None (db_tables db) = (Inr (lookup (table_entries ess) ?k), ts)"
      using ts(1) by simp
    have M: "M ?k = visible (lookup (table_entries ess) ?k)"
      by (simp add: R(12) view_def lookup_tables fk None)
    have "db_rel wd u M (db\<lparr>db_tables := ts\<rparr>) d"
      by (rule db_relI [where L = L and ess = ess and frs = frs]) (use R ts(2,3) in simp_all)
    moreover have "DB_Get key db = Some (case lookup (table_entries ess) ?k of
          None \<Rightarrow> Inl lsmkv_ErrNotFound
        | Some b \<Rightarrow> if se_Deleted b then Inl lsmkv_ErrNotFound else Inr (Clone (se_Value b)), db\<lparr>db_tables := ts\<rparr>)"
      using R(3) mt.get_rel [OF R(5), of key] ts1 by (simp add: DB_Get_def None)
    ultimately show ?thesis using M
      by (auto simp: got_def visible_def sval_def split: option.splits)
  qed
qed

end
