(* ===== verification/Lsmkv_Flush.thy ===== *)
theory Lsmkv_Flush imports Lsmkv_Rel begin

text \<open>
  Flushing the memtable to a table.  The names of the table files differ from those of the other
  files, their sizes fit the manifest's form, and a flush keeps the map that the database shows.
\<close>

section \<open>Names and sizes\<close>

lemma sst_name_ends:
  "last (sst_name n) = CHR ''t''" "last (butlast (sst_name n)) = CHR ''s''"
  by (simp_all add: sst_name_def butlast_append)

lemma sst_name_ne [simp]:
  "sst_name n \<noteq> mf_fileName" "sst_name n \<noteq> mf_fileName @ tmpSuffix" "sst_name n \<noteq> log_path"
  "sst_name n \<noteq> defaultLockName"
  "mf_fileName \<noteq> sst_name n" "mf_fileName @ tmpSuffix \<noteq> sst_name n" "log_path \<noteq> sst_name n" "defaultLockName \<noteq> sst_name n"
proof -
  note l = sst_name_ends [of n]
  show "sst_name n \<noteq> mf_fileName"
    by (rule notI) (use l(2) in \<open>simp add: mf_fileName_def\<close>)
  then show "mf_fileName \<noteq> sst_name n" by simp
  show "sst_name n \<noteq> mf_fileName @ tmpSuffix"
    by (rule notI) (use l(1) in \<open>simp add: mf_fileName_def tmpSuffix_def\<close>)
  then show "mf_fileName @ tmpSuffix \<noteq> sst_name n" by simp
  show "sst_name n \<noteq> log_path"
    by (rule notI) (use l(1) in \<open>simp add: log_path_def\<close>)
  then show "log_path \<noteq> sst_name n" by simp
  show "sst_name n \<noteq> defaultLockName"
    by (rule notI) (use l(1) in \<open>simp add: defaultLockName_def\<close>)
  then show "defaultLockName \<noteq> sst_name n" by simp
qed

lemma other_names [simp]:
  "log_path \<noteq> mf_fileName" "log_path \<noteq> mf_fileName @ tmpSuffix" "log_path \<noteq> defaultLockName"
  "mf_fileName \<noteq> log_path" "mf_fileName @ tmpSuffix \<noteq> log_path" "defaultLockName \<noteq> log_path"
  "mf_fileName \<noteq> defaultLockName" "mf_fileName @ tmpSuffix \<noteq> defaultLockName"
  "defaultLockName \<noteq> mf_fileName" "defaultLockName \<noteq> mf_fileName @ tmpSuffix"
  by (simp_all add: log_path_def mf_fileName_def tmpSuffix_def defaultLockName_def)

lemma ascii_append [simp]: "ascii (a @ b) \<longleftrightarrow> ascii a \<and> ascii b"
  by (auto simp: ascii_def)

lemma ascii_digit: "k < 10 \<Longrightarrow> (of_char (digit k) :: nat) < 128"
  by (simp add: digit_def)

lemma ascii_sst_name: "ascii (sst_name n)"
  using digit_cases [of _ "unat n"] ascii_digit by (auto simp: sst_name_def pad0_def ascii_def)

lemma is_table_length:
  assumes "is_table b es"
  shows "length b < 2 ^ 47"
proof -
  from assms obtain ri bs bf bdata where b: "b = table_bytes ri bs bdata" "concat bs = es" "table_ok bs" "filter_ok bf"
    "Filter_MarshalBinary (Some bf) = Inr bdata" "unat (fl_m bf) < 2 ^ 48" by (auto simp: is_table_def)
  have ok: "[] \<notin> set bs" "total_size (concat bs) < 2 ^ 31" using b(3) by (simp_all add: table_ok_def)
  have "length bdata < 2 ^ 46" by (rule length_marshal [OF b(4-6)])
  moreover have "length (blocks_bytes ri bs) < 2 ^ 32" using length_blocks_bytes [OF ok(1), of ri] ok(2) by simp
  moreover have "length (index_section (index_of ri 0 bs)) < 2 ^ 32"
    using length_index_body [OF ok(1), of ri 0] ok(2) by (simp add: index_section_eq)
  moreover have "length (sst_footer a c e f g h) = 56" for a c e f g h using footer_fields(1) .
  ultimately show ?thesis by (simp add: b(1) table_bytes_def table_tail_def)
qed

lemma word_succ_less: "x < -1 \<Longrightarrow> x < x + 1" for x :: u64
proof -
  assume "x < -1"
  then have "1 + x \<noteq> 0" by (metis add_eq_0_iff2 add.commute less_irrefl)
  then have "unat (1 + x) = Suc (unat x)" by (rule unatSuc)
  then show ?thesis by (simp add: word_less_nat_alt add.commute)
qed

section \<open>The manifest's steps\<close>

lemma names_ok_add:
  assumes "names_ok m" and "k < st_NextFile (mf_state m)" and "sst_name k \<notin> fm_Name ` set (st_Files (mf_state m))"
    and "st_Files (mf_state m') = filter P (st_Files (mf_state m)) @ [f]" and "fm_Name f = sst_name k"
    and "st_NextFile (mf_state m') = st_NextFile (mf_state m)"
  shows "names_ok m'"
  using assms unfolding names_ok_def by (auto simp: distinct_map inj_on_def)

lemma holds_table_cong: "c p = c' p \<Longrightarrow> holds_table c p es = holds_table c' p es"
  by (simp add: holds_table_def)

lemma holds_tables_cong:
  assumes "list_all2 (holds_table c) ns ess" and "\<And>p. p \<in> set ns \<Longrightarrow> c' p = c p"
  shows "list_all2 (holds_table c') ns ess"
proof -
  have "list_all2 (\<lambda>p es. p \<in> set ns \<and> holds_table c p es) ns ess"
    using assms(1) by (auto simp: list_all2_conv_all_nth)
  then show ?thesis by (rule list_all2_mono) (use assms(2) in \<open>auto simp: holds_table_def\<close>)
qed

lemma names_ok_other: "names_ok m \<Longrightarrow> p \<in> set (map fm_Name (st_Files (mf_state m))) \<Longrightarrow>
    p \<noteq> mf_fileName \<and> p \<noteq> mf_fileName @ tmpSuffix \<and> p \<noteq> log_path \<and> p \<noteq> defaultLockName"
  by (auto simp: names_ok_def)

lemma store_ok_cong:
  assumes "store_ok js c m ess" and "c' mf_fileName = c mf_fileName"
    and "\<And>p. p \<in> fm_Name ` set (st_Files (mf_state m)) \<Longrightarrow> c' p = c p"
  shows "store_ok js c' m ess"
proof -
  have "list_all2 (holds_table c') (map fm_Name (st_Files (mf_state m))) ess"
    by (rule holds_tables_cong [of c]) (use assms in \<open>simp_all add: store_ok_def\<close>)
  with assms(1,2) show ?thesis by (simp add: store_ok_def holds_state_def)
qed

lemma store_ok_tables: "store_ok js c m ess \<Longrightarrow> list_all2 (holds_table c) (map fm_Name (st_Files (mf_state m))) ess"
  by (simp add: store_ok_def)

lemma persist_store:
  assumes "dk_reliable d" and "codec_ok js" and "state_json (mf_state m)" and "mf_path m = mf_fileName"
  shows "\<exists>t d'. Manifest_persist js m d = ((None, stamped (js_time js t) m), d') \<and> dk_reliable d' \<and>
    holds_state js (dk_content d') (mf_state (stamped (js_time js t) m)) \<and>
    (\<forall>p. p \<noteq> mf_fileName \<longrightarrow> p \<noteq> mf_fileName @ tmpSuffix \<longrightarrow> dk_content d' p = dk_content d p)"
proof -
  from persist_ok [OF assms(1-3)] obtain t d' b where p: "Manifest_persist js m d = ((None, stamped (js_time js t) m), d')"
    "dk_reliable d'" "dk_content d' = (dk_content d)(mf_path m @ tmpSuffix := None, mf_path m \<mapsto> b)" by blast
  from persist_holds [OF p(1) assms(2-4)] p assms(4) show ?thesis by auto
qed

text \<open>The state with one more file number given out, and the one with files replaced, once they are on the
  disk.\<close>

lemma store_ok_alloc:
  assumes st: "store_ok js c m ess" and "st_NextFile (mf_state m) < -1"
    and "m' = stamped t (m\<lparr>mf_state := mf_state m\<lparr>st_NextFile := st_NextFile (mf_state m) + 1\<rparr>\<rparr>)"
    and "holds_state js c' (mf_state m')" and "\<forall>p. p \<noteq> mf_fileName \<longrightarrow> p \<noteq> mf_fileName @ tmpSuffix \<longrightarrow> c' p = c p"
  shows "store_ok js c' m' ess" and "sst_name (st_NextFile (mf_state m)) \<notin> fm_Name ` set (st_Files (mf_state m))"
proof -
  have S: "mf_path m = mf_fileName" "names_ok m" "list_all2 (holds_table c) (map fm_Name (st_Files (mf_state m))) ess"
    "\<forall>e\<in>set (concat ess). se_Seq e \<le> st_LogSeq (mf_state m)"
    "\<forall>f\<in>set (st_Files (mf_state m)). fm_MaxSeq f \<le> st_LogSeq (mf_state m)" using st by (simp_all add: store_ok_def)
  have n: "names_ok m'" using names_ok_next [OF S(2) assms(2)] assms(3) by simp
  have "list_all2 (holds_table c') (map fm_Name (st_Files (mf_state m))) ess"
    by (rule holds_tables_cong [OF S(3)]) (use assms(5) names_ok_other [OF S(2)] in blast)
  then show "store_ok js c' m' ess" using S n assms(3,4) by (simp add: store_ok_def)
  show "sst_name (st_NextFile (mf_state m)) \<notin> fm_Name ` set (st_Files (mf_state m))"
    using S(2) by (fastforce simp: names_ok_def)
qed

lemma store_ok_replace:
  assumes st: "store_ok js c m ess" and "k < st_NextFile (mf_state m)" and "sst_name k \<notin> fm_Name ` set (st_Files (mf_state m))"
    and "fm_Name f = sst_name k" and "holds_table c (sst_name k) es"
    and "list_all2 (holds_table c) (map fm_Name (filter (\<lambda>f. fm_Name f \<notin> set rm) (st_Files (mf_state m)))) ess'"
    and "set ess' \<subseteq> set ess" and "\<forall>e\<in>set es. se_Seq e \<le> max q (st_LogSeq (mf_state m))"
    and "fm_MaxSeq f \<le> max q (st_LogSeq (mf_state m))"
    and m': "m' = stamped t (m\<lparr>mf_state := bump_seq q (mf_state m\<lparr>st_Files :=
      filter (\<lambda>f. fm_Name f \<notin> set rm) (st_Files (mf_state m)) @ [f]\<rparr>)\<rparr>)"
    and "holds_state js c' (mf_state m')" and "\<forall>p. p \<noteq> mf_fileName \<longrightarrow> p \<noteq> mf_fileName @ tmpSuffix \<longrightarrow> c' p = c p"
  shows "store_ok js c' m' (ess' @ [es])"
proof -
  let ?fs = "filter (\<lambda>f. fm_Name f \<notin> set rm) (st_Files (mf_state m)) @ [f]"
  have S: "mf_path m = mf_fileName" "names_ok m"
    "\<forall>e\<in>set (concat ess). se_Seq e \<le> st_LogSeq (mf_state m)"
    "\<forall>f\<in>set (st_Files (mf_state m)). fm_MaxSeq f \<le> st_LogSeq (mf_state m)" using st by (simp_all add: store_ok_def)
  have n: "names_ok m'" by (rule names_ok_add [OF S(2) assms(2,3) _ assms(4)]) (simp_all add: m')
  have "list_all2 (holds_table c) (map fm_Name ?fs) (ess' @ [es])"
    using assms(4,5,6) by (simp add: list_all2_appendI)
  then have "list_all2 (holds_table c') (map fm_Name ?fs) (ess' @ [es])"
  proof (rule holds_tables_cong)
    fix p assume "p \<in> set (map fm_Name ?fs)"
    then have "p \<in> set (map fm_Name (st_Files (mf_state m')))" by (simp add: m')
    from names_ok_other [OF n this] assms(12) show "c' p = c p" by blast
  qed
  moreover have "\<forall>e\<in>set (concat (ess' @ [es])). se_Seq e \<le> max q (st_LogSeq (mf_state m))"
  proof
    fix e assume "e \<in> set (concat (ess' @ [es]))"
    then have "e \<in> set (concat ess) \<or> e \<in> set es" using assms(7) by auto
    then show "se_Seq e \<le> max q (st_LogSeq (mf_state m))"
      using S(3) assms(8) max.coboundedI2 by blast
  qed
  moreover have "\<forall>g\<in>set ?fs. fm_MaxSeq g \<le> max q (st_LogSeq (mf_state m))"
    using S(4) assms(9) by (auto simp: le_max_iff_disj)
  ultimately show ?thesis using S(1) n assms(11) by (simp add: store_ok_def m')
qed

lemma alloc_json: "state_json (st\<lparr>st_NextFile := n\<rparr>) = state_json st"
  by (simp add: state_json_def)

lemma replace_json:
  "state_json st \<Longrightarrow> file_json f \<Longrightarrow> state_json (st\<lparr>st_Files := filter P (st_Files st) @ [f]\<rparr>)"
  by (auto simp: state_json_def)

lemma store_ok_json: "store_ok js c m ess \<Longrightarrow> state_json (mf_state m) \<and> mf_path m = mf_fileName"
  by (simp add: store_ok_def holds_state_def)

lemma Alloc_ok:
  assumes st: "store_ok js (dk_content d) m ess" and "dk_reliable d" and "codec_ok js"
    and "st_NextFile (mf_state m) < -1"
  shows "\<exists>m' d'. Manifest_AllocFileName js m d = ((Inr (sst_name (st_NextFile (mf_state m))), m'), d') \<and> dk_reliable d' \<and>
    store_ok js (dk_content d') m' ess \<and> st_NextFile (mf_state m') = st_NextFile (mf_state m) + 1 \<and>
    st_Files (mf_state m') = st_Files (mf_state m) \<and> st_LogSeq (mf_state m') = st_LogSeq (mf_state m) \<and>
    sst_name (st_NextFile (mf_state m)) \<notin> fm_Name ` set (st_Files (mf_state m)) \<and>
    st_NextFile (mf_state m) < st_NextFile (mf_state m') \<and>
    (\<forall>p. p \<noteq> mf_fileName \<longrightarrow> p \<noteq> mf_fileName @ tmpSuffix \<longrightarrow> dk_content d' p = dk_content d p)"
proof -
  let ?m = "m\<lparr>mf_state := mf_state m\<lparr>st_NextFile := st_NextFile (mf_state m) + 1\<rparr>\<rparr>"
  from store_ok_json [OF st] have S: "mf_path ?m = mf_fileName" "state_json (mf_state ?m)" by (simp_all add: alloc_json)
  from persist_store [OF assms(2,3) S(2,1)] obtain t d' where
    p: "Manifest_persist js ?m d = ((None, stamped (js_time js t) ?m), d')" "dk_reliable d'"
    "holds_state js (dk_content d') (mf_state (stamped (js_time js t) ?m))"
    "\<forall>p. p \<noteq> mf_fileName \<longrightarrow> p \<noteq> mf_fileName @ tmpSuffix \<longrightarrow> dk_content d' p = dk_content d p" by auto
  let ?m' = "stamped (js_time js t) ?m"
  from store_ok_alloc [OF st assms(4) refl p(3,4)] p word_succ_less [OF assms(4)] show ?thesis
    by (intro exI [of _ ?m'] exI [of _ d']) (simp add: Manifest_AllocFileName_def Let_def)
qed

lemma AddFile_is_Replace: "Manifest_AddFile js f q m d = Manifest_Replace js [] [f] q m d"
  by (simp add: Manifest_AddFile_def Manifest_Replace_def)

lemma Replace_ok:
  assumes st: "store_ok js (dk_content d) m ess" and "dk_reliable d" and "codec_ok js"
    and "k < st_NextFile (mf_state m)" and "sst_name k \<notin> fm_Name ` set (st_Files (mf_state m))"
    and "fm_Name f = sst_name k" and "file_json f" and "holds_table (dk_content d) (sst_name k) es"
    and "list_all2 (holds_table (dk_content d)) (map fm_Name (filter (\<lambda>f. fm_Name f \<notin> set rm) (st_Files (mf_state m)))) ess'"
    and "set ess' \<subseteq> set ess" and "\<forall>e\<in>set es. se_Seq e \<le> max q (st_LogSeq (mf_state m))"
    and "fm_MaxSeq f \<le> max q (st_LogSeq (mf_state m))"
  shows "\<exists>m' d'. Manifest_Replace js rm [f] q m d = ((None, m'), d') \<and> dk_reliable d' \<and>
    store_ok js (dk_content d') m' (ess' @ [es]) \<and> st_NextFile (mf_state m') = st_NextFile (mf_state m) \<and>
    st_Files (mf_state m') = filter (\<lambda>f. fm_Name f \<notin> set rm) (st_Files (mf_state m)) @ [f] \<and>
    st_LogSeq (mf_state m') = max q (st_LogSeq (mf_state m)) \<and>
    (\<forall>p. p \<noteq> mf_fileName \<longrightarrow> p \<noteq> mf_fileName @ tmpSuffix \<longrightarrow> dk_content d' p = dk_content d p)"
proof -
  let ?m = "m\<lparr>mf_state := bump_seq q (mf_state m\<lparr>st_Files :=
    filter (\<lambda>f. fm_Name f \<notin> set rm) (st_Files (mf_state m)) @ [f]\<rparr>)\<rparr>"
  from store_ok_json [OF st] have S: "mf_path ?m = mf_fileName" "state_json (mf_state ?m)"
    by (simp_all add: replace_json [OF _ assms(7)])
  from persist_store [OF assms(2,3) S(2,1)] obtain t d' where
    p: "Manifest_persist js ?m d = ((None, stamped (js_time js t) ?m), d')" "dk_reliable d'"
    "holds_state js (dk_content d') (mf_state (stamped (js_time js t) ?m))"
    "\<forall>p. p \<noteq> mf_fileName \<longrightarrow> p \<noteq> mf_fileName @ tmpSuffix \<longrightarrow> dk_content d' p = dk_content d p" by auto
  let ?m' = "stamped (js_time js t) ?m"
  from store_ok_replace [OF st assms(4,5,6,8,9,10,11,12) refl p(3,4)] p(1,2,4) show ?thesis
    by (intro exI [of _ ?m'] exI [of _ d']) (simp add: Manifest_Replace_def Let_def)
qed

lemma dk_sst_WriteFile_ok:
  assumes "dk_reliable d" and "sizing_ok sz" and "\<forall>e\<in>set es. se_Key e \<noteq> None" and "keys_sorted es"
    and "total_size es < 2 ^ 31"
  shows "\<exists>b d'. dk_sst_WriteFile sz path es None d = (Inr (table_meta path es (length b)), d') \<and> is_table b es
    \<and> dk_reliable d' \<and> dk_content d' = (dk_content d)(path \<mapsto> b)"
proof -
  from dk_Create_reliable [OF assms(1), of path] obtain f d1 where f: "dk_Create path d = (Inr f, d1)" "dk_reliable d1"
    "f_reliable f" "f_data f = []" "f_pos f = 0" "dk_content d1 = (dk_content d)(path \<mapsto> [])" by blast
  have "default_fp None" by (simp add: default_fp_def WriterOptions_normalize_def)
  then have t: "table_input sz None es" by (rule table_input_default [OF assms(2) _ assms(3-5)])
  have "fresh_file f" using f by (simp add: fresh_file_def)
  from WriteFile_is_table [OF this t, of path] obtain f' where
    f': "sst_WriteFile sz path es None f = (Inr (table_meta path es (length (f_data f'))), Some f')" "is_table (f_data f') es"
    by blast
  then show ?thesis using f by (intro exI [of _ "f_data f'"]) (auto simp: dk_sst_WriteFile_def fun_eq_iff)
qed

section \<open>The flush\<close>

lemma flush_bounds_max: "fst (flush_bounds es m a b) = fold max (map e_Seq es) m"
proof (induction es arbitrary: m a b)
  case (Cons e es)
  have "(if m < e_Seq e then e_Seq e else m) = max (e_Seq e) m" by (auto simp: max_def)
  then show ?case by (simp add: Cons)
qed simp

lemma fold_max_le: "fold max xs m \<le> b \<longleftrightarrow> m \<le> b \<and> (\<forall>x\<in>set xs. x \<le> b)" for b :: u64
  by (induction xs arbitrary: m) auto

definition same_opts :: "DB \<Rightarrow> DB \<Rightarrow> bool" where
  "same_opts db db' = (db_opts db' = db_opts db \<and> lg_opts (db_wal db') = lg_opts (db_wal db))"

lemma same_opts_refl [simp]: "same_opts db db"
  by (simp add: same_opts_def)

lemma same_opts_trans: "same_opts a b \<Longrightarrow> same_opts b c \<Longrightarrow> same_opts a c"
  by (simp add: same_opts_def)

lemma log_reset_open:
  assumes "log_open frs m u l"
  shows "\<exists>l'. Log_Reset l = (None, l') \<and> log_open [] m u l' \<and> lg_opts l' = lg_opts l"
proof -
  have l: "\<not> lg_closed l" "f_reliable (lg_f l)" using assms by (simp_all add: log_open_def log_abs_def)
  from Log_Reset_reliable [OF l] obtain l' where l': "Log_Reset l = (None, l')" "f_reliable (lg_f l')" "lg_opts l' = lg_opts l"
    by blast
  from Log_Reset_empties [OF l(1) l'(1)] l' assms show ?thesis
    by (auto simp: log_open_def seqs_below_def intro: stops_torn)
qed

lemma log_SetNextSeq_open:
  assumes "log_open frs m u l" and "max q (st_LogSeq (mf_state m)) = st_LogSeq (mf_state m')" and "unat q \<le> u"
  shows "log_open frs m' u (Log_SetNextSeq q l)" and "lg_opts (Log_SetNextSeq q l) = lg_opts l"
proof -
  have "lg_nextSeq l \<le> lg_nextSeq (Log_SetNextSeq q l)" "q \<le> lg_nextSeq (Log_SetNextSeq q l)"
    "unat (lg_nextSeq (Log_SetNextSeq q l)) \<le> u"
    "log_abs frs (Log_SetNextSeq q l) = log_abs frs l" "lg_f (Log_SetNextSeq q l) = lg_f l"
    "lg_opts (Log_SetNextSeq q l) = lg_opts l"
    using assms by (auto simp: Log_SetNextSeq_def log_open_def)
  then show "log_open frs m' u (Log_SetNextSeq q l)" "lg_opts (Log_SetNextSeq q l) = lg_opts l"
    using assms unfolding log_open_def seqs_below_def durable_def
    by (auto simp: assms(2) [symmetric] intro: order_trans)
qed

lemma mem_keys:
  assumes "versions_ok ess (mem_entries L)"
  shows "\<forall>e\<in>set (map to_sst L). se_Key e \<noteq> None" "keys_sorted (map to_sst L)"
proof -
  show "\<forall>e\<in>set (map to_sst L). se_Key e \<noteq> None"
  proof
    fix e assume e: "e \<in> set (map to_sst L)"
    then have "stored e \<in> set (mem_entries L)" by (auto simp: mem_entries_def)
    then have "skey e \<noteq> []" using versions_okD(4) [OF assms] by fastforce
    then show "se_Key e \<noteq> None" by (cases "se_Key e") (simp_all add: skey_def)
  qed
  have "keys_sorted (map stored (map to_sst L))" using versions_okD(3) [OF assms] by (simp add: mem_entries_def comp_def)
  then show "keys_sorted (map to_sst L)" by (simp only: keys_sorted_stored)
qed

lemma flush_seqs:
  assumes "mem_entries L = replayed rs" and "\<forall>r\<in>set rs. unat (rc_Seq r) \<le> u" and "u < 2 ^ 31"
  shows "unat (fold max (map e_Seq L) 0) \<le> u"
proof -
  have seqs: "unat (e_Seq e) \<le> u" if "e \<in> set L" for e
  proof -
    have "stored (to_sst e) \<in> set (mem_entries L)" using that by (simp add: mem_entries_def)
    then have "stored (to_sst e) \<in> record_entry ` set rs" using set_replayed assms(1) by simp
    then obtain r where "r \<in> set rs" "stored (to_sst e) = record_entry r" by blast
    moreover from this have "e_Seq e = rc_Seq r"
      by (simp add: stored_def to_sst_def record_entry_def entry_of_def)
    ultimately show ?thesis using assms(2) by simp
  qed
  have w: "unat (of_nat u :: u64) = u" using assms(3) by (simp add: unat_of_nat)
  have "\<forall>x\<in>set (map e_Seq L). x \<le> of_nat u" using seqs w by (simp add: word_le_nat_alt)
  then have "fold max (map e_Seq L) 0 \<le> of_nat u" by (simp only: fold_max_le) simp
  then show ?thesis using w by (simp add: word_le_nat_alt)
qed

lemma DB_flush_rel:
  assumes wd: "world_ok wd" and rel: "db_rel wd u M db d" and u: "u + 1 < 2 ^ 31"
  shows "\<exists>db' d'. DB_flushLocked wd db d = Some (None, db', d') \<and> db_rel wd (u + 1) M db' d' \<and> same_opts db db'
    \<and> mt_rel (db_mem db') []"
proof -
  from rel obtain ess L frs where R: "dk_reliable d" "dk_content d log_path \<noteq> None" "\<not> db_closed db"
    "lock_open (db_lock db)" "mt_rel (db_mem db) L" "mem_entries L = replayed (frames_records frs)"
    "list_all2 reader_of ess (db_tables db)"
    "map Reader_Path (db_tables db) = map fm_Name (st_Files (mf_state (db_manif db)))"
    "store_ok (wd_codec wd) (dk_content d) (db_manif db) ess" "fits_in u (db_manif db) ess (frames_records frs)"
    "log_open frs (db_manif db) u (db_wal db)" "M = view (table_entries ess @ [replayed (frames_records frs)])"
    by (rule db_relE)
  have snap: "MemTable_Snapshot (db_mem db) = Some L" by (rule mt.snapshot_rel [OF R(5)])
  show ?thesis
  proof (cases "L = []")
    case True
    then have "DB_flushLocked wd db d = Some (None, db, d)" by (simp add: DB_flushLocked_def snap)
    with True R(5) db_rel_mono [OF rel, of "u + 1"] show ?thesis by auto
  next
    case False
    let ?js = "wd_codec wd" and ?m = "db_manif db" and ?rs = "frames_records frs"
    let ?n = "st_NextFile (mf_state ?m)" and ?q = "fold max (map e_Seq L) 0" and ?es = "map to_sst L"
    let ?p = "sst_name ?n"
    have js: "codec_ok ?js" and sz: "sizing_ok (wd_sizing wd)" using wd by (simp_all add: world_ok_def)
    have F: "versions_ok (table_entries ess) (mem_entries L)" "sum_list (map total_size ess) + total_size ?es \<le> u"
      "unat (st_LogSeq (mf_state ?m)) \<le> u" "unat ?n \<le> u" "\<forall>r\<in>set ?rs. unat (rc_Seq r) \<le> u"
      using R(10) by (simp_all add: fits_in_def R(6) [symmetric] mem_entries_def total_size_def comp_def)
    from flush_seqs [OF R(6) F(5)] u have q: "unat ?q \<le> u" by simp
    have n: "?n < -1" using F(4) u by (simp add: word_less_nat_alt unsigned_minus_1_eq_mask mask_eq_exp_minus_1)
    from Alloc_ok [OF R(9,1) js n] obtain m1 d1 where A: "Manifest_AllocFileName ?js ?m d = ((Inr ?p, m1), d1)"
      "dk_reliable d1" "store_ok ?js (dk_content d1) m1 ess" "st_NextFile (mf_state m1) = ?n + 1"
      "st_Files (mf_state m1) = st_Files (mf_state ?m)" "st_LogSeq (mf_state m1) = st_LogSeq (mf_state ?m)"
      "?p \<notin> fm_Name ` set (st_Files (mf_state m1))" "?n < st_NextFile (mf_state m1)"
      "\<forall>p. p \<noteq> mf_fileName \<longrightarrow> p \<noteq> mf_fileName @ tmpSuffix \<longrightarrow> dk_content d1 p = dk_content d p" by auto
    have ts: "total_size ?es < 2 ^ 31" using F(2) u by simp
    from dk_sst_WriteFile_ok [OF A(2) sz mem_keys [OF F(1)] ts] obtain b d2 where
      W: "dk_sst_WriteFile (wd_sizing wd) ?p ?es None d1 = (Inr (table_meta ?p ?es (length b)), d2)" "is_table b ?es"
      "dk_reliable d2" "dk_content d2 = (dk_content d1)(?p \<mapsto> b)" by blast
    obtain mn mx where B: "flush_bounds L 0 None None = (?q, mn, mx)"
      using flush_bounds_max [of L 0 None None] by (metis prod.exhaust fst_conv)
    let ?fm = "\<lparr>fm_Name = ?p, fm_Level = 0, fm_MinKey = Clone mn, fm_MaxKey = Clone mx, fm_MaxSeq = ?q,
      fm_Entries = of_nat (length ?es), fm_FileSize = int (length b)\<rparr>"
    have st2: "store_ok ?js (dk_content d2) m1 ess"
    proof (rule store_ok_cong [OF A(3)])
      fix p assume "p \<in> fm_Name ` set (st_Files (mf_state m1))"
      then have "p \<noteq> ?p" using A(7) by blast
      then show "dk_content d2 p = dk_content d1 p" by (simp add: W(4))
    qed (simp add: W(4))
    note S1 = store_ok_tables [OF st2]
    have fj: "file_json ?fm" using is_table_length [OF W(2)] ascii_sst_name by (simp add: file_json_def int64_def)
    have es: "\<forall>e\<in>set ?es. se_Seq e \<le> max ?q (st_LogSeq (mf_state m1))"
      using fold_max_le [of "map e_Seq L" 0 ?q] by (auto simp: to_sst_def le_max_iff_disj)
    have h: "holds_table (dk_content d2) ?p ?es" using W(2,4) by (simp add: holds_table_def)
    from Replace_ok [OF st2 W(3) js A(8,7) _ fj h, of "[]" ess ?q] S1 es obtain m2 d3 where
      M: "Manifest_AddFile ?js ?fm ?q m1 d2 = ((None, m2), d3)" "dk_reliable d3"
      "store_ok ?js (dk_content d3) m2 (ess @ [?es])" "st_NextFile (mf_state m2) = st_NextFile (mf_state m1)"
      "st_Files (mf_state m2) = st_Files (mf_state m1) @ [?fm]"
      "st_LogSeq (mf_state m2) = max ?q (st_LogSeq (mf_state m1))"
      "\<forall>p. p \<noteq> mf_fileName \<longrightarrow> p \<noteq> mf_fileName @ tmpSuffix \<longrightarrow> dk_content d3 p = dk_content d2 p"
      by (auto simp: AddFile_is_Replace)
    have h3: "holds_table (dk_content d3) ?p ?es" using h M(7) by (simp add: holds_table_def)
    from dk_sst_Open_table [OF M(2) h3] obtain r d4 where O: "dk_sst_Open ?p d3 = (Inr r, d4)" "reader_of ?es r"
      "Reader_Path r = ?p" "dk_reliable d4" "dk_content d4 = dk_content d3" by blast
    from log_reset_open [OF R(11)] obtain l where l: "Log_Reset (db_wal db) = (None, l)" "log_open [] ?m u l"
      "lg_opts l = lg_opts (db_wal db)" by blast
    let ?db = "db\<lparr>db_manif := m2, db_tables := db_tables db @ [r], db_mem := MemTable_Clear (db_mem db),
      db_wal := Log_SetNextSeq ?q l\<rparr>"
    have flush: "DB_flushLocked wd db d = Some (None, ?db, d4)"
      using False by (simp add: DB_flushLocked_def snap A(1) W(1) B M(1) [simplified] O(1) l(1) table_meta_def Let_def)
    have lq: "max ?q (st_LogSeq (mf_state ?m)) = st_LogSeq (mf_state m2)" using A(6) M(6) by simp
    note lo = log_SetNextSeq_open [OF l(2) lq q]
    have lo': "log_open [] m2 (u + 1) (Log_SetNextSeq ?q l)" using lo(1) by (simp add: log_open_def)
    note V = versions_flush [OF F(1)]
    have te: "table_entries (ess @ [?es]) = table_entries ess @ [mem_entries L]"
      by (simp add: mem_entries_def comp_def)
    have n1: "unat (st_NextFile (mf_state m2)) \<le> u + 1"
      using A(4) M(4) F(4) by (simp add: unat_word_ariths)
    have fits: "fits_in (u + 1) m2 (ess @ [?es]) (frames_records [])"
      unfolding fits_in_def te using V(3) F(2,3) n1 q lq by (auto simp: max_def split: if_splits)
    have cl: "dk_content d4 log_path \<noteq> None" using R(2) A(9) W(4) M(7) O(5) by simp
    have "db_rel wd (u + 1) M ?db d4"
      by (rule db_relI [where L = "[]" and frs = "[]" and ess = "ess @ [?es]"])
        (use R O A(5) M fits lo' cl V(4) te mt.clear_rel [OF R(5)] in
          \<open>simp_all add: R(6) [symmetric] list_all2_appendI\<close>)
    with flush lo(2) l(3) mt.clear_rel [OF R(5)] show ?thesis
      by (intro exI [of _ ?db] exI [of _ d4]) (simp add: same_opts_def)
  qed
qed

end
