(* ===== verification/Lsmkv_Write.thy ===== *)
theory Lsmkv_Write imports Lsmkv_Flush begin

text \<open>
  Writing: an operation's frame goes to the log, its records to the memtable under the same
  numbers, and the map changes at the keys written.
\<close>

section \<open>Appending to the log\<close>

lemma append_frame_open:
  assumes lo: "log_open frs m u l" and fr: "frame_ok fr" and "lg_nextSeq l \<le> s"
    and "unat s \<le> v" and "\<forall>r\<in>set (frame_records fr). rc_Seq r \<le> s"
  shows "\<exists>l'. append_frame fr s (l\<lparr>lg_nextSeq := s\<rparr>) = ((s, None), l') \<and> log_open (frs @ [fr]) m v l' \<and>
    lg_nextSeq l' = s \<and> lg_opts l' = lg_opts l"
proof -
  let ?l = "l\<lparr>lg_nextSeq := s\<rparr>"
  have l: "log_abs frs ?l" "f_reliable (lg_f ?l)" using lo by (simp_all add: log_open_def)
  obtain sq r l' where e: "append_frame fr s ?l = ((sq, r), l')" by (metis prod.exhaust)
  note A = append_frame_outcome [OF e l(1)]
  from A(6) [OF fr l(2)] have r: "r = None" "f_reliable (lg_f l')" by simp_all
  with A(2) have a: "sq = s" "log_abs (frs @ [fr]) l'" "durable ?l \<longrightarrow> f_stable (lg_f l') = f_data (lg_f l')" by simp_all
  have n: "lg_nextSeq l' = s" "lg_opts l' = lg_opts l" using A(4,5) by simp_all
  have "seqs_below (frs @ [fr]) l'"
    using lo assms(3,5) n(1) unfolding seqs_below_def log_open_def by (auto intro: order_trans)
  moreover have "st_LogSeq (mf_state m) \<le> lg_nextSeq l'" using lo assms(3) n(1) by (auto simp: log_open_def)
  moreover have "\<exists>b. stops b \<and> f_stable (lg_f l') = frames_bytes (frs @ [fr]) @ b" if "durable l'"
    using a(2,3) that n(2) stops_torn [OF torn_Nil] by (intro exI [of _ "[]"]) (auto simp: log_abs_def durable_def)
  ultimately have "log_open (frs @ [fr]) m v l'"
    using lo a(2) r(2) n assms(4) by (simp add: log_open_def)
  with e a(1) r(1) n show ?thesis by auto
qed

section \<open>Records in the memtable\<close>

definition update :: "sst_Entry \<Rightarrow> (bytes \<Rightarrow> bytes option) \<Rightarrow> bytes \<Rightarrow> bytes option" where
  "update e M = M(skey e := visible (Some e))"

lemma versions_puts:
  assumes "versions_ok ess L" and "\<forall>x\<in>set (concat (ess @ [L])). se_Seq x \<le> s"
    and "sorted_wrt (\<lambda>a b. se_Seq a < se_Seq b) es" and "\<forall>e\<in>set es. s < se_Seq e \<and> skey e \<noteq> []"
  shows "versions_ok ess (fold put_entry es L) \<and>
    view (ess @ [fold put_entry es L]) = fold update es (view (ess @ [L]))"
  using assms
proof (induction es arbitrary: L s)
  case (Cons e es)
  have lt: "\<forall>x\<in>set (concat (ess @ [L])). se_Seq x < se_Seq e"
    using Cons.prems(2,4) by (auto intro: order_le_less_trans)
  have ne: "skey e \<noteq> []" using Cons.prems(4) by simp
  note P = versions_put [OF Cons.prems(1) lt ne]
  have le: "\<forall>x\<in>set (concat (ess @ [put_entry e L])). se_Seq x \<le> se_Seq e"
  proof
    fix x assume "x \<in> set (concat (ess @ [put_entry e L]))"
    then have "x = e \<or> x \<in> set (concat (ess @ [L]))" using set_put_entry_subset [of e L] by auto
    then show "se_Seq x \<le> se_Seq e" using lt order_less_imp_le by blast
  qed
  have s: "sorted_wrt (\<lambda>a b. se_Seq a < se_Seq b) es" "\<forall>x\<in>set es. se_Seq e < se_Seq x \<and> skey x \<noteq> []"
    using Cons.prems(3,4) by auto
  from Cons.IH [OF P(1) le s] P(2) show ?case by (simp add: update_def)
qed simp_all

lemma total_size_puts: "total_size (fold put_entry es L) \<le> total_size es + total_size L"
proof (induction es arbitrary: L)
  case (Cons e es)
  from Cons [of "put_entry e L"] total_size_put [of e L] show ?case by simp
qed simp

lemma fits_in_append:
  assumes F: "fits_in u m ess rs" and st: "store_ok js c m ess" and "\<forall>r\<in>set rs. rc_Seq r \<le> s"
    and "st_LogSeq (mf_state m) \<le> s" and "sorted_wrt (\<lambda>a b. rc_Seq a < rc_Seq b) rs'"
    and "\<forall>r\<in>set rs'. s < rc_Seq r \<and> unat (rc_Seq r) \<le> v \<and> sbytes (rc_Key r) \<noteq> []"
    and "u + total_size (map record_entry rs') \<le> v"
  shows "fits_in v m ess (rs @ rs')"
    and "view (table_entries ess @ [replayed (rs @ rs')]) =
      fold update (map record_entry rs') (view (table_entries ess @ [replayed rs]))"
proof -
  have ok: "versions_ok (table_entries ess) (replayed rs)" using F by (simp add: fits_in_def)
  have 1: "\<forall>x\<in>set (concat (table_entries ess @ [replayed rs])). se_Seq x \<le> s"
  proof
    fix x assume "x \<in> set (concat (table_entries ess @ [replayed rs]))"
    then consider e where "e \<in> set (concat ess)" "x = stored e" | r where "r \<in> set rs" "x = record_entry r"
      using set_replayed [of x rs] by auto
    then show "se_Seq x \<le> s"
    proof cases
      case 1
      then show ?thesis using st assms(4) order_trans by (fastforce simp: store_ok_def)
    next
      case 2
      then show ?thesis using assms(3) by (simp add: record_entry_def)
    qed
  qed
  have 2: "sorted_wrt (\<lambda>a b. se_Seq a < se_Seq b) (map record_entry rs')"
    using assms(5) by (simp add: sorted_wrt_map record_entry_def)
  have 3: "\<forall>e\<in>set (map record_entry rs'). s < se_Seq e \<and> skey e \<noteq> []"
    using assms(6) by (simp add: record_entry_def)
  note P = versions_puts [OF ok 1 2 3, THEN conjunct1] versions_puts [OF ok 1 2 3, THEN conjunct2]
  show "view (table_entries ess @ [replayed (rs @ rs')]) =
      fold update (map record_entry rs') (view (table_entries ess @ [replayed rs]))" using P(2) by simp
  show "fits_in v m ess (rs @ rs')"
    using P(1) F assms(6,7) total_size_puts [of "map record_entry rs'" "replayed rs"]
    unfolding fits_in_def by (auto intro: order_trans)
qed

text \<open>The memtable after the records, whatever frame they came in.\<close>

definition record_in :: "BatchEntry \<Rightarrow> MemTable \<Rightarrow> u64 \<Rightarrow> MemTable option" where
  "record_in e m seq = (if be_Deleted e then MemTable_Delete (be_Key e) seq m else MemTable_Put (be_Key e) (be_Value e) seq m)"

lemma write_loop_mem:
  assumes "mt_rel m L"
  shows "\<exists>m' L'. write_loop (s + 1) es m = Some m' \<and> mt_rel m' L' \<and>
    mem_entries L' = fold put_entry (map record_entry (batch_records s es)) (mem_entries L)"
  using assms
proof (induction es arbitrary: s m L)
  case (Cons e es)
  let ?v = "if be_Deleted e then None else be_Value e"
  obtain m1 where m1: "(if be_Deleted e then MemTable_Delete (be_Key e) (s + 1) m
      else MemTable_Put (be_Key e) (be_Value e) (s + 1) m) = Some m1"
    "mt_rel m1 (mem_set (be_Key e) ?v (s + 1) (be_Deleted e) L)"
    using mt.put_rel [OF Cons.prems] mt.del_rel [OF Cons.prems] by (cases "be_Deleted e") fastforce+
  from Cons.IH [OF m1(2), of "s + 1"] m1(1) show ?case
    by (auto simp: mem_entries_set record_entry_def)
qed auto

section \<open>The operations\<close>

lemma db_appended:
  assumes rel: "db_rel wd u M db d" and fr: "frame_ok fr"
    and seq: "lg_nextSeq (db_wal db) + of_nat n = s" and n: "u + n \<le> v" and v: "v < 2 ^ 31"
    and rs: "sorted_wrt (\<lambda>a b. rc_Seq a < rc_Seq b) (frame_records fr)"
      "\<forall>r\<in>set (frame_records fr). lg_nextSeq (db_wal db) < rc_Seq r \<and> rc_Seq r \<le> s \<and> sbytes (rc_Key r) \<noteq> []"
    and size: "u + total_size (map record_entry (frame_records fr)) \<le> v"
    and mem: "\<And>L. mt_rel (db_mem db) L \<Longrightarrow> \<exists>m' L'. step = Some m' \<and> mt_rel m' L' \<and>
      mem_entries L' = fold put_entry (map record_entry (frame_records fr)) (mem_entries L)"
  shows "\<exists>l m'. append_frame fr s ((db_wal db)\<lparr>lg_nextSeq := s\<rparr>) = ((s, None), l) \<and> step = Some m' \<and>
    lg_nextSeq l = s \<and> same_opts db (db\<lparr>db_wal := l, db_mem := m'\<rparr>) \<and>
    db_rel wd v (fold update (map record_entry (frame_records fr)) M) (db\<lparr>db_wal := l, db_mem := m'\<rparr>) d"
proof -
  from rel obtain ess L frs where R: "dk_reliable d" "dk_content d log_path \<noteq> None" "\<not> db_closed db"
    "lock_open (db_lock db)" "mt_rel (db_mem db) L" "mem_entries L = replayed (frames_records frs)"
    "list_all2 reader_of ess (db_tables db)"
    "map Reader_Path (db_tables db) = map fm_Name (st_Files (mf_state (db_manif db)))"
    "store_ok (wd_codec wd) (dk_content d) (db_manif db) ess" "fits_in u (db_manif db) ess (frames_records frs)"
    "log_open frs (db_manif db) u (db_wal db)" "M = view (table_entries ess @ [replayed (frames_records frs)])"
    by (rule db_relE)
  let ?s = "lg_nextSeq (db_wal db)"
  have l: "unat ?s \<le> u" "seqs_below frs (db_wal db)" "st_LogSeq (mf_state (db_manif db)) \<le> ?s"
    using R(11) by (simp_all add: log_open_def)
  have us: "unat s = unat ?s + n"
    using l(1) n v by (auto simp: seq [symmetric] unat_word_ariths unat_of_nat)
  then have s: "?s \<le> s" "unat s \<le> v" using l(1) n by (simp_all add: word_le_nat_alt)
  from append_frame_open [OF R(11) fr s] rs(2) obtain l' where
    l': "append_frame fr s ((db_wal db)\<lparr>lg_nextSeq := s\<rparr>) = ((s, None), l')" "log_open (frs @ [fr]) (db_manif db) v l'"
    "lg_nextSeq l' = s" "lg_opts l' = lg_opts (db_wal db)" by auto
  from mem [OF R(5)] obtain m' L' where m': "step = Some m'" "mt_rel m' L'"
    "mem_entries L' = fold put_entry (map record_entry (frame_records fr)) (mem_entries L)" by blast
  have rs': "\<forall>r\<in>set (frame_records fr). ?s < rc_Seq r \<and> unat (rc_Seq r) \<le> v \<and> sbytes (rc_Key r) \<noteq> []"
    using rs(2) s(2) by (auto simp: word_le_nat_alt)
  note F = fits_in_append [OF R(10,9) _ l(3) rs(1) rs' size]
  have "db_rel wd v (fold update (map record_entry (frame_records fr)) M) (db\<lparr>db_wal := l', db_mem := m'\<rparr>) d"
    by (rule db_relI [where L = L' and frs = "frs @ [fr]" and ess = ess])
      (use R m' l'(2) F l(2) in \<open>simp_all add: seqs_below_def\<close>)
  with l' m'(1) show ?thesis by (auto simp: same_opts_def)
qed

lemma maybeFlush_rel:
  assumes "world_ok wd" and "db_rel wd u M db d" and "u + 1 < 2 ^ 31"
  shows "\<exists>db' d'. DB_maybeFlush wd db d = Some (None, db', d') \<and> db_rel wd (u + 1) M db' d' \<and> same_opts db db'"
  using DB_flush_rel [OF assms] db_rel_mono [OF assms(2), of "u + 1"] by (auto simp: DB_maybeFlush_def)

lemma frame_ok_kv: "length k + length v + 30 \<le> 2 ^ 28 \<Longrightarrow> frame_ok (FPut s k v) \<and> frame_ok (FDelete s k)"
  using SizeUint64_le_10 [of s] SizeUint64_le_10 [of "of_nat (length k)"] SizeUint64_le_10 [of "of_nat (length v)"]
    SizeUint64_le_10 [of "0"]
  by (simp add: frame_ok_def encodeKV_eq MaxUint64Len_def)

lemma next_seq: "unat s < 2 ^ 31 \<Longrightarrow> s < s + 1" for s :: u64
  by (rule word_succ_less) (simp add: word_less_nat_alt unsigned_minus_1_eq_mask mask_eq_exp_minus_1)

lemma db_rel_log:
  assumes "db_rel wd u M db d"
  shows "\<not> db_closed db" "\<exists>frs. log_abs frs (db_wal db)" "unat (lg_nextSeq (db_wal db)) \<le> u"
  using assms by (auto elim!: db_relE simp: log_open_def)

lemma DB_Put_rel:
  assumes "world_ok wd" and rel: "db_rel wd u M db d" and "\<not> do_ReadOnly (db_opts db)" and "sbytes key \<noteq> []"
    and "length (sbytes key) + length (sbytes val) + 30 \<le> 2 ^ 28"
    and v: "u + (length (sbytes key) + length (sbytes val) + 65) < 2 ^ 31"
  shows "\<exists>db' d'. DB_Put wd key val db d = Some (None, db', d') \<and> same_opts db db' \<and>
    db_rel wd (u + (length (sbytes key) + length (sbytes val) + 65)) (M(sbytes key \<mapsto> sbytes val)) db' d'"
proof -
  let ?s = "lg_nextSeq (db_wal db)" and ?v = "u + (length (sbytes key) + length (sbytes val) + 64)"
  let ?fr = "FPut (?s + 1) (sbytes key) (sbytes val)"
  note l = db_rel_log [OF rel]
  have lt: "?s < ?s + 1" by (rule next_seq) (use l(3) v in simp)
  have e: "map record_entry (frame_records ?fr) = [entry_of (sbytes key) (sbytes val) (?s + 1) False]"
    by (simp add: record_entry_def)
  have "\<exists>l m'. append_frame ?fr (?s + 1) ((db_wal db)\<lparr>lg_nextSeq := ?s + 1\<rparr>) = ((?s + 1, None), l) \<and>
    MemTable_Put key val (?s + 1) (db_mem db) = Some m' \<and> lg_nextSeq l = ?s + 1 \<and>
    same_opts db (db\<lparr>db_wal := l, db_mem := m'\<rparr>) \<and>
    db_rel wd ?v (fold update (map record_entry (frame_records ?fr)) M) (db\<lparr>db_wal := l, db_mem := m'\<rparr>) d"
  proof (rule db_appended [OF rel, where n = 1])
    fix L assume "mt_rel (db_mem db) L"
    from mt.put_rel [OF this] show "\<exists>m' L'. MemTable_Put key val (?s + 1) (db_mem db) = Some m' \<and> mt_rel m' L' \<and>
      mem_entries L' = fold put_entry (map record_entry (frame_records ?fr)) (mem_entries L)"
      unfolding e by (fastforce simp: mem_entries_set)
  qed (use v lt assms(4) frame_ok_kv [OF assms(5)] in \<open>simp_all only: e, simp_all\<close>)
  then obtain l' m' where 1: "append_frame ?fr (?s + 1) ((db_wal db)\<lparr>lg_nextSeq := ?s + 1\<rparr>) = ((?s + 1, None), l')"
    "MemTable_Put key val (?s + 1) (db_mem db) = Some m'" "same_opts db (db\<lparr>db_wal := l', db_mem := m'\<rparr>)"
    "db_rel wd ?v (M(sbytes key \<mapsto> sbytes val)) (db\<lparr>db_wal := l', db_mem := m'\<rparr>) d"
    unfolding e by (auto simp: update_def visible_def)
  have "?v + 1 < 2 ^ 31" using v by simp
  from maybeFlush_rel [OF assms(1) 1(4) this] obtain db' d' where
    2: "DB_maybeFlush wd (db\<lparr>db_wal := l', db_mem := m'\<rparr>) d = Some (None, db', d')"
    "db_rel wd (?v + 1) (M(sbytes key \<mapsto> sbytes val)) db' d'" "same_opts (db\<lparr>db_wal := l', db_mem := m'\<rparr>) db'" by blast
  have "DB_Put wd key val db d = Some (None, db', d')"
    using l(1,2) assms(3,4) 1(1,2) 2(1) by (auto simp: DB_Put_def DB_writable_def AppendPut_eq)
  moreover have "?v + 1 = u + (length (sbytes key) + length (sbytes val) + 65)" by simp
  ultimately show ?thesis using 2(2) same_opts_trans [OF 1(3) 2(3)] by metis
qed

lemma DB_Delete_rel:
  assumes "world_ok wd" and rel: "db_rel wd u M db d" and "\<not> do_ReadOnly (db_opts db)" and "sbytes key \<noteq> []"
    and "length (sbytes key) + 30 \<le> 2 ^ 28" and v: "u + (length (sbytes key) + 65) < 2 ^ 31"
  shows "\<exists>db' d'. DB_Delete wd key db d = Some (None, db', d') \<and> same_opts db db' \<and>
    db_rel wd (u + (length (sbytes key) + 65)) (M(sbytes key := None)) db' d'"
proof -
  let ?s = "lg_nextSeq (db_wal db)" and ?v = "u + (length (sbytes key) + 64)"
  let ?fr = "FDelete (?s + 1) (sbytes key)"
  note l = db_rel_log [OF rel]
  have lt: "?s < ?s + 1" by (rule next_seq) (use l(3) v in simp)
  have e: "map record_entry (frame_records ?fr) = [entry_of (sbytes key) [] (?s + 1) True]"
    by (simp add: record_entry_def)
  have "\<exists>l m'. append_frame ?fr (?s + 1) ((db_wal db)\<lparr>lg_nextSeq := ?s + 1\<rparr>) = ((?s + 1, None), l) \<and>
    MemTable_Delete key (?s + 1) (db_mem db) = Some m' \<and> lg_nextSeq l = ?s + 1 \<and>
    same_opts db (db\<lparr>db_wal := l, db_mem := m'\<rparr>) \<and>
    db_rel wd ?v (fold update (map record_entry (frame_records ?fr)) M) (db\<lparr>db_wal := l, db_mem := m'\<rparr>) d"
  proof (rule db_appended [OF rel, where n = 1])
    fix L assume "mt_rel (db_mem db) L"
    from mt.del_rel [OF this] show "\<exists>m' L'. MemTable_Delete key (?s + 1) (db_mem db) = Some m' \<and> mt_rel m' L' \<and>
      mem_entries L' = fold put_entry (map record_entry (frame_records ?fr)) (mem_entries L)"
      unfolding e by (fastforce simp: mem_entries_set)
  qed (use v lt assms(4) frame_ok_kv [of "sbytes key" "[]"] assms(5) in \<open>simp_all only: e, simp_all\<close>)
  then obtain l' m' where 1: "append_frame ?fr (?s + 1) ((db_wal db)\<lparr>lg_nextSeq := ?s + 1\<rparr>) = ((?s + 1, None), l')"
    "MemTable_Delete key (?s + 1) (db_mem db) = Some m'" "same_opts db (db\<lparr>db_wal := l', db_mem := m'\<rparr>)"
    "db_rel wd ?v (M(sbytes key := None)) (db\<lparr>db_wal := l', db_mem := m'\<rparr>) d"
    unfolding e by (auto simp: update_def visible_def)
  have "?v + 1 < 2 ^ 31" using v by simp
  from maybeFlush_rel [OF assms(1) 1(4) this] obtain db' d' where
    2: "DB_maybeFlush wd (db\<lparr>db_wal := l', db_mem := m'\<rparr>) d = Some (None, db', d')"
    "db_rel wd (?v + 1) (M(sbytes key := None)) db' d'" "same_opts (db\<lparr>db_wal := l', db_mem := m'\<rparr>) db'" by blast
  have "DB_Delete wd key db d = Some (None, db', d')"
    using l(1,2) assms(3,4) 1(1,2) 2(1) by (auto simp: DB_Delete_def DB_writable_def AppendDelete_eq)
  moreover have "?v + 1 = u + (length (sbytes key) + 65)" by simp
  ultimately show ?thesis using 2(2) same_opts_trans [OF 1(3) 2(3)] by metis
qed

section \<open>Batches\<close>

text \<open>What a batch does to the map, and the room it takes.\<close>

definition batch_update :: "BatchEntry \<Rightarrow> (bytes \<Rightarrow> bytes option) \<Rightarrow> bytes \<Rightarrow> bytes option" where
  "batch_update e M = M(sbytes (be_Key e) := if be_Deleted e then None else Some (sbytes (be_Value e)))"

definition batch_size :: "BatchEntry list \<Rightarrow> nat" where
  "batch_size es = sum_list (map (\<lambda>e. length (sbytes (be_Key e)) + length (sbytes (be_Value e)) + 64) es)"

lemma batch_size_simps [simp]:
  "batch_size [] = 0"
  "batch_size (e # es) = length (sbytes (be_Key e)) + length (sbytes (be_Value e)) + 64 + batch_size es"
  by (simp_all add: batch_size_def)

lemma length_batch_size: "64 * length es \<le> batch_size es"
  by (induction es) auto

lemma batch_updates: "fold update (map record_entry (batch_records s es)) M = fold batch_update es M"
  by (induction es arbitrary: s M) (auto simp: record_entry_def update_def batch_update_def visible_def)

lemma batch_records_size: "total_size (map record_entry (batch_records s es)) \<le> batch_size es"
  by (induction es arbitrary: s) (auto simp: record_entry_def intro: add_mono trans_le_add2)

lemma batch_records_keys: "r \<in> set (batch_records s es) \<Longrightarrow> \<exists>e\<in>set es. sbytes (rc_Key r) = sbytes (be_Key e)"
  by (induction es arbitrary: s) auto

lemma batch_records_sorted:
  "unat s + length es < 2 ^ 64 \<Longrightarrow> sorted_wrt (\<lambda>a b. rc_Seq a < rc_Seq b) (batch_records s es)"
proof (induction es arbitrary: s)
  case (Cons e es)
  have "unat (s + 1) = unat s + 1" using Cons.prems by (simp add: unat_word_ariths)
  with Cons.prems have s: "unat (s + 1) + length es < 2 ^ 64" by simp
  with Cons.IH [OF s] batch_records_seq [OF _ s] show ?case by auto
qed simp

lemma length_batch_body_size: "length (batch_body s es) \<le> batch_size es"
proof (induction es arbitrary: s)
  case (Cons e es)
  from Cons [of "s + 1"] SizeUint64_le_10 [of "s + 1"] SizeUint64_le_10 [of "of_nat (length (sbytes (be_Key e)))"]
    SizeUint64_le_10 [of "of_nat (length (sbytes (be_Value e)))"]
  show ?case by (simp add: MaxUint64Len_def)
qed simp

lemma frame_ok_batch: "batch_size es + 10 \<le> 2 ^ 28 \<Longrightarrow> frame_ok (FBatch s es)"
  using length_batch_body_size [of s es] SizeUint64_le_10 [of "of_nat (length es)"]
  by (simp add: frame_ok_def MaxUint64Len_def)

lemma DB_Write_rel:
  assumes "world_ok wd" and rel: "db_rel wd u M db d" and "\<not> do_ReadOnly (db_opts db)"
    and "\<forall>e\<in>set (wb_entries b). sbytes (be_Key e) \<noteq> []"
    and "batch_size (wb_entries b) + 10 \<le> 2 ^ 28" and v: "u + (batch_size (wb_entries b) + 1) < 2 ^ 31"
  shows "\<exists>db' d'. DB_Write wd (Some b) db d = Some (None, db', d') \<and> same_opts db db' \<and>
    db_rel wd (u + (batch_size (wb_entries b) + 1)) (fold batch_update (wb_entries b) M) db' d'"
proof (cases "wb_entries b = []")
  case True
  have "db_rel wd (u + 1) M db d" by (rule db_rel_mono [OF rel]) simp
  with True show ?thesis by (simp add: DB_Write_def)
next
  case False
  let ?es = "wb_entries b" and ?s = "lg_nextSeq (db_wal db)"
  let ?n = "length ?es" and ?v = "u + batch_size ?es" and ?fr = "FBatch ?s ?es"
  let ?q = "?s + of_nat ?n"
  note l = db_rel_log [OF rel]
  have n: "?n \<le> batch_size ?es" using length_batch_size [of ?es] by simp
  then have room: "unat ?s + ?n < 2 ^ 64" using l(3) v by simp
  have "\<exists>l m'. append_frame ?fr ?q ((db_wal db)\<lparr>lg_nextSeq := ?q\<rparr>) = ((?q, None), l) \<and>
    write_loop (?s + 1) ?es (db_mem db) = Some m' \<and> lg_nextSeq l = ?q \<and>
    same_opts db (db\<lparr>db_wal := l, db_mem := m'\<rparr>) \<and>
    db_rel wd ?v (fold update (map record_entry (frame_records ?fr)) M) (db\<lparr>db_wal := l, db_mem := m'\<rparr>) d"
  proof (rule db_appended [OF rel, where n = ?n])
    show "\<exists>m' L'. write_loop (?s + 1) ?es (db_mem db) = Some m' \<and> mt_rel m' L' \<and>
      mem_entries L' = fold put_entry (map record_entry (frame_records ?fr)) (mem_entries L)"
      if "mt_rel (db_mem db) L" for L using write_loop_mem [OF that, of ?s ?es] by simp
    show "\<forall>r\<in>set (frame_records ?fr). ?s < rc_Seq r \<and> rc_Seq r \<le> ?q \<and> sbytes (rc_Key r) \<noteq> []"
    proof
      fix r assume "r \<in> set (frame_records ?fr)"
      then have r: "r \<in> set (batch_records ?s ?es)" by simp
      from batch_records_seq [OF r room] batch_records_keys [OF r] assms(4)
      show "?s < rc_Seq r \<and> rc_Seq r \<le> ?q \<and> sbytes (rc_Key r) \<noteq> []" by auto
    qed
    show "frame_ok ?fr" by (rule frame_ok_batch [OF assms(5)])
    show "sorted_wrt (\<lambda>a b. rc_Seq a < rc_Seq b) (frame_records ?fr)" using batch_records_sorted [OF room] by simp
    show "u + total_size (map record_entry (frame_records ?fr)) \<le> ?v" using batch_records_size [of ?s ?es] by simp
  qed (use n v in simp_all)
  then obtain l' m' where 1: "append_frame ?fr ?q ((db_wal db)\<lparr>lg_nextSeq := ?q\<rparr>) = ((?q, None), l')"
    "write_loop (?s + 1) ?es (db_mem db) = Some m'" "lg_nextSeq l' = ?q"
    "same_opts db (db\<lparr>db_wal := l', db_mem := m'\<rparr>)"
    "db_rel wd ?v (fold batch_update ?es M) (db\<lparr>db_wal := l', db_mem := m'\<rparr>) d"
    by (auto simp: batch_updates)
  have "?v + 1 < 2 ^ 31" using v by simp
  from maybeFlush_rel [OF assms(1) 1(5) this] obtain db' d' where
    2: "DB_maybeFlush wd (db\<lparr>db_wal := l', db_mem := m'\<rparr>) d = Some (None, db', d')"
    "db_rel wd (?v + 1) (fold batch_update ?es M) db' d'" "same_opts (db\<lparr>db_wal := l', db_mem := m'\<rparr>) db'" by blast
  from l(2) obtain frs where "log_abs frs (db_wal db)" by blast
  then have "Log_AppendBatch ?es (db_wal db) = ((?q, None), l')" using 1(1) False by (simp add: AppendBatch_eq)
  moreover have "Log_NextSeq l' - 1 - of_nat ?n + 1 = ?s + 1" by (simp add: Log_NextSeq_def 1(3))
  ultimately have "DB_Write wd (Some b) db d = Some (None, db', d')"
    using l(1) assms(3) False 1(2) 2(1) by (simp add: DB_Write_def DB_writable_def Let_def)
  with 2(2) same_opts_trans [OF 1(4) 2(3)] show ?thesis by (auto simp: add.assoc)
qed

section \<open>Flush and Sync\<close>

lemma DB_Flush_rel:
  assumes "world_ok wd" and rel: "db_rel wd u M db d" and "\<not> do_ReadOnly (db_opts db)" and "u + 1 < 2 ^ 31"
  shows "\<exists>db' d'. DB_Flush wd db d = Some (None, db', d') \<and> same_opts db db' \<and> db_rel wd (u + 1) M db' d'"
  using DB_flush_rel [OF assms(1,2,4)] assms(3) db_rel_log(1) [OF rel] by (auto simp: DB_Flush_def DB_writable_def)

lemma DB_Sync_rel:
  assumes rel: "db_rel wd u M db d"
  shows "\<exists>db'. DB_Sync db = (None, db') \<and> same_opts db db' \<and> db_rel wd u M db' d"
proof -
  from rel obtain ess L frs where R: "dk_reliable d" "dk_content d log_path \<noteq> None" "\<not> db_closed db"
    "lock_open (db_lock db)" "mt_rel (db_mem db) L" "mem_entries L = replayed (frames_records frs)"
    "list_all2 reader_of ess (db_tables db)"
    "map Reader_Path (db_tables db) = map fm_Name (st_Files (mf_state (db_manif db)))"
    "store_ok (wd_codec wd) (dk_content d) (db_manif db) ess" "fits_in u (db_manif db) ess (frames_records frs)"
    "log_open frs (db_manif db) u (db_wal db)" "M = view (table_entries ess @ [replayed (frames_records frs)])"
    by (rule db_relE)
  let ?l = "db_wal db"
  let ?f = "(lg_f ?l)\<lparr>f_tick := f_tick (lg_f ?l) + 1, f_stable := f_data (lg_f ?l)\<rparr>"
  have s: "Log_Sync ?l = (None, ?l\<lparr>lg_f := ?f\<rparr>)"
    using R(11) by (simp add: Log_Sync_def f_sync_def log_open_def log_abs_def)
  have lo: "log_open frs (db_manif db) u (?l\<lparr>lg_f := ?f\<rparr>)"
    using R(11) stops_torn [OF torn_Nil]
    by (auto simp: log_open_def log_abs_def seqs_below_def intro: exI [of _ "[]"])
  have "db_rel wd u M (db\<lparr>db_wal := ?l\<lparr>lg_f := ?f\<rparr>\<rparr>) d"
    by (rule db_relI [where L = L and frs = frs and ess = ess]) (use R lo in simp_all)
  then show ?thesis using s R(3) by (simp add: DB_Sync_def same_opts_def)
qed

end
