(* ===== verification/Lsmkv_Compact.thy ===== *)
theory Lsmkv_Compact imports Lsmkv_Flush begin

text \<open>
  Compaction: the tables it chooses are replaced by their merge, in the directory, in the manifest
  and among the open tables, and the map that the database shows stays.
\<close>

section \<open>The lists that belong to some of the names\<close>

fun pick_lists :: "('a \<Rightarrow> bool) \<Rightarrow> 'a list \<Rightarrow> 'b list \<Rightarrow> 'b list" where
  "pick_lists P (n # ns) (x # xs) = (if P n then x # pick_lists P ns xs else pick_lists P ns xs)"
| "pick_lists P ns xs = []"

lemma pick_lists_holds:
  "list_all2 R ns xs \<Longrightarrow> list_all2 R (filter P ns) (pick_lists P ns xs)"
  by (induction ns xs rule: list_all2_induct) auto

lemma pick_lists_readers:
  assumes "list_all2 R xs ts"
  shows "list_all2 R (pick_lists P (map f ts) xs) (filter (\<lambda>t. P (f t)) ts)"
  using assms by (induction xs ts rule: list_all2_induct) auto

lemma pick_lists_set: "set (pick_lists P ns xs) \<subseteq> set xs"
  by (induction P ns xs rule: pick_lists.induct) auto

lemma pick_lists_parts:
  "length ns = length xs \<Longrightarrow> set xs = set (pick_lists (\<lambda>n. \<not> P n) ns xs) \<union> set (pick_lists P ns xs)"
  by (induction ns xs rule: list_induct2) auto

lemma pick_lists_sum:
  "length ns = length xs \<Longrightarrow>
    sum_list (map f xs) = sum_list (map f (pick_lists (\<lambda>n. \<not> P n) ns xs)) + sum_list (map f (pick_lists P ns xs))"
  for f :: "'b \<Rightarrow> nat"
  by (induction ns xs rule: list_induct2) auto

lemma map_pick_lists: "map f (pick_lists P ns xs) = pick_lists P ns (map f xs)"
  by (induction P ns xs rule: pick_lists.induct) auto

lemma filter_mem_filter: "filter (\<lambda>n. n \<in> set (filter Q ns)) ns = filter Q ns"
  by (rule filter_cong) auto

section \<open>The tables chosen\<close>

lemma level0_refs:
  "map in_Path (level0 (compact_refs files ts)) =
    filter (\<lambda>p. fm_Level (name_by_path files p) = 0) (map Reader_Path ts)"
  by (induction ts) (simp_all add: compact_refs_def Let_def)

definition compact_inputs :: "FileMeta list \<Rightarrow> Reader list \<Rightarrow> Input list" where
  "compact_inputs files ts =
     (let refs = compact_refs files ts; ins = PlanLevel0 refs 2
      in if ins = []
         then [\<lparr>in_Path = fr_Path (refs ! 0), in_Level = fr_Level (refs ! 0)\<rparr>,
               \<lparr>in_Path = fr_Path (refs ! 1), in_Level = fr_Level (refs ! 1)\<rparr>]
         else ins)"

lemma compact_inputs_names:
  assumes "2 \<le> length ts" and "distinct (map Reader_Path ts)"
  shows "filter (\<lambda>n. n \<in> set (map in_Path (compact_inputs files ts))) (map Reader_Path ts) =
    map in_Path (compact_inputs files ts)" and "compact_inputs files ts \<noteq> []"
proof -
  show "compact_inputs files ts \<noteq> []" by (simp add: compact_inputs_def Let_def)
  show "filter (\<lambda>n. n \<in> set (map in_Path (compact_inputs files ts))) (map Reader_Path ts) =
    map in_Path (compact_inputs files ts)"
  proof (cases "PlanLevel0 (compact_refs files ts) 2 = []")
    case True
    from assms(1) obtain a b rest where ts: "ts = a # b # rest" by (metis One_nat_def Suc_le_length_iff numeral_2_eq_2)
    have "map in_Path (compact_inputs files ts) = [Reader_Path a, Reader_Path b]"
      using True by (simp add: compact_inputs_def ts Let_def) (simp add: compact_refs_def Let_def)
    moreover have "filter (\<lambda>n. n = Reader_Path a \<or> n = Reader_Path b) (map Reader_Path rest) = []"
      using assms(2) by (simp add: ts filter_empty_conv) (metis image_eqI)
    ultimately show ?thesis by (simp add: ts)
  next
    case False
    then have "compact_inputs files ts = level0 (compact_refs files ts)"
      by (auto simp: compact_inputs_def PlanLevel0_def Let_def split: if_splits)
    then show ?thesis by (simp only: level0_refs filter_mem_filter)
  qed
qed

lemma CompactDir_alloc:
  assumes "\<not> length refs < 2" and "refs = compact_refs files ts"
    and A: "Manifest_AllocFileName js m d = ((r, m1), d1)"
  shows "r = Inl e \<Longrightarrow> CompactDir sz refs (db_alloc js) opts (m, d) = Some (Inl e, (m1, d1))"
    and "r = Inr p \<Longrightarrow> CompactDir sz refs (db_alloc js) opts (m, d) =
      (case MergeFiles sz (compact_inputs files ts) p opts d1 of
         None \<Rightarrow> None
       | Some (Inl Panic, d) \<Rightarrow> Some (Inl Panic, (m1, d))
       | Some (Inl e, d) \<Rightarrow> Some (Inl e, (m1, snd (dk_Remove p d)))
       | Some (Inr res, d) \<Rightarrow> Some (Inr res, (m1, d)))"
  using assms by (cases "PlanLevel0 refs 2 = []"; simp add: CompactDir_def compact_inputs_def db_alloc_def Let_def)+

lemma CompactDir_few:
  assumes "length ts < 2"
  shows "CompactDir sz (compact_refs files ts) al opts s = Some (Inl compact_ErrNoInputs, s)"
proof -
  have "length (level0 (compact_refs files ts)) \<le> 1"
    using assms level0_refs [of files ts] length_filter_le [of "\<lambda>p. fm_Level (name_by_path files p) = 0" "map Reader_Path ts"]
    by (metis length_map less_2_cases_iff le_zero_eq not_less_eq_eq One_nat_def less_Suc_eq_le numeral_2_eq_2 order_trans)
  moreover have "length (compact_refs files ts) < 2" using assms by (simp add: compact_refs_def)
  ultimately show ?thesis by (simp add: CompactDir_def PlanLevel0_def Let_def)
qed

section \<open>Removing the merged files\<close>

lemma remove_files_ok:
  assumes "dk_reliable d"
  shows "dk_reliable (remove_files ps d) \<and>
    dk_content (remove_files ps d) = (\<lambda>p. if p \<in> set ps then None else dk_content d p)"
  using assms
proof (induction ps arbitrary: d)
  case (Cons p ps)
  from dk_Remove_reliable [OF Cons.prems, of p] obtain r d' where
    r: "dk_Remove p d = (r, d')" "dk_reliable d'" "dk_content d' = (dk_content d)(p := None)" by blast
  from Cons.IH [OF r(2)] r show ?case by (auto simp: fun_eq_iff)
qed auto

section \<open>The compaction\<close>

lemma merged_lookup:
  assumes "merged (merge_opts (Some \<lparr>co_DropTombstones = False, co_OutputLevel = l, co_BlockSize = z\<rparr>)) ins out"
  shows "find_key k out = lookup (table_entries ins) k" and "map stored out = out" and "keys_sorted out"
    and "total_size out \<le> sum_list (map total_size ins)"
proof -
  have "find_key k out = kept (merge_opts (Some \<lparr>co_DropTombstones = False, co_OutputLevel = l, co_BlockSize = z\<rparr>))
      (newest (map (\<lambda>es. find_key k (map stored es)) ins))" using assms unfolding merged_def by blast
  then show "find_key k out = lookup (table_entries ins) k"
    by (simp add: lookup_def comp_def kept_def merge_opts_def split: option.splits)
qed (use assms in \<open>auto simp: merged_def intro: map_idI\<close>)

lemma names_filter:
  "filter P (map f xs) = map f (filter (\<lambda>x. P (f x)) xs)"
  by (induction xs) auto

lemma compact_meta_simps [simp]:
  "fm_Name (compact_meta res) = res_OutputPath res" "fm_MaxSeq (compact_meta res) = mt_MaxSeq (res_Meta res)"
  "fm_Level (compact_meta res) = 1" "fm_FileSize (compact_meta res) = int (mt_FileSize (res_Meta res))"
  by (simp_all add: compact_meta_def)

lemma table_meta_simps [simp]:
  "mt_MaxSeq (table_meta p es n) = fold max (map se_Seq es) 0" "mt_FileSize (table_meta p es n) = n"
  by (simp_all add: table_meta_def)

lemma DB_install_ok:
  fixes db m ess ps
  defines "m \<equiv> db_manif db" and "ts \<equiv> db_tables db"
  defines "ess' \<equiv> pick_lists (\<lambda>n. n \<notin> set ps) (map Reader_Path ts) ess"
    and "kept_ts \<equiv> filter (\<lambda>t. Reader_Path t \<notin> set ps) ts"
  assumes js: "codec_ok (wd_codec wd)" and d: "dk_reliable d" "dk_content d = c(sst_name k \<mapsto> b)"
    and st: "store_ok (wd_codec wd) c m ess" and rs: "list_all2 reader_of ess ts"
    and names: "map Reader_Path ts = map fm_Name (st_Files (mf_state m))"
    and k: "k < st_NextFile (mf_state m)" "sst_name k \<notin> fm_Name ` set (st_Files (mf_state m))"
    and out: "is_table b out" "\<forall>e\<in>set out. se_Seq e \<le> st_LogSeq (mf_state m)"
    and ps: "filter (\<lambda>n. n \<in> set ps) (map Reader_Path ts) = ps"
    and res: "res_OutputPath res = sst_name k" "res_Meta res = table_meta (sst_name k) out (length b)"
      "res_Removed res = ps"
  shows "\<exists>m' r d'. DB_install wd res db d = (None, db\<lparr>db_manif := m', db_tables := kept_ts @ [r]\<rparr>, d') \<and>
    dk_reliable d' \<and> store_ok (wd_codec wd) (dk_content d') m' (ess' @ [out]) \<and>
    list_all2 reader_of (ess' @ [out]) (kept_ts @ [r]) \<and>
    map Reader_Path (kept_ts @ [r]) = map fm_Name (st_Files (mf_state m')) \<and>
    st_NextFile (mf_state m') = st_NextFile (mf_state m) \<and> st_LogSeq (mf_state m') = st_LogSeq (mf_state m) \<and>
    dk_content d' log_path = c log_path"
proof -
  let ?js = "wd_codec wd" and ?p = "sst_name k" and ?q = "fold max (map se_Seq out) 0"
  let ?files = "st_Files (mf_state m)"
  have lq: "max ?q (st_LogSeq (mf_state m)) = st_LogSeq (mf_state m)"
    using out(2) fold_max_le [of "map se_Seq out" 0 "st_LogSeq (mf_state m)"] by (simp add: max_absorb2)
  have st1: "store_ok ?js (dk_content d) m ess"
  proof (rule store_ok_cong [OF st])
    fix p assume "p \<in> fm_Name ` set ?files"
    then have "p \<noteq> ?p" using k(2) by blast
    then show "dk_content d p = c p" by (simp add: d(2))
  qed (simp add: d(2))
  have h: "holds_table (dk_content d) ?p out" using out(1) by (simp add: holds_table_def d(2))
  from dk_sst_Open_table [OF d(1) h] obtain r d1 where O: "dk_sst_Open ?p d = (Inr r, d1)" "reader_of out r"
    "Reader_Path r = ?p" "dk_reliable d1" "dk_content d1 = dk_content d" by blast
  have st2: "store_ok ?js (dk_content d1) m ess" and h1: "holds_table (dk_content d1) ?p out"
    using st1 h O(5) by simp_all
  have fj: "file_json (compact_meta res)"
    using is_table_length [OF out(1)] ascii_sst_name res(1,2) by (simp add: file_json_def int64_def)
  have h2: "list_all2 (holds_table (dk_content d1)) (map fm_Name (filter (\<lambda>f. fm_Name f \<notin> set ps) ?files)) ess'"
    using pick_lists_holds [OF store_ok_tables [OF st2], of "\<lambda>n. n \<notin> set ps"]
    by (simp add: ess'_def names names_filter)
  have sub: "set ess' \<subseteq> set ess" unfolding ess'_def by (rule pick_lists_set)
  have seq: "\<forall>e\<in>set out. se_Seq e \<le> max ?q (st_LogSeq (mf_state m))" using out(2) lq by simp
  have fq: "fm_MaxSeq (compact_meta res) \<le> max ?q (st_LogSeq (mf_state m))" by (simp add: res(2))
  have fn: "fm_Name (compact_meta res) = sst_name k" by (simp add: res(1))
  from Replace_ok [OF st2 O(4) js k fn fj h1 h2 sub seq fq] lq obtain m' d2 where
    M: "Manifest_Replace ?js ps [compact_meta res] ?q m d1 = ((None, m'), d2)" "dk_reliable d2"
    "store_ok ?js (dk_content d2) m' (ess' @ [out])" "st_NextFile (mf_state m') = st_NextFile (mf_state m)"
    "st_Files (mf_state m') = filter (\<lambda>f. fm_Name f \<notin> set ps) ?files @ [compact_meta res]"
    "st_LogSeq (mf_state m') = st_LogSeq (mf_state m)"
    "\<forall>p. p \<noteq> mf_fileName \<longrightarrow> p \<noteq> mf_fileName @ tmpSuffix \<longrightarrow> dk_content d2 p = dk_content d1 p" by auto
  let ?d3 = "remove_files (remdups ps) d2"
  note F = remove_files_ok [OF M(2), of "remdups ps"]
  have psn: "set ps \<subseteq> fm_Name ` set ?files"
    using ps names by (metis filter_is_subset list.set_map)
  have other: "mf_fileName \<notin> set ps" "log_path \<notin> set ps" "?p \<notin> set ps"
    using psn st k(2) names_ok_other [of m] by (auto simp: store_ok_def)
  have st3: "store_ok ?js (dk_content ?d3) m' (ess' @ [out])"
  proof (rule store_ok_cong [OF M(3)])
    fix p assume "p \<in> fm_Name ` set (st_Files (mf_state m'))"
    then have "p \<notin> set ps" using M(5) other(3) fn by auto
    then show "dk_content ?d3 p = dk_content d2 p" using F by simp
  qed (use F other in simp)
  have rn: "map Reader_Path (filter (\<lambda>t. Reader_Path t \<in> set ps) ts) = ps"
    using ps by (simp add: names_filter)
  have "DB_install wd res db d = (None, db\<lparr>db_manif := m', db_tables := kept_ts @ [r]\<rparr>, ?d3)"
    using O(1) M(1) rn
    by (simp add: DB_install_def Let_def res(1,3) kept_ts_def m_def [symmetric] ts_def [symmetric]) (simp add: res(2))
  moreover have "map Reader_Path (kept_ts @ [r]) = map fm_Name (st_Files (mf_state m'))"
    using names names_filter [of "\<lambda>n. n \<notin> set ps" Reader_Path ts]
      names_filter [of "\<lambda>n. n \<notin> set ps" fm_Name ?files] O(3) M(5) fn
    by (simp add: kept_ts_def res(1))
  moreover have "list_all2 reader_of (ess' @ [out]) (kept_ts @ [r])"
    using pick_lists_readers [OF rs, of "\<lambda>n. n \<notin> set ps" Reader_Path] O(2)
    by (simp add: ess'_def kept_ts_def list_all2_appendI)
  moreover have "dk_content ?d3 log_path = c log_path"
    using F other(2) M(7) O(5) d(2) by simp
  ultimately show ?thesis using st3 F M(4,6) by blast
qed

text \<open>The tables left and the merge of the others show the map that the tables showed.\<close>

lemma compact_merge_fits:
  fixes ps ns ess
  defines "ess1 \<equiv> pick_lists (\<lambda>n. n \<in> set ps) ns ess" and "ess2 \<equiv> pick_lists (\<lambda>n. n \<notin> set ps) ns ess"
  assumes fits: "fits_in u m ess rs" and len: "length ns = length ess"
    and mg: "merged (merge_opts (Some \<lparr>co_DropTombstones = False, co_OutputLevel = l, co_BlockSize = z\<rparr>)) ess1 out"
  shows "(\<forall>e\<in>set (concat ess). se_Seq e \<le> q) \<Longrightarrow> \<forall>e\<in>set out. se_Seq e \<le> q"
    and "unat (st_NextFile (mf_state m')) \<le> u + 1 \<Longrightarrow> st_LogSeq (mf_state m') = st_LogSeq (mf_state m) \<Longrightarrow>
      fits_in (u + 1) m' (ess2 @ [out]) rs"
    and "shows_map (ess2 @ [out]) rs M = shows_map ess rs M"
proof -
  note O = merged_lookup [OF mg]
  have F: "versions_ok (table_entries ess) (replayed rs)" "sum_list (map total_size ess) + total_size (replayed rs) \<le> u"
    "unat (st_LogSeq (mf_state m)) \<le> u" "\<forall>r\<in>set rs. unat (rc_Seq r) \<le> u" using fits by (simp_all add: fits_in_def)
  have parts: "set ess = set ess2 \<union> set ess1" unfolding ess1_def ess2_def by (rule pick_lists_parts [OF len])
  have sums: "sum_list (map total_size ess) = sum_list (map total_size ess2) + sum_list (map total_size ess1)"
    unfolding ess1_def ess2_def by (rule pick_lists_sum [OF len])
  have "set (concat (table_entries ess)) = set (concat (table_entries ess2)) \<union> set (concat (table_entries ess1))"
    using parts by auto
  moreover have "set (table_entries ess2) \<union> set (table_entries ess1) \<subseteq> set (table_entries ess)" using parts by auto
  ultimately have V: "versions_ok (table_entries ess2 @ [out]) (replayed rs)"
    "view ((table_entries ess2 @ [out]) @ [replayed rs]) = view (table_entries ess @ [replayed rs])"
    "set out \<subseteq> set (concat (table_entries ess1))"
    using versions_merge [OF F(1) O(3) O(1)] by blast+
  have te: "table_entries (ess2 @ [out]) = table_entries ess2 @ [out]" using O(2) by simp
  show "shows_map (ess2 @ [out]) rs M = shows_map ess rs M" unfolding shows_map_def te V(2) by (rule refl)
  show "fits_in (u + 1) m' (ess2 @ [out]) rs"
    if "unat (st_NextFile (mf_state m')) \<le> u + 1" "st_LogSeq (mf_state m') = st_LogSeq (mf_state m)"
    unfolding fits_in_def te using V(1) F(2-4) that sums O(4) by auto
  show "\<forall>e\<in>set out. se_Seq e \<le> q" if q: "\<forall>e\<in>set (concat ess). se_Seq e \<le> q"
  proof
    fix e assume "e \<in> set out"
    with V(3) obtain es x where "es \<in> set ess1" "x \<in> set es" "e = stored x" by auto
    then have "x \<in> set (concat ess)" "e = stored x" using parts by auto
    with q show "se_Seq e \<le> q" by auto
  qed
qed

lemma DB_Compact_rel:
  assumes wd: "world_ok wd" and rel: "db_rel wd u M db d" and "\<not> do_ReadOnly (db_opts db)" and u: "u + 1 < 2 ^ 31"
  shows "\<exists>db' d'. DB_Compact wd db d = Some (None, db', d') \<and> same_opts db db' \<and> db_rel wd (u + 1) M db' d'"
proof -
  from rel obtain ess L frs where R: "dk_reliable d" "dk_content d log_path \<noteq> None" "\<not> db_closed db"
    "lock_open (db_lock db)" "mt_rel (db_mem db) L" "mem_entries L = replayed (frames_records frs)"
    "list_all2 reader_of ess (db_tables db)"
    "map Reader_Path (db_tables db) = map fm_Name (st_Files (mf_state (db_manif db)))"
    "store_ok (wd_codec wd) (dk_content d) (db_manif db) ess" "fits_in u (db_manif db) ess (frames_records frs)"
    "log_open frs (db_manif db) u (db_wal db)" "M = view (table_entries ess @ [replayed (frames_records frs)])"
    by (rule db_relE)
  let ?js = "wd_codec wd" and ?m = "db_manif db" and ?ts = "db_tables db" and ?L = "replayed (frames_records frs)"
  let ?files = "st_Files (mf_state ?m)" and ?n = "st_NextFile (mf_state ?m)"
  have ro: "DB_writable db = None" using R(3) assms(3) by (simp add: DB_writable_def)
  have same: ?thesis if "DB_Compact wd db d = Some (None, db, d)"
    using that db_rel_mono [OF rel, of "u + 1"] by auto
  have js: "codec_ok ?js" and sz: "sizing_ok (wd_sizing wd)" using wd by (simp_all add: world_ok_def)
  let ?opts = "Some \<lparr>co_DropTombstones = False, co_OutputLevel = 0, co_BlockSize = 0\<rparr>"
  let ?refs = "compact_refs ?files ?ts"
  consider "int (length ?ts) < do_CompactThreshold (db_opts db)"
    | "\<not> int (length ?ts) < do_CompactThreshold (db_opts db)" "length ?ts < 2"
    | "\<not> int (length ?ts) < do_CompactThreshold (db_opts db)" "2 \<le> length ?ts" by linarith
  then show ?thesis
  proof cases
    case 1
    then have "DB_Compact wd db d = Some (None, db, d)" using ro by (simp add: DB_Compact_def)
    then show ?thesis by (rule same)
  next
    case 2
    then have "DB_Compact wd db d = Some (None, db\<lparr>db_manif := ?m\<rparr>, d)"
      using ro 2 by (simp add: DB_Compact_def CompactDir_few)
    then show ?thesis using same by simp
  next
    case 3
    let ?ins = "compact_inputs ?files ?ts"
    define ps where "ps = map in_Path ?ins"
    have dist: "distinct (map Reader_Path ?ts)" using R(8,9) by (simp add: store_ok_def names_ok_def)
    note CI = compact_inputs_names [OF 3(2) dist, of ?files]
    have ps: "filter (\<lambda>n. n \<in> set ps) (map Reader_Path ?ts) = ps" using CI(1) by (simp add: ps_def)
    let ?ess1 = "pick_lists (\<lambda>n. n \<in> set ps) (map Reader_Path ?ts) ess"
    let ?ess2 = "pick_lists (\<lambda>n. n \<notin> set ps) (map Reader_Path ?ts) ess"
    have F: "versions_ok (table_entries ess) ?L" "sum_list (map total_size ess) + total_size ?L \<le> u"
      "unat (st_LogSeq (mf_state ?m)) \<le> u" "unat ?n \<le> u" "\<forall>r\<in>set (frames_records frs). unat (rc_Seq r) \<le> u"
      using R(10) by (simp_all add: fits_in_def)
    have n: "?n < -1" using F(4) u by (simp add: word_less_nat_alt unsigned_minus_1_eq_mask mask_eq_exp_minus_1)
    from Alloc_ok [OF R(9,1) js n] obtain m1 d1 where A: "Manifest_AllocFileName ?js ?m d = ((Inr (sst_name ?n), m1), d1)"
      "dk_reliable d1" "store_ok ?js (dk_content d1) m1 ess" "st_NextFile (mf_state m1) = ?n + 1"
      "st_Files (mf_state m1) = ?files" "st_LogSeq (mf_state m1) = st_LogSeq (mf_state ?m)"
      "sst_name ?n \<notin> fm_Name ` set (st_Files (mf_state m1))" "?n < st_NextFile (mf_state m1)"
      "\<forall>p. p \<noteq> mf_fileName \<longrightarrow> p \<noteq> mf_fileName @ tmpSuffix \<longrightarrow> dk_content d1 p = dk_content d p" by auto
    have hs: "list_all2 (holds_table (dk_content d1)) (map Reader_Path ?ts) ess"
      using store_ok_tables [OF A(3)] A(5) R(8) by simp
    then have len: "length (map Reader_Path ?ts) = length ess" by (rule list_all2_lengthD)
    have hi: "list_all2 (\<lambda>inp es. holds_table (dk_content d1) (in_Path inp) es) ?ins ?ess1"
      using pick_lists_holds [OF hs, of "\<lambda>n. n \<in> set ps"] by (simp add: ps) (simp add: ps_def list_all2_map1)
    have sums: "sum_list (map total_size ess) = sum_list (map total_size ?ess2) + sum_list (map total_size ?ess1)"
      by (rule pick_lists_sum [OF len])
    then have small: "sum_list (map total_size ?ess1) < 2 ^ 31" using F(2) u by simp
    from MergeFiles_tables [OF A(2) CI(2) hi sz small, of "sst_name ?n" ?opts] obtain out b d2 j where
      G: "MergeFiles (wd_sizing wd) ?ins (sst_name ?n) ?opts d1 = Some (Inr \<lparr>res_OutputPath = sst_name ?n,
          res_Meta = table_meta (sst_name ?n) out (length b), res_Removed = map in_Path ?ins,
          res_KeptTombstones = length (filter se_Deleted out), res_DroppedObsolete = j\<rparr>, d2)"
      "merged (merge_opts ?opts) ?ess1 out" "is_table b out" "dk_content d2 = (dk_content d1)(sst_name ?n \<mapsto> b)"
      "dk_reliable d2" by blast
    let ?res = "\<lparr>res_OutputPath = sst_name ?n,
          res_Meta = table_meta (sst_name ?n) out (length b), res_Removed = map in_Path ?ins,
          res_KeptTombstones = length (filter se_Deleted out), res_DroppedObsolete = j\<rparr>"
    note O = merged_lookup [OF G(2)]
    note V = compact_merge_fits [OF R(10) len G(2)]
    have "\<forall>e\<in>set (concat ess). se_Seq e \<le> st_LogSeq (mf_state m1)" using A(3) by (simp add: store_ok_def)
    note seqs = V(1) [OF this]
    let ?db1 = "db\<lparr>db_manif := m1\<rparr>"
    have "\<exists>m' r d'. DB_install wd ?res ?db1 d2 = (None, ?db1\<lparr>db_manif := m',
        db_tables := filter (\<lambda>t. Reader_Path t \<notin> set ps) (db_tables ?db1) @ [r]\<rparr>, d') \<and>
      dk_reliable d' \<and> store_ok ?js (dk_content d') m' (pick_lists (\<lambda>n. n \<notin> set ps) (map Reader_Path (db_tables ?db1)) ess @ [out]) \<and>
      list_all2 reader_of (pick_lists (\<lambda>n. n \<notin> set ps) (map Reader_Path (db_tables ?db1)) ess @ [out])
        (filter (\<lambda>t. Reader_Path t \<notin> set ps) (db_tables ?db1) @ [r]) \<and>
      map Reader_Path (filter (\<lambda>t. Reader_Path t \<notin> set ps) (db_tables ?db1) @ [r]) = map fm_Name (st_Files (mf_state m')) \<and>
      st_NextFile (mf_state m') = st_NextFile (mf_state (db_manif ?db1)) \<and>
      st_LogSeq (mf_state m') = st_LogSeq (mf_state (db_manif ?db1)) \<and> dk_content d' log_path = dk_content d1 log_path"
      by (rule DB_install_ok [OF js G(5,4)])
        (use A R(7,8) G(3) seqs ps in \<open>simp_all add: ps_def\<close>)
    then obtain m' r d' where I: "DB_install wd ?res ?db1 d2 = (None, ?db1\<lparr>db_manif := m',
        db_tables := filter (\<lambda>t. Reader_Path t \<notin> set ps) ?ts @ [r]\<rparr>, d')"
      "dk_reliable d'" "store_ok ?js (dk_content d') m' (?ess2 @ [out])"
      "list_all2 reader_of (?ess2 @ [out]) (filter (\<lambda>t. Reader_Path t \<notin> set ps) ?ts @ [r])"
      "map Reader_Path (filter (\<lambda>t. Reader_Path t \<notin> set ps) ?ts @ [r]) = map fm_Name (st_Files (mf_state m'))"
      "st_NextFile (mf_state m') = ?n + 1" "st_LogSeq (mf_state m') = st_LogSeq (mf_state ?m)"
      "dk_content d' log_path = dk_content d1 log_path" using A(4,6) by auto
    let ?db = "db\<lparr>db_manif := m', db_tables := filter (\<lambda>t. Reader_Path t \<notin> set ps) ?ts @ [r]\<rparr>"
    have n1: "unat (st_NextFile (mf_state m')) \<le> u + 1" using I(6) F(4) by (simp add: unat_word_ariths)
    note fits = V(2) [OF n1 I(7)]
    have view: "M = view (table_entries (?ess2 @ [out]) @ [?L])"
      using V(3) [of M] R(12) unfolding shows_map_def by blast
    have lo: "log_open frs m' (u + 1) (db_wal db)" using R(11) I(7) by (simp add: log_open_def)
    have refs: "\<not> length ?refs < 2" using 3(2) by (simp add: compact_refs_def)
    have "CompactDir (wd_sizing wd) ?refs (db_alloc ?js) ?opts (?m, d) = Some (Inr ?res, (m1, d2))"
      using CompactDir_alloc(2) [OF refs refl A(1) refl] G(1) by simp
    then have "DB_Compact wd db d = Some (None, ?db, d')"
      using ro 3(1) I(1) by (simp add: DB_Compact_def)
    moreover have "db_rel wd (u + 1) M ?db d'"
      by (rule db_relI [where L = L and frs = frs and ess = "?ess2 @ [out]"])
        (use R I fits lo view A(9) in \<open>simp_all add: O(2)\<close>)
    ultimately show ?thesis by (auto simp: same_opts_def)
  qed
qed

end
