(* ===== verification/Lsmkv_Open.thy ===== *)
theory Lsmkv_Open imports Lsmkv_Write Lsmkv_Compact Filelock_Correct begin

text \<open>
  Closing, crashing and opening: what a directory without an open database holds, that closing a
  database or losing it leaves its map there, and that opening finds it again.
\<close>

section \<open>Directories\<close>

definition fresh_state :: "Manifest \<Rightarrow> bool" where
  "fresh_state m = (st_Files (mf_state m) = [] \<and> st_LogSeq (mf_state m) = 0 \<and> st_NextFile (mf_state m) = 1)"

definition log_content :: "(string \<Rightarrow> bytes option) \<Rightarrow> bytes" where
  "log_content c = (case c log_path of None \<Rightarrow> [] | Some w \<Rightarrow> w)"

definition dir_holds :: "world \<Rightarrow> nat \<Rightarrow> (bytes \<Rightarrow> bytes option) \<Rightarrow> (string \<Rightarrow> bytes option) \<Rightarrow> bool" where
  "dir_holds wd u M c =
     (\<exists>m ess frs b.
        (store_ok (wd_codec wd) c m ess \<or> c mf_fileName = None \<and> fresh_state m \<and> ess = []) \<and>
        log_content c = frames_bytes frs @ b \<and> stops b \<and> list_all frame_ok frs \<and>
        fits_in u m ess (frames_records frs) \<and> shows_map ess (frames_records frs) M)"

section \<open>Opening the parts\<close>

lemma Acquire_free:
  assumes "dk_reliable d" and "dir \<noteq> []" and "dk_content d defaultLockName = None"
  shows "\<exists>lk d'. Acquire pr dir None d = Some (Inr lk, d') \<and> lock_open lk \<and> dk_reliable d' \<and>
    (\<forall>p. p \<noteq> defaultLockName \<longrightarrow> dk_content d' p = dk_content d p)"
proof -
  let ?o = "LockOptions_normalize None"
  let ?l = "\<lparr>lk_dir = dir, lk_path = lo_Name ?o, lk_f = None, lk_held = False, lk_pid = pr_pid pr,
    lk_hostname = pr_hostname pr\<rparr>"
  let ?d = "d\<lparr>dk_tick := dk_tick d + 1\<rparr>"
  have n: "lo_Name ?o = defaultLockName" "lo_Timeout ?o \<le> 0" by (simp_all add: LockOptions_normalize_def)
  have "dk_files ?d (lk_path ?l) = None" using assms(3) by (simp add: dk_content_None n)
  from tryOnce_free [where l = ?l and d = ?d and pr = pr and o' = ?o, OF _ _ this] assms(1) obtain f where
    t: "Lock_tryOnce pr ?o ?l ?d = ((None, ?l\<lparr>lk_f := Some f, lk_held := True\<rparr>), ?d\<lparr>dk_tick := dk_tick ?d + 2,
      dk_files := (dk_files ?d)(lk_path ?l \<mapsto> (lock_content pr ?l (dk_clock ?d (dk_tick ?d + 1)), dk_clock ?d (dk_tick ?d + 2)))\<rparr>)"
    "f_reliable f" by auto
  have "Acquire pr dir None d = Some (Inr (?l\<lparr>lk_f := Some f, lk_held := True\<rparr>), ?d\<lparr>dk_tick := dk_tick ?d + 2,
      dk_files := (dk_files ?d)(lk_path ?l \<mapsto> (lock_content pr ?l (dk_clock ?d (dk_tick ?d + 1)), dk_clock ?d (dk_tick ?d + 2)))\<rparr>)"
    using assms(1,2) n(2) t(1) by (simp add: Acquire_def Let_def dk_MkdirAll_def)
  then show ?thesis using t(2) assms(1) n by (auto simp: lock_open_def dk_content_def)
qed

lemma Manifest_Open_dir:
  assumes "store_ok js (dk_content d) m ess \<or> dk_content d mf_fileName = None \<and> fresh_state m \<and> ess = []"
    and "dk_reliable d" and js: "codec_ok js"
  shows "\<exists>m' d'. Manifest_Open js dir d = (Inr m', d') \<and> dk_reliable d' \<and> store_ok js (dk_content d') m' ess \<and>
    st_Files (mf_state m') = st_Files (mf_state m) \<and> st_LogSeq (mf_state m') = st_LogSeq (mf_state m) \<and>
    st_NextFile (mf_state m') = st_NextFile (mf_state m) \<and>
    (\<forall>p. p \<noteq> mf_fileName \<longrightarrow> p \<noteq> mf_fileName @ tmpSuffix \<longrightarrow> dk_content d' p = dk_content d p)"
  using assms(1)
proof
  assume st: "store_ok js (dk_content d) m ess"
  then have h: "holds_state js (dk_content d) (mf_state m)" by (simp add: store_ok_def)
  from Manifest_Open_holds [OF js h assms(2), of dir] obtain d' where
    d': "Manifest_Open js dir d = (Inr \<lparr>mf_dir = dir, mf_path = mf_fileName, mf_state = mf_state m\<rparr>, d')"
    "dk_reliable d'" "dk_content d' = dk_content d" by blast
  have "store_ok js (dk_content d') \<lparr>mf_dir = dir, mf_path = mf_fileName, mf_state = mf_state m\<rparr> ess"
    using st d'(3) by (simp add: store_ok_def names_ok_def)
  with d' show ?thesis by simp
next
  assume f: "dk_content d mf_fileName = None \<and> fresh_state m \<and> ess = []"
  let ?d = "d\<lparr>dk_tick := dk_tick d + 3\<rparr>" and ?t = "js_time js (dk_clock d (dk_tick d + 2))"
  let ?m = "\<lparr>mf_dir = dir, mf_path = mf_fileName, mf_state = \<lparr>st_Version = versionJSON, st_NextFile = 1, st_LogSeq = 0,
    st_Files = [], st_UpdatedAt = ?t\<rparr>\<rparr>"
  have j: "state_json (mf_state ?m)"
    using codec_okD(1) [OF js] by (simp add: state_json_def int64_def versionJSON_def)
  have "dk_reliable ?d" using assms(2) by simp
  from persist_store [OF this js j] obtain t d' where
    p: "Manifest_persist js ?m ?d = ((None, stamped (js_time js t) ?m), d')" "dk_reliable d'"
    "holds_state js (dk_content d') (mf_state (stamped (js_time js t) ?m))"
    "\<forall>p. p \<noteq> mf_fileName \<longrightarrow> p \<noteq> mf_fileName @ tmpSuffix \<longrightarrow> dk_content d' p = dk_content ?d p" by auto
  have "dk_files d mf_fileName = None" using f by (simp add: dk_content_None)
  then have "Manifest_Open js dir d = (Inr (stamped (js_time js t) ?m), d')"
    using p(1) assms(2)
    by (simp add: Manifest_Open_def dk_MkdirAll_def dk_ReadFile_def dk_now_def Let_def zero_State_def
        numeral_3_eq_3 numeral_2_eq_2)
  moreover have "store_ok js (dk_content d') (stamped (js_time js t) ?m) []"
    using p(3) by (simp add: store_ok_def names_ok_def)
  ultimately show ?thesis using p f by (auto simp: fresh_state_def)
qed

lemma max_seq_le: "max_seq rs m \<le> b \<longleftrightarrow> m \<le> b \<and> (\<forall>r\<in>set rs. rc_Seq r \<le> b)"
  by (simp add: max_seq_def fold_max_le)

lemma walOpts_name: "wo_FileName (WalOptions_normalize (Some (walOpts o'))) = log_path"
  by (simp add: walOpts_def WalOptions_normalize_def log_path_def)

lemma dk_wal_Open_dir:
  assumes "dk_reliable d" and "log_content (dk_content d) = frames_bytes frs @ b" and "stops b" and "list_all frame_ok frs"
  shows "\<exists>l d'. dk_wal_Open dir (walOpts o') d = (Inr l, d') \<and> dk_reliable d' \<and> log_abs frs l \<and> f_reliable (lg_f l) \<and>
    lg_nextSeq l = max_seq (frames_records frs) 0 \<and> lg_opts l = WalOptions_normalize (Some (walOpts o')) \<and>
    f_stable (lg_f l) = frames_bytes frs @ b \<and> dk_content d' log_path \<noteq> None \<and>
    (\<forall>p. p \<noteq> log_path \<longrightarrow> dk_content d' p = dk_content d p)"
proof -
  let ?o = "WalOptions_normalize (Some (walOpts o'))"
  obtain f d' where f: "dk_OpenRW log_path (d\<lparr>dk_tick := dk_tick d + 1\<rparr>) = (Inr f, d')" "f_reliable f"
    "f_data f = frames_bytes frs @ b" "f_pos f = 0" "f_stable f = f_data f" "dk_reliable d'" "dk_content d' log_path \<noteq> None"
    "\<forall>p. p \<noteq> log_path \<longrightarrow> dk_content d' p = dk_content d p"
  proof (cases "dk_files d log_path")
    case None
    then have "frames_bytes frs @ b = []" using assms(2) by (simp add: log_content_def dk_content_def)
    with None assms(1) that show ?thesis by (simp add: dk_OpenRW_def)
  next
    case (Some x)
    then have "frames_bytes frs @ b = fst x" using assms(2) by (simp add: log_content_def dk_content_def)
    with Some assms(1) that show ?thesis by (cases x) (simp add: dk_OpenRW_def dk_content_def)
  qed
  let ?f = "f\<lparr>f_tick := f_tick f + 1\<rparr>"
  have "f_reliable ?f" "f_data ?f = frames_bytes frs @ b" using f(2,3) by simp_all
  from wal_Open_frames [OF this(1) assms(4,3) this(2), of "Some (walOpts o')"] obtain l where
    l: "wal_Open ?f (Some (walOpts o')) = Inr l" "log_abs frs l" "lg_nextSeq l = max_seq (frames_records frs) 0"
    "lg_opts l = ?o" "f_reliable (lg_f l)" "f_stable (lg_f l) = f_data f" using f(5) by auto
  have "?f\<lparr>f_pos := 0\<rparr> = ?f" using f(4) by simp
  with l(1) have "Log_recoverTail \<lparr>lg_f = ?f, lg_opts = ?o, lg_appends = 0, lg_closed = False,
      lg_size = length (f_data f), lg_nextSeq = 0\<rparr> = (None, l)"
    by (auto simp: wal_Open_def Let_def split: prod.splits option.splits)
  then have "dk_wal_Open dir (walOpts o') d = (Inr l, d')"
    using f(1,2) assms(1)
    by (simp add: dk_wal_Open_def walOpts_name dk_MkdirAll_def f_stat_size_def Let_def)
  with f l show ?thesis by auto
qed

lemma DB_openTables_ok:
  assumes "list_all2 (\<lambda>f es. holds_table (dk_content d) (fm_Name f) es) fs ess" and "dk_reliable d"
  shows "\<exists>rs d'. DB_openTables fs acc d = (Inr (acc @ rs), d') \<and> list_all2 reader_of ess rs \<and>
    map Reader_Path rs = map fm_Name fs \<and> dk_reliable d' \<and> dk_content d' = dk_content d"
  using assms
proof (induction fs arbitrary: ess acc d)
  case (Cons f fs)
  from Cons.prems(1) obtain es ess' where e: "ess = es # ess'" "holds_table (dk_content d) (fm_Name f) es"
    "list_all2 (\<lambda>f es. holds_table (dk_content d) (fm_Name f) es) fs ess'" by (auto simp: list_all2_Cons1)
  from dk_sst_Open_table [OF Cons.prems(2) e(2)] obtain r d1 where r: "dk_sst_Open (fm_Name f) d = (Inr r, d1)"
    "reader_of es r" "Reader_Path r = fm_Name f" "dk_reliable d1" "dk_content d1 = dk_content d" by blast
  from Cons.IH [of d1 ess' "acc @ [r]"] e(3) r(4,5) obtain rs d' where
    "DB_openTables fs (acc @ [r]) d1 = (Inr ((acc @ [r]) @ rs), d')" "list_all2 reader_of ess' rs"
    "map Reader_Path rs = map fm_Name fs" "dk_reliable d'" "dk_content d' = dk_content d" by auto
  with r e(1) show ?case by (intro exI [of _ "r # rs"]) simp
qed simp

lemma replay_mem:
  assumes "mt_rel m L"
  shows "\<exists>m' L'. fold (\<lambda>r s. snd (replay_record r s)) rs (Some m) = Some m' \<and> mt_rel m' L' \<and>
    mem_entries L' = fold put_entry (map record_entry rs) (mem_entries L)"
  using assms
proof (induction rs arbitrary: m L)
  case (Cons r rs)
  let ?v = "if rc_Deleted r then None else append_nil (rc_Value r)"
  obtain m1 where m1: "snd (replay_record r (Some m)) = Some m1" "mt_rel m1 (mem_set (rc_Key r) ?v (rc_Seq r) (rc_Deleted r) L)"
    using mt.put_rel [OF Cons.prems] mt.del_rel [OF Cons.prems] by (cases "rc_Deleted r") (fastforce simp: replay_record_def)+
  have "mem_entries (mem_set (rc_Key r) ?v (rc_Seq r) (rc_Deleted r) L) = put_entry (record_entry r) (mem_entries L)"
    by (auto simp: mem_entries_set record_entry_def)
  with Cons.IH [OF m1(2)] m1(1) show ?case by simp
qed auto

lemma DB_replayWAL_ok:
  assumes "log_abs frs (db_wal db)" and "f_reliable (lg_f (db_wal db))" and "mt_rel (db_mem db) []"
  shows "\<exists>m' L t. DB_replayWAL db = Some (None, db\<lparr>db_mem := m', db_wal := (db_wal db)\<lparr>lg_f := (lg_f (db_wal db))\<lparr>f_tick := t\<rparr>\<rparr>\<rparr>) \<and>
    mt_rel m' L \<and> mem_entries L = replayed (frames_records frs)"
proof -
  let ?rs = "frames_records frs"
  from replay_mem [OF assms(3), of ?rs] obtain m' L where
    m: "fold (\<lambda>r s. snd (replay_record r s)) ?rs (Some (db_mem db)) = Some m'" "mt_rel m' L"
    "mem_entries L = replayed ?rs" by (auto simp: replayed_def)
  have "fst (replay_record r s) = None" for r s by (simp add: replay_record_def)
  then have rr: "replay_records replay_record ?rs (Some (db_mem db)) = (None, Some m')"
    using replay_records_ok [of replay_record ?rs "Some (db_mem db)"] m(1) by simp
  have "fst (Log_Replay replay_record (Some (db_mem db)) (db_wal db)) = (None, Some m')"
    by (simp add: Log_Replay_frames(1) [OF assms(1,2)] rr)
  moreover obtain t where "snd (Log_Replay replay_record (Some (db_mem db)) (db_wal db)) =
      (db_wal db)\<lparr>lg_f := (lg_f (db_wal db))\<lparr>f_tick := t\<rparr>\<rparr>"
    using Log_Replay_frames(2) [OF assms(1,2)] rr by (metis fst_conv)
  ultimately have "Log_Replay replay_record (Some (db_mem db)) (db_wal db) =
      ((None, Some m'), (db_wal db)\<lparr>lg_f := (lg_f (db_wal db))\<lparr>f_tick := t\<rparr>\<rparr>)" by (metis prod.collapse)
  with m(2,3) show ?thesis by (auto simp: DB_replayWAL_def)
qed

section \<open>Opening\<close>

lemma unat_le_of_nat: "u < 2 ^ 31 \<Longrightarrow> x \<le> of_nat u \<longleftrightarrow> unat x \<le> u" for x :: u64
  by (simp add: word_le_nat_alt unat_of_nat)

lemma max_seq_files: "\<forall>f\<in>set fs. fm_MaxSeq f \<le> b \<Longrightarrow> m \<le> b \<Longrightarrow> max_seq_loop fs m \<le> b"
  by (induction fs arbitrary: m) auto

lemma store_ok_other:
  assumes "store_ok js c m ess"
    and "\<And>p. p \<noteq> log_path \<Longrightarrow> p \<noteq> defaultLockName \<Longrightarrow> c' p = c p"
  shows "store_ok js c' m ess"
proof (rule store_ok_cong [OF assms(1)])
  fix p assume "p \<in> fm_Name ` set (st_Files (mf_state m))"
  then have "p \<noteq> log_path \<and> p \<noteq> defaultLockName"
    using names_ok_other [of m p] assms(1) by (simp add: store_ok_def)
  then show "c' p = c p" by (simp add: assms(2))
qed (simp add: assms(2))

lemma DB_Open_rel:
  assumes wd: "world_ok wd" and "dir \<noteq> []" and dir: "dir_holds wd u M (dk_content d)" and d: "dk_reliable d"
    and free: "dk_content d defaultLockName = None" and u: "u < 2 ^ 31"
  shows "\<exists>db d'. DB_Open wd dir opts d = Some (Inr db, d') \<and> db_rel wd u M db d' \<and>
    db_opts db = DbOptions_normalize opts \<and>
    lg_opts (db_wal db) = WalOptions_normalize (Some (walOpts (DbOptions_normalize opts)))"
proof -
  let ?js = "wd_codec wd" and ?o = "DbOptions_normalize opts"
  have js: "codec_ok ?js" using wd by (simp add: world_ok_def)
  from dir obtain m ess frs b where D:
    "store_ok ?js (dk_content d) m ess \<or> dk_content d mf_fileName = None \<and> fresh_state m \<and> ess = []"
    "log_content (dk_content d) = frames_bytes frs @ b" "stops b" "list_all frame_ok frs"
    "fits_in u m ess (frames_records frs)" "M = view (table_entries ess @ [replayed (frames_records frs)])"
    unfolding dir_holds_def shows_map_def by blast
  let ?d0 = "d\<lparr>dk_tick := dk_tick d + 1\<rparr>"
  have mk: "dk_MkdirAll dir d = (None, ?d0)" using d by (simp add: dk_MkdirAll_def)
  have c0: "dk_content ?d0 = dk_content d" by (simp add: fun_eq_iff)
  have d0: "dk_reliable ?d0" "dk_content ?d0 defaultLockName = None" using d free c0 by simp_all
  from Acquire_free [OF d0(1) assms(2) d0(2), of "wd_process wd"] obtain lk d1 where
    A: "Acquire (wd_process wd) dir None ?d0 = Some (Inr lk, d1)" "lock_open lk" "dk_reliable d1"
    "\<forall>p. p \<noteq> defaultLockName \<longrightarrow> dk_content d1 p = dk_content d p" using c0 by auto
  have "store_ok ?js (dk_content d1) m ess \<or> dk_content d1 mf_fileName = None \<and> fresh_state m \<and> ess = []"
    using D(1) A(4) store_ok_other [of ?js "dk_content d" m ess "dk_content d1"] by auto
  from Manifest_Open_dir [OF this A(3) js, of dir] obtain mf d2 where
    B: "Manifest_Open ?js dir d1 = (Inr mf, d2)" "dk_reliable d2" "store_ok ?js (dk_content d2) mf ess"
    "st_LogSeq (mf_state mf) = st_LogSeq (mf_state m)" "st_NextFile (mf_state mf) = st_NextFile (mf_state m)"
    "\<forall>p. p \<noteq> mf_fileName \<longrightarrow> p \<noteq> mf_fileName @ tmpSuffix \<longrightarrow> dk_content d2 p = dk_content d1 p" by blast
  have "log_content (dk_content d2) = frames_bytes frs @ b" using D(2) A(4) B(6) by (simp add: log_content_def)
  from dk_wal_Open_dir [OF B(2) this D(3,4), of dir ?o] obtain l d3 where
    C: "dk_wal_Open dir (walOpts ?o) d2 = (Inr l, d3)" "dk_reliable d3" "log_abs frs l" "f_reliable (lg_f l)"
    "lg_nextSeq l = max_seq (frames_records frs) 0" "lg_opts l = WalOptions_normalize (Some (walOpts ?o))"
    "f_stable (lg_f l) = frames_bytes frs @ b" "dk_content d3 log_path \<noteq> None"
    "\<forall>p. p \<noteq> log_path \<longrightarrow> dk_content d3 p = dk_content d2 p" by blast
  have st3: "store_ok ?js (dk_content d3) mf ess" by (rule store_ok_other [OF B(3)]) (use C(9) in simp)
  have F: "unat (st_LogSeq (mf_state mf)) \<le> u" "\<forall>r\<in>set (frames_records frs). unat (rc_Seq r) \<le> u"
    "fits_in u mf ess (frames_records frs)" using D(5) B(4,5) by (simp_all add: fits_in_def)
  let ?q = "if Manifest_LogSeq mf > Manifest_MaxSeqAmongFiles mf then Manifest_LogSeq mf else Manifest_MaxSeqAmongFiles mf"
  have "Manifest_MaxSeqAmongFiles mf \<le> Manifest_LogSeq mf"
    using st3 by (auto simp: Manifest_MaxSeqAmongFiles_def Manifest_LogSeq_def store_ok_def intro: max_seq_files)
  then have q: "?q = st_LogSeq (mf_state mf)" by (auto simp: Manifest_LogSeq_def)
  let ?l = "Log_SetNextSeq ?q l"
  have L: "log_abs frs ?l" "lg_f ?l = lg_f l" "lg_opts ?l = lg_opts l" "lg_nextSeq l \<le> lg_nextSeq ?l"
    "st_LogSeq (mf_state mf) \<le> lg_nextSeq ?l"
    "lg_nextSeq ?l = lg_nextSeq l \<or> lg_nextSeq ?l = st_LogSeq (mf_state mf)"
    using C(3) q by (auto simp: Log_SetNextSeq_def)
  have "lg_nextSeq l \<le> of_nat u" unfolding C(5) max_seq_le using F(2) u by (simp add: unat_le_of_nat)
  then have nu: "unat (lg_nextSeq ?l) \<le> u" using L(6) F(1) u by (auto simp: unat_le_of_nat)
  have "seqs_below frs ?l"
    unfolding seqs_below_def using max_seq_mem L(4) C(5) order_trans by (metis (no_types, lifting))
  then have lo: "log_open frs mf u ?l"
    using L(1,2,3,5) C(3-7) D(3) nu walOpts_name by (auto simp: log_open_def)
  have "list_all2 (\<lambda>f es. holds_table (dk_content d3) (fm_Name f) es) (Manifest_Files mf) ess"
    using store_ok_tables [OF st3] by (simp add: list_all2_map1)
  from DB_openTables_ok [OF this C(2), of "[]"] obtain ts d4 where
    T: "DB_openTables (Manifest_Files mf) [] d3 = (Inr ts, d4)" "list_all2 reader_of ess ts"
    "map Reader_Path ts = map fm_Name (st_Files (mf_state mf))" "dk_reliable d4" "dk_content d4 = dk_content d3" by auto
  let ?db = "\<lparr>db_dir = dir, db_opts = ?o, db_lock = lk, db_wal = ?l,
    db_mem = NewMemTable (wd_rnd wd) (of_int (do_MemtableBytes ?o)), db_manif = mf, db_tables = ts, db_closed = False\<rparr>"
  have W: "log_abs frs (db_wal ?db)" "f_reliable (lg_f (db_wal ?db))" "mt_rel (db_mem ?db) []"
    using L(1,2) C(4) NewMemTable_rel by simp_all
  from DB_replayWAL_ok [OF W] obtain m' Lm t where
    P: "DB_replayWAL ?db = Some (None, ?db\<lparr>db_mem := m', db_wal := ?l\<lparr>lg_f := (lg_f ?l)\<lparr>f_tick := t\<rparr>\<rparr>\<rparr>)"
    "mt_rel m' Lm" "mem_entries Lm = replayed (frames_records frs)" by auto
  let ?db' = "?db\<lparr>db_mem := m', db_wal := ?l\<lparr>lg_f := (lg_f ?l)\<lparr>f_tick := t\<rparr>\<rparr>\<rparr>"
  have op: "DB_Open wd dir opts d = Some (Inr ?db', d4)"
    using assms(2)
    by (simp add: DB_Open_def Let_def mk [simplified] A(1) [simplified] B(1) C(1) T(1) [simplified] P(1) [simplified]
        split del: if_split)
  have lo': "log_open frs mf u (?l\<lparr>lg_f := (lg_f ?l)\<lparr>f_tick := t\<rparr>\<rparr>)"
    using lo by (auto simp: log_open_def log_abs_def seqs_below_def durable_def)
  have "db_rel wd u M ?db' d4"
    by (rule db_relI [where L = Lm and frs = frs and ess = ess])
      (use T P(2,3) lo' st3 F(3) D(6) A(2) C(8) in simp_all)
  with op L(3) C(6) show ?thesis by auto
qed

section \<open>Closing and crashing\<close>

lemma reader_of_Close: "reader_of es r \<Longrightarrow> fst (Reader_Close r) = None"
  by (auto simp: reader_of_def reads_def Reader_Close_def f_close_def)

lemma close_tables_ok: "list_all2 reader_of ess ts \<Longrightarrow> \<exists>ts'. close_tables ts e = (e, ts')"
proof (induction ess ts arbitrary: e rule: list_all2_induct)
  case (Cons es ess t ts)
  then obtain t' where "Reader_Close t = (None, t')" using reader_of_Close by (metis prod.collapse)
  with Cons.IH [of e] show ?case by (auto simp: first_error_def)
qed simp

lemma Lock_Release_ok:
  assumes "lock_open lk" and "dk_reliable d"
  shows "\<exists>lk' d'. Lock_Release (Some lk) d = ((None, Some lk'), d') \<and> dk_reliable d' \<and>
    dk_content d' = (dk_content d)(defaultLockName := None)"
proof -
  from assms(1) obtain f where f: "lk_held lk" "lk_path lk = defaultLockName" "lk_f lk = Some f" "f_reliable f"
    by (auto simp: lock_open_def)
  from dk_Remove_reliable [OF assms(2), of defaultLockName] obtain r d' where
    r: "dk_Remove defaultLockName d = (r, d')" "dk_reliable d'" "dk_content d' = (dk_content d)(defaultLockName := None)"
    by blast
  then have "r = None \<or> r = Some os_ErrNotExist" using assms(2) by (auto simp: dk_Remove_def split: if_splits)
  with f r show ?thesis by (auto simp: Lock_Release_def f_close_def Let_def)
qed

lemma DB_close_rel:
  assumes wd: "world_ok wd" and rel: "db_rel wd u M db d" and u: "u + 1 < 2 ^ 31"
  shows "\<exists>db' d'. DB_Close wd db d = Some (None, db', d') \<and> db_closed db' \<and> dk_reliable d' \<and>
    dir_holds wd (u + 1) M (dk_content d') \<and> dk_content d' defaultLockName = None"
proof -
  let ?flush = "\<not> do_ReadOnly (db_opts db) \<and> MemTable_Len (db_mem db) > 0"
  let ?db = "db\<lparr>db_closed := True\<rparr>"
  have fr: "DB_flushLocked wd (x\<lparr>db_closed := True\<rparr>) y =
      map_option (\<lambda>(e, z, w). (e, z\<lparr>db_closed := True\<rparr>, w)) (DB_flushLocked wd x y)" for x y
    by (simp add: DB_flushLocked_def Let_def split: option.splits prod.splits sum.splits)
  have nc: "\<not> db_closed db" by (rule db_rel_log(1) [OF rel])
  obtain db1 d1 where F: "(if ?flush then DB_flushLocked wd ?db d else Some (None, ?db, d)) =
      Some (None, db1\<lparr>db_closed := True\<rparr>, d1)" "db_rel wd (u + 1) M db1 d1"
  proof (cases ?flush)
    case True
    with DB_flush_rel [OF wd rel u] that show ?thesis by (auto simp: fr)
  next
    case False
    with db_rel_mono [OF rel, of "u + 1"] that show ?thesis by auto
  qed
  from F(2) obtain ess L frs where R: "dk_reliable d1" "dk_content d1 log_path \<noteq> None" "\<not> db_closed db1"
    "lock_open (db_lock db1)" "mt_rel (db_mem db1) L" "mem_entries L = replayed (frames_records frs)"
    "list_all2 reader_of ess (db_tables db1)"
    "map Reader_Path (db_tables db1) = map fm_Name (st_Files (mf_state (db_manif db1)))"
    "store_ok (wd_codec wd) (dk_content d1) (db_manif db1) ess" "fits_in (u + 1) (db_manif db1) ess (frames_records frs)"
    "log_open frs (db_manif db1) (u + 1) (db_wal db1)" "M = view (table_entries ess @ [replayed (frames_records frs)])"
    by (rule db_relE)
  have l: "\<not> lg_closed (db_wal db1)" "f_reliable (lg_f (db_wal db1))" "f_data (lg_f (db_wal db1)) = frames_bytes frs"
    "wo_FileName (lg_opts (db_wal db1)) = log_path" "list_all frame_ok frs"
    using R(11) by (simp_all add: log_open_def log_abs_def)
  obtain l' d2 where C: "dk_wal_Close (db_wal db1) d1 = ((None, l'), d2)" "dk_reliable d2"
    "dk_content d2 = (dk_content d1)(log_path \<mapsto> frames_bytes frs)"
    using l R(1,2) by (simp add: dk_wal_Close_def Log_Close_def f_sync_def fun_eq_iff)
  from close_tables_ok [OF R(7)] obtain ts where T: "close_tables (db_tables db1) None = (None, ts)" by blast
  from Lock_Release_ok [OF R(4) C(2)] obtain lk d3 where K: "Lock_Release (Some (db_lock db1)) d2 = ((None, Some lk), d3)"
    "dk_reliable d3" "dk_content d3 = (dk_content d2)(defaultLockName := None)" by blast
  have cl: "DB_Close wd db d = Some (None, db1\<lparr>db_closed := True, db_wal := l', db_tables := ts, db_lock := lk\<rparr>, d3)"
    using nc F(1) C(1) T K(1)
    by (simp add: DB_Close_def DB_closeUnlocked_def Let_def first_error_def del: fun_upd_apply split: if_splits)
  have "store_ok (wd_codec wd) (dk_content d3) (db_manif db1) ess"
    by (rule store_ok_other [OF R(9)]) (simp add: K(3) C(3))
  moreover have "log_content (dk_content d3) = frames_bytes frs @ []" by (simp add: log_content_def K(3) C(3))
  ultimately have "dir_holds wd (u + 1) M (dk_content d3)"
    unfolding dir_holds_def shows_map_def using R(10,12) l(5) stops_torn [OF torn_Nil] by blast
  with cl K(2,3) show ?thesis by simp
qed

text \<open>
  The directory after a loss of power while the database is open: the log is as it was last synced,
  what was written to tables and manifest was synced before it counted, and the lock file is gone.
\<close>

definition db_crash :: "DB \<Rightarrow> disk \<Rightarrow> disk" where
  "db_crash db d =
     d\<lparr>dk_files := (dk_files d)(log_path \<mapsto> (f_stable (lg_f (db_wal db)), dk_clock d (dk_tick d)), defaultLockName := None)\<rparr>"

lemma db_crash_content:
  "dk_content (db_crash db d) = (dk_content d)(log_path \<mapsto> f_stable (lg_f (db_wal db)), defaultLockName := None)"
  by (simp add: db_crash_def dk_content_def fun_eq_iff)

lemma db_crash_rel:
  assumes rel: "db_rel wd u M db d" and "durable (db_wal db)"
  shows "dk_reliable (db_crash db d)" "dir_holds wd u M (dk_content (db_crash db d))"
    "dk_content (db_crash db d) defaultLockName = None"
proof -
  from rel obtain ess L frs where R: "dk_reliable d" "dk_content d log_path \<noteq> None" "\<not> db_closed db"
    "lock_open (db_lock db)" "mt_rel (db_mem db) L" "mem_entries L = replayed (frames_records frs)"
    "list_all2 reader_of ess (db_tables db)"
    "map Reader_Path (db_tables db) = map fm_Name (st_Files (mf_state (db_manif db)))"
    "store_ok (wd_codec wd) (dk_content d) (db_manif db) ess" "fits_in u (db_manif db) ess (frames_records frs)"
    "log_open frs (db_manif db) u (db_wal db)" "M = view (table_entries ess @ [replayed (frames_records frs)])"
    by (rule db_relE)
  from R(11) assms(2) obtain b where b: "stops b" "f_stable (lg_f (db_wal db)) = frames_bytes frs @ b" "list_all frame_ok frs"
    by (auto simp: log_open_def log_abs_def)
  have "store_ok (wd_codec wd) (dk_content (db_crash db d)) (db_manif db) ess"
    by (rule store_ok_other [OF R(9)]) (simp add: db_crash_content)
  moreover have "log_content (dk_content (db_crash db d)) = frames_bytes frs @ b"
    by (simp add: log_content_def db_crash_content b(2))
  ultimately show "dir_holds wd u M (dk_content (db_crash db d))"
    unfolding dir_holds_def shows_map_def using R(10,12) b(1,3) by blast
  show "dk_content (db_crash db d) defaultLockName = None" by (simp add: db_crash_content)
  show "dk_reliable (db_crash db d)" using R(1) by (simp add: db_crash_def)
qed

end
