(* ===== verification/Lsmkv_Iterator.thy ===== *)
theory Lsmkv_Iterator imports Lsmkv_Rel begin

text \<open>
  The database's iterator: its items are the visible keys in ascending order, each with its newest
  value, and the moves of the iterator walk along them.
\<close>

section \<open>Walking a table\<close>

lemma TIterator_blocks_path: "TIterator_blocks it r = (x, r') \<Longrightarrow> r_path r' = r_path r"
proof (induction it r arbitrary: x r' rule: TIterator_blocks.induct)
  case (1 it r)
  show ?case
  proof (cases "ti_bi it < int (length (r_index r))")
    case True
    obtain y r1 where rb: "Reader_readBlock (r_index r ! nat (ti_bi it)) r = (y, r1)" by (metis prod.exhaust)
    have p: "r_path r1 = r_path r" by (rule readBlock_path [OF rb])
    show ?thesis
    proof (cases y)
      case (Inl e)
      then show ?thesis using 1(2) True rb p by (subst (asm) TIterator_blocks.simps) (auto split: error.splits)
    next
      case (Inr block)
      show ?thesis
      proof (cases "newBlockIter block")
        case (Inl e)
        then show ?thesis using 1(2) True rb p Inr by (subst (asm) TIterator_blocks.simps) (auto split: error.splits)
      next
        case (Inr bit')
        show ?thesis
        proof (cases "bi_valid bit'")
          case True
          then show ?thesis using 1(2) \<open>ti_bi it < _\<close> rb p \<open>y = Inr block\<close> Inr
            by (subst (asm) TIterator_blocks.simps) (auto simp: Let_def)
        next
          case False
          have b: "TIterator_blocks (it\<lparr>ti_blockIt := Some bit'\<rparr>\<lparr>ti_bi := ti_bi (it\<lparr>ti_blockIt := Some bit'\<rparr>) + 1\<rparr>) r1 = (x, r')"
            using 1(2) True rb \<open>y = Inr block\<close> Inr False by (subst (asm) TIterator_blocks.simps) (simp add: Let_def)
          from 1(1) [OF True rb [symmetric] \<open>y = Inr block\<close> Inr refl False b] p show ?thesis by simp
        qed
      qed
    qed
  next
    case False
    then show ?thesis using 1(2) by (subst (asm) TIterator_blocks.simps) auto
  qed
qed

lemma TIterator_Next_path: "TIterator_Next it r = (x, r') \<Longrightarrow> r_path r' = r_path r"
  by (auto simp: TIterator_Next_def dest: TIterator_blocks_path split: if_splits sum.splits prod.splits)

lemma collect_table_at:
  assumes "ti_at ri bs n it r" and "table_ok bs"
  shows "\<exists>r'. collect_table (it, r) m = Some (Inr (fold cand_entry (map stored (drop n (concat bs))) m, r')) \<and>
    reads ri bs r' \<and> r_bloom r' = r_bloom r \<and> r_path r' = r_path r"
  using assms
proof (induction "length (concat bs) - n" arbitrary: n it r m)
  case 0
  then have "\<not> n < length (concat bs)" "\<not> TIterator_Valid it" using ti_at_Valid [OF 0(2)] by simp_all
  moreover have "reads ri bs r" using 0(2) by (simp add: ti_at_def)
  ultimately show ?case by (subst collect_table.simps) simp
next
  case (Suc k)
  have lt: "n < length (concat bs)" using Suc(2) by simp
  have v: "TIterator_Valid it" "TIterator_Entry it = stored (concat bs ! n)" using ti_at_entry [OF Suc(3) lt] by simp_all
  from TIterator_Next_at [OF Suc(3,4) lt] obtain it' r1 where
    n: "TIterator_Next it r = (Inr it', r1)" "ti_at ri bs (n + 1) it' r1" "r_bloom r1 = r_bloom r" by blast
  have k: "k = length (concat bs) - (n + 1)" using Suc(2) by simp
  have "collect_table (it, r) m = collect_table (it', r1) (cand_entry (stored (concat bs ! n)) m)"
    using v n(1) by (subst collect_table.simps) (simp add: ti_next_def)
  moreover have "drop n (concat bs) = concat bs ! n # drop (n + 1) (concat bs)"
    using lt by (simp add: Cons_nth_drop_Suc)
  ultimately show ?case
    using Suc(1) [OF k n(2) Suc(4), of "cand_entry (stored (concat bs ! n)) m"] n(3) TIterator_Next_path [OF n(1)] by simp
qed

lemma collect_tables_of:
  assumes "list_all2 reader_of ess ts"
  shows "\<exists>ts'. collect_tables ts m = Some (Inr (fold cand_entry (concat (table_entries ess)) m, ts')) \<and>
    list_all2 reader_of ess ts' \<and> map Reader_Path ts' = map Reader_Path ts"
  using assms
proof (induction ess ts arbitrary: m rule: list_all2_induct)
  case (Cons es ess t ts)
  from Cons.hyps(1) obtain ri bs where b: "concat bs = es" "table_ok bs" "reads ri bs t" "filter_ok (r_bloom t)"
    "\<forall>e\<in>set es. has_key (r_bloom t) (skey e)" by (auto simp: reader_of_def)
  from NewIterator_at [OF b(3,2)] obtain it t1 where
    n: "Reader_NewIterator t = (Inr it, t1)" "ti_at ri bs 0 it t1" "r_bloom t1 = r_bloom t" by blast
  have p: "r_path t1 = r_path t" using n(1) TIterator_Next_path unfolding Reader_NewIterator_def by blast
  from collect_table_at [OF n(2) b(2), of m] obtain t2 where
    c: "collect_table (it, t1) m = Some (Inr (fold cand_entry (map stored es) m, t2))" "reads ri bs t2"
    "r_bloom t2 = r_bloom t" "r_path t2 = r_path t" using b(1) n(3) p by auto
  have "reader_of es t2" unfolding reader_of_def using b c(2,3) by auto
  with Cons.IH [of "fold cand_entry (map stored es) m"] n(1) c(1,4) show ?case by (auto simp: Reader_Path_def)
qed simp

section \<open>The candidates\<close>

definition item_of :: "sst_Entry \<Rightarrow> iterItem" where
  "item_of e = \<lparr>ii_key = se_Key e, ii_value = se_Value e, ii_deleted = se_Deleted e, ii_seq = se_Seq e\<rparr>"

lemma item_of_simps [simp]:
  "ii_seq (item_of e) = se_Seq e" "ii_deleted (item_of e) = se_Deleted e" "ii_key (item_of e) = se_Key e"
  "ii_value (item_of e) = se_Value e"
  by (simp_all add: item_of_def)

text \<open>The best entry so far, as in the lookup.\<close>

lemma cand_entry_better:
  assumes "map_of m = (\<lambda>k. map_option item_of (best k))"
  shows "map_of (cand_entry e m) = (\<lambda>k. map_option item_of (if k = skey e then better (Some e) (best k) else best k))"
proof
  fix k
  have "map_of m k = map_option item_of (best k)" for k using assms by simp
  then show "map_of (cand_entry e m) k = map_option item_of (if k = skey e then better (Some e) (best k) else best k)"
    by (cases "best (skey e)")
      (auto simp: cand_entry_def cand_update_def better_def update_conv' item_of_def skey_def)
qed

lemma distinct_cand: "distinct (map fst m) \<Longrightarrow> distinct (map fst (cand_entry e m))"
  by (auto simp: cand_entry_def cand_update_def distinct_update split: option.splits)

lemma cand_fold:
  assumes "map_of m = (\<lambda>k. map_option item_of (best k))" and "distinct (map fst m)"
  shows "map_of (fold cand_entry es m) =
      (\<lambda>k. map_option item_of (fold better (map Some (filter (\<lambda>e. skey e = k) es)) (best k))) \<and>
    distinct (map fst (fold cand_entry es m))"
  using assms
proof (induction es arbitrary: m best)
  case (Cons e es)
  from Cons.IH [OF cand_entry_better [OF Cons.prems(1)] distinct_cand [OF Cons.prems(2)], of e]
  show ?case by (auto simp: fun_eq_iff)
qed simp

lemma better_all:
  assumes "one_version (set es)"
  shows "fold better (map Some (filter (\<lambda>e. skey e = k) es)) None = Some e \<longleftrightarrow> latest_of (set es) k e"
proof -
  let ?cs = "map Some (filter (\<lambda>e. skey e = k) es)"
  note B = fold_better [where cs = ?cs and best = None]
  show ?thesis
  proof (cases "fold better ?cs None")
    case None
    then have "\<forall>e\<in>set es. skey e \<noteq> k" using B by auto
    with None show ?thesis by (auto simp: latest_of_def)
  next
    case (Some x)
    then have "latest_of (set es) k x" using B by (auto simp: latest_of_def)
    with Some latest_unique [OF assms] show ?thesis by auto
  qed
qed

section \<open>The items\<close>

definition item_pair :: "iterItem \<Rightarrow> bytes \<times> bytes" where
  "item_pair it = (sbytes (ii_key it), sbytes (ii_value it))"

text \<open>The pairs list a map in ascending order of the keys.\<close>

definition lists_map :: "(bytes \<times> bytes) list \<Rightarrow> (bytes \<Rightarrow> bytes option) \<Rightarrow> bool" where
  "lists_map ps M = (sorted_wrt (\<lambda>a b. fst a < fst b) ps \<and> map_of ps = M)"

lemma sorted_distinct_strict: "sorted ks \<Longrightarrow> distinct ks \<Longrightarrow> sorted_wrt (<) ks" for ks :: "bytes list"
  by (simp add: strict_sorted_iff)

lemma visible_items_lists:
  assumes "map_of m = (\<lambda>k. map_option item_of (best k))" and "distinct (map fst m)"
    and "\<And>k e. best k = Some e \<Longrightarrow> skey e = k"
  shows "lists_map (map item_pair (visible_items m)) (\<lambda>k. visible (best k))"
proof -
  let ?vis = "filter (\<lambda>(k, c). \<not> ii_deleted c) m"
  let ?ks = "sort (map fst ?vis)"
  have dv: "distinct (map fst ?vis)" using assms(2) by (simp add: distinct_map_filter)
  then have ks: "sorted_wrt (<) ?ks" by (intro sorted_distinct_strict) simp_all
  have mem: "k \<in> set ?ks \<longleftrightarrow> (\<exists>e. best k = Some e \<and> \<not> se_Deleted e)" for k
  proof -
    have "k \<in> set ?ks \<longleftrightarrow> (\<exists>c. (k, c) \<in> set m \<and> \<not> ii_deleted c)" by force
    also have "\<dots> \<longleftrightarrow> (\<exists>c. map_of m k = Some c \<and> \<not> ii_deleted c)" using assms(2) by simp
    also have "\<dots> \<longleftrightarrow> (\<exists>e. best k = Some e \<and> \<not> se_Deleted e)" using assms(1) by auto
    finally show ?thesis .
  qed
  have pair: "item_pair ((the (map_of m k))\<lparr>ii_deleted := False\<rparr>) = (k, sval (the (best k)))" if "k \<in> set ?ks" for k
    using that mem assms(1,3) by (fastforce simp: item_pair_def skey_def sval_def)
  have ps: "map item_pair (visible_items m) = map (\<lambda>k. (k, sval (the (best k)))) ?ks"
    unfolding visible_items_def Let_def map_map by (rule map_cong [OF refl]) (use pair in simp)
  have "map_of (map (\<lambda>k. (k, sval (the (best k)))) ?ks) k = visible (best k)" for k
    using mem [of k] by (auto simp: map_of_map_restrict restrict_map_def visible_def split: option.splits)
  then show ?thesis using ks by (simp add: lists_map_def ps sorted_wrt_map fun_eq_iff)
qed

lemma DB_NewIterator_rel:
  assumes rel: "db_rel wd u M db d"
  shows "\<exists>it db'. DB_NewIterator db = Some (Inr it, db') \<and> di_idx it = -1 \<and>
    lists_map (map item_pair (di_items it)) M \<and> db_rel wd u M db' d"
proof -
  from rel obtain ess L frs where R: "dk_reliable d" "dk_content d log_path \<noteq> None" "\<not> db_closed db"
    "lock_open (db_lock db)" "mt_rel (db_mem db) L" "mem_entries L = replayed (frames_records frs)"
    "list_all2 reader_of ess (db_tables db)"
    "map Reader_Path (db_tables db) = map fm_Name (st_Files (mf_state (db_manif db)))"
    "store_ok (wd_codec wd) (dk_content d) (db_manif db) ess" "fits_in u (db_manif db) ess (frames_records frs)"
    "log_open frs (db_manif db) u (db_wal db)" "M = view (table_entries ess @ [replayed (frames_records frs)])"
    by (rule db_relE)
  let ?L = "replayed (frames_records frs)" and ?raw = "map to_sst L"
  let ?es = "?raw @ concat (table_entries ess)"
  have ok: "versions_ok (table_entries ess) ?L" using R(10) by (simp add: fits_in_def)
  have ml: "map stored ?raw = ?L" using R(6) by (simp add: mem_entries_def comp_def)
  have snap: "MemTable_Snapshot (db_mem db) = Some L" by (rule mt.snapshot_rel [OF R(5)])
  obtain ts where T: "collect_tables (db_tables db) (fold cand_entry ?raw []) =
      Some (Inr (fold cand_entry (concat (table_entries ess)) (fold cand_entry ?raw []), ts))"
    "list_all2 reader_of ess ts" "map Reader_Path ts = map Reader_Path (db_tables db)"
    using collect_tables_of [OF R(7)] by blast
  let ?m = "fold cand_entry ?es []"
  define best where "best k = fold better (map Some (filter (\<lambda>e. skey e = k) ?es)) None" for k
  have C: "map_of ?m = (\<lambda>k. map_option item_of (best k))" "distinct (map fst ?m)"
    using cand_fold [of "[]" "\<lambda>_. None" ?es] by (simp_all add: best_def del: fold_append)
  have "fold (\<lambda>e. cand_entry (to_sst e)) L [] = fold cand_entry ?raw []" by (simp add: fold_map comp_def)
  then have it: "DB_NewIterator db = Some (Inr \<lparr>di_items = visible_items ?m, di_idx = -1\<rparr>, db\<lparr>db_tables := ts\<rparr>)"
    using T(1) by (simp add: DB_NewIterator_def DB_collectMerged_def snap)
  have sk: "skey e = k" if "best k = Some e" for k e
    using fold_better [where cs = "map Some (filter (\<lambda>e. skey e = k) ?es)" and best = None] that
    by (auto simp: best_def simp del: fold_append map_append filter_append)
  have "map_option stored (best k) = lookup (table_entries ess @ [?L]) k" for k
  proof -
    let ?cs = "map Some (filter (\<lambda>e. skey e = k) ?es)"
    note B = fold_better [where cs = ?cs and best = None]
    have a: "stored ` set ?raw = set ?L" by (simp only: set_map [symmetric] ml)
    have b: "stored ` set (concat (table_entries ess)) = set (concat (table_entries ess))"
      by (simp add: image_UN image_image)
    have st: "stored ` set ?es = set (concat (table_entries ess @ [?L]))"
      unfolding set_append image_Un a b by auto
    show ?thesis
    proof (cases "best k")
      case None
      then have "\<forall>e\<in>set ?es. skey e \<noteq> k" using B by (auto simp: best_def simp del: fold_append map_append filter_append)
      then have "\<forall>e\<in>stored ` set ?es. skey e \<noteq> k" by auto
      then have "lookup (table_entries ess @ [?L]) k = None"
        using lookup_latest [OF versions_okD(1) [OF ok], of k] unfolding st latest_of_def by (meson not_Some_eq)
      with None show ?thesis by simp
    next
      case (Some e)
      then have "e \<in> set ?es" "skey e = k" "\<forall>x\<in>set ?es. skey x = k \<longrightarrow> se_Seq x \<le> se_Seq e"
        using B by (auto simp: best_def simp del: fold_append map_append filter_append)
      then have "latest_of (stored ` set ?es) k (stored e)" by (auto simp: latest_of_def)
      then have "lookup (table_entries ess @ [?L]) k = Some (stored e)"
        using lookup_latest [OF versions_okD(1) [OF ok]] unfolding st by blast
      with Some show ?thesis by simp
    qed
  qed
  moreover have "visible (map_option stored c) = visible c" for c
    by (simp add: visible_def split: option.splits)
  ultimately have M: "M = (\<lambda>k. visible (best k))" using R(12) by (metis (no_types, lifting) view_def ext)
  have "db_rel wd u M (db\<lparr>db_tables := ts\<rparr>) d"
    by (rule db_relI [where L = L and ess = ess and frs = frs]) (use R T(2,3) in simp_all)
  with it visible_items_lists [OF C sk] M show ?thesis by auto
qed

end
