(* ===== verification/Lsmkv_Correct.thy ===== *)
theory Lsmkv_Correct imports Lsmkv_Open Lsmkv_Iterator begin

text \<open>
  The database is a map: whatever is written, deleted, batched, flushed, compacted, closed, lost to
  a crash and opened again, every operation returns what it returns on a map from keys to values.
\<close>

section \<open>Sessions\<close>

datatype db_op =
    OpPut slice slice
  | OpDelete slice
  | OpWrite "BatchEntry list"
  | OpGet slice
  | OpHas slice
  | OpSync
  | OpFlush
  | OpCompact
  | OpReopen "DbOptions option"
  | OpCrash "DbOptions option"

datatype db_result = Done "error option" | Found "error + bytes" | Holds_key "error + bool"

definition finished :: "(error option \<times> DB \<times> disk) option \<Rightarrow> (db_result \<times> DB \<times> disk) option" where
  "finished r = (case r of None \<Rightarrow> None | Some (e, db, d) \<Rightarrow> Some (Done e, db, d))"

definition opened :: "((error + DB) \<times> disk) option \<Rightarrow> (db_result \<times> DB \<times> disk) option" where
  "opened r = (case r of Some (Inr db, d) \<Rightarrow> Some (Done None, db, d) | _ \<Rightarrow> None)"

fun db_step :: "world \<Rightarrow> string \<Rightarrow> db_op \<Rightarrow> DB \<Rightarrow> disk \<Rightarrow> (db_result \<times> DB \<times> disk) option" where
  "db_step wd dir (OpPut k v) db d = finished (DB_Put wd k v db d)"
| "db_step wd dir (OpDelete k) db d = finished (DB_Delete wd k db d)"
| "db_step wd dir (OpWrite es) db d = finished (DB_Write wd (Some \<lparr>wb_entries = es\<rparr>) db d)"
| "db_step wd dir (OpGet k) db d = map_option (\<lambda>(r, db). (Found (map_sum id sbytes r), db, d)) (DB_Get k db)"
| "db_step wd dir (OpHas k) db d = map_option (\<lambda>(r, db). (Holds_key r, db, d)) (DB_Has k db)"
| "db_step wd dir OpSync db d = (case DB_Sync db of (e, db) \<Rightarrow> Some (Done e, db, d))"
| "db_step wd dir OpFlush db d = finished (DB_Flush wd db d)"
| "db_step wd dir OpCompact db d = finished (DB_Compact wd db d)"
| "db_step wd dir (OpReopen o') db d =
     (case DB_Close wd db d of Some (None, db, d) \<Rightarrow> opened (DB_Open wd dir o' d) | _ \<Rightarrow> None)"
| "db_step wd dir (OpCrash o') db d = opened (DB_Open wd dir o' (db_crash db d))"

fun db_run :: "world \<Rightarrow> string \<Rightarrow> db_op list \<Rightarrow> DB \<Rightarrow> disk \<Rightarrow> (db_result list \<times> DB \<times> disk) option" where
  "db_run wd dir [] db d = Some ([], db, d)"
| "db_run wd dir (op # ops) db d =
     (case db_step wd dir op db d of
        None \<Rightarrow> None
      | Some (r, db, d) \<Rightarrow> map_option (\<lambda>(rs, s). (r # rs, s)) (db_run wd dir ops db d))"

definition db_session ::
  "world \<Rightarrow> string \<Rightarrow> DbOptions option \<Rightarrow> db_op list \<Rightarrow> disk \<Rightarrow> (db_result list \<times> DB \<times> disk) option" where
  "db_session wd dir opts ops d =
     (case DB_Open wd dir opts d of Some (Inr db, d) \<Rightarrow> db_run wd dir ops db d | _ \<Rightarrow> None)"

text \<open>The same operations on a map.\<close>

fun map_step :: "db_op \<Rightarrow> (bytes \<Rightarrow> bytes option) \<Rightarrow> db_result \<times> (bytes \<Rightarrow> bytes option)" where
  "map_step (OpPut k v) M = (Done None, M(sbytes k \<mapsto> sbytes v))"
| "map_step (OpDelete k) M = (Done None, M(sbytes k := None))"
| "map_step (OpWrite es) M = (Done None, fold batch_update es M)"
| "map_step (OpGet k) M = (Found (got (M (sbytes k))), M)"
| "map_step (OpHas k) M = (Holds_key (Inr (M (sbytes k) \<noteq> None)), M)"
| "map_step _ M = (Done None, M)"

fun map_run :: "db_op list \<Rightarrow> (bytes \<Rightarrow> bytes option) \<Rightarrow> db_result list \<times> (bytes \<Rightarrow> bytes option)" where
  "map_run [] M = ([], M)"
| "map_run (op # ops) M = (case map_step op M of (r, M) \<Rightarrow> case map_run ops M of (rs, M) \<Rightarrow> (r # rs, M))"

text \<open>
  The operations considered: keys that are not empty, records that fit a frame of the log, and
  databases opened for writing that sync every write.  The room an operation takes counts the bytes
  of its records, the numbers it uses and the file it may create.
\<close>

definition durable_opts :: "DbOptions option \<Rightarrow> bool" where
  "durable_opts o' =
     (do_SyncPolicy (DbOptions_normalize o') \<notin> {SyncBatch, SyncNone} \<and> \<not> do_ReadOnly (DbOptions_normalize o'))"

fun op_valid :: "db_op \<Rightarrow> bool" where
  "op_valid (OpPut k v) = (sbytes k \<noteq> [] \<and> length (sbytes k) + length (sbytes v) + 30 \<le> 2 ^ 28)"
| "op_valid (OpDelete k) = (sbytes k \<noteq> [] \<and> length (sbytes k) + 30 \<le> 2 ^ 28)"
| "op_valid (OpWrite es) = (list_all (\<lambda>e. sbytes (be_Key e) \<noteq> []) es \<and> batch_size es + 10 \<le> 2 ^ 28)"
| "op_valid (OpReopen o') = durable_opts o'"
| "op_valid (OpCrash o') = durable_opts o'"
| "op_valid _ = True"

fun op_room :: "db_op \<Rightarrow> nat" where
  "op_room (OpPut k v) = length (sbytes k) + length (sbytes v) + 65"
| "op_room (OpDelete k) = length (sbytes k) + 65"
| "op_room (OpWrite es) = batch_size es + 1"
| "op_room _ = 1"

section \<open>Refinement\<close>

definition ready :: "DB \<Rightarrow> bool" where
  "ready db = (\<not> do_ReadOnly (db_opts db) \<and> durable (db_wal db))"

lemma same_opts_ready: "same_opts db db' \<Longrightarrow> ready db' = ready db"
  by (simp add: same_opts_def ready_def durable_def)

lemma durable_opts_wal:
  "durable_opts o' \<Longrightarrow> lg_opts l = WalOptions_normalize (Some (walOpts (DbOptions_normalize o'))) \<Longrightarrow> durable l"
  by (simp add: durable_opts_def durable_def walOpts_def WalOptions_normalize_def)

lemma reopen_rel:
  assumes "world_ok wd" and "dir \<noteq> []" and "durable_opts o'" and "dir_holds wd u M (dk_content d)" and "dk_reliable d"
    and "dk_content d defaultLockName = None" and "u < 2 ^ 31"
  shows "\<exists>db d'. opened (DB_Open wd dir o' d) = Some (Done None, db, d') \<and> db_rel wd u M db d' \<and> ready db"
proof -
  from DB_Open_rel [OF assms(1,2,4,5,6,7), of o'] obtain db d' where
    o: "DB_Open wd dir o' d = Some (Inr db, d')" "db_rel wd u M db d'" "db_opts db = DbOptions_normalize o'"
    "lg_opts (db_wal db) = WalOptions_normalize (Some (walOpts (DbOptions_normalize o')))" by blast
  then have "ready db" using assms(3) durable_opts_wal [OF assms(3) o(4)] by (simp add: ready_def durable_opts_def)
  with o(1,2) show ?thesis by (simp add: opened_def)
qed

lemma DB_Has_rel:
  assumes "db_rel wd u M db d"
  shows "\<exists>db'. DB_Has key db = Some (Inr (M (sbytes key) \<noteq> None), db') \<and> db_rel wd u M db' d \<and> db_opts db' = db_opts db"
proof -
  from DB_Get_rel [OF assms, of key] obtain r db' where
    r: "DB_Get key db = Some (r, db')" "map_sum id sbytes r = got (M (sbytes key))" "db_rel wd u M db' d" "db_opts db' = db_opts db"
    by blast
  then show ?thesis by (cases r; cases "M (sbytes key)") (auto simp: DB_Has_def got_def)
qed

lemma DB_Get_wal: "DB_Get key db = Some (r, db') \<Longrightarrow> db_wal db' = db_wal db"
  by (auto simp: DB_Get_def split: if_splits option.splits prod.splits bool.splits)

lemma DB_Has_wal: "DB_Has key db = Some (r, db') \<Longrightarrow> db_wal db' = db_wal db"
  by (auto simp: DB_Has_def dest: DB_Get_wal split: option.splits prod.splits sum.splits)

lemma db_step_map:
  assumes wd: "world_ok wd" and dir: "dir \<noteq> []" and rel: "db_rel wd u M db d" and ready: "ready db"
    and ok: "op_valid op" and room: "u + op_room op < 2 ^ 31"
  shows "\<exists>db' d'. db_step wd dir op db d = Some (fst (map_step op M), db', d') \<and>
    db_rel wd (u + op_room op) (snd (map_step op M)) db' d' \<and> ready db'"
proof -
  have ro: "\<not> do_ReadOnly (db_opts db)" using ready by (simp add: ready_def)
  show ?thesis
  proof (cases op)
    case (OpPut k v)
    with DB_Put_rel [OF wd rel ro, of k v] ok room same_opts_ready ready show ?thesis by (fastforce simp: finished_def)
  next
    case (OpDelete k)
    with DB_Delete_rel [OF wd rel ro, of k] ok room same_opts_ready ready show ?thesis by (fastforce simp: finished_def)
  next
    case (OpWrite es)
    with DB_Write_rel [OF wd rel ro, of "\<lparr>wb_entries = es\<rparr>"] ok room same_opts_ready ready show ?thesis
      by (fastforce simp: finished_def list_all_iff)
  next
    case (OpGet k)
    with DB_Get_rel [OF rel, of k] db_rel_mono [of wd u M _ d "u + 1"] DB_Get_wal ready show ?thesis
      by (fastforce simp: ready_def)
  next
    case (OpHas k)
    with DB_Has_rel [OF rel, of k] db_rel_mono [of wd u M _ d "u + 1"] DB_Has_wal ready show ?thesis
      by (fastforce simp: ready_def)
  next
    case OpSync
    with DB_Sync_rel [OF rel] db_rel_mono [of wd u M _ d "u + 1"] same_opts_ready ready show ?thesis by fastforce
  next
    case OpFlush
    with DB_Flush_rel [OF wd rel ro] room same_opts_ready ready show ?thesis by (fastforce simp: finished_def)
  next
    case OpCompact
    with DB_Compact_rel [OF wd rel ro] room same_opts_ready ready show ?thesis by (fastforce simp: finished_def)
  next
    case (OpReopen o')
    then have u: "u + 1 < 2 ^ 31" and o': "durable_opts o'" using room ok by simp_all
    from DB_close_rel [OF wd rel u] obtain db1 d1 where
      c: "DB_Close wd db d = Some (None, db1, d1)" "dk_reliable d1" "dir_holds wd (u + 1) M (dk_content d1)"
      "dk_content d1 defaultLockName = None" by blast
    from reopen_rel [OF wd dir o' c(3,2,4) u] c(1) OpReopen show ?thesis by auto
  next
    case (OpCrash o')
    then have u: "u < 2 ^ 31" and o': "durable_opts o'" using room ok by simp_all
    have "durable (db_wal db)" using ready by (simp add: ready_def)
    note c = db_crash_rel [OF rel this]
    from reopen_rel [OF wd dir o' c(2,1,3) u] OpCrash db_rel_mono [of wd u M _ _ "u + 1"] show ?thesis by fastforce
  qed
qed

lemma db_run_map:
  assumes "world_ok wd" and "dir \<noteq> []" and "db_rel wd u M db d" and "ready db" and "list_all op_valid ops"
    and "u + sum_list (map op_room ops) < 2 ^ 31"
  shows "\<exists>db' d'. db_run wd dir ops db d = Some (fst (map_run ops M), db', d') \<and>
    db_rel wd (u + sum_list (map op_room ops)) (snd (map_run ops M)) db' d' \<and> ready db'"
  using assms(3-)
proof (induction ops arbitrary: u M db d)
  case (Cons op ops)
  have "op_valid op" "u + op_room op < 2 ^ 31" using Cons.prems(3,4) by simp_all
  from db_step_map [OF assms(1,2) Cons.prems(1,2) this] obtain db' d' where
    s: "db_step wd dir op db d = Some (fst (map_step op M), db', d')"
    "db_rel wd (u + op_room op) (snd (map_step op M)) db' d'" "ready db'" by blast
  have "list_all op_valid ops" "u + op_room op + sum_list (map op_room ops) < 2 ^ 31" using Cons.prems(3,4) by simp_all
  from Cons.IH [OF s(2,3) this] s(1) show ?case by (auto simp: split_beta add.assoc)
qed simp

lemma empty_dir: "dir_holds wd 1 Map.empty Map.empty"
proof -
  let ?m = "\<lparr>mf_dir = [], mf_path = [], mf_state = \<lparr>st_Version = 1, st_NextFile = 1, st_LogSeq = 0, st_Files = [], st_UpdatedAt = []\<rparr>\<rparr>"
  have "versions_ok [] []" by (simp add: versions_ok_def lists_ok_def keys_sorted_def one_version_def)
  moreover have "view [[]] = Map.empty" by (simp add: view_def lookup_def find_key_def visible_def fun_eq_iff)
  ultimately show ?thesis using stops_torn [OF torn_Nil]
    by (auto simp: dir_holds_def fits_in_def shows_map_def fresh_state_def log_content_def
        intro!: exI [of _ ?m] exI [of _ "[]"])
qed

text \<open>A session on an empty directory, within the room there is.\<close>

definition session_ok :: "world \<Rightarrow> string \<Rightarrow> DbOptions option \<Rightarrow> db_op list \<Rightarrow> disk \<Rightarrow> bool" where
  "session_ok wd dir opts ops d =
     (world_ok wd \<and> dir \<noteq> [] \<and> durable_opts opts \<and> dk_reliable d \<and> dk_content d = Map.empty \<and>
      list_all op_valid ops \<and> sum_list (map op_room ops) < 2 ^ 30)"

lemma session_rel_exact:
  assumes "session_ok wd dir opts ops d"
  shows "\<exists>db d'. db_session wd dir opts ops d = Some (fst (map_run ops Map.empty), db, d') \<and>
    db_rel wd (1 + sum_list (map op_room ops)) (snd (map_run ops Map.empty)) db d' \<and> ready db"
proof -
  have S: "world_ok wd" "dir \<noteq> []" "durable_opts opts" "dk_reliable d" "dk_content d = Map.empty" "list_all op_valid ops"
    "sum_list (map op_room ops) < 2 ^ 30" using assms by (simp_all add: session_ok_def)
  have "dir_holds wd 1 Map.empty (dk_content d)" "dk_content d defaultLockName = None" using S(5) empty_dir by simp_all
  from reopen_rel [OF S(1,2,3) this(1) S(4) this(2)] obtain db d1 where
    o: "opened (DB_Open wd dir opts d) = Some (Done None, db, d1)" "db_rel wd 1 Map.empty db d1" "ready db" by auto
  have "1 + sum_list (map op_room ops) < 2 ^ 31" using S(7) by simp
  from db_run_map [OF S(1,2) o(2,3) S(6) this] obtain db' d' where
    r: "db_run wd dir ops db d1 = Some (fst (map_run ops Map.empty), db', d')"
    "db_rel wd (1 + sum_list (map op_room ops)) (snd (map_run ops Map.empty)) db' d'" "ready db'" by blast
  have "DB_Open wd dir opts d = Some (Inr db, d1)"
    using o(1) by (auto simp: opened_def split: option.splits prod.splits sum.splits)
  with r show ?thesis by (auto simp: db_session_def)
qed

lemma session_rel:
  assumes "session_ok wd dir opts ops d"
  shows "\<exists>db d'. db_session wd dir opts ops d = Some (fst (map_run ops Map.empty), db, d') \<and>
    db_rel wd (2 ^ 30) (snd (map_run ops Map.empty)) db d' \<and> ready db"
proof -
  have "1 + sum_list (map op_room ops) \<le> 2 ^ 30" using assms by (simp add: session_ok_def)
  with session_rel_exact [OF assms] db_rel_mono show ?thesis by blast
qed

definition example_world :: world where
  "example_world = \<lparr>wd_process = example_process, wd_codec = example_codec, wd_sizing = example_sizing, wd_rnd = (\<lambda>i. i)\<rparr>"

lemma example_session:
  "list_all op_valid ops \<Longrightarrow> sum_list (map op_room ops) < 2 ^ 30 \<Longrightarrow> session_ok example_world ''/db'' None ops (disk_of [])"
  by (simp add: session_ok_def world_ok_def example_world_def example_codec_ok example_sizing_ok durable_opts_def
      DbOptions_normalize_def SyncFull_def SyncBatch_def SyncNone_def)



section \<open>Iterating after a session\<close>

text \<open>The keys and values an iterator gives from where it stands.\<close>

fun walk_items :: "nat \<Rightarrow> DbIterator \<Rightarrow> (bytes \<times> bytes) list" where
  "walk_items 0 it = []"
| "walk_items (Suc n) it =
     (if DbIterator_Valid it
      then (sbytes (DbIterator_Key it), sbytes (DbIterator_Value it)) # walk_items n (DbIterator_Next it) else [])"

lemma walk_items_from:
  assumes "di_idx it = int i" and "length (di_items it) \<le> n + i"
  shows "walk_items n it = map item_pair (drop i (di_items it))"
  using assms
proof (induction n arbitrary: i it)
  case (Suc n)
  show ?case
  proof (cases "i < length (di_items it)")
    case True
    then have v: "DbIterator_Valid it" using Suc.prems(1) by (simp add: DbIterator_Valid_def)
    have c: "drop i (di_items it) = di_items it ! i # drop (i + 1) (di_items it)" using True by (simp add: Cons_nth_drop_Suc)
    have kv: "(sbytes (DbIterator_Key it), sbytes (DbIterator_Value it)) = item_pair (di_items it ! i)"
      using v Suc.prems(1) by (simp add: DbIterator_Key_def DbIterator_Value_def item_pair_def)
    show ?thesis
    proof (cases "i + 1 < length (di_items it)")
      case True
      then have "DbIterator_Next it = it\<lparr>di_idx := int (i + 1)\<rparr>"
        using Suc.prems(1) by (simp add: DbIterator_Next_def Let_def)
      then show ?thesis using Suc.IH [of "it\<lparr>di_idx := int (i + 1)\<rparr>" "i + 1"] Suc.prems(2) v kv c by simp
    next
      case False
      then have "DbIterator_Next it = it\<lparr>di_idx := -1\<rparr>"
        using Suc.prems(1) by (simp add: DbIterator_Next_def Let_def)
      moreover have "walk_items n (it\<lparr>di_idx := -1\<rparr>) = []" by (cases n) (simp_all add: DbIterator_Valid_def)
      ultimately show ?thesis using v kv c False by simp
    qed
  qed (use Suc.prems(1) in \<open>simp add: DbIterator_Valid_def\<close>)
qed simp

lemma walk_SeekToFirst:
  "walk_items (length (di_items it)) (DbIterator_SeekToFirst it) = map item_pair (di_items it)"
proof (cases "di_items it = []")
  case False
  then show ?thesis using walk_items_from [of "DbIterator_SeekToFirst it" 0 "length (di_items it)"]
    by (simp add: DbIterator_SeekToFirst_def)
qed (simp add: DbIterator_SeekToFirst_def)

lemma drop_filter:
  assumes "\<forall>k<i. k < length xs \<longrightarrow> \<not> P (xs ! k)" and "\<forall>k\<ge>i. k < length xs \<longrightarrow> P (xs ! k)"
  shows "drop i xs = filter P xs"
proof -
  have "filter P (take i xs) = []" using assms(1) by (auto simp: filter_empty_conv in_set_conv_nth)
  moreover have "filter P (drop i xs) = drop i xs" using assms(2) by (auto simp: filter_id_conv in_set_conv_nth)
  ultimately show ?thesis by (metis append_take_drop_id filter_append append_Nil)
qed

lemma walk_Seek:
  assumes "sorted_wrt (\<lambda>a b. fst a < fst b) (map item_pair (di_items it))"
  shows "walk_items (length (di_items it)) (DbIterator_Seek t it) = filter (\<lambda>p. t \<le> fst p) (map item_pair (di_items it))"
proof -
  let ?n = "length (di_items it)" and ?f = "\<lambda>i. bytes_compare (sbytes (ii_key (di_items it ! i))) t \<ge> 0"
  let ?i = "sort_Search ?n ?f"
  have mono: "?f b" if "a \<le> b" "b < ?n" "?f a" for a b
  proof (cases "a = b")
    case False
    then have "fst (map item_pair (di_items it) ! a) < fst (map item_pair (di_items it) ! b)"
      using sorted_wrt_nth_less [OF assms, of a b] that by simp
    then show ?thesis using that by (simp add: item_pair_def order.strict_implies_order order_trans)
  qed (use that in simp)
  note S = sort_Search_first [where f = ?f and n = ?n, OF mono]
  have s1: "\<not> ?f k" if "k < ?i" for k by (rule S(2)) (use that in auto)
  have s2: "?f k" if "?i \<le> k" "k < ?n" for k by (rule S(3)) (use that in auto)
  have s3: "?i \<le> ?n" by (rule S(1)) auto
  have d: "drop ?i (map item_pair (di_items it)) = filter (\<lambda>p. t \<le> fst p) (map item_pair (di_items it))"
  proof (rule drop_filter; intro allI impI)
    fix k assume "k < ?i" "k < length (map item_pair (di_items it))"
    then show "\<not> t \<le> fst (map item_pair (di_items it) ! k)" using s1 [of k] by (simp add: item_pair_def)
  next
    fix k assume "?i \<le> k" "k < length (map item_pair (di_items it))"
    then show "t \<le> fst (map item_pair (di_items it) ! k)" using s2 [of k] by (simp add: item_pair_def)
  qed
  show ?thesis
  proof (cases "?i < ?n")
    case True
    then have "DbIterator_Seek t it = it\<lparr>di_idx := int ?i\<rparr>" by (simp add: DbIterator_Seek_def Let_def)
    then show ?thesis using walk_items_from [of "it\<lparr>di_idx := int ?i\<rparr>" ?i ?n] d by (simp add: drop_map)
  next
    case False
    then have "DbIterator_Seek t it = it\<lparr>di_idx := -1\<rparr>" by (simp add: DbIterator_Seek_def Let_def)
    moreover have "walk_items ?n (it\<lparr>di_idx := -1\<rparr>) = []" by (cases ?n) (simp_all add: DbIterator_Valid_def)
    ultimately show ?thesis using d False s3 by simp
  qed
qed



section \<open>A closed database\<close>



end
