(* ===== verification/Lsmkv_Total.thy ===== *)
theory Lsmkv_Total imports Lsmkv_Correct begin

text \<open>
  Every operation of the database returns, whatever the bytes of the directory's files are and whichever
  calls fail.  The loops over iterators end because an iterator that moves on has fewer blocks before it
  or, in the same block, fewer bytes; nothing is asked of the table it reads.
\<close>

section \<open>Iterators\<close>

definition ti_left :: "TIterator \<times> Reader \<Rightarrow> nat" where
  "ti_left s = nat (int (length (r_index (snd s))) - ti_bi (fst s))"

definition ti_bytes :: "TIterator \<times> Reader \<Rightarrow> nat" where
  "ti_bytes s = (case ti_blockIt (fst s) of None \<Rightarrow> 0 | Some b \<Rightarrow> nat (int (length (bi_data b)) - bi_off b))"

lemma TIterator_blocks_left:
  assumes "TIterator_blocks it r = (Inr it', r')"
  shows "r_index r' = r_index r \<and>
    (if ti_bi it < int (length (r_index r)) then ti_left (it', r') \<le> ti_left (it, r)
     else ti_bi it' = ti_bi it \<and> ti_blockIt it' = None)"
  using assms
proof (induction it r rule: TIterator_blocks.induct)
  case (1 it r)
  show ?case
  proof (cases "ti_bi it < int (length (r_index r))")
    case False
    with "1.prems" show ?thesis by (auto simp: TIterator_blocks.simps [of it r])
  next
    case True
    obtain x r1 where b: "Reader_readBlock (r_index r ! nat (ti_bi it)) r = (x, r1)" by fastforce
    have i: "r_index r1 = r_index r" by (rule readBlock_index [OF b, THEN conjunct1])
    show ?thesis
    proof (cases "\<exists>blk bit'. x = Inr blk \<and> newBlockIter blk = Inr bit' \<and> \<not> bi_valid bit'")
      case False
      with "1.prems" True b i show ?thesis
        by (auto simp: TIterator_blocks.simps [of it r] ti_left_def Let_def split: sum.splits error.splits if_splits)
    next
      case t: True
      then obtain blk bit' where n: "x = Inr blk" "newBlockIter blk = Inr bit'" "\<not> bi_valid bit'" by blast
      let ?it = "it\<lparr>ti_blockIt := Some bit', ti_bi := ti_bi it + 1\<rparr>"
      have e: "TIterator_blocks it r = TIterator_blocks ?it r1"
        by (subst TIterator_blocks.simps) (simp add: True b n Let_def)
      note IH = "1.IH" [OF True b [symmetric] n(1,2) refl n(3)]
      have "r_index r' = r_index r1 \<and>
        (if ti_bi ?it < int (length (r_index r1)) then ti_left (it', r') \<le> ti_left (?it, r1)
         else ti_bi it' = ti_bi ?it \<and> ti_blockIt it' = None)"
        using IH "1.prems" e by (auto simp: ti_left_def)
      with True i show ?thesis by (auto simp: ti_left_def split: if_splits)
    qed
  qed
qed

lemma ti_next_measure:
  assumes "ti_next s = Inr s'"
  shows "r_index (snd s') = r_index (snd s)"
    and "ti_left s' < ti_left s \<or> ti_left s' = ti_left s \<and> ti_bytes s' \<le> ti_bytes s"
    and "ti_valid s' \<Longrightarrow> ti_left s' < ti_left s \<or> ti_left s' = ti_left s \<and> ti_bytes s' < ti_bytes s"
proof -
  obtain it r where s: "s = (it, r)" by fastforce
  obtain it' r' where s': "s' = (it', r')" by fastforce
  from assms have N: "TIterator_Next it r = (Inr it', r')" by (auto simp: ti_next_def s s' split: prod.splits sum.splits)
  have main: "r_index r' = r_index r \<and>
    (ti_left s' < ti_left s \<or> ti_left s' = ti_left s \<and> (if ti_valid s' then ti_bytes s' < ti_bytes s else ti_bytes s' \<le> ti_bytes s))"
  proof (cases "ti_err it = None")
    case False
    with N show ?thesis by (auto simp: TIterator_Next_def s s' ti_valid_def TIterator_Valid_def)
  next
    case True
    have "(\<exists>b b'. ti_blockIt it = Some b \<and> blockIter_Next b = Inr b' \<and> bi_valid b' \<and>
        it' = it\<lparr>ti_blockIt := Some b'\<rparr> \<and> r' = r) \<or>
      (\<exists>it1. ti_bi it1 = ti_bi it + 1 \<and> TIterator_blocks it1 r = (Inr it', r'))"
      using N True by (force simp: TIterator_Next_def split: option.splits sum.splits if_splits)
    then consider b b' where "ti_blockIt it = Some b" "blockIter_Next b = Inr b'" "bi_valid b'"
        "it' = it\<lparr>ti_blockIt := Some b'\<rparr>" "r' = r"
      | it1 where "ti_bi it1 = ti_bi it + 1" "TIterator_blocks it1 r = (Inr it', r')" by blast
    then show ?thesis
    proof cases
      case 1
      from blockIter_Next_forward [OF 1(2)] 1 show ?thesis
        by (auto simp: s s' ti_left_def ti_bytes_def bi_forward_def)
    next
      case 2
      from TIterator_blocks_left [OF 2(2)] 2(1) show ?thesis
        by (auto simp: s s' ti_left_def ti_bytes_def ti_valid_def TIterator_Valid_def split: if_splits)
    qed
  qed
  then show "r_index (snd s') = r_index (snd s)"
    "ti_left s' < ti_left s \<or> ti_left s' = ti_left s \<and> ti_bytes s' \<le> ti_bytes s"
    "ti_valid s' \<Longrightarrow> ti_left s' < ti_left s \<or> ti_left s' = ti_left s \<and> ti_bytes s' < ti_bytes s"
    by (auto simp: s s' split: if_splits)
qed

lemma collect_table_returns: "\<exists>r. collect_table s m = Some r"
proof (induction s arbitrary: m rule: wf_induct_rule [OF wf_inv_image [OF wf_lex_prod [OF wf_less_than wf_less_than]],
    of "\<lambda>s. (ti_left s, ti_bytes s)"])
  case (1 s)
  show ?case
  proof (cases "\<exists>s'. TIterator_Valid (fst s) \<and> ti_next s = Inr s'")
    case False
    then show ?thesis by (subst collect_table.simps) (auto split: sum.splits)
  next
    case True
    then obtain s' where s': "TIterator_Valid (fst s)" "ti_next s = Inr s'" by blast
    have e: "collect_table s m = collect_table s' (cand_entry (TIterator_Entry (fst s)) m)"
      by (subst collect_table.simps) (simp add: s')
    show ?thesis
    proof (cases "ti_valid s'")
      case True
      with ti_next_measure(3) [OF s'(2)] have "(s', s) \<in> inv_image (less_than <*lex*> less_than) (\<lambda>s. (ti_left s, ti_bytes s))"
        by simp
      from "1.IH" [OF this] e show ?thesis by simp
    next
      case False
      then show ?thesis unfolding e by (subst collect_table.simps) (simp add: ti_valid_def)
    qed
  qed
qed

section \<open>Merging\<close>

lemma heap_Pop_perm:
  assumes "h \<noteq> []" and "heap_Pop lt h = (x, h')"
  shows "mset h = add_mset x (mset h')"
proof -
  let ?n = "length h - 1"
  let ?s = "swap_at 0 ?n h"
  let ?d = "heap_down lt 0 ?n ?s"
  have s: "mset ?s = mset h" using assms(1) by simp
  have "mset ?d = mset ?s \<and> length ?d = length ?s"
  proof (cases "?n = 0")
    case True
    then have "?d = ?s" by (subst heap_down.simps) simp
    then show ?thesis by simp
  next
    case False
    with heap_down_perm [of ?n ?s 0 lt] show ?thesis by simp
  qed
  with s have d: "mset ?d = mset h" "?d \<noteq> []" using assms(1) by (auto simp flip: length_greater_0_conv)
  have "x = last ?d" "h' = butlast ?d" using assms(2) by (auto simp: heap_Pop_def Let_def)
  with d append_butlast_last_id [OF d(2)] show ?thesis by (metis mset_append mset_single_iff_right add.commute add_mset_add_single mset.simps)
qed

lemma heap_Push_perm: "mset (heap_Push lt x h) = add_mset x (mset h)"
  using heap_up_perm [of "length h" "h @ [x]" lt] by (simp add: heap_Push_def)

definition items_in :: "mergeItem list \<Rightarrow> nat \<Rightarrow> bool" where
  "items_in h n = (\<forall>x\<in>set h. mi_idx x < n)"

lemma items_in_push: "items_in h n \<Longrightarrow> i < n \<Longrightarrow> items_in (merge_push i s h) n"
  using mset_eq_setD [OF heap_Push_perm [of mergeHeap_Less "make_item i s" h, folded mset.simps]]
  by (auto simp: items_in_def merge_push_def make_item_def)

lemma length_merge_push: "length (merge_push i s h) = (if ti_valid s then Suc (length h) else length h)"
  using mset_eq_length [OF heap_Push_perm [of mergeHeap_Less "make_item i s" h, folded mset.simps]]
  by (simp add: merge_push_def)

lemma merge_init_items:
  "merge_init i rs h iters = Inr (h', iters') \<Longrightarrow> i = length iters \<Longrightarrow> items_in h i \<Longrightarrow> items_in h' (length iters')"
proof (induction i rs h iters rule: merge_init.induct)
  case (2 i r rs h iters)
  then obtain it r' where n: "Reader_NewIterator r = (Inr it, r')" by (auto split: prod.splits sum.splits)
  have "items_in (merge_push i (it, r') h) (i + 1)"
    by (rule items_in_push) (use "2.prems"(3) in \<open>auto simp: items_in_def\<close>)
  from "2.IH" [OF n [symmetric] refl _ _ this] "2.prems" n show ?case by simp
qed simp

definition iters_left :: "(TIterator \<times> Reader) list \<Rightarrow> nat" where "iters_left its = sum_list (map ti_left its)"
definition iters_bytes :: "(TIterator \<times> Reader) list \<Rightarrow> nat" where "iters_bytes its = sum_list (map ti_bytes its)"

lemma iters_update:
  assumes "i < length its"
  shows "iters_left (its[i := s]) + ti_left (its ! i) = iters_left its + ti_left s"
    and "iters_bytes (its[i := s]) + ti_bytes (its ! i) = iters_bytes its + ti_bytes s"
  using assms elem_le_sum_list [of i "map ti_left its"] elem_le_sum_list [of i "map ti_bytes its"]
  by (simp_all add: iters_left_def iters_bytes_def map_update sum_list_update)

abbreviation merge_measure :: "merge_state \<Rightarrow> nat \<times> nat \<times> nat" where
  "merge_measure st \<equiv> (iters_left (mg_iters st), iters_bytes (mg_iters st), length (mg_heap st))"

lemma merge_advance_measure:
  assumes A: "merge_advance st = Inr (item, st')" and h: "mg_heap st \<noteq> []" and inn: "items_in (mg_heap st) (length (mg_iters st))"
  shows "(merge_measure st', merge_measure st) \<in> less_than <*lex*> less_than <*lex*> less_than"
    and "items_in (mg_heap st') (length (mg_iters st'))"
proof -
  obtain h1 where p: "heap_Pop mergeHeap_Less (mg_heap st) = (item, h1)"
    using A by (auto simp: merge_advance_def split: prod.splits sum.splits)
  then obtain s where s: "ti_next (mg_iters st ! mi_idx item) = Inr s"
    "st' = st\<lparr>mg_heap := merge_push (mi_idx item) s h1, mg_iters := (mg_iters st)[mi_idx item := s]\<rparr>"
    using A by (auto simp: merge_advance_def split: prod.splits sum.splits)
  note M = heap_Pop_perm [OF h p]
  have st: "set (mg_heap st) = insert item (set h1)" using arg_cong [OF M, of set_mset] by simp
  have len: "length (mg_heap st) = Suc (length h1)" using arg_cong [OF M, of size] by simp
  have i: "mi_idx item < length (mg_iters st)" "items_in h1 (length (mg_iters st))" using inn st by (auto simp: items_in_def)
  show "items_in (mg_heap st') (length (mg_iters st'))" using items_in_push [OF i(2,1)] s(2) by simp
  show "(merge_measure st', merge_measure st) \<in> less_than <*lex*> less_than <*lex*> less_than"
    using ti_next_measure(2,3) [OF s(1)] iters_update [OF i(1), of s] len s(2) length_merge_push [of "mi_idx item" s h1]
    by (cases "ti_valid s") auto
qed

lemma merge_emit_inputs:
  "merge_emit o' item st = (e, st') \<Longrightarrow> mg_heap st' = mg_heap st \<and> mg_iters st' = mg_iters st"
  by (auto simp: merge_emit_def Let_def split: if_splits prod.splits)

lemma merge_loop_returns: "items_in (mg_heap st) (length (mg_iters st)) \<Longrightarrow> \<exists>r. merge_loop o' st = Some r"
proof (induction st rule: wf_induct_rule [OF wf_inv_image [OF wf_lex_prod [OF wf_less_than wf_lex_prod [OF wf_less_than wf_less_than]]],
    of merge_measure])
  case (1 st)
  show ?case
  proof (cases "\<exists>item st1 st2. mg_heap st \<noteq> [] \<and> merge_advance st = Inr (item, st1) \<and> merge_emit o' item st1 = (None, st2)")
    case False
    then show ?thesis by (subst merge_loop.simps) (auto split: sum.splits prod.splits option.splits)
  next
    case True
    then obtain item st1 st2 where a: "mg_heap st \<noteq> []" "merge_advance st = Inr (item, st1)" "merge_emit o' item st1 = (None, st2)"
      by blast
    note D = merge_advance_measure [OF a(2,1) "1.prems"] and K = merge_emit_inputs [OF a(3)]
    have "(st2, st) \<in> inv_image (less_than <*lex*> less_than <*lex*> less_than) merge_measure"
      using D(1) K by simp
    from "1.IH" [OF this] D(2) K a show ?thesis by (subst merge_loop.simps) simp
  qed
qed

lemma MergeFiles_returns: "\<exists>r. MergeFiles sz ins out opts d = Some r"
proof -
  let ?o = "case opts of None \<Rightarrow> zero_CompactOptions | Some o' \<Rightarrow> o'"
  let ?st = "\<lambda>h its f. \<lparr>mg_heap = h, mg_iters = its, mg_w = sst_Create out (Some (merge_writer_opts ?o)) f,
    mg_kept = 0, mg_dropped = 0, mg_lastKey = None\<rparr>"
  have loop: "\<exists>e st. merge_loop ?o (?st h its f) = Some (e, st)"
    if "merge_init 0 rs (heap_Init mergeHeap_Less []) [] = Inr (h, its)" for rs h its f
    using merge_loop_returns [of "?st h its f" ?o] merge_init_items [OF that]
    by (auto simp: items_in_def heap_Init_def)
  obtain x d1 where o: "merge_open ins [] d = (x, d1)" by fastforce
  show ?thesis
  proof (cases "\<exists>rs h its f d2. x = Inr rs \<and> merge_init 0 rs (heap_Init mergeHeap_Less []) [] = Inr (h, its) \<and>
      dk_Create out d1 = (Inr f, d2)")
    case False
    then show ?thesis by (auto simp: MergeFiles_def Let_def o split: sum.splits prod.splits)
  next
    case True
    then obtain rs h its f d2 where x: "x = Inr rs" "merge_init 0 rs (heap_Init mergeHeap_Less []) [] = Inr (h, its)"
      "dk_Create out d1 = (Inr f, d2)" by blast
    from loop [OF x(2)] obtain e st where l: "merge_loop ?o (?st h its f) = Some (e, st)" by blast
    show ?thesis
    proof (cases "e = None \<or> e = Some Panic")
      case True
      then show ?thesis by (auto simp: MergeFiles_def Let_def o x l)
    next
      case False
      then obtain e' where "e = Some e'" "e' \<noteq> Panic" by (cases e) auto
      then show ?thesis by (cases e') (simp_all add: MergeFiles_def Let_def o x l)
    qed
  qed
qed

section \<open>Operations\<close>

text \<open>The memtable is well formed; nothing is said of the log, the tables and the directory.\<close>

definition mt_ok :: "MemTable \<Rightarrow> bool" where "mt_ok m = (\<exists>L. mt_rel m L)"
definition mem_ok :: "DB \<Rightarrow> bool" where "mem_ok db = mt_ok (db_mem db)"

lemma mt_ok_ops:
  assumes "mt_ok m"
  shows "\<exists>m'. MemTable_Put k v q m = Some m' \<and> mt_ok m'" "\<exists>m'. MemTable_Delete k q m = Some m' \<and> mt_ok m'"
    "\<exists>e. MemTable_Get k m = Some e" "\<exists>L. MemTable_Snapshot m = Some L" "mt_ok (MemTable_Clear m)"
proof -
  from assms obtain L where L: "mt_rel m L" by (auto simp: mt_ok_def)
  show "\<exists>m'. MemTable_Put k v q m = Some m' \<and> mt_ok m'" using mt.put_rel [OF L, of k v q] unfolding mt_ok_def by blast
  show "\<exists>m'. MemTable_Delete k q m = Some m' \<and> mt_ok m'" using mt.del_rel [OF L, of k q] unfolding mt_ok_def by blast
  show "\<exists>e. MemTable_Get k m = Some e" using mt.get_rel [OF L] by simp
  show "\<exists>L. MemTable_Snapshot m = Some L" using mt.snapshot_rel [OF L] by simp
  show "mt_ok (MemTable_Clear m)" using mt.clear_rel [OF L] by (auto simp: mt_ok_def)
qed

lemma mt_ok_steps:
  assumes "mt_ok m"
  shows "MemTable_Put k v q m \<noteq> None" "MemTable_Put k v q m = Some m' \<Longrightarrow> mt_ok m'"
    "MemTable_Delete k q m \<noteq> None" "MemTable_Delete k q m = Some m' \<Longrightarrow> mt_ok m'"
  using mt_ok_ops(1) [OF assms, of k v q] mt_ok_ops(2) [OF assms, of k q] by auto

lemma mem_ok_simps [simp]:
  "mem_ok (db\<lparr>db_wal := l\<rparr>) = mem_ok db" "mem_ok (db\<lparr>db_manif := m\<rparr>) = mem_ok db"
  "mem_ok (db\<lparr>db_tables := ts\<rparr>) = mem_ok db" "mem_ok (db\<lparr>db_closed := c\<rparr>) = mem_ok db"
  "mem_ok (db\<lparr>db_lock := lk\<rparr>) = mem_ok db"
  by (simp_all add: mem_ok_def)

definition returns :: "('a \<times> DB \<times> disk) option \<Rightarrow> bool" where
  "returns x = (\<exists>r db d. x = Some (r, db, d) \<and> mem_ok db)"

lemma returns_Some [simp]: "returns (Some (r, db, d)) = mem_ok db"
  by (auto simp: returns_def)

lemma mem_ok_mem [simp]: "mem_ok (db\<lparr>db_mem := m\<rparr>) = mt_ok m"
  by (simp add: mem_ok_def)

lemma flush_returns:
  assumes "mem_ok db"
  shows "returns (DB_flushLocked wd db d)"
proof -
  from assms mt_ok_ops(4,5) [of "db_mem db"] obtain L where
    L: "MemTable_Snapshot (db_mem db) = Some L" "mt_ok (MemTable_Clear (db_mem db))" by (auto simp: mem_ok_def)
  then show ?thesis
    by (simp add: DB_flushLocked_def L Let_def assms split: sum.split prod.split option.split)
qed

lemma maybeFlush_returns: "mem_ok db \<Longrightarrow> returns (DB_maybeFlush wd db d)"
  by (simp add: DB_maybeFlush_def flush_returns)

lemma Put_returns: "mem_ok db \<Longrightarrow> returns (DB_Put wd k v db d)"
  by (auto simp: DB_Put_def mem_ok_def dest: mt_ok_steps intro!: maybeFlush_returns split: prod.split option.split)

lemma Delete_returns: "mem_ok db \<Longrightarrow> returns (DB_Delete wd k db d)"
  by (auto simp: DB_Delete_def mem_ok_def dest: mt_ok_steps intro!: maybeFlush_returns split: prod.split option.split)

lemma write_loop_ok: "mt_ok m \<Longrightarrow> write_loop seq es m \<noteq> None \<and> (\<forall>m'. write_loop seq es m = Some m' \<longrightarrow> mt_ok m')"
proof (induction seq es m rule: write_loop.induct)
  case (2 seq e es m)
  let ?x = "if be_Deleted e then MemTable_Delete (be_Key e) seq m else MemTable_Put (be_Key e) (be_Value e) seq m"
  obtain m' where m': "?x = Some m'" using mt_ok_steps(1,3) [OF "2.prems"] by fastforce
  then have "mt_ok m'" using mt_ok_steps(2,4) [OF "2.prems"] by (auto split: if_splits)
  with "2.IH" [OF m' this] m' show ?case by simp
qed simp

lemma Write_returns:
  assumes ok: "mem_ok db"
  shows "returns (DB_Write wd b db d)"
proof (cases "b = None \<or> wb_entries (the b) = [] \<or> DB_writable db \<noteq> None")
  case True
  with ok show ?thesis by (auto simp: DB_Write_def split: option.splits)
next
  case False
  then obtain c where b: "b = Some c" "wb_entries c \<noteq> []" "DB_writable db = None" by auto
  obtain q e l where a: "Log_AppendBatch (wb_entries c) (db_wal db) = ((q, e), l)" by (metis prod.exhaust)
  obtain m where m: "write_loop (Log_NextSeq l - 1 - of_nat (length (wb_entries c)) + 1) (wb_entries c) (db_mem db) = Some m"
    "mt_ok m" using ok write_loop_ok [of "db_mem db"] unfolding mem_ok_def by blast
  show ?thesis
    using b a m(1) ok maybeFlush_returns [of "db\<lparr>db_wal := l, db_mem := m\<rparr>"] m(2)
    by (cases e) (simp_all add: DB_Write_def Let_def)
qed

lemma Flush_returns: "mem_ok db \<Longrightarrow> returns (DB_Flush wd db d)"
  by (simp add: DB_Flush_def flush_returns)

lemma Sync_ok: "DB_Sync db = (e, db') \<Longrightarrow> mem_ok db \<Longrightarrow> mem_ok db'"
  by (auto simp: DB_Sync_def split: if_splits prod.splits)

lemma Get_ok: "mem_ok db \<Longrightarrow> \<exists>r db'. DB_Get k db = Some (r, db') \<and> mem_ok db'"
  using mt_ok_ops(3) [of "db_mem db" k]
  by (auto simp: DB_Get_def mem_ok_def split: prod.split bool.split)

lemma Has_ok: "mem_ok db \<Longrightarrow> \<exists>r db'. DB_Has k db = Some (r, db') \<and> mem_ok db'"
  using Get_ok [of db k] by (auto simp: DB_Has_def split: sum.split)

lemma install_ok: "DB_install wd res db d = (e, db', d') \<Longrightarrow> mem_ok db \<Longrightarrow> mem_ok db'"
  by (auto simp: DB_install_def Let_def split: prod.splits sum.splits option.splits)

lemma CompactDir_returns: "CompactDir sz fs alloc opts m \<noteq> None"
proof -
  have "(case MergeFiles sz ins name opts d of
      None \<Rightarrow> None
    | Some (Inl Panic, d) \<Rightarrow> Some (Inl Panic, (mf, d))
    | Some (Inl e, d) \<Rightarrow> Some (Inl e, (mf, snd (dk_Remove name d)))
    | Some (Inr res, d) \<Rightarrow> Some (Inr res, (mf, d))) \<noteq> None" for ins name d and mf :: 'a
  proof -
    obtain x d' where "MergeFiles sz ins name opts d = Some (x, d')" using MergeFiles_returns by fast
    then show ?thesis by (auto split: sum.splits error.splits)
  qed
  then show ?thesis by (auto simp: CompactDir_def Let_def split: sum.split prod.split)
qed

lemma Compact_returns:
  assumes "mem_ok db"
  shows "returns (DB_Compact wd db d)"
proof -
  have "returns (Some (DB_install wd res (db\<lparr>db_manif := mf\<rparr>) d'))" for res mf d'
    using install_ok [of wd res "db\<lparr>db_manif := mf\<rparr>" d'] assms by (cases "DB_install wd res (db\<lparr>db_manif := mf\<rparr>) d'") auto
  moreover obtain r mf d' where "CompactDir (wd_sizing wd) (compact_refs (Manifest_Files (db_manif db)) (db_tables db))
      (db_alloc (wd_codec wd)) (Some \<lparr>co_DropTombstones = False, co_OutputLevel = 0, co_BlockSize = 0\<rparr>) (db_manif db, d) =
      Some (r, (mf, d'))"
    using CompactDir_returns by (metis not_None_eq prod.exhaust)
  ultimately show ?thesis using assms by (cases r) (simp_all add: DB_Compact_def)
qed

lemma collect_tables_return: "collect_tables ts m \<noteq> None"
proof (induction ts arbitrary: m)
  case (Cons t ts)
  obtain x t1 where n: "Reader_NewIterator t = (x, t1)" by fastforce
  show ?case
  proof (cases x)
    case (Inr it)
    obtain r where c: "collect_table (it, t1) m = Some r" using collect_table_returns by blast
    show ?thesis
    proof (cases r)
      case (Inr s)
      then show ?thesis using n \<open>x = Inr it\<close> c Cons.IH [of "fst s"] by (auto split: prod.split sum.split)
    qed (use n Inr c in simp)
  qed (use n in simp)
qed simp

lemma NewIterator_returns:
  assumes "mem_ok db"
  shows "\<exists>r. DB_NewIterator db = Some r"
proof -
  from assms mt_ok_ops(4) [of "db_mem db"] obtain L where L: "MemTable_Snapshot (db_mem db) = Some L" by (auto simp: mem_ok_def)
  obtain r where "collect_tables (db_tables db) (fold (\<lambda>e. cand_entry (to_sst e)) L []) = Some r"
    using collect_tables_return by blast
  with L show ?thesis by (auto simp: DB_NewIterator_def DB_collectMerged_def split: sum.split)
qed

lemma Close_returns: "mem_ok db \<Longrightarrow> returns (DB_Close wd db d)"
proof -
  assume ok: "mem_ok db"
  have "returns (if \<not> do_ReadOnly (db_opts db) \<and> MemTable_Len (db_mem db) > 0
    then DB_flushLocked wd (db\<lparr>db_closed := True\<rparr>) d else Some (None, db\<lparr>db_closed := True\<rparr>, d))"
    using ok flush_returns by simp
  then show ?thesis using ok
    by (auto simp: DB_Close_def DB_closeUnlocked_def Let_def returns_def split: prod.split)
qed

section \<open>Opening\<close>

text \<open>A property that the replay's callback keeps is kept by the replay of any file.\<close>

lemma replay_records_keep:
  assumes "\<And>r s. P s \<Longrightarrow> P (snd (fn r s))" and "P s"
  shows "P (snd (replay_records fn rs s))"
  using assms(2)
proof (induction rs arbitrary: s)
  case (Cons r rs)
  obtain e s1 where f: "fn r s = (e, s1)" by fastforce
  with assms(1) [OF Cons.prems, of r] Cons.IH [of s1] show ?case by (cases e) simp_all
qed simp

lemma Replay_loop_keeps:
  assumes fn: "\<And>r s. P s \<Longrightarrow> P (snd (fn r s))"
  shows "P s \<Longrightarrow> Replay_loop fn n off s f = ((e, s'), f') \<Longrightarrow> P s'"
proof (induction "n - off" arbitrary: off s f rule: less_induct)
  case less
  obtain x f1 where h: "f_readAt headerSize off f = (x, f1)" by fastforce
  note eq = less.prems(2) [unfolded Replay_loop.simps [of fn n off s f]]
  show ?case
  proof (cases "off + headerSize \<le> n \<and> (\<exists>hdr. x = Inr hdr)")
    case False
    with eq h less.prems(1) show ?thesis by (auto split: if_splits sum.splits)
  next
    case True
    then obtain hdr where x: "off + headerSize \<le> n" "x = Inr hdr" by blast
    obtain plen ty want where hd: "frame_header hdr = (plen, ty, want)" by (metis prod.exhaust)
    obtain y f2 where p: "read_payload plen (off + headerSize) f1 = (y, f2)" by fastforce
    show ?thesis
    proof (cases "\<exists>b recs. off + headerSize + plen \<le> n \<and> y = Inr b \<and> FrameChecksum ty b = want \<and> decodeFrame ty b = Inr recs")
      case False
      with eq h x hd p less.prems(1) show ?thesis by (auto split: if_splits sum.splits)
    next
      case True
      then obtain b recs where y: "off + headerSize + plen \<le> n" "y = Inr b" "FrameChecksum ty b = want"
        "decodeFrame ty b = Inr recs" by blast
      obtain e1 s1 where r: "replay_records fn recs s = (e1, s1)" by fastforce
      have s1: "P s1" using replay_records_keep [of P fn, OF fn less.prems(1), of recs] r by simp
      have "(case e1 of Some e \<Rightarrow> ((Some e, s1), f2) | None \<Rightarrow> Replay_loop fn n (off + headerSize + plen) s1 f2) = ((e, s'), f')"
        using eq x y by (simp add: h hd p r split: option.splits)
      moreover have "n - (off + headerSize + plen) < n - off" using x(1) by (simp add: headerSize_def)
      ultimately show ?thesis using less.hyps [of "off + headerSize + plen" s1 f2] s1 by (cases e1) simp_all
    qed
  qed
qed

lemma Log_Replay_keeps:
  assumes "\<And>r s. P s \<Longrightarrow> P (snd (fn r s))" and "P s" and "Log_Replay fn s l = ((e, s'), l')"
  shows "P s'"
  using assms(3) Replay_loop_keeps [of P fn, OF assms(1,2)] assms(2)
  by (auto simp: Log_Replay_def split: if_splits prod.splits option.splits)

lemma replayWAL_returns:
  assumes "mem_ok db"
  shows "\<exists>e db'. DB_replayWAL db = Some (e, db') \<and> mem_ok db'"
proof -
  let ?P = "\<lambda>s. \<exists>m. s = Some m \<and> mt_ok m"
  have fn: "?P (snd (replay_record r s))" if P: "?P s" for r s
  proof -
    from P obtain m where m: "s = Some m" "mt_ok m" by blast
    with mt_ok_ops(1) [OF m(2), of "rc_Key r" "append_nil (rc_Value r)" "rc_Seq r"]
      mt_ok_ops(2) [OF m(2), of "rc_Key r" "rc_Seq r"] show ?thesis by (simp add: replay_record_def)
  qed
  obtain e s' l' where R: "Log_Replay replay_record (Some (db_mem db)) (db_wal db) = ((e, s'), l')" by (metis prod.exhaust)
  have "?P (Some (db_mem db))" using assms by (simp add: mem_ok_def)
  from Log_Replay_keeps [of ?P replay_record, OF fn this R] obtain m where "s' = Some m" "mt_ok m" by blast
  with R show ?thesis by (simp add: DB_replayWAL_def)
qed

lemma Acquire_None_returns: "Acquire pr dir None d \<noteq> None"
  by (auto simp: Acquire_def LockOptions_normalize_def Let_def split: prod.split option.split)

text \<open>Any operation but those that open a directory again.\<close>

fun op_plain :: "db_op \<Rightarrow> bool" where
  "op_plain (OpReopen o') = False"
| "op_plain (OpCrash o') = False"
| "op_plain _ = True"

lemma finished_returns [simp]: "returns x \<Longrightarrow> returns (finished x)"
  by (auto simp: finished_def returns_def)

lemma db_step_returns:
  assumes "op_plain op" and ok: "mem_ok db"
  shows "returns (db_step wd dir op db d)"
proof (cases op)
  case (OpGet k)
  with Get_ok [OF ok, of k] show ?thesis by auto
next
  case (OpHas k)
  with Has_ok [OF ok, of k] show ?thesis by auto
next
  case OpSync
  with Sync_ok [OF _ ok] show ?thesis by (auto split: prod.split)
qed (use assms in \<open>simp_all add: Put_returns Delete_returns Write_returns Flush_returns Compact_returns\<close>)

lemma db_run_returns:
  "list_all op_plain ops \<Longrightarrow> mem_ok db \<Longrightarrow>
    \<exists>rs db' d'. db_run wd dir ops db d = Some (rs, db', d') \<and> length rs = length ops \<and> mem_ok db'"
proof (induction ops arbitrary: db d)
  case (Cons op ops)
  then have "returns (db_step wd dir op db d)" by (simp add: db_step_returns)
  then obtain r db1 d1 where s: "db_step wd dir op db d = Some (r, db1, d1)" "mem_ok db1" by (auto simp: returns_def)
  from Cons.IH [OF _ s(2), of d1] Cons.prems(1) s(1) show ?case by auto
qed simp

lemma new_mem_ok: "mt_ok (NewMemTable rnd n)"
  unfolding mt_ok_def by (rule exI [of _ "[]"]) (rule NewMemTable_rel)

lemma DB_Open_returns: "\<exists>r d1. DB_Open wd dir opts d = Some (r, d1) \<and> (\<forall>db. r = Inr db \<longrightarrow> mem_ok db)"
proof -
  let ?o = "DbOptions_normalize opts"
  obtain e d1 where 1: "dk_MkdirAll dir d = (e, d1)" by fastforce
  obtain x d2 where 2: "Acquire (wd_process wd) dir None d1 = Some (x, d2)"
    using Acquire_None_returns [of "wd_process wd" dir d1] by auto
  show ?thesis
  proof (cases "dir \<noteq> [] \<and> e = None \<and> (\<exists>lk. x = Inr lk)")
    case False
    with 1 2 show ?thesis by (cases e; cases x) (auto simp: DB_Open_def Let_def)
  next
    case True
    then obtain lk where T: "dir \<noteq> []" "e = None" "x = Inr lk" by blast
    obtain y d3 where 3: "Manifest_Open (wd_codec wd) dir d2 = (y, d3)" by fastforce
    obtain z d4 where 4: "dk_wal_Open dir (walOpts ?o) d3 = (z, d4)" by fastforce
    show ?thesis
    proof (cases "(\<exists>mf. y = Inr mf) \<and> (\<exists>w. z = Inr w)")
      case False
      with 1 2 3 4 T show ?thesis by (cases y; cases z) (auto simp: DB_Open_def Let_def)
    next
      case True
      then obtain mf w where U: "y = Inr mf" "z = Inr w" by blast
      obtain ts d5 where 5: "DB_openTables (Manifest_Files mf) [] d4 = (ts, d5)" by fastforce
      let ?m = "if Manifest_LogSeq mf > Manifest_MaxSeqAmongFiles mf then Manifest_LogSeq mf else Manifest_MaxSeqAmongFiles mf"
      let ?db = "\<lambda>ts. \<lparr>db_dir = dir, db_opts = ?o, db_lock = lk, db_wal = Log_SetNextSeq ?m w,
        db_mem = NewMemTable (wd_rnd wd) (of_int (do_MemtableBytes ?o)), db_manif = mf, db_tables = ts, db_closed = False\<rparr>"
      note S = DB_Open_def Let_def 1 2 3 4 5 [simplified] T U
      show ?thesis
      proof (cases ts)
        case (Inl e)
        obtain c d6 where "dk_wal_Close (Log_SetNextSeq ?m w) d5 = (c, d6)" by fastforce
        with Inl show ?thesis by (simp add: S split del: if_split)
      next
        case (Inr rs)
        have "mem_ok (?db rs)" by (simp add: mem_ok_def new_mem_ok)
        from replayWAL_returns [OF this] obtain e db' where R: "DB_replayWAL (?db rs) = Some (e, db')" "mem_ok db'" by blast
        show ?thesis
        proof (cases e)
          case None
          with R Inr show ?thesis by (simp add: S)
        next
          case (Some e')
          from Close_returns [OF R(2), of wd d5] obtain q db2 d6 where "DB_closeUnlocked wd db' d5 = Some (q, db2, d6)"
            by (auto simp: returns_def DB_Close_def)
          with R Inr Some show ?thesis by (simp add: S)
        qed
      qed
    qed
  qed
qed

section \<open>Properties\<close>



end
