(* ===== verification/Lsmkv_Threads.thy ===== *)
theory Lsmkv_Threads imports Lsmkv_Total begin

text \<open>
  Goroutines that share a database.  Every public operation of \<^verbatim>\<open>db.go\<close> takes \<^verbatim>\<open>db.mu\<close>, a
  \<^verbatim>\<open>sync.RWMutex\<close>: the reading ones shared, the others exclusively.  Here an operation is made in the
  steps of its body (the append to the log, the memtable entry by entry, the flush; for a lookup the
  memtable and then table by table), and the steps of all goroutines interleave as the lock allows.  An
  iterator keeps the read lock from \<^verbatim>\<open>NewIterator\<close> until its \<^verbatim>\<open>Close\<close>.
\<close>

section \<open>The steps of one operation\<close>

text \<open>What is left to do of an operation once its lock is held.\<close>

datatype task =
    Start db_op
  | Put_mem slice slice u64
  | Delete_mem slice u64
  | Write_mem u64 "BatchEntry list"
  | Fill
  | Ask bool slice nat "sst_Entry option"
  | Ended db_result

definition get_result :: "bool \<Rightarrow> error + slice \<Rightarrow> db_result" where
  "get_result has r =
     (if has
      then Holds_key (case r of Inl e \<Rightarrow> if e = lsmkv_ErrNotFound then Inr False else Inl e | Inr _ \<Rightarrow> Inr True)
      else Found (map_sum id sbytes r))"

definition best_result :: "sst_Entry option \<Rightarrow> error + slice" where
  "best_result best =
     (case best of
        None \<Rightarrow> Inl lsmkv_ErrNotFound
      | Some b \<Rightarrow> if se_Deleted b then Inl lsmkv_ErrNotFound else Inr (Clone (se_Value b)))"

definition start_get :: "bool \<Rightarrow> slice \<Rightarrow> DB \<Rightarrow> task option" where
  "start_get has key db =
     (if db_closed db then Some (Ended (get_result has (Inl lsmkv_ErrClosed)))
      else
        (case MemTable_Get key (db_mem db) of
           None \<Rightarrow> None
         | Some (e, True) \<Rightarrow>
             Some (Ended (get_result has (if e_Deleted e then Inl lsmkv_ErrNotFound else Inr (Clone (e_Value e)))))
         | Some (_, False) \<Rightarrow> Some (Ask has key (length (db_tables db)) None)))"

fun task_step :: "world \<Rightarrow> task \<Rightarrow> DB \<Rightarrow> disk \<Rightarrow> (task \<times> DB \<times> disk) option" where
  "task_step wd (Start (OpPut k v)) db d =
     (if DB_writable db \<noteq> None then Some (Ended (Done (DB_writable db)), db, d)
      else
        (case Log_AppendPut (sbytes k) (sbytes v) (db_wal db) of
           ((_, Some e), l) \<Rightarrow> Some (Ended (Done (Some e)), db\<lparr>db_wal := l\<rparr>, d)
         | ((seq, None), l) \<Rightarrow> Some (Put_mem k v seq, db\<lparr>db_wal := l\<rparr>, d)))"
| "task_step wd (Put_mem k v seq) db d =
     (case MemTable_Put k v seq (db_mem db) of None \<Rightarrow> None | Some m \<Rightarrow> Some (Fill, db\<lparr>db_mem := m\<rparr>, d))"
| "task_step wd (Start (OpDelete k)) db d =
     (if DB_writable db \<noteq> None then Some (Ended (Done (DB_writable db)), db, d)
      else
        (case Log_AppendDelete (sbytes k) (db_wal db) of
           ((_, Some e), l) \<Rightarrow> Some (Ended (Done (Some e)), db\<lparr>db_wal := l\<rparr>, d)
         | ((seq, None), l) \<Rightarrow> Some (Delete_mem k seq, db\<lparr>db_wal := l\<rparr>, d)))"
| "task_step wd (Delete_mem k seq) db d =
     (case MemTable_Delete k seq (db_mem db) of None \<Rightarrow> None | Some m \<Rightarrow> Some (Fill, db\<lparr>db_mem := m\<rparr>, d))"
| "task_step wd (Start (OpWrite es)) db d =
     (if DB_writable db \<noteq> None then Some (Ended (Done (DB_writable db)), db, d)
      else
        (case Log_AppendBatch es (db_wal db) of
           ((_, Some e), l) \<Rightarrow> Some (Ended (Done (Some e)), db\<lparr>db_wal := l\<rparr>, d)
         | ((_, None), l) \<Rightarrow>
             (let last' = Log_NextSeq l - 1; first' = last' - of_nat (length es) + 1
              in Some (Write_mem first' es, db\<lparr>db_wal := l\<rparr>, d))))"
| "task_step wd (Write_mem seq []) db d = Some (Fill, db, d)"
| "task_step wd (Write_mem seq (e # es)) db d =
     (case (if be_Deleted e then MemTable_Delete (be_Key e) seq (db_mem db)
            else MemTable_Put (be_Key e) (be_Value e) seq (db_mem db)) of
        None \<Rightarrow> None
      | Some m \<Rightarrow> Some (Write_mem (seq + 1) es, db\<lparr>db_mem := m\<rparr>, d))"
| "task_step wd Fill db d =
     (case DB_maybeFlush wd db d of None \<Rightarrow> None | Some (e, db, d) \<Rightarrow> Some (Ended (Done e), db, d))"
| "task_step wd (Start OpSync) db d = (case DB_Sync db of (e, db) \<Rightarrow> Some (Ended (Done e), db, d))"
| "task_step wd (Start OpFlush) db d =
     (case DB_Flush wd db d of None \<Rightarrow> None | Some (e, db, d) \<Rightarrow> Some (Ended (Done e), db, d))"
| "task_step wd (Start OpCompact) db d =
     (case DB_Compact wd db d of None \<Rightarrow> None | Some (e, db, d) \<Rightarrow> Some (Ended (Done e), db, d))"
| "task_step wd (Start (OpGet k)) db d =
     (case start_get False k db of None \<Rightarrow> None | Some t \<Rightarrow> Some (t, db, d))"
| "task_step wd (Start (OpHas k)) db d =
     (case start_get True k db of None \<Rightarrow> None | Some t \<Rightarrow> Some (t, db, d))"
| "task_step wd (Ask has k 0 best) db d = Some (Ended (get_result has (best_result best)), db, d)"
| "task_step wd (Ask has k (Suc i) best) db d =
     (case Reader_Get (sbytes k) (db_tables db ! i) of
        (Inl e, t) \<Rightarrow> Some (Ended (get_result has (Inl e)), db\<lparr>db_tables := (db_tables db)[i := t]\<rparr>, d)
      | (Inr (e, ok), t) \<Rightarrow>
          Some (Ask has k i
              (if ok \<and> (case best of None \<Rightarrow> True | Some b \<Rightarrow> se_Seq e > se_Seq b) then Some e else best),
            db\<lparr>db_tables := (db_tables db)[i := t]\<rparr>, d))"
| "task_step wd _ db d = None"

text \<open>What the code answers before it asks for the lock.\<close>

fun refused :: "db_op \<Rightarrow> db_result option" where
  "refused (OpPut k v) = (if sbytes k = [] then Some (Done (Some lsmkv_ErrInvalid)) else None)"
| "refused (OpDelete k) = (if sbytes k = [] then Some (Done (Some lsmkv_ErrInvalid)) else None)"
| "refused (OpWrite es) = (if es = [] then Some (Done None) else None)"
| "refused _ = None"

fun shared_op :: "db_op \<Rightarrow> bool" where
  "shared_op (OpGet k) = True"
| "shared_op (OpHas k) = True"
| "shared_op _ = False"

section \<open>Goroutines and the lock\<close>

datatype call = Call db_op | Call_iterator

datatype goroutine =
    Idle
  | Queued call
  | Announced db_op
  | Running db_op task
  | Collecting

text \<open>
  A \<^verbatim>\<open>sync.RWMutex\<close> as documented: a writer that has called \<^verbatim>\<open>Lock\<close> keeps further readers out and
  gets in when the readers have left.  \<^verbatim>\<open>rw_readers\<close> says who they are, where the code counts them.
\<close>

record rwmutex =
  rw_writer :: "nat option"
  rw_readers :: "nat multiset"

record system =
  sy_db :: DB
  sy_disk :: disk
  sy_mu :: rwmutex
  sy_go :: "nat \<Rightarrow> goroutine"
  sy_iters :: "nat \<Rightarrow> DbIterator list"
  sy_hist :: "(nat \<times> db_op \<times> db_result) list"

definition new_system :: "DB \<Rightarrow> disk \<Rightarrow> system" where
  "new_system db d =
     \<lparr>sy_db = db, sy_disk = d, sy_mu = \<lparr>rw_writer = None, rw_readers = {#}\<rparr>, sy_go = (\<lambda>_. Idle),
      sy_iters = (\<lambda>_. []), sy_hist = []\<rparr>"

fun call_shared :: "call \<Rightarrow> bool" where
  "call_shared (Call op) = shared_op op"
| "call_shared Call_iterator = True"

fun inside :: "call \<Rightarrow> goroutine" where
  "inside (Call op) = Running op (Start op)"
| "inside Call_iterator = Collecting"

definition unlock :: "nat \<Rightarrow> db_op \<Rightarrow> rwmutex \<Rightarrow> rwmutex" where
  "unlock t op m = (if shared_op op then m\<lparr>rw_readers := rw_readers m - {#t#}\<rparr> else m\<lparr>rw_writer := None\<rparr>)"

text \<open>The steps that a client decides on: calling an operation, and closing an iterator.\<close>

inductive client_step :: "system \<Rightarrow> system \<Rightarrow> bool" where
  call: "sy_go s t = Idle \<Longrightarrow> op_plain op \<Longrightarrow> refused op = None \<Longrightarrow>
    client_step s (s\<lparr>sy_go := (sy_go s)(t := Queued (Call op))\<rparr>)"
| refuse: "sy_go s t = Idle \<Longrightarrow> refused op = Some r \<Longrightarrow>
    client_step s (s\<lparr>sy_hist := sy_hist s @ [(t, op, r)]\<rparr>)"
| call_iterator: "sy_go s t = Idle \<Longrightarrow> client_step s (s\<lparr>sy_go := (sy_go s)(t := Queued Call_iterator)\<rparr>)"
| close_iterator: "sy_go s t = Idle \<Longrightarrow> sy_iters s t = its @ it # its' \<Longrightarrow>
    client_step s (s\<lparr>sy_mu := (sy_mu s)\<lparr>rw_readers := rw_readers (sy_mu s) - {#t#}\<rparr>,
      sy_iters := (sy_iters s)(t := its @ its')\<rparr>)"

text \<open>The steps that calls make by themselves.\<close>

inductive inner_step :: "world \<Rightarrow> system \<Rightarrow> system \<Rightarrow> bool" for wd where
  rlock: "sy_go s t = Queued c \<Longrightarrow> call_shared c \<Longrightarrow> rw_writer (sy_mu s) = None \<Longrightarrow>
    inner_step wd s (s\<lparr>sy_mu := (sy_mu s)\<lparr>rw_readers := add_mset t (rw_readers (sy_mu s))\<rparr>,
      sy_go := (sy_go s)(t := inside c)\<rparr>)"
| announce: "sy_go s t = Queued (Call op) \<Longrightarrow> \<not> shared_op op \<Longrightarrow> rw_writer (sy_mu s) = None \<Longrightarrow>
    inner_step wd s (s\<lparr>sy_mu := (sy_mu s)\<lparr>rw_writer := Some t\<rparr>, sy_go := (sy_go s)(t := Announced op)\<rparr>)"
| lock: "sy_go s t = Announced op \<Longrightarrow> rw_readers (sy_mu s) = {#} \<Longrightarrow>
    inner_step wd s (s\<lparr>sy_go := (sy_go s)(t := Running op (Start op))\<rparr>)"
| run: "sy_go s t = Running op k \<Longrightarrow> task_step wd k (sy_db s) (sy_disk s) = Some (k', db, d) \<Longrightarrow>
    inner_step wd s (s\<lparr>sy_db := db, sy_disk := d, sy_go := (sy_go s)(t := Running op k')\<rparr>)"
| return: "sy_go s t = Running op (Ended r) \<Longrightarrow>
    inner_step wd s (s\<lparr>sy_mu := unlock t op (sy_mu s), sy_go := (sy_go s)(t := Idle),
      sy_hist := sy_hist s @ [(t, op, r)]\<rparr>)"
| collect: "sy_go s t = Collecting \<Longrightarrow> DB_NewIterator (sy_db s) = Some (Inr it, db) \<Longrightarrow>
    inner_step wd s (s\<lparr>sy_db := db, sy_go := (sy_go s)(t := Idle),
      sy_iters := (sy_iters s)(t := sy_iters s t @ [it])\<rparr>)"

definition go_step :: "world \<Rightarrow> system \<Rightarrow> system \<Rightarrow> bool" where
  "go_step wd s s' = (client_step s s' \<or> inner_step wd s s')"

abbreviation go_run :: "world \<Rightarrow> system \<Rightarrow> system \<Rightarrow> bool" where
  "go_run wd \<equiv> (go_step wd)\<^sup>*\<^sup>*"

definition hist_ops :: "system \<Rightarrow> db_op list" where
  "hist_ops s = map (\<lambda>(t, op, r). op) (sy_hist s)"

definition hist_results :: "system \<Rightarrow> db_result list" where
  "hist_results s = map (\<lambda>(t, op, r). r) (sy_hist s)"

section \<open>The small steps make the operation\<close>

text \<open>What a task comes to when it is run to its end.\<close>

fun finish :: "world \<Rightarrow> string \<Rightarrow> task \<Rightarrow> DB \<Rightarrow> disk \<Rightarrow> (db_result \<times> DB \<times> disk) option" where
  "finish wd dir (Start op) db d = db_step wd dir op db d"
| "finish wd dir (Put_mem k v seq) db d =
     (case MemTable_Put k v seq (db_mem db) of
        None \<Rightarrow> None | Some m \<Rightarrow> finished (DB_maybeFlush wd (db\<lparr>db_mem := m\<rparr>) d))"
| "finish wd dir (Delete_mem k seq) db d =
     (case MemTable_Delete k seq (db_mem db) of
        None \<Rightarrow> None | Some m \<Rightarrow> finished (DB_maybeFlush wd (db\<lparr>db_mem := m\<rparr>) d))"
| "finish wd dir (Write_mem seq es) db d =
     (case write_loop seq es (db_mem db) of
        None \<Rightarrow> None | Some m \<Rightarrow> finished (DB_maybeFlush wd (db\<lparr>db_mem := m\<rparr>) d))"
| "finish wd dir Fill db d = finished (DB_maybeFlush wd db d)"
| "finish wd dir (Ask has k i best) db d =
     (case get_loop i (sbytes k) best (db_tables db) of
        (r, ts) \<Rightarrow> Some (get_result has (case r of Inl e \<Rightarrow> Inl e | Inr best \<Rightarrow> best_result best), db\<lparr>db_tables := ts\<rparr>, d))"
| "finish wd dir (Ended r) db d = Some (r, db, d)"

lemma finish_get:
  assumes "start_get has k db = Some t"
  shows "finish wd dir t db d =
    (case DB_Get k db of None \<Rightarrow> None | Some (r, db) \<Rightarrow> Some (get_result has r, db, d))"
  using assms
  by (auto simp: start_get_def DB_Get_def best_result_def split: if_splits option.splits prod.splits bool.splits sum.splits)

lemma db_step_get:
  "db_step wd dir (OpGet k) db d = (case DB_Get k db of None \<Rightarrow> None | Some (r, db) \<Rightarrow> Some (get_result False r, db, d))"
  "db_step wd dir (OpHas k) db d = (case DB_Get k db of None \<Rightarrow> None | Some (r, db) \<Rightarrow> Some (get_result True r, db, d))"
  by (auto simp: get_result_def DB_Has_def split: option.splits prod.splits sum.splits)

lemma start_get_None: "start_get has k db = None \<longleftrightarrow> DB_Get k db = None"
  by (auto simp: start_get_def DB_Get_def split: option.splits prod.splits bool.splits)

text \<open>Each step keeps what the task comes to.\<close>

lemma task_step_finish:
  assumes "task_step wd k db d = Some (k', db', d')" and "\<And>op. k = Start op \<Longrightarrow> refused op = None"
  shows "finish wd dir k' db' d' = finish wd dir k db d"
proof (cases k)
  case (Start op)
  note S = Start assms(1) assms(2) [OF Start]
  show ?thesis
  proof (cases op)
    case (OpPut x v)
    with S show ?thesis
      by (auto simp: DB_Put_def finished_def split: if_splits prod.splits option.splits)
  next
    case (OpDelete x)
    with S show ?thesis
      by (auto simp: DB_Delete_def finished_def split: if_splits prod.splits option.splits)
  next
    case (OpWrite es)
    with S show ?thesis
      by (auto simp: DB_Write_def finished_def Let_def split: if_splits prod.splits option.splits)
  next
    case (OpGet x)
    with S finish_get [of False x db] show ?thesis by (auto simp: db_step_get simp del: db_step.simps split: option.splits)
  next
    case (OpHas x)
    with S finish_get [of True x db] show ?thesis by (auto simp: db_step_get simp del: db_step.simps split: option.splits)
  qed (use S in \<open>auto simp: finished_def split: option.splits prod.splits\<close>)
next
  case (Write_mem seq es)
  with assms(1) show ?thesis by (cases es) (auto split: option.splits if_splits)
next
  case (Ask has x i best)
  with assms(1) show ?thesis by (cases i) (auto split: prod.splits sum.splits)
qed (use assms(1) in \<open>auto simp: finished_def split: option.splits\<close>)

text \<open>A task that comes to something can make its next step, unless it is at its end.\<close>

lemma finish_step:
  assumes "finish wd dir k db d \<noteq> None" and "\<And>op. k = Start op \<Longrightarrow> op_plain op \<and> refused op = None" and "\<And>r. k \<noteq> Ended r"
  shows "task_step wd k db d \<noteq> None"
proof (cases k)
  case (Start op)
  note S = Start assms(1) assms(2) [OF Start]
  show ?thesis
  proof (cases op)
    case (OpGet x)
    with S start_get_None [of False x db] show ?thesis by (auto split: option.splits)
  next
    case (OpHas x)
    with S start_get_None [of True x db] show ?thesis by (auto simp: DB_Has_def split: option.splits)
  qed (use S in \<open>auto simp: finished_def Let_def split: option.splits prod.splits\<close>)
next
  case (Write_mem seq es)
  with assms(1) show ?thesis by (cases es) (auto split: option.splits if_splits)
next
  case (Ask has x i best)
  then show ?thesis by (cases i) (auto split: prod.splits sum.splits)
qed (use assms in \<open>auto simp: finished_def split: option.splits\<close>)

end
