(* ===== verification/Lsmkv_Faults.thy ===== *)
theory Lsmkv_Faults imports Lsmkv_Open begin

text \<open>
  The database when calls of the operating system fail.  A table file whose writing reports success
  holds the table whatever failed before, an update of the manifest is made or not made, and a flush
  that fails anywhere leaves a directory that still shows the same map.
\<close>

section \<open>Writing a table\<close>

text \<open>A file none of whose calls fails, with the same content.\<close>

definition calm :: "os_file \<Rightarrow> os_file" where
  "calm f = f\<lparr>f_fault := (\<lambda>_. None)\<rparr>"

definition calm_w :: "Writer \<Rightarrow> Writer" where
  "calm_w w = w\<lparr>w_f := calm (w_f w)\<rparr>"

lemma calm_simps [simp]:
  "f_reliable (calm f)" "f_data (calm f) = f_data f" "f_pos (calm f) = f_pos f" "f_stable (calm f) = f_stable f"
  "f_next (calm f) = (None, calm f\<lparr>f_tick := f_tick f + 1\<rparr>)"
  "w_f (calm_w w) = calm (w_f w)" "w_closed (calm_w w) = w_closed w" "w_buf (calm_w w) = w_buf w"
  "w_restarts (calm_w w) = w_restarts w" "w_lastKey (calm_w w) = w_lastKey w" "w_blockSize (calm_w w) = w_blockSize w"
  "w_index (calm_w w) = w_index w" "w_bloom (calm_w w) = w_bloom w" "w_maxSeq (calm_w w) = w_maxSeq w"
  "w_entryCount (calm_w w) = w_entryCount w" "w_path (calm_w w) = w_path w" "w_minKey (calm_w w) = w_minKey w"
  "w_maxKey (calm_w w) = w_maxKey w"
  by (simp_all add: calm_def calm_w_def f_reliable_def f_next_def)

lemma calm_calls:
  "f_write b f = ((n, None), f') \<Longrightarrow> f_write b (calm f) = ((n, None), calm f')"
  "f_tell f = (Inr k, f') \<Longrightarrow> f_tell (calm f) = (Inr k, calm f')"
  "f_sync f = (None, f') \<Longrightarrow> f_sync (calm f) = (None, calm f')"
  "f_stat_size f = (Inr k, f') \<Longrightarrow> f_stat_size (calm f) = (Inr k, calm f')"
  "f_close f = (None, f') \<Longrightarrow> f_close (calm f) = (None, calm f')"
  "write_all b f = (None, f') \<Longrightarrow> write_all b (calm f) = (None, calm f')"
  by (auto simp: f_write_def f_tell_def f_sync_def f_stat_size_def f_close_def write_all_def f_next_def calm_def
    Let_def split: option.splits prod.splits)

lemma calm_flushBlock:
  assumes "Writer_flushBlock w = (None, w')"
  shows "Writer_flushBlock (calm_w w) = (None, calm_w w')"
  using assms
  by (auto simp: Writer_flushBlock_def Let_def calm_calls split: if_splits sum.splits prod.splits option.splits)
    (simp_all add: calm_w_def)

lemma calm_Add:
  assumes "Writer_Add e w = (None, w')"
  shows "Writer_Add e (calm_w w) = (None, calm_w w')"
proof -
  have "Writer_buffer e (calm_w w) = calm_w (Writer_buffer e w)"
    by (simp add: Writer_buffer_def calm_w_def Let_def)
  with assms calm_flushBlock show ?thesis
    by (auto simp: Writer_Add_def Let_def split: if_splits)
qed

lemma calm_loop: "WriteFile_loop es w = (None, w') \<Longrightarrow> WriteFile_loop es (calm_w w) = (None, calm_w w')"
  by (induction es arbitrary: w) (auto simp: calm_Add split: prod.splits option.splits)

lemma calm_tail:
  assumes "finish_tail off bdata w = (Inr n, f)"
  shows "finish_tail off bdata (calm_w w) = (Inr n, calm f)"
  using assms
  by (auto simp: finish_tail_def Let_def calm_calls split: sum.splits prod.splits option.splits)

lemma calm_Finish:
  assumes "Writer_Finish sz w = (Inr m, w')"
  shows "Writer_Finish sz (calm_w w) = (Inr m, calm_w w')"
proof -
  from assms obtain w1 where c: "\<not> w_closed w" and fl: "Writer_flushBlock w = (None, w1)"
    by (auto simp: Writer_Finish_def split: if_splits prod.splits option.splits)
  from assms c fl obtain off f where t: "f_tell (w_f w1) = (Inr off, f)"
    by (auto simp: Writer_Finish_def split: prod.splits sum.splits)
  from assms c fl t obtain bf bdata where b: "Builder_Build sz (w_bloom w1) = Inr bf" "Filter_MarshalBinary (Some bf) = Inr bdata"
    by (auto simp: Writer_Finish_def Let_def split: prod.splits sum.splits)
  from assms c fl t b obtain n g where ft: "finish_tail off bdata (w1\<lparr>w_f := f\<rparr>) = (Inr n, g)"
    by (auto simp: Writer_Finish_def Let_def split: prod.splits sum.splits)
  have w1: "(calm_w w1)\<lparr>w_f := calm f\<rparr> = calm_w (w1\<lparr>w_f := f\<rparr>)" by (simp add: calm_w_def)
  from assms c fl t b ft show ?thesis
    by (simp add: Writer_Finish_def Let_def calm_flushBlock [OF fl] calm_calls(2) [OF t] w1 calm_tail [OF ft])
      (auto simp: calm_w_def)
qed

lemma calm_WriteFile:
  assumes "sst_WriteFile sz path es opts f = (Inr m, r)"
  shows "\<exists>f'. r = Some f' \<and> sst_WriteFile sz path es opts (calm f) = (Inr m, Some (calm f'))"
proof -
  have c: "sst_Create path opts (calm f) = calm_w (sst_Create path opts f)" by (simp add: sst_Create_def calm_w_def Let_def)
  from assms obtain w where l: "WriteFile_loop es (sst_Create path opts f) = (None, w)"
    by (auto simp: sst_WriteFile_def split: prod.splits option.splits)
  with assms obtain w' where "Writer_Finish sz w = (Inr m, w')" "r = Some (w_f w')"
    by (auto simp: sst_WriteFile_def split: prod.splits)
  with c calm_loop [OF l] calm_Finish show ?thesis by (auto simp: sst_WriteFile_def)
qed

text \<open>Whatever calls fail, a table whose writing reports success is on the disk, and no other file is
  touched.\<close>

lemma dk_sst_WriteFile_faults:
  assumes W: "dk_sst_WriteFile sz path es None d = (r, d')" and "sizing_ok sz"
    and "\<forall>e\<in>set es. se_Key e \<noteq> None" and "keys_sorted es" and "total_size es < 2 ^ 31"
  shows "\<forall>p. p \<noteq> path \<longrightarrow> dk_content d' p = dk_content d p"
    and "r = Inr m \<Longrightarrow> \<exists>b. dk_content d' path = Some b \<and> is_table b es \<and> m = table_meta path es (length b)"
proof -
  show "\<forall>p. p \<noteq> path \<longrightarrow> dk_content d' p = dk_content d p"
    using W by (auto simp: dk_sst_WriteFile_def dk_Create_def dk_next_def dk_content_def dk_put_def dk_save_def
      split: prod.splits sum.splits option.splits if_splits)
  assume r: "r = Inr m"
  from W r obtain f d1 where c: "dk_Create path d = (Inr f, d1)"
    by (auto simp: dk_sst_WriteFile_def split: prod.splits sum.splits)
  then have f: "f_data f = []" "f_pos f = 0" "dk_content d1 path = Some []"
    by (auto simp: dk_Create_def dk_next_def dk_put_def dk_content_def split: option.splits)
  from W r c obtain x where wf: "sst_WriteFile sz path es None f = (Inr m, x)"
    by (auto simp: dk_sst_WriteFile_def split: prod.splits option.splits)
  from calm_WriteFile [OF wf] obtain f' where x: "x = Some f'" "sst_WriteFile sz path es None (calm f) = (Inr m, Some (calm f'))"
    by blast
  have "fresh_file (calm f)" using f by (simp add: fresh_file_def)
  moreover have "table_input sz None es"
    by (rule table_input_default) (use assms in \<open>simp_all add: default_fp_def WriterOptions_normalize_def Let_def\<close>)
  ultimately have "is_table (f_data f') es \<and> m = table_meta path es (length (f_data f'))"
    using WriteFile_is_table [of "calm f" sz None es path] x(2) by auto
  moreover have "dk_content d' path = Some (f_data f')"
    using W r c wf x(1) f(3) by (auto simp: dk_sst_WriteFile_def)
  ultimately show "\<exists>b. dk_content d' path = Some b \<and> is_table b es \<and> m = table_meta path es (length b)" by blast
qed

section \<open>The manifest\<close>

text \<open>A persisted state is either on the disk, or the file is as it was.\<close>

lemma persist_faults:
  assumes "Manifest_persist js m d = ((r, m'), d')" and "codec_ok js" and "state_json (mf_state m)" and "mf_path m = mf_fileName"
  shows "\<exists>t. m' = stamped (js_time js t) m"
    and "\<forall>p. p \<noteq> mf_fileName \<longrightarrow> p \<noteq> mf_fileName @ tmpSuffix \<longrightarrow> dk_content d' p = dk_content d p"
    and "r \<noteq> None \<Longrightarrow> dk_content d' mf_fileName = dk_content d mf_fileName"
    and "r = None \<Longrightarrow> holds_state js (dk_content d') (mf_state m')"
proof -
  note P = persist_cases [OF assms(1)]
  from P show "\<exists>t. m' = stamped (js_time js t) m" by blast
  show "\<forall>p. p \<noteq> mf_fileName \<longrightarrow> p \<noteq> mf_fileName @ tmpSuffix \<longrightarrow> dk_content d' p = dk_content d p"
    using P assms(4) by (auto split: if_splits)
  show "r \<noteq> None \<Longrightarrow> dk_content d' mf_fileName = dk_content d mf_fileName"
    using P assms(4) by (auto split: if_splits)
  show "r = None \<Longrightarrow> holds_state js (dk_content d') (mf_state m')"
    using persist_holds assms by blast
qed

section \<open>Flushing\<close>

text \<open>What a flush starts from and what a directory has to hold for its log to show a map; unlike
  \<^verbatim>\<open>db_rel\<close> neither says that calls succeed.\<close>

definition dir_shows :: "world \<Rightarrow> nat \<Rightarrow> (bytes \<Rightarrow> bytes option) \<Rightarrow> Record list \<Rightarrow> (string \<Rightarrow> bytes option) \<Rightarrow> bool" where
  "dir_shows wd u M rs c = (\<exists>m ess. store_ok (wd_codec wd) c m ess \<and> fits_in u m ess rs \<and> shows_map ess rs M)"

definition db_data :: "world \<Rightarrow> nat \<Rightarrow> (bytes \<Rightarrow> bytes option) \<Rightarrow> Record list \<Rightarrow> DB \<Rightarrow> disk \<Rightarrow> bool" where
  "db_data wd u M rs db d =
     (\<exists>ess L. mt_rel (db_mem db) L \<and> mem_entries L = replayed rs \<and>
        store_ok (wd_codec wd) (dk_content d) (db_manif db) ess \<and> fits_in u (db_manif db) ess rs \<and> shows_map ess rs M)"

lemma dir_showsI: "store_ok (wd_codec wd) c m ess \<Longrightarrow> fits_in u m ess rs \<Longrightarrow> shows_map ess rs M \<Longrightarrow> dir_shows wd u M rs c"
  unfolding dir_shows_def by blast

lemma fits_in_mono: "fits_in u m ess rs \<Longrightarrow> u \<le> v \<Longrightarrow> fits_in v m ess rs"
  unfolding fits_in_def by (meson le_trans)

lemma dir_shows_mono: "dir_shows wd u M rs c \<Longrightarrow> u \<le> v \<Longrightarrow> dir_shows wd v M rs c"
  unfolding dir_shows_def using fits_in_mono by blast

lemma db_data_dir: "db_data wd u M rs db d \<Longrightarrow> dir_shows wd u M rs (dk_content d)"
  unfolding dir_shows_def db_data_def by blast

lemma dk_sst_Open_content: "dk_sst_Open p d = (r, d') \<Longrightarrow> dk_content d' = dk_content d"
  by (auto simp: dk_sst_Open_def dk_Open_content split: prod.splits sum.splits)

lemma dk_Remove_content: "dk_Remove p d = (r, d') \<Longrightarrow> q \<noteq> p \<Longrightarrow> dk_content d' q = dk_content d q"
  by (auto simp: dk_Remove_def dk_next_def dk_content_def split: option.splits if_splits)

lemma Alloc_faults:
  assumes A: "Manifest_AllocFileName js m d = ((r, m'), d')" and st: "store_ok js (dk_content d) m ess" and "codec_ok js"
    and "st_NextFile (mf_state m) < -1"
  shows "\<forall>p. p \<noteq> mf_fileName \<longrightarrow> p \<noteq> mf_fileName @ tmpSuffix \<longrightarrow> dk_content d' p = dk_content d p"
    and "r = Inl e \<Longrightarrow> store_ok js (dk_content d') m ess"
    and "r = Inr p \<Longrightarrow> p = sst_name (st_NextFile (mf_state m)) \<and> store_ok js (dk_content d') m' ess \<and>
      st_NextFile (mf_state m') = st_NextFile (mf_state m) + 1 \<and> st_Files (mf_state m') = st_Files (mf_state m) \<and>
      st_LogSeq (mf_state m') = st_LogSeq (mf_state m) \<and> p \<notin> fm_Name ` set (st_Files (mf_state m'))"
proof -
  let ?m = "m\<lparr>mf_state := mf_state m\<lparr>st_NextFile := st_NextFile (mf_state m) + 1\<rparr>\<rparr>"
  from store_ok_json [OF st] have S: "mf_path ?m = mf_fileName" "state_json (mf_state ?m)" by (simp_all add: alloc_json)
  from A obtain x where P: "Manifest_persist js ?m d = ((x, m'), d')"
    "r = (case x of None \<Rightarrow> Inr (sst_name (st_NextFile (mf_state m))) | Some e \<Rightarrow> Inl e)"
    by (auto simp: Manifest_AllocFileName_def Let_def split: prod.splits option.splits)
  note F = persist_faults [OF P(1) assms(3) S(2,1)]
  show "\<forall>p. p \<noteq> mf_fileName \<longrightarrow> p \<noteq> mf_fileName @ tmpSuffix \<longrightarrow> dk_content d' p = dk_content d p" by (rule F(2))
  show "store_ok js (dk_content d') m ess" if "r = Inl e"
  proof (rule store_ok_cong [OF st])
    show "dk_content d' mf_fileName = dk_content d mf_fileName" using that F(3) P(2) by (auto split: option.splits)
    fix p assume "p \<in> fm_Name ` set (st_Files (mf_state m))"
    with st names_ok_other [of m p] F(2) show "dk_content d' p = dk_content d p" by (auto simp: store_ok_def)
  qed
  assume r: "r = Inr p"
  then have x: "x = None" and p: "p = sst_name (st_NextFile (mf_state m))" using P(2) by (auto split: option.splits)
  from F(1) obtain t where m': "m' = stamped t ?m" by blast
  from store_ok_alloc [OF st assms(4) m' F(4) [OF x] F(2)] m' p
  show "p = sst_name (st_NextFile (mf_state m)) \<and> store_ok js (dk_content d') m' ess \<and>
      st_NextFile (mf_state m') = st_NextFile (mf_state m) + 1 \<and> st_Files (mf_state m') = st_Files (mf_state m) \<and>
      st_LogSeq (mf_state m') = st_LogSeq (mf_state m) \<and> p \<notin> fm_Name ` set (st_Files (mf_state m'))"
    by simp
qed

lemma Replace_faults:
  assumes R: "Manifest_Replace js rm [f] q m d = ((r, m'), d')" and st: "store_ok js (dk_content d) m ess" and "codec_ok js"
    and "k < st_NextFile (mf_state m)" and "sst_name k \<notin> fm_Name ` set (st_Files (mf_state m))"
    and "fm_Name f = sst_name k" and "file_json f" and "holds_table (dk_content d) (sst_name k) es"
    and "list_all2 (holds_table (dk_content d)) (map fm_Name (filter (\<lambda>f. fm_Name f \<notin> set rm) (st_Files (mf_state m)))) ess'"
    and "set ess' \<subseteq> set ess" and "\<forall>e\<in>set es. se_Seq e \<le> max q (st_LogSeq (mf_state m))"
    and "fm_MaxSeq f \<le> max q (st_LogSeq (mf_state m))"
  shows "r \<noteq> None \<Longrightarrow> store_ok js (dk_content d') m ess"
    and "r = None \<Longrightarrow> store_ok js (dk_content d') m' (ess' @ [es]) \<and>
      st_NextFile (mf_state m') = st_NextFile (mf_state m) \<and> st_LogSeq (mf_state m') = max q (st_LogSeq (mf_state m)) \<and>
      st_Files (mf_state m') = filter (\<lambda>f. fm_Name f \<notin> set rm) (st_Files (mf_state m)) @ [f]"
proof -
  let ?m = "m\<lparr>mf_state := bump_seq q (mf_state m\<lparr>st_Files := filter (\<lambda>f. fm_Name f \<notin> set rm) (st_Files (mf_state m)) @ [f]\<rparr>)\<rparr>"
  from store_ok_json [OF st] have S: "mf_path ?m = mf_fileName" "state_json (mf_state ?m)"
    using replace_json [OF _ assms(7), of "mf_state m"] by simp_all
  from R have P: "Manifest_persist js ?m d = ((r, m'), d')" by (simp add: Manifest_Replace_def Let_def)
  note F = persist_faults [OF P assms(3) S(2,1)]
  from F(1) obtain t where m': "m' = stamped t ?m" by blast
  show "store_ok js (dk_content d') m ess" if "r \<noteq> None"
  proof (rule store_ok_cong [OF st])
    show "dk_content d' mf_fileName = dk_content d mf_fileName" using that F(3) by simp
    fix p assume "p \<in> fm_Name ` set (st_Files (mf_state m))"
    with st names_ok_other [of m p] F(2) show "dk_content d' p = dk_content d p" by (auto simp: store_ok_def)
  qed
  assume "r = None"
  note F4 = F(4) [OF this]
  have "store_ok js (dk_content d') m' (ess' @ [es])"
    by (rule store_ok_replace [OF st assms(4,5,6,8,9,10,11,12) m' F4 F(2)])
  with m' show "store_ok js (dk_content d') m' (ess' @ [es]) \<and>
      st_NextFile (mf_state m') = st_NextFile (mf_state m) \<and> st_LogSeq (mf_state m') = max q (st_LogSeq (mf_state m)) \<and>
      st_Files (mf_state m') = filter (\<lambda>f. fm_Name f \<notin> set rm) (st_Files (mf_state m)) @ [f]"
    by simp
qed

lemma AddFile_faults:
  assumes A: "Manifest_AddFile js f q m d = ((r, m'), d')" and st: "store_ok js (dk_content d) m ess" and "codec_ok js"
    and "k < st_NextFile (mf_state m)" and "sst_name k \<notin> fm_Name ` set (st_Files (mf_state m))"
    and "fm_Name f = sst_name k" and "file_json f" and "holds_table (dk_content d) (sst_name k) es"
    and "\<forall>e\<in>set es. se_Seq e \<le> max q (st_LogSeq (mf_state m))" and "fm_MaxSeq f \<le> max q (st_LogSeq (mf_state m))"
  shows "r \<noteq> None \<Longrightarrow> store_ok js (dk_content d') m ess"
    and "r = None \<Longrightarrow> store_ok js (dk_content d') m' (ess @ [es]) \<and>
      st_NextFile (mf_state m') = st_NextFile (mf_state m) \<and> st_LogSeq (mf_state m') = max q (st_LogSeq (mf_state m))"
proof -
  have h: "list_all2 (holds_table (dk_content d)) (map fm_Name (filter (\<lambda>f. fm_Name f \<notin> set []) (st_Files (mf_state m)))) ess"
    using store_ok_tables [OF st] by simp
  note R = Replace_faults [OF A [unfolded AddFile_is_Replace] st assms(3-8) h order.refl assms(9,10)]
  from R show "r \<noteq> None \<Longrightarrow> store_ok js (dk_content d') m ess"
    and "r = None \<Longrightarrow> store_ok js (dk_content d') m' (ess @ [es]) \<and>
      st_NextFile (mf_state m') = st_NextFile (mf_state m) \<and> st_LogSeq (mf_state m') = max q (st_LogSeq (mf_state m))"
    by simp_all
qed

lemma fits_in_flush:
  assumes "fits_in u m ess rs" and "mem_entries L = replayed rs"
    and "unat (st_NextFile (mf_state m')) \<le> u + 1" and "unat (st_LogSeq (mf_state m')) \<le> u + 1"
  shows "fits_in (u + 1) m' (ess @ [map to_sst L]) []"
    and "shows_map ess rs M \<Longrightarrow> shows_map (ess @ [map to_sst L]) [] M"
    and "fits_in (u + total_size (replayed rs) + 1) m' (ess @ [map to_sst L]) rs"
    and "shows_map ess rs M \<Longrightarrow> shows_map (ess @ [map to_sst L]) rs M"
proof -
  have te: "table_entries (ess @ [map to_sst L]) = table_entries ess @ [replayed rs]"
    by (simp add: mem_entries_def comp_def assms(2) [symmetric])
  have ts: "total_size (map to_sst L) = total_size (replayed rs)"
    by (simp add: assms(2) [symmetric] mem_entries_def total_size_def comp_def)
  note V = versions_flush [of "table_entries ess" "replayed rs"]
  from assms(1,3,4) V show "fits_in (u + 1) m' (ess @ [map to_sst L]) []"
    unfolding fits_in_def te by (simp add: ts)
  from assms(1,3,4) V show "fits_in (u + total_size (replayed rs) + 1) m' (ess @ [map to_sst L]) rs"
    unfolding fits_in_def te by (fastforce simp: ts)
  from assms(1) V show "shows_map ess rs M \<Longrightarrow> shows_map (ess @ [map to_sst L]) [] M"
    "shows_map ess rs M \<Longrightarrow> shows_map (ess @ [map to_sst L]) rs M"
    unfolding shows_map_def fits_in_def te by simp_all
qed

lemma lg_f_SetNextSeq [simp]: "lg_f (Log_SetNextSeq q l) = lg_f l"
  by (simp add: Log_SetNextSeq_def)

lemma store_ok_unlisted:
  assumes "store_ok js c m ess" and "sst_name k \<notin> fm_Name ` set (st_Files (mf_state m))"
    and "\<forall>p. p \<noteq> sst_name k \<longrightarrow> c' p = c p"
  shows "store_ok js c' m ess"
  by (rule store_ok_cong [OF assms(1)]) (use assms(2,3) sst_name_ne in \<open>metis imageI\<close>)+

lemma flush_after_alloc:
  assumes wd: "world_ok wd" and mt: "mt_rel (db_mem db) L" and rs: "mem_entries L = replayed rs"
    and fits: "fits_in u (db_manif db) ess rs" and shows': "shows_map ess rs M" and L: "L \<noteq> []" and u: "u + 1 < 2 ^ 31"
    and A: "Manifest_AllocFileName (wd_codec wd) (db_manif db) d = ((Inr (sst_name n), m1), d1)"
    and st: "store_ok (wd_codec wd) (dk_content d1) m1 ess"
    and m1: "unat (st_NextFile (mf_state m1)) \<le> u + 1" "n < st_NextFile (mf_state m1)"
      "st_LogSeq (mf_state m1) = st_LogSeq (mf_state (db_manif db))" "sst_name n \<notin> fm_Name ` set (st_Files (mf_state m1))"
  shows "\<exists>r db' d'. DB_flushLocked wd db d = Some (r, db', d') \<and> dir_shows wd (2 * u + 1) M rs (dk_content d') \<and>
    (db_wal db' = db_wal db \<or>
     (\<exists>e l. Log_Reset (db_wal db) = (e, l) \<and> lg_f (db_wal db') = lg_f l \<and> dir_shows wd (2 * u + 1) M [] (dk_content d')))"
proof -
  let ?js = "wd_codec wd" and ?p = "sst_name n" and ?q = "fold max (map e_Seq L) 0" and ?es = "map to_sst L"
  have snap: "MemTable_Snapshot (db_mem db) = Some L" by (rule mt.snapshot_rel [OF mt])
  have js: "codec_ok ?js" and sz: "sizing_ok (wd_sizing wd)" using wd by (simp_all add: world_ok_def)
  have F: "versions_ok (table_entries ess) (mem_entries L)" "total_size ?es \<le> u" "unat (st_LogSeq (mf_state m1)) \<le> u"
    "\<forall>r\<in>set rs. unat (rc_Seq r) \<le> u"
    using fits by (simp_all add: fits_in_def rs [symmetric] mem_entries_def total_size_def comp_def m1(3))
  have q: "unat ?q \<le> u" using flush_seqs [OF rs F(4)] u by simp
  have keep: "dir_shows wd (2 * u + 1) M rs c" if "store_ok ?js c m1 ess" for c
  proof -
    have "fits_in (u + 1) m1 ess rs" using fits m1(1,3) by (auto simp: fits_in_def)
    from dir_shows_mono [OF dir_showsI [OF that this shows']] show ?thesis by simp
  qed
  have ts: "total_size ?es < 2 ^ 31" using F(2) u by simp
  obtain w d2 where W: "dk_sst_WriteFile (wd_sizing wd) ?p ?es None d1 = (w, d2)" by fastforce
  note WF = dk_sst_WriteFile_faults [OF W sz mem_keys [OF F(1)] ts]
  have st2: "store_ok ?js (dk_content d2) m1 ess" by (rule store_ok_unlisted [OF st m1(4) WF(1)])
  obtain mn mx where B: "flush_bounds L 0 None None = (?q, mn, mx)"
    using flush_bounds_max [of L 0 None None] by (metis prod.exhaust fst_conv)
  note S = DB_flushLocked_def snap A B Let_def
  show ?thesis
  proof (cases w)
    case (Inl e)
    then have "DB_flushLocked wd db d = Some (Some e, db\<lparr>db_manif := m1\<rparr>, d2)" using L by (simp add: S W)
    with keep [OF st2] show ?thesis by simp
  next
    case (Inr meta)
    from WF(2) [OF Inr] obtain b where b: "dk_content d2 ?p = Some b" "is_table b ?es" "meta = table_meta ?p ?es (length b)"
      by blast
    let ?fm = "\<lparr>fm_Name = ?p, fm_Level = 0, fm_MinKey = Clone mn, fm_MaxKey = Clone mx, fm_MaxSeq = ?q,
      fm_Entries = of_nat (length ?es), fm_FileSize = int (length b)\<rparr>"
    have fj: "file_json ?fm" using is_table_length [OF b(2)] ascii_sst_name by (simp add: file_json_def int64_def)
    have es: "\<forall>e\<in>set ?es. se_Seq e \<le> max ?q (st_LogSeq (mf_state m1))"
      using fold_max_le [of "map e_Seq L" 0 ?q] by (auto simp: to_sst_def le_max_iff_disj)
    have h: "holds_table (dk_content d2) ?p ?es" using b(1,2) by (simp add: holds_table_def)
    obtain x m2 d3 where M: "Manifest_AddFile ?js ?fm ?q m1 d2 = ((x, m2), d3)" by (metis prod.exhaust)
    note AF = AddFile_faults [OF M st2 js m1(2,4) _ fj h es]
    note S = S W Inr b(3) table_meta_def M [simplified]
    show ?thesis
    proof (cases x)
      case (Some e)
      obtain y d4 where R: "dk_Remove ?p d3 = (y, d4)" by fastforce
      have "DB_flushLocked wd db d = Some (Some e, db\<lparr>db_manif := m2\<rparr>, d4)" using L by (simp add: S Some R)
      moreover have "store_ok ?js (dk_content d4) m1 ess"
        by (rule store_ok_unlisted [OF AF(1) m1(4)]) (use Some dk_Remove_content [OF R] in \<open>simp_all\<close>)
      ultimately show ?thesis using keep by simp
    next
      case None
      from AF(2) [OF _ _ None] have st3: "store_ok ?js (dk_content d3) m2 (ess @ [?es])"
        "st_NextFile (mf_state m2) = st_NextFile (mf_state m1)"
        "st_LogSeq (mf_state m2) = max ?q (st_LogSeq (mf_state m1))" by simp_all
      obtain t d4 where O: "dk_sst_Open ?p d3 = (t, d4)" by fastforce
      note st4 = st3(1) [folded dk_sst_Open_content [OF O]]
      have "unat (st_NextFile (mf_state m2)) \<le> u + 1" "unat (st_LogSeq (mf_state m2)) \<le> u + 1"
        using m1(1) q F(3) st3(2,3) by (auto simp: max_def)
      note FF = fits_in_flush [OF fits rs this]
      have both: "dir_shows wd (2 * u + 1) M rs (dk_content d4)"
        by (rule dir_shows_mono [OF dir_showsI [OF st4 FF(3) FF(4) [OF shows']]])
          (use F(2) in \<open>simp add: total_size_def mem_entries_def comp_def rs [symmetric]\<close>)
      have alone: "dir_shows wd (2 * u + 1) M [] (dk_content d4)"
        by (rule dir_shows_mono [OF dir_showsI [OF st4 FF(1) FF(2) [OF shows']]]) simp
      show ?thesis
      proof (cases t)
        case (Inl e)
        then have "DB_flushLocked wd db d = Some (Some e, db\<lparr>db_manif := m2\<rparr>, d4)" using L by (simp add: S None O)
        with both show ?thesis by simp
      next
        case (Inr r)
        obtain e l where l: "Log_Reset (db_wal db) = (e, l)" by fastforce
        have "\<exists>db'. DB_flushLocked wd db d = Some (e, db', d4) \<and> lg_f (db_wal db') = lg_f l"
          using L Inr by (cases e) (simp_all add: S None O l)
        with l both alone show ?thesis by blast
      qed
    qed
  qed
qed

text \<open>Wherever a flush fails, the directory with the log's records shows the map; once the log is reset
  it does so without them.\<close>

lemma DB_flush_faults:
  assumes wd: "world_ok wd" and data: "db_data wd u M rs db d" and u: "u + 1 < 2 ^ 31"
  shows "\<exists>r db' d'. DB_flushLocked wd db d = Some (r, db', d') \<and> dir_shows wd (2 * u + 1) M rs (dk_content d') \<and>
    (db_wal db' = db_wal db \<or>
     (\<exists>e l. Log_Reset (db_wal db) = (e, l) \<and> lg_f (db_wal db') = lg_f l \<and> dir_shows wd (2 * u + 1) M [] (dk_content d')))"
proof -
  let ?js = "wd_codec wd" and ?m = "db_manif db"
  from data obtain ess L where D: "mt_rel (db_mem db) L" "mem_entries L = replayed rs"
    "store_ok ?js (dk_content d) ?m ess" "fits_in u ?m ess rs" "shows_map ess rs M" by (auto simp: db_data_def)
  have snap: "MemTable_Snapshot (db_mem db) = Some L" by (rule mt.snapshot_rel [OF D(1)])
  have js: "codec_ok ?js" and sz: "sizing_ok (wd_sizing wd)" using wd by (simp_all add: world_ok_def)
  let ?n = "st_NextFile (mf_state ?m)" and ?q = "fold max (map e_Seq L) 0" and ?es = "map to_sst L"
  let ?p = "sst_name ?n"
  have F: "versions_ok (table_entries ess) (mem_entries L)" "total_size ?es \<le> u" "unat (st_LogSeq (mf_state ?m)) \<le> u"
    "unat ?n \<le> u" "\<forall>r\<in>set rs. unat (rc_Seq r) \<le> u"
    using D(4) by (simp_all add: fits_in_def D(2) [symmetric] mem_entries_def total_size_def comp_def)
  have q: "unat ?q \<le> u" using flush_seqs [OF D(2) F(5)] u by simp
  have n: "?n < -1" using F(4) u by (simp add: word_less_nat_alt unsigned_minus_1_eq_mask mask_eq_exp_minus_1)
  have keep: "dir_shows wd (2 * u + 1) M rs c" if "store_ok ?js c ?m ess" for c
    by (rule dir_shows_mono [OF dir_showsI [OF that D(4,5)]]) simp
  show ?thesis
  proof (cases "L = []")
    case True
    then show ?thesis using keep [OF D(3)] by (simp add: DB_flushLocked_def snap)
  next
    case False
    obtain r1 m1 d1 where A: "Manifest_AllocFileName ?js ?m d = ((r1, m1), d1)" by (metis prod.exhaust)
    note AF = Alloc_faults [OF A D(3) js n]
    show ?thesis
    proof (cases r1)
      case (Inl e)
      then have "DB_flushLocked wd db d = Some (Some e, db\<lparr>db_manif := m1\<rparr>, d1)"
        using False by (simp add: DB_flushLocked_def snap A)
      with keep [OF AF(2) [OF Inl]] show ?thesis by simp
    next
      case (Inr p)
      from AF(3) [OF Inr] have B: "p = ?p" "store_ok ?js (dk_content d1) m1 ess" "st_NextFile (mf_state m1) = ?n + 1"
        "st_Files (mf_state m1) = st_Files (mf_state ?m)" "st_LogSeq (mf_state m1) = st_LogSeq (mf_state ?m)"
        "?p \<notin> fm_Name ` set (st_Files (mf_state m1))" by auto
      note A' = A [unfolded Inr B(1)]
      have n1: "unat (st_NextFile (mf_state m1)) \<le> u + 1" "?n < st_NextFile (mf_state m1)"
        using B(3) F(4) word_succ_less [OF n] by (simp_all add: unat_word_ariths)
      from flush_after_alloc [OF wd D(1,2,4,5) False u A' B(2) n1 B(5,6)] show ?thesis .
    qed
  qed
qed

end
