(* ===== verification/Lsmkv_Compact_Faults.thy ===== *)
theory Lsmkv_Compact_Faults imports Lsmkv_Faults Lsmkv_Total begin

text \<open>
  A compaction when calls on the directory fail: creating, opening and removing files, writing and renaming the
  manifest.  What it reads of the tables it reads as it is (that a failed read goes unnoticed by a merge is
  \<^verbatim>\<open>compact_read_error_unreported\<close>).  The directory then shows the map it showed before,
  wherever the compaction stopped.
\<close>

section \<open>Merging\<close>

text \<open>A directory none of whose calls fails, with the same files.\<close>

definition calm_dk :: "disk \<Rightarrow> disk" where
  "calm_dk d = d\<lparr>dk_fault := (\<lambda>_. None)\<rparr>"

definition handles_ok :: "disk \<Rightarrow> bool" where
  "handles_ok d = (dk_ffault d = (\<lambda>_ _. None))"

lemma calm_dk_simps [simp]:
  "dk_content (calm_dk d) = dk_content d" "dk_handle b (calm_dk d) = dk_handle b d" "dk_files (calm_dk d) = dk_files d"
  "handles_ok d \<Longrightarrow> dk_reliable (calm_dk d)"
  by (simp_all add: calm_dk_def dk_content_def dk_handle_def dk_reliable_def handles_ok_def fun_eq_iff)

lemma calm_dk_calls:
  "dk_Create p d = (Inr f, d') \<Longrightarrow> dk_Create p (calm_dk d) = (Inr f, calm_dk d')"
  "dk_Open p d = (Inr f, d') \<Longrightarrow> dk_Open p (calm_dk d) = (Inr f, calm_dk d')"
  "dk_save p g (calm_dk d) = calm_dk (dk_save p g d)"
  by (auto simp: dk_Create_def dk_Open_def dk_save_def dk_put_def dk_next_def dk_handle_def calm_dk_def
    split: option.splits)

lemma calm_sst_Open: "dk_sst_Open p d = (Inr r, d') \<Longrightarrow> dk_sst_Open p (calm_dk d) = (Inr r, calm_dk d')"
  by (auto simp: dk_sst_Open_def calm_dk_calls(2) split: prod.splits sum.splits)

lemma calm_merge_open: "merge_open ins rs d = (Inr rs', d') \<Longrightarrow> merge_open ins rs (calm_dk d) = (Inr rs', calm_dk d')"
  by (induction ins arbitrary: rs d) (auto simp: calm_sst_Open split: prod.splits sum.splits)

lemma merge_open_content: "merge_open ins rs d = (r, d') \<Longrightarrow> dk_content d' = dk_content d"
  by (induction ins arbitrary: rs d) (auto dest!: dk_sst_Open_content split: prod.splits sum.splits)

lemma calm_MergeFiles:
  assumes "MergeFiles sz ins p opts d = Some (Inr res, d')"
  shows "MergeFiles sz ins p opts (calm_dk d) = Some (Inr res, calm_dk d')"
proof -
  have ins: "ins \<noteq> []" using assms by (auto simp: MergeFiles_def)
  from assms ins obtain rs d1 where o: "merge_open ins [] d = (Inr rs, d1)"
    by (auto simp: MergeFiles_def Let_def split: prod.splits sum.splits)
  from assms ins o obtain h its where i: "merge_init 0 rs (heap_Init mergeHeap_Less []) [] = Inr (h, its)"
    by (auto simp: MergeFiles_def Let_def split: prod.splits sum.splits)
  from assms ins o i obtain f d2 where c: "dk_Create p d1 = (Inr f, d2)"
    by (auto simp: MergeFiles_def Let_def split: prod.splits sum.splits)
  note S = MergeFiles_def Let_def
  let ?o = "case opts of None \<Rightarrow> zero_CompactOptions | Some o' \<Rightarrow> o'"
  from assms ins o i c obtain st where
    l: "merge_loop ?o \<lparr>mg_heap = h, mg_iters = its, mg_w = sst_Create p (Some (merge_writer_opts ?o)) f,
        mg_kept = 0, mg_dropped = 0, mg_lastKey = None\<rparr> = Some (None, st)"
    by (auto simp: S split: option.splits prod.splits error.splits)
  have fin: "merge_finish sz p ins st d2 = (Inr res, d')" using assms ins o i c l by (simp add: S)
  then have "merge_finish sz p ins st (calm_dk d2) = (Inr res, calm_dk d')"
    by (auto simp: merge_finish_def calm_dk_calls(3) Let_def split: prod.splits sum.splits)
  with ins i l show ?thesis by (simp add: S calm_merge_open [OF o] calm_dk_calls(1) [OF c])
qed

lemma MergeFiles_others:
  assumes "MergeFiles sz ins p opts d = Some (r, d')" and "q \<noteq> p"
  shows "dk_content d' q = dk_content d q"
proof -
  have C: "dk_content d2 q = dk_content d1 q" if "dk_Create p d1 = (x, d2)" for x d1 d2
    using that assms(2) by (auto simp: dk_Create_def dk_next_def dk_put_def dk_content_def split: option.splits)
  have A: "dk_content (merge_abort p w d2) q = dk_content d2 q" for w d2
    using assms(2) by (auto simp: merge_abort_def split: prod.split)
  have F: "merge_finish sz p ins st d2 = (x, d3) \<Longrightarrow> dk_content d3 q = dk_content d2 q" for st d2 x d3
    using assms(2) by (auto simp: merge_finish_def Let_def split: prod.splits sum.splits)
  obtain x d1 where o: "merge_open ins [] d = (x, d1)" by fastforce
  note O = merge_open_content [OF o]
  from assms(1) o have "dk_content d' q = dk_content d1 q"
    using assms(2) C A F
    by (auto simp: MergeFiles_def Let_def split: if_splits sum.splits prod.splits option.splits error.splits)
  with O show ?thesis by simp
qed

lemma MergeFiles_faults:
  assumes M: "MergeFiles sz inputs p opts d = Some (Inr res, d')" and "handles_ok d" and "inputs \<noteq> []"
    and "list_all2 (\<lambda>inp es. holds_table (dk_content d) (in_Path inp) es) inputs ess"
    and "sizing_ok sz" and "sum_list (map total_size ess) < 2 ^ 31"
  shows "\<exists>out b n. res = \<lparr>res_OutputPath = p, res_Meta = table_meta p out (length b),
        res_Removed = map in_Path inputs, res_KeptTombstones = length (filter se_Deleted out),
        res_DroppedObsolete = n\<rparr> \<and> merged (merge_opts opts) ess out \<and> is_table b out
    \<and> dk_content d' = (dk_content d)(p \<mapsto> b)"
proof -
  have h: "list_all2 (\<lambda>inp es. holds_table (dk_content (calm_dk d)) (in_Path inp) es) inputs ess" using assms(4) by simp
  have "dk_reliable (calm_dk d)" using assms(2) by simp
  from MergeFiles_tables [OF this assms(3) h assms(5,6), of p opts] calm_MergeFiles [OF M]
  show ?thesis by fastforce
qed

section \<open>The compaction\<close>

lemma dk_next_ffault: "dk_next d = (x, d') \<Longrightarrow> dk_ffault d' = dk_ffault d"
  by (auto simp: dk_next_def)

lemma ffault_next [simp]: "dk_ffault (snd (dk_next d)) = dk_ffault d"
  by (simp add: dk_next_def)

lemma persist_handles: "Manifest_persist js m d = (x, d') \<Longrightarrow> handles_ok d' = handles_ok d"
  by (auto simp: Manifest_persist_def dk_now_def dk_WriteFile_def dk_Open_def dk_Rename_def dk_put_def Let_def handles_ok_def
    dest!: dk_next_ffault split: prod.splits sum.splits option.splits)

lemma Alloc_handles: "Manifest_AllocFileName js m d = (x, d') \<Longrightarrow> handles_ok d' = handles_ok d"
  by (auto simp: Manifest_AllocFileName_def Let_def dest!: persist_handles split: prod.splits option.splits)

lemma remove_files_others: "p \<notin> set ps \<Longrightarrow> dk_content (remove_files ps d) p = dk_content d p"
  by (induction ps arbitrary: d) (auto simp: dk_Remove_content [OF prod.collapse [symmetric]])

lemma DB_install_wal: "DB_install wd res db d = (r, db', d') \<Longrightarrow> db_wal db' = db_wal db"
  by (auto simp: DB_install_def Let_def split: prod.splits sum.splits option.splits)

text \<open>After the merge: either the manifest lists what it did, or the merged table in place of the inputs.\<close>

lemma DB_install_faults:
  fixes db m ess ps
  defines "m \<equiv> db_manif db" and "ts \<equiv> db_tables db"
  defines "ess' \<equiv> pick_lists (\<lambda>n. n \<notin> set ps) (map Reader_Path ts) ess"
  assumes I: "DB_install wd res db d = (r, db', d')" and js: "codec_ok (wd_codec wd)" and d: "dk_content d = c(sst_name k \<mapsto> b)"
    and st: "store_ok (wd_codec wd) c m ess" and names: "map Reader_Path ts = map fm_Name (st_Files (mf_state m))"
    and k: "k < st_NextFile (mf_state m)" "sst_name k \<notin> fm_Name ` set (st_Files (mf_state m))"
    and out: "is_table b out" "\<forall>e\<in>set out. se_Seq e \<le> st_LogSeq (mf_state m)"
    and ps: "filter (\<lambda>n. n \<in> set ps) (map Reader_Path ts) = ps"
    and res: "res_OutputPath res = sst_name k" "res_Meta res = table_meta (sst_name k) out (length b)"
      "res_Removed res = ps"
  shows "store_ok (wd_codec wd) (dk_content d') m ess \<or>
      (\<exists>m'. store_ok (wd_codec wd) (dk_content d') m' (ess' @ [out]) \<and>
        st_NextFile (mf_state m') = st_NextFile (mf_state m) \<and> st_LogSeq (mf_state m') = st_LogSeq (mf_state m))"
proof -
  let ?js = "wd_codec wd" and ?p = "sst_name k" and ?q = "fold max (map se_Seq out) 0"
  let ?files = "st_Files (mf_state m)"
  have rn: "map Reader_Path (filter (\<lambda>t. Reader_Path t \<in> set ps) ts) = ps" using ps by (simp add: names_filter)
  have lq: "max ?q (st_LogSeq (mf_state m)) = st_LogSeq (mf_state m)"
    using out(2) fold_max_le [of "map se_Seq out" 0 "st_LogSeq (mf_state m)"] by (simp add: max_absorb2)
  have st1: "store_ok ?js (dk_content d) m ess" by (rule store_ok_unlisted [OF st k(2)]) (simp add: d)
  obtain t d1 where O: "dk_sst_Open ?p d = (t, d1)" by fastforce
  note c1 = dk_sst_Open_content [OF O]
  show "store_ok ?js (dk_content d') m ess \<or> (\<exists>m'. store_ok ?js (dk_content d') m' (ess' @ [out]) \<and>
        st_NextFile (mf_state m') = st_NextFile (mf_state m) \<and> st_LogSeq (mf_state m') = st_LogSeq (mf_state m))"
  proof (cases t)
    case (Inl e)
    with I O have "d' = d1" by (auto simp: DB_install_def Let_def res)
    with st1 c1 show ?thesis by simp
  next
    case (Inr rd)
    obtain x m' d2 where R: "Manifest_Replace ?js ps [compact_meta res] ?q m d1 = ((x, m'), d2)" by (metis prod.exhaust)
    have h: "holds_table (dk_content d1) ?p out" using out(1) by (simp add: holds_table_def c1 d)
    have fj: "file_json (compact_meta res)"
      using is_table_length [OF out(1)] ascii_sst_name res(1,2) by (simp add: file_json_def int64_def)
    have h2: "list_all2 (holds_table (dk_content d1)) (map fm_Name (filter (\<lambda>f. fm_Name f \<notin> set ps) ?files)) ess'"
      using pick_lists_holds [OF store_ok_tables [OF st1], of "\<lambda>n. n \<notin> set ps"]
      by (simp add: ess'_def names names_filter c1)
    have sub: "set ess' \<subseteq> set ess" unfolding ess'_def by (rule pick_lists_set)
    have seq: "\<forall>e\<in>set out. se_Seq e \<le> max ?q (st_LogSeq (mf_state m))" using out(2) lq by simp
    have fq: "fm_MaxSeq (compact_meta res) \<le> max ?q (st_LogSeq (mf_state m))" by (simp add: res(2))
    have fn: "fm_Name (compact_meta res) = sst_name k" by (simp add: res(1))
    note RF = Replace_faults [OF R st1 [folded c1] js k fn fj h h2 sub seq fq]
    have d': "d' = (if x = None then remove_files (remdups ps) d2 else d2)"
      using I O Inr R rn
      by (auto simp: DB_install_def Let_def res(1,3) m_def [symmetric] ts_def [symmetric] res(2) split: option.splits)
    show ?thesis
    proof (cases x)
      case (Some e)
      with RF(1) d' show ?thesis by simp
    next
      case None
      from RF(2) [OF None] lq have m': "store_ok ?js (dk_content d2) m' (ess' @ [out])"
        "st_NextFile (mf_state m') = st_NextFile (mf_state m)" "st_LogSeq (mf_state m') = st_LogSeq (mf_state m)"
        "st_Files (mf_state m') = filter (\<lambda>f. fm_Name f \<notin> set ps) ?files @ [compact_meta res]" by simp_all
      have psn: "set ps \<subseteq> fm_Name ` set ?files" using ps names by (metis filter_is_subset list.set_map)
      have other: "mf_fileName \<notin> set ps" "?p \<notin> set ps"
        using psn st k(2) names_ok_other [of m] by (auto simp: store_ok_def)
      have "store_ok ?js (dk_content d') m' (ess' @ [out])"
      proof (rule store_ok_cong [OF m'(1)])
        fix p assume "p \<in> fm_Name ` set (st_Files (mf_state m'))"
        then have "p \<notin> set ps" using m'(4) other(2) fn by auto
        then show "dk_content d' p = dk_content d2 p" using None by (simp add: d' remove_files_others)
      qed (use other(1) None in \<open>simp add: d' remove_files_others\<close>)
      with m'(2,3) show ?thesis by blast
    qed
  qed
qed

text \<open>Wherever a compaction fails, the directory with the log's records shows the map.\<close>

lemma DB_Compact_faults:
  assumes wd: "world_ok wd" and data: "db_data wd u M rs db d" and u: "u + 1 < 2 ^ 31" and g: "handles_ok d"
    and names: "map Reader_Path (db_tables db) = map fm_Name (st_Files (mf_state (db_manif db)))"
  shows "\<exists>r db' d'. DB_Compact wd db d = Some (r, db', d') \<and> db_wal db' = db_wal db \<and> dir_shows wd (u + 1) M rs (dk_content d')"
proof -
  let ?js = "wd_codec wd" and ?m = "db_manif db" and ?ts = "db_tables db"
  let ?files = "st_Files (mf_state ?m)" and ?n = "st_NextFile (mf_state ?m)"
  let ?refs = "compact_refs ?files ?ts" and ?p = "sst_name ?n" and ?ins = "compact_inputs ?files ?ts"
  let ?opts = "Some \<lparr>co_DropTombstones = False, co_OutputLevel = 0, co_BlockSize = 0\<rparr>"
  from data obtain ess L where D: "store_ok ?js (dk_content d) ?m ess" "fits_in u ?m ess rs" "shows_map ess rs M"
    by (auto simp: db_data_def)
  have js: "codec_ok ?js" and sz: "sizing_ok (wd_sizing wd)" using wd by (simp_all add: world_ok_def)
  have F: "sum_list (map total_size ess) \<le> u" "unat ?n \<le> u" using D(2) by (simp_all add: fits_in_def)
  have n: "?n < -1" using F(2) u by (simp add: word_less_nat_alt unsigned_minus_1_eq_mask mask_eq_exp_minus_1)
  have same: ?thesis if "DB_Compact wd db d = Some (r, db, d)" for r
    using that dir_shows_mono [OF db_data_dir [OF data], of "u + 1"] by simp
  show ?thesis
  proof (cases "DB_writable db \<noteq> None \<or> int (length ?ts) < do_CompactThreshold (db_opts db) \<or> length ?ts < 2")
    case True
    then have "\<exists>r. DB_Compact wd db d = Some (r, db, d)" by (auto simp: DB_Compact_def CompactDir_few)
    with same show ?thesis by blast
  next
    case False
    then have C: "DB_Compact wd db d = (case CompactDir (wd_sizing wd) ?refs (db_alloc ?js) ?opts (?m, d) of
        None \<Rightarrow> None
      | Some (Inl e, (mf, d)) \<Rightarrow> Some (if e = compact_ErrNoInputs then None else Some e, db\<lparr>db_manif := mf\<rparr>, d)
      | Some (Inr res, (mf, d)) \<Rightarrow> Some (DB_install wd res (db\<lparr>db_manif := mf\<rparr>) d))"
      and two: "2 \<le> length ?ts" and refs: "\<not> length ?refs < 2" by (simp_all add: DB_Compact_def compact_refs_def)
    obtain r1 m1 d1 where A: "Manifest_AllocFileName ?js ?m d = ((r1, m1), d1)" by (metis prod.exhaust)
    note AF = Alloc_faults [OF A D(1) js n]
    show ?thesis
    proof (cases r1)
      case (Inl e)
      note CD = CompactDir_alloc(1) [OF refs refl A Inl]
      have "dir_shows wd (u + 1) M rs (dk_content d1)"
        by (rule dir_shows_mono [OF dir_showsI [OF AF(2) [OF Inl] D(2,3)]]) simp
      then show ?thesis by (simp add: C CD)
    next
      case (Inr p0)
      from AF(3) [OF Inr] have B: "p0 = ?p" "store_ok ?js (dk_content d1) m1 ess" "st_NextFile (mf_state m1) = ?n + 1"
        "st_Files (mf_state m1) = ?files" "st_LogSeq (mf_state m1) = st_LogSeq (mf_state ?m)"
        "?p \<notin> fm_Name ` set (st_Files (mf_state m1))" by auto
      note CD = CompactDir_alloc(2) [OF refs refl A Inr, unfolded B(1)]
      have n1: "unat (st_NextFile (mf_state m1)) \<le> u + 1" "?n < st_NextFile (mf_state m1)"
        using B(3) F(2) word_succ_less [OF n] by (simp_all add: unat_word_ariths)
      have "fits_in (u + 1) m1 ess rs" using D(2) n1(1) B(5) by (auto simp: fits_in_def)
      then have keep: "dir_shows wd (u + 1) M rs c" if "store_ok ?js c m1 ess" for c
        by (rule dir_showsI [OF that _ D(3)])
      obtain x d2 where M: "MergeFiles (wd_sizing wd) ?ins ?p ?opts d1 = Some (x, d2)"
        using MergeFiles_returns by (metis prod.exhaust)
      show ?thesis
      proof (cases x)
        case (Inl e)
        have "\<exists>r. DB_Compact wd db d = Some (r, db\<lparr>db_manif := m1\<rparr>, d2) \<or>
            DB_Compact wd db d = Some (r, db\<lparr>db_manif := m1\<rparr>, snd (dk_Remove ?p d2))"
          using Inl by (cases e) (auto simp: C CD M)
        moreover have "store_ok ?js (dk_content d2) m1 ess" "store_ok ?js (dk_content (snd (dk_Remove ?p d2))) m1 ess"
          by (rule store_ok_unlisted [OF B(2,6)];
            simp add: MergeFiles_others [OF M] dk_Remove_content [OF prod.collapse [symmetric]])+
        ultimately show ?thesis using keep by auto
      next
        case (Inr res)
        define ps where "ps = map in_Path ?ins"
        have dist: "distinct (map Reader_Path ?ts)" using names D(1) by (simp add: store_ok_def names_ok_def)
        note CI = compact_inputs_names [OF two dist, of ?files]
        have ps: "filter (\<lambda>n. n \<in> set ps) (map Reader_Path ?ts) = ps" using CI(1) by (simp add: ps_def)
        let ?ess1 = "pick_lists (\<lambda>n. n \<in> set ps) (map Reader_Path ?ts) ess"
        have hs: "list_all2 (holds_table (dk_content d1)) (map Reader_Path ?ts) ess"
          using store_ok_tables [OF B(2)] B(4) names by simp
        then have len: "length (map Reader_Path ?ts) = length ess" by (rule list_all2_lengthD)
        have hi: "list_all2 (\<lambda>inp es. holds_table (dk_content d1) (in_Path inp) es) ?ins ?ess1"
          using pick_lists_holds [OF hs, of "\<lambda>n. n \<in> set ps"] by (simp add: ps) (simp add: ps_def list_all2_map1)
        have small: "sum_list (map total_size ?ess1) < 2 ^ 31"
          using pick_lists_sum [OF len, where f = total_size and P = "\<lambda>n. n \<in> set ps"] F(1) u by simp
        have g1: "handles_ok d1" using Alloc_handles [OF A] g by simp
        from MergeFiles_faults [OF M [unfolded Inr] g1 CI(2) hi sz small] obtain out b j where
          G: "res_OutputPath res = ?p" "res_Meta res = table_meta ?p out (length b)" "res_Removed res = ps"
          "merged (merge_opts ?opts) ?ess1 out" "is_table b out" "dk_content d2 = (dk_content d1)(?p \<mapsto> b)"
          by (auto simp: ps_def)
        note V = compact_merge_fits [OF D(2) len G(4)]
        let ?db1 = "db\<lparr>db_manif := m1\<rparr>"
        obtain r db' d' where I: "DB_install wd res ?db1 d2 = (r, db', d')" by (metis prod.exhaust)
        have "\<forall>e\<in>set (concat ess). se_Seq e \<le> st_LogSeq (mf_state m1)" using B(2) by (simp add: store_ok_def)
        note seqs = V(1) [OF this]
        have IF: "store_ok ?js (dk_content d') m1 ess \<or> (\<exists>m'. store_ok ?js (dk_content d') m'
              (pick_lists (\<lambda>n. n \<notin> set ps) (map Reader_Path ?ts) ess @ [out]) \<and>
            st_NextFile (mf_state m') = st_NextFile (mf_state m1) \<and> st_LogSeq (mf_state m') = st_LogSeq (mf_state m1))"
          using DB_install_faults [OF I js G(6), where ess = ess and out = out and ps = ps] B(2,4,6) names n1(2) G(1-3,5) seqs ps
          by simp
        from IF have "dir_shows wd (u + 1) M rs (dk_content d')"
        proof (elim disjE exE conjE)
          fix m' assume m': "store_ok ?js (dk_content d') m' (pick_lists (\<lambda>n. n \<notin> set ps) (map Reader_Path ?ts) ess @ [out])"
            "st_NextFile (mf_state m') = st_NextFile (mf_state m1)" "st_LogSeq (mf_state m') = st_LogSeq (mf_state m1)"
          show ?thesis
            by (rule dir_showsI [OF m'(1) V(2)]) (use m'(2,3) n1(1) B(5) V(3) D(3) in simp_all)
        qed (rule keep)
        with I DB_install_wal [OF I] Inr show ?thesis by (simp add: C CD M)
      qed
    qed
  qed
qed

end
