(* ===== verification/Lsmkv_Crash.thy ===== *)
theory Lsmkv_Crash imports Lsmkv_Compact_Faults "HOL-Library.Sublist" begin

text \<open>
  An operation that is interrupted.  From some moment on any calls of the operating system fail, in the middle of
  a put, a delete, a batch, a sync, a flush or a compaction, and then the process dies.  What the log's file holds
  afterwards is \<^verbatim>\<open>survives\<close>: what was last synced, or a prefix of what was written since.  The directory
  then opens again with the write made as a whole or not at all, and made if it had been acknowledged.
\<close>

section \<open>What is left of the log\<close>

definition survives :: "os_file \<Rightarrow> bytes \<Rightarrow> bool" where
  "survives f c =
     (c = f_stable f \<or>
      prefix c (f_data f) \<and> (\<forall>p. prefix p (f_data f) \<longrightarrow> prefix p (f_stable f) \<longrightarrow> prefix p c))"

definition log_synced :: "wframe list \<Rightarrow> Log \<Rightarrow> bool" where
  "log_synced frs l = (log_abs frs l \<and> (\<exists>b. stops b \<and> f_stable (lg_f l) = frames_bytes frs @ b))"

lemma stops_Nil [simp]: "stops []"
  using stops_torn torn_Nil by blast

lemma survives_files:
  assumes "f_data f = frames_bytes frs" and "f_stable f = frames_bytes frs @ b" and "stops b" and "survives f c"
  shows "\<exists>b. stops b \<and> c = frames_bytes frs @ b"
proof (cases "c = f_stable f")
  case True
  with assms(2,3) show ?thesis by blast
next
  case False
  with assms(1,2,4) have "prefix c (frames_bytes frs)" "prefix (frames_bytes frs) c" by (auto simp: survives_def)
  then have "c = frames_bytes frs @ []" by (simp add: prefix_order.antisym)
  then show ?thesis using stops_Nil by blast
qed

lemma synced_survives:
  assumes "log_synced frs l" and "survives (lg_f l) c"
  shows "\<exists>b. stops b \<and> c = frames_bytes frs @ b"
  using assms survives_files by (auto simp: log_synced_def log_abs_def)

lemma reset_survives:
  assumes "log_synced frs l" and R: "Log_Reset l = (e, l')" and c: "survives (lg_f l') c"
  shows "c = [] \<or> (\<exists>b. stops b \<and> c = frames_bytes frs @ b)"
proof -
  from assms(1) obtain b where b: "\<not> lg_closed l" "f_data (lg_f l) = frames_bytes frs" "stops b"
    "f_stable (lg_f l) = frames_bytes frs @ b" by (auto simp: log_synced_def log_abs_def)
  have "f_data (lg_f l') = [] \<and> (f_stable (lg_f l') = [] \<or> f_stable (lg_f l') = f_stable (lg_f l)) \<or>
    f_data (lg_f l') = f_data (lg_f l) \<and> f_stable (lg_f l') = f_stable (lg_f l)"
    using R b(1) by (auto simp: Log_Reset_def f_truncate_def f_seek_def f_sync_def f_next_def
      split: option.splits prod.splits)
  then show ?thesis
  proof (elim disjE conjE)
    assume "f_data (lg_f l') = f_data (lg_f l)" "f_stable (lg_f l') = f_stable (lg_f l)"
    with survives_files [of "lg_f l'" frs b c] b c show ?thesis by simp
  qed (use b c in \<open>auto simp: survives_def\<close>)
qed

lemma append_stable:
  assumes "append_frame fr s l = ((sq, r), l')" and "log_abs frs l"
  shows "f_stable (lg_f l') \<in> {f_stable (lg_f l), f_data (lg_f l')}"
proof -
  obtain e1 l1 where w: "Log_writeFrame (frame_type fr) (frame_payload fr) l = (e1, l1)" by fastforce
  have "f_stable (lg_f l1) = f_stable (lg_f l)" using writeFrame_outcome(4) [OF w assms(2)] by simp
  moreover have "f_stable (lg_f l2) \<in> {f_stable (lg_f l1), f_data (lg_f l2)}" if "Log_maybeSync l1 = (e, l2)" for e l2
    using that by (auto simp: Log_maybeSync_def f_sync_def f_next_def split: if_splits option.splits prod.splits)
  ultimately show ?thesis
    using assms(1) by (cases e1) (auto simp: append_frame_def w split: prod.splits)
qed

lemma append_survives:
  assumes sy: "log_synced frs l" and "frame_ok fr" and A: "append_frame fr s (l\<lparr>lg_nextSeq := s'\<rparr>) = ((sq, r), l')"
    and c: "survives (lg_f l') c"
  shows "\<exists>frs'. (frs' = frs \<or> frs' = frs @ [fr]) \<and> (\<exists>b. stops b \<and> c = frames_bytes frs' @ b)"
proof -
  let ?F = "frames_bytes frs" and ?l = "l\<lparr>lg_nextSeq := s'\<rparr>"
  from sy obtain b where l: "log_abs frs ?l" "f_data (lg_f l) = ?F" "stops b" "f_stable (lg_f l) = ?F @ b"
    by (auto simp: log_synced_def log_abs_def)
  note O = append_frame_outcome [OF A l(1)]
  from O(3) obtain n where n: "f_data (lg_f l') = ?F @ take n (frame_bytes fr)" by blast
  have done_: ?thesis if "c = ?F @ take k (frame_bytes fr)" for k
  proof (cases "k < length (frame_bytes fr)")
    case True
    then have "stops (take k (frame_bytes fr))" using assms(2) stops_torn by (auto simp: torn_def)
    with that show ?thesis by blast
  next
    case False
    with that have "c = frames_bytes (frs @ [fr]) @ []" by simp
    then show ?thesis using stops_Nil by blast
  qed
  have st: "f_stable (lg_f l') = ?F @ b \<or> f_stable (lg_f l') = f_data (lg_f l')"
    using append_stable [OF A l(1)] l(4) by simp
  show ?thesis
  proof (cases "c = ?F @ b \<or> c = f_data (lg_f l')")
    case True
    with l(3) n done_ show ?thesis by blast
  next
    case False
    with c st have p: "prefix c (f_data (lg_f l'))" "prefix ?F c" using n by (auto simp: survives_def)
    then obtain x where x: "c = ?F @ x" "prefix x (take n (frame_bytes fr))" using n by (auto simp: prefix_def)
    then have "x = take (length x) (frame_bytes fr)"
      by (metis append_eq_conv_conj prefix_def take_is_prefix prefix_order.trans)
    with x(1) done_ show ?thesis by metis
  qed
qed

section \<open>The directory after the crash\<close>

text \<open>The process is gone, its lock file with it, the log's file holds \<^verbatim>\<open>c\<close>, and calls succeed again.\<close>

definition db_restart :: "bytes \<Rightarrow> disk \<Rightarrow> disk" where
  "db_restart c d =
     d\<lparr>dk_files := (dk_files d)(log_path \<mapsto> (c, dk_clock d (dk_tick d)), defaultLockName := None),
       dk_fault := (\<lambda>_. None), dk_ffault := (\<lambda>_ _. None)\<rparr>"

definition recovers :: "world \<Rightarrow> nat \<Rightarrow> (bytes \<Rightarrow> bytes option) set \<Rightarrow> DB \<Rightarrow> disk \<Rightarrow> bool" where
  "recovers wd u Ms db d =
     (\<forall>c. survives (lg_f (db_wal db)) c \<longrightarrow> (\<exists>M\<in>Ms. dir_holds wd u M (dk_content (db_restart c d))))"

lemma db_restart_simps [simp]:
  "dk_reliable (db_restart c d)"
  "dk_content (db_restart c d) = (dk_content d)(log_path \<mapsto> c, defaultLockName := None)"
  by (auto simp: db_restart_def dk_reliable_def dk_content_def fun_eq_iff)

lemma dir_shows_restart:
  assumes "dir_shows wd u M (frames_records frs) (dk_content d)" and "list_all frame_ok frs" and "stops b"
  shows "dir_holds wd u M (dk_content (db_restart (frames_bytes frs @ b) d))"
proof -
  from assms(1) obtain m ess where "store_ok (wd_codec wd) (dk_content d) m ess" and F: "fits_in u m ess (frames_records frs)"
    "shows_map ess (frames_records frs) M" by (auto simp: dir_shows_def)
  from this(1) have "store_ok (wd_codec wd) (dk_content (db_restart (frames_bytes frs @ b) d)) m ess"
    by (rule store_ok_other) simp
  moreover have "log_content (dk_content (db_restart (frames_bytes frs @ b) d)) = frames_bytes frs @ b"
    by (simp add: log_content_def)
  ultimately show ?thesis unfolding dir_holds_def using F assms(2,3) by blast
qed

lemma recovers_synced:
  assumes "dir_shows wd u M (frames_records frs) (dk_content d)" and "log_synced frs (db_wal db)" and "M \<in> Ms"
  shows "recovers wd u Ms db d"
  unfolding recovers_def
proof (intro allI impI)
  fix c assume "survives (lg_f (db_wal db)) c"
  from synced_survives [OF assms(2) this] obtain b where b: "stops b" "c = frames_bytes frs @ b" by blast
  have "list_all frame_ok frs" using assms(2) by (simp add: log_synced_def log_abs_def)
  from dir_shows_restart [OF assms(1) this b(1)] b(2) assms(3)
  show "\<exists>M\<in>Ms. dir_holds wd u M (dk_content (db_restart c d))" by blast
qed

lemma flush_recovers:
  assumes wd: "world_ok wd" and data: "db_data wd u M (frames_records frs) db d" and sy: "log_synced frs (db_wal db)"
    and u: "u + 1 < 2 ^ 31"
  shows "\<exists>r db' d'. DB_flushLocked wd db d = Some (r, db', d') \<and> recovers wd (2 * u + 1) {M} db' d'"
proof -
  from DB_flush_faults [OF wd data u] obtain r db' d' where F: "DB_flushLocked wd db d = Some (r, db', d')"
    "dir_shows wd (2 * u + 1) M (frames_records frs) (dk_content d')" and
    W: "db_wal db' = db_wal db \<or> (\<exists>e l. Log_Reset (db_wal db) = (e, l) \<and> lg_f (db_wal db') = lg_f l \<and>
      dir_shows wd (2 * u + 1) M [] (dk_content d'))" by blast
  have ok: "list_all frame_ok frs" using sy by (simp add: log_synced_def log_abs_def)
  from W have "recovers wd (2 * u + 1) {M} db' d'"
  proof (elim disjE exE conjE)
    assume "db_wal db' = db_wal db"
    with recovers_synced [OF F(2), of db'] sy show ?thesis by simp
  next
    fix e l assume l: "Log_Reset (db_wal db) = (e, l)" "lg_f (db_wal db') = lg_f l"
      and e: "dir_shows wd (2 * u + 1) M [] (dk_content d')"
    show ?thesis
      unfolding recovers_def
    proof (intro allI impI)
      fix c assume "survives (lg_f (db_wal db')) c"
      with reset_survives [OF sy l(1)] l(2) have "c = [] \<or> (\<exists>b. stops b \<and> c = frames_bytes frs @ b)" by simp
      then show "\<exists>M\<in>{M}. dir_holds wd (2 * u + 1) M (dk_content (db_restart c d'))"
        using dir_shows_restart [OF F(2) ok] dir_shows_restart [of wd "2 * u + 1" M "[]" d' "[]"] e by auto
    qed
  qed
  with F(1) show ?thesis by blast
qed

lemma maybeFlush_recovers:
  assumes "world_ok wd" and "db_data wd u M (frames_records frs) db d" and "log_synced frs (db_wal db)" and "u + 1 < 2 ^ 31"
  shows "\<exists>r db' d'. DB_maybeFlush wd db d = Some (r, db', d') \<and> recovers wd (2 * u + 1) {M} db' d'"
proof (cases "MemTable_ShouldFlush (db_mem db)")
  case True
  with flush_recovers [OF assms] show ?thesis by (simp add: DB_maybeFlush_def)
next
  case False
  have "dir_shows wd (2 * u + 1) M (frames_records frs) (dk_content d)"
    by (rule dir_shows_mono [OF db_data_dir [OF assms(2)]]) simp
  with recovers_synced [OF this assms(3)] False show ?thesis by (simp add: DB_maybeFlush_def)
qed

section \<open>Writing\<close>

text \<open>An open database about whose next calls nothing is said.\<close>

definition db_armed :: "world \<Rightarrow> nat \<Rightarrow> (bytes \<Rightarrow> bytes option) \<Rightarrow> wframe list \<Rightarrow> DB \<Rightarrow> disk \<Rightarrow> bool" where
  "db_armed wd u M frs db d =
     (\<not> db_closed db \<and> ready db \<and> db_data wd u M (frames_records frs) db d \<and> log_synced frs (db_wal db) \<and>
      seqs_below frs (db_wal db) \<and> st_LogSeq (mf_state (db_manif db)) \<le> lg_nextSeq (db_wal db) \<and>
      unat (lg_nextSeq (db_wal db)) \<le> u \<and>
      map Reader_Path (db_tables db) = map fm_Name (st_Files (mf_state (db_manif db))))"

lemma append_recovers:
  assumes wd: "world_ok wd" and armed: "db_armed wd u M frs db d" and fr: "frame_ok fr"
    and seq: "lg_nextSeq (db_wal db) + of_nat n = s" and n: "u + n \<le> v" and v: "v + 1 < 2 ^ 31"
    and rs: "sorted_wrt (\<lambda>a b. rc_Seq a < rc_Seq b) (frame_records fr)"
      "\<forall>r\<in>set (frame_records fr). lg_nextSeq (db_wal db) < rc_Seq r \<and> rc_Seq r \<le> s \<and> sbytes (rc_Key r) \<noteq> []"
    and size: "u + total_size (map record_entry (frame_records fr)) \<le> v"
    and mem: "\<And>L. mt_rel (db_mem db) L \<Longrightarrow> \<exists>m' L'. step = Some m' \<and> mt_rel m' L' \<and>
      mem_entries L' = fold put_entry (map record_entry (frame_records fr)) (mem_entries L)"
    and M': "fold update (map record_entry (frame_records fr)) M = M'"
  shows "\<exists>sq r l. append_frame fr s ((db_wal db)\<lparr>lg_nextSeq := s\<rparr>) = ((sq, r), l) \<and> lg_nextSeq l = s \<and>
    (r \<noteq> None \<longrightarrow> recovers wd (2 * v + 1) {M, M'} (db\<lparr>db_wal := l\<rparr>) d) \<and>
    (r = None \<longrightarrow> sq = s \<and> (\<exists>m' e db' d'. step = Some m' \<and>
      DB_maybeFlush wd (db\<lparr>db_wal := l, db_mem := m'\<rparr>) d = Some (e, db', d') \<and> recovers wd (2 * v + 1) {M'} db' d'))"
proof -
  let ?s = "lg_nextSeq (db_wal db)" and ?rs = "frames_records frs" and ?l = "(db_wal db)\<lparr>lg_nextSeq := s\<rparr>"
  have R: "ready db" "log_synced frs (db_wal db)" "seqs_below frs (db_wal db)"
    "st_LogSeq (mf_state (db_manif db)) \<le> ?s" "unat ?s \<le> u" using armed by (simp_all add: db_armed_def)
  from armed obtain ess L where D: "mt_rel (db_mem db) L" "mem_entries L = replayed ?rs"
    "store_ok (wd_codec wd) (dk_content d) (db_manif db) ess" "fits_in u (db_manif db) ess ?rs" "shows_map ess ?rs M"
    by (auto simp: db_armed_def db_data_def)
  have us: "unat s = unat ?s + n" using R(5) n v by (auto simp: seq [symmetric] unat_word_ariths unat_of_nat)
  then have s: "unat s \<le> v" using R(5) n by simp
  have rs': "\<forall>r\<in>set (frame_records fr). ?s < rc_Seq r \<and> unat (rc_Seq r) \<le> v \<and> sbytes (rc_Key r) \<noteq> []"
    using rs(2) s by (auto simp: word_le_nat_alt)
  note F = fits_in_append [OF D(4,3) R(3) [unfolded seqs_below_def] R(4) rs(1) rs' size]
  have F2: "shows_map ess (frames_records (frs @ [fr])) M'"
    using F(2) D(5) M' by (simp add: shows_map_def)
  have fits: "fits_in v (db_manif db) ess ?rs" by (rule fits_in_mono [OF D(4)]) (use n in simp)
  have abs: "log_abs frs ?l" using R(2) by (simp add: log_synced_def)
  obtain sq r l where A: "append_frame fr s ?l = ((sq, r), l)" by (metis prod.exhaust)
  note O = append_frame_outcome [OF A abs]
  have ok: "list_all frame_ok (frs @ [fr])" using abs fr by (simp add: log_abs_def)
  show ?thesis
  proof (cases r)
    case None
    from O(2) [OF None] R(1) have l: "sq = s" "log_synced (frs @ [fr]) l"
      by (auto simp: ready_def durable_def log_synced_def log_abs_def intro: exI [of _ "[]"])
    from mem [OF D(1)] obtain m' L' where m': "step = Some m'" "mt_rel m' L'"
      "mem_entries L' = replayed (frames_records (frs @ [fr]))" using D(2) by auto
    let ?db = "db\<lparr>db_wal := l, db_mem := m'\<rparr>"
    have "db_data wd v M' (frames_records (frs @ [fr])) ?db d"
      unfolding db_data_def using m'(2,3) D(3) F(1) F2 by auto
    from maybeFlush_recovers [OF wd this _ v] l(2) m'(1) None A l(1) O(5) show ?thesis by auto
  next
    case (Some e)
    have "recovers wd (2 * v + 1) {M, M'} (db\<lparr>db_wal := l\<rparr>) d"
      unfolding recovers_def
    proof (intro allI impI)
      fix c assume "survives (lg_f (db_wal (db\<lparr>db_wal := l\<rparr>))) c"
      then have "survives (lg_f l) c" by simp
      from append_survives [OF R(2) fr A this] obtain frs' b where
        c: "frs' = frs \<or> frs' = frs @ [fr]" "stops b" "c = frames_bytes frs' @ b" by blast
      have "fits_in v (db_manif db) ess (frames_records frs') \<and>
        (shows_map ess (frames_records frs') M \<or> shows_map ess (frames_records frs') M')"
        using c(1) fits D(5) F(1) F2 by auto
      then obtain M1 where M1: "M1 \<in> {M, M'}" "fits_in v (db_manif db) ess (frames_records frs')"
        "shows_map ess (frames_records frs') M1" by blast
      have ok': "list_all frame_ok frs'" using c(1) ok by auto
      have "dir_shows wd (2 * v + 1) M1 (frames_records frs') (dk_content d)"
        by (rule dir_shows_mono [OF dir_showsI [OF D(3) M1(2,3)]]) simp
      from dir_shows_restart [OF this ok' c(2)] M1(1) c(3)
      show "\<exists>M\<in>{M, M'}. dir_holds wd (2 * v + 1) M (dk_content (db_restart c d))" by blast
    qed
    with A Some O(5) show ?thesis by auto
  qed
qed

definition written :: "error option \<Rightarrow> (bytes \<Rightarrow> bytes option) \<Rightarrow> (bytes \<Rightarrow> bytes option) \<Rightarrow> (bytes \<Rightarrow> bytes option) set" where
  "written r M M' = (if r = None then {M'} else {M, M'})"

lemma recovers_mono:
  assumes "recovers wd u Ms db d" and "Ms \<subseteq> Ms'" and "u \<le> v"
  shows "recovers wd v Ms' db d"
proof -
  have "dir_holds wd u M c \<Longrightarrow> dir_holds wd v M c" for M c
    unfolding dir_holds_def using fits_in_mono [OF _ assms(3)] by blast
  with assms(1,2) show ?thesis unfolding recovers_def by blast
qed

lemma armed_log:
  assumes "db_armed wd u M frs db d"
  shows "DB_writable db = None" "log_abs frs (db_wal db)" "unat (lg_nextSeq (db_wal db)) \<le> u"
  using assms by (simp_all add: db_armed_def DB_writable_def ready_def log_synced_def)

lemma armed_synced: "db_armed wd u M frs db d \<Longrightarrow>
    log_synced frs (db_wal db) \<and> dir_shows wd u M (frames_records frs) (dk_content d)"
  using db_data_dir [of wd u M "frames_records frs" db d] by (simp add: db_armed_def)

text \<open>The common end of the three writes; \<^verbatim>\<open>step\<close> puts the records in the memtable.\<close>

definition write_end ::
  "world \<Rightarrow> (u64 \<times> error option) \<times> Log \<Rightarrow> (u64 \<Rightarrow> Log \<Rightarrow> MemTable option) \<Rightarrow> DB \<Rightarrow> disk \<Rightarrow> (error option \<times> DB \<times> disk) option" where
  "write_end wd a step db d =
     (case a of
        ((_, Some e), l) \<Rightarrow> Some (Some e, db\<lparr>db_wal := l\<rparr>, d)
      | ((seq, None), l) \<Rightarrow>
          (case step seq l of None \<Rightarrow> None | Some m \<Rightarrow> DB_maybeFlush wd (db\<lparr>db_wal := l, db_mem := m\<rparr>) d))"

lemma write_end_recovers:
  assumes wd: "world_ok wd" and armed: "db_armed wd u M frs db d" and fr: "frame_ok fr"
    and seq: "lg_nextSeq (db_wal db) + of_nat n = s" and n: "u + n \<le> v" and v: "v + 1 < 2 ^ 31"
    and rs: "sorted_wrt (\<lambda>a b. rc_Seq a < rc_Seq b) (frame_records fr)"
      "\<forall>r\<in>set (frame_records fr). lg_nextSeq (db_wal db) < rc_Seq r \<and> rc_Seq r \<le> s \<and> sbytes (rc_Key r) \<noteq> []"
    and size: "u + total_size (map record_entry (frame_records fr)) \<le> v"
    and mem: "\<And>L l. mt_rel (db_mem db) L \<Longrightarrow> lg_nextSeq l = s \<Longrightarrow> \<exists>m' L'. step s l = Some m' \<and> mt_rel m' L' \<and>
      mem_entries L' = fold put_entry (map record_entry (frame_records fr)) (mem_entries L)"
    and M': "fold update (map record_entry (frame_records fr)) M = M'" and a: "a = append_frame fr s ((db_wal db)\<lparr>lg_nextSeq := s\<rparr>)"
    and w: "v + 1 = w"
  shows "\<exists>r db' d'. write_end wd a step db d = Some (r, db', d') \<and> recovers wd (2 * w) (written r M M') db' d'"
proof -
  obtain sq r l where A: "append_frame fr s ((db_wal db)\<lparr>lg_nextSeq := s\<rparr>) = ((sq, r), l)" by (metis prod.exhaust)
  have abs: "log_abs frs ((db_wal db)\<lparr>lg_nextSeq := s\<rparr>)" using armed_log(2) [OF armed] by simp
  have l: "lg_nextSeq l = s" using append_frame_outcome(5) [OF A abs] by simp
  note R = append_recovers [OF wd armed fr seq n v rs size mem [OF _ l] M', unfolded A]
  show ?thesis
  proof (cases r)
    case None
    with R obtain m' e db' d' where 1: "sq = s" "step s l = Some m'"
      "DB_maybeFlush wd (db\<lparr>db_wal := l, db_mem := m'\<rparr>) d = Some (e, db', d')" "recovers wd (2 * v + 1) {M'} db' d'" by auto
    from recovers_mono [OF 1(4), of "written e M M'" "2 * w"] 1 None a A w show ?thesis
      by (simp add: write_end_def written_def)
  next
    case (Some e)
    with R have "recovers wd (2 * v + 1) {M, M'} (db\<lparr>db_wal := l\<rparr>) d" by auto
    from recovers_mono [OF this, of "{M, M'}" "2 * w"] Some a A w show ?thesis
      by (simp add: write_end_def written_def)
  qed
qed

lemma DB_Put_recovers:
  assumes "world_ok wd" and armed: "db_armed wd u M frs db d" and key: "sbytes key \<noteq> []"
    and "length (sbytes key) + length (sbytes val) + 30 \<le> 2 ^ 28"
    and v: "u + (length (sbytes key) + length (sbytes val) + 65) < 2 ^ 31"
  shows "\<exists>r db' d'. DB_Put wd key val db d = Some (r, db', d') \<and>
    recovers wd (2 * (u + (length (sbytes key) + length (sbytes val) + 65))) (written r M (M(sbytes key \<mapsto> sbytes val))) db' d'"
proof -
  let ?s = "lg_nextSeq (db_wal db)" and ?v = "u + (length (sbytes key) + length (sbytes val) + 64)"
  let ?fr = "FPut (?s + 1) (sbytes key) (sbytes val)" and ?step = "\<lambda>sq l. MemTable_Put key val sq (db_mem db)"
  note l = armed_log [OF armed]
  have lt: "?s < ?s + 1" by (rule next_seq) (use l(3) v in simp)
  have e: "map record_entry (frame_records ?fr) = [entry_of (sbytes key) (sbytes val) (?s + 1) False]"
    by (simp add: record_entry_def)
  have "\<exists>r db' d'. write_end wd (Log_AppendPut (sbytes key) (sbytes val) (db_wal db)) ?step db d = Some (r, db', d') \<and>
    recovers wd (2 * (u + (length (sbytes key) + length (sbytes val) + 65))) (written r M (M(sbytes key \<mapsto> sbytes val))) db' d'"
  proof (rule write_end_recovers [OF assms(1) armed, where n = 1 and v = ?v])
    show "\<exists>m' L'. MemTable_Put key val (?s + 1) (db_mem db) = Some m' \<and> mt_rel m' L' \<and>
      mem_entries L' = fold put_entry (map record_entry (frame_records ?fr)) (mem_entries L)" if "mt_rel (db_mem db) L" for L
      using mt.put_rel [OF that] unfolding e by (fastforce simp: mem_entries_set)
    show "fold update (map record_entry (frame_records ?fr)) M = M(sbytes key \<mapsto> sbytes val)"
      unfolding e by (simp add: update_def visible_def)
  qed (use v lt key frame_ok_kv [OF assms(4)] AppendPut_eq [OF l(2)] in \<open>simp_all only: e, simp_all\<close>)
  with key l(1) show ?thesis by (simp add: DB_Put_def write_end_def)
qed

lemma DB_Delete_recovers:
  assumes "world_ok wd" and armed: "db_armed wd u M frs db d" and key: "sbytes key \<noteq> []"
    and "length (sbytes key) + 30 \<le> 2 ^ 28" and v: "u + (length (sbytes key) + 65) < 2 ^ 31"
  shows "\<exists>r db' d'. DB_Delete wd key db d = Some (r, db', d') \<and>
    recovers wd (2 * (u + (length (sbytes key) + 65))) (written r M (M(sbytes key := None))) db' d'"
proof -
  let ?s = "lg_nextSeq (db_wal db)" and ?v = "u + (length (sbytes key) + 64)"
  let ?fr = "FDelete (?s + 1) (sbytes key)" and ?step = "\<lambda>sq l. MemTable_Delete key sq (db_mem db)"
  note l = armed_log [OF armed]
  have lt: "?s < ?s + 1" by (rule next_seq) (use l(3) v in simp)
  have e: "map record_entry (frame_records ?fr) = [entry_of (sbytes key) [] (?s + 1) True]"
    by (simp add: record_entry_def)
  have "\<exists>r db' d'. write_end wd (Log_AppendDelete (sbytes key) (db_wal db)) ?step db d = Some (r, db', d') \<and>
    recovers wd (2 * (u + (length (sbytes key) + 65))) (written r M (M(sbytes key := None))) db' d'"
  proof (rule write_end_recovers [OF assms(1) armed, where n = 1 and v = ?v])
    show "\<exists>m' L'. MemTable_Delete key (?s + 1) (db_mem db) = Some m' \<and> mt_rel m' L' \<and>
      mem_entries L' = fold put_entry (map record_entry (frame_records ?fr)) (mem_entries L)" if "mt_rel (db_mem db) L" for L
      using mt.del_rel [OF that] unfolding e by (fastforce simp: mem_entries_set)
    show "fold update (map record_entry (frame_records ?fr)) M = M(sbytes key := None)"
      unfolding e by (simp add: update_def visible_def)
  qed (use v lt key frame_ok_kv [of "sbytes key" "[]"] assms(4) AppendDelete_eq [OF l(2)] in \<open>simp_all only: e, simp_all\<close>)
  with key l(1) show ?thesis by (simp add: DB_Delete_def write_end_def)
qed

lemma DB_Write_recovers:
  assumes "world_ok wd" and armed: "db_armed wd u M frs db d" and keys: "\<forall>e\<in>set es. sbytes (be_Key e) \<noteq> []"
    and "batch_size es + 10 \<le> 2 ^ 28" and v: "u + (batch_size es + 1) < 2 ^ 31"
  shows "\<exists>r db' d'. DB_Write wd (Some \<lparr>wb_entries = es\<rparr>) db d = Some (r, db', d') \<and>
    recovers wd (2 * (u + (batch_size es + 1))) (written r M (fold batch_update es M)) db' d'"
proof (cases "es = []")
  case True
  have "log_synced frs (db_wal db)" "dir_shows wd u M (frames_records frs) (dk_content d)"
    using armed_synced [OF armed] by simp_all
  from recovers_mono [OF recovers_synced [OF this(2,1)], of "{M}" "{M}" "2 * (u + 1)"] True show ?thesis
    by (simp add: DB_Write_def written_def)
next
  case False
  let ?s = "lg_nextSeq (db_wal db)" and ?v = "u + batch_size es" and ?n = "length es"
  let ?fr = "FBatch ?s es" and ?q = "?s + of_nat ?n"
  let ?step = "\<lambda>sq l. write_loop (Log_NextSeq l - 1 - of_nat ?n + 1) es (db_mem db)"
  note l = armed_log [OF armed]
  have n: "?n \<le> batch_size es" using length_batch_size [of es] by simp
  then have room: "unat ?s + ?n < 2 ^ 64" using l(3) v by simp
  have a: "Log_AppendBatch es (db_wal db) = append_frame ?fr ?q ((db_wal db)\<lparr>lg_nextSeq := ?q\<rparr>)"
    by (rule AppendBatch_eq [OF l(2) False])
  have "\<exists>r db' d'. write_end wd (Log_AppendBatch es (db_wal db)) ?step db d = Some (r, db', d') \<and>
    recovers wd (2 * (u + (batch_size es + 1))) (written r M (fold batch_update es M)) db' d'"
  proof (rule write_end_recovers [OF assms(1) armed, where n = ?n and v = ?v, OF _ refl])
    show "\<exists>m' L'. ?step ?q lg = Some m' \<and> mt_rel m' L' \<and>
      mem_entries L' = fold put_entry (map record_entry (frame_records ?fr)) (mem_entries L)"
      if "mt_rel (db_mem db) L" "lg_nextSeq lg = ?q" for L lg
    proof -
      have "Log_NextSeq lg - 1 - of_nat ?n + 1 = ?s + 1" by (simp add: Log_NextSeq_def that(2))
      with write_loop_mem [OF that(1), of ?s es] show ?thesis by simp
    qed
    show "\<forall>r\<in>set (frame_records ?fr). ?s < rc_Seq r \<and> rc_Seq r \<le> ?q \<and> sbytes (rc_Key r) \<noteq> []"
    proof
      fix r assume "r \<in> set (frame_records ?fr)"
      then have r: "r \<in> set (batch_records ?s es)" by simp
      from batch_records_seq [OF r room] batch_records_keys [OF r] keys
      show "?s < rc_Seq r \<and> rc_Seq r \<le> ?q \<and> sbytes (rc_Key r) \<noteq> []" by auto
    qed
    show "frame_ok ?fr" by (rule frame_ok_batch [OF assms(4)])
    show "sorted_wrt (\<lambda>a b. rc_Seq a < rc_Seq b) (frame_records ?fr)" using batch_records_sorted [OF room] by simp
    show "u + total_size (map record_entry (frame_records ?fr)) \<le> ?v" using batch_records_size [of ?s es] by simp
    show "fold update (map record_entry (frame_records ?fr)) M = fold batch_update es M" by (simp add: batch_updates)
  qed (use n v a in simp_all)
  with False l(1) show ?thesis by (simp add: DB_Write_def write_end_def Let_def)
qed

lemma DB_Flush_recovers:
  assumes "world_ok wd" and armed: "db_armed wd u M frs db d" and "u + 1 < 2 ^ 31"
  shows "\<exists>r db' d'. DB_Flush wd db d = Some (r, db', d') \<and> recovers wd (2 * (u + 1)) {M} db' d'"
proof -
  have "db_data wd u M (frames_records frs) db d" "log_synced frs (db_wal db)" using armed by (simp_all add: db_armed_def)
  from flush_recovers [OF assms(1) this assms(3)] obtain r db' d' where
    f: "DB_flushLocked wd db d = Some (r, db', d')" "recovers wd (2 * u + 1) {M} db' d'" by blast
  from recovers_mono [OF f(2), of "{M}" "2 * (u + 1)"] f(1) armed_log(1) [OF armed] show ?thesis by (simp add: DB_Flush_def)
qed

lemma DB_Sync_recovers:
  assumes armed: "db_armed wd u M frs db d"
  shows "\<exists>r db'. DB_Sync db = (r, db') \<and> recovers wd (2 * (u + 1)) {M} db' d"
proof -
  have a: "\<not> db_closed db" "log_synced frs (db_wal db)" "dir_shows wd u M (frames_records frs) (dk_content d)"
    using armed_synced [OF armed] armed by (simp_all add: db_armed_def)
  then have c: "\<not> lg_closed (db_wal db)" by (simp add: log_synced_def log_abs_def)
  obtain e f where s: "f_sync (lg_f (db_wal db)) = (e, f)" by fastforce
  have "f_stable f \<in> {f_stable (lg_f (db_wal db)), f_data f}" using f_sync_cases [OF s] by (cases e) auto
  then have "log_synced frs ((db_wal db)\<lparr>lg_f := f\<rparr>)"
    using a(2) f_sync_cases(1,2) [OF s] stops_Nil by (auto simp: log_synced_def log_abs_def)
  then have "log_synced frs (db_wal (db\<lparr>db_wal := (db_wal db)\<lparr>lg_f := f\<rparr>\<rparr>))" by simp
  from recovers_mono [OF recovers_synced [OF a(3) this], of "{M}" "{M}" "2 * (u + 1)"] a(1) c s show ?thesis
    by (auto simp: DB_Sync_def Log_Sync_def)
qed

lemma DB_Compact_recovers:
  assumes wd: "world_ok wd" and armed: "db_armed wd u M frs db d" and u: "u + 1 < 2 ^ 31" and g: "handles_ok d"
  shows "\<exists>r db' d'. DB_Compact wd db d = Some (r, db', d') \<and> recovers wd (2 * (u + 1)) {M} db' d'"
proof -
  have a: "db_data wd u M (frames_records frs) db d" "log_synced frs (db_wal db)"
    "map Reader_Path (db_tables db) = map fm_Name (st_Files (mf_state (db_manif db)))"
    using armed by (simp_all add: db_armed_def)
  from DB_Compact_faults [OF wd a(1) u g a(3)] obtain r db' d' where
    c: "DB_Compact wd db d = Some (r, db', d')" "db_wal db' = db_wal db" "dir_shows wd (u + 1) M (frames_records frs) (dk_content d')"
    by blast
  from recovers_mono [OF recovers_synced [OF c(3), of db' "{M}"], of "{M}" "2 * (u + 1)"] a(2) c(1,2) show ?thesis by simp
qed

section \<open>An interrupted operation\<close>

fun op_writes :: "db_op \<Rightarrow> bool" where
  "op_writes (OpPut k v) = True"
| "op_writes (OpDelete k) = True"
| "op_writes (OpWrite es) = True"
| "op_writes OpSync = True"
| "op_writes OpFlush = True"
| "op_writes OpCompact = True"
| "op_writes _ = False"

lemma db_step_recovers:
  assumes wd: "world_ok wd" and armed: "db_armed wd u M frs db d" and "op_writes op" and ok: "op_valid op"
    and room: "u + op_room op < 2 ^ 31" and g: "op = OpCompact \<longrightarrow> handles_ok d"
  shows "\<exists>r db' d'. db_step wd dir op db d = Some (Done r, db', d') \<and>
    recovers wd (2 * (u + op_room op)) (written r M (snd (map_step op M))) db' d'"
proof (cases op)
  case (OpPut k v)
  with DB_Put_recovers [OF wd armed, of k v] ok room show ?thesis by (auto simp: finished_def)
next
  case (OpDelete k)
  with DB_Delete_recovers [OF wd armed, of k] ok room show ?thesis by (auto simp: finished_def)
next
  case (OpWrite es)
  with DB_Write_recovers [OF wd armed, of es] ok room show ?thesis by (auto simp: finished_def list_all_iff)
next
  case OpSync
  with DB_Sync_recovers [OF armed] show ?thesis by (auto simp: written_def)
next
  case OpFlush
  with DB_Flush_recovers [OF wd armed] room show ?thesis by (auto simp: finished_def written_def)
next
  case OpCompact
  with DB_Compact_recovers [OF wd armed] room g show ?thesis by (auto simp: finished_def written_def)
qed (use assms(3) in simp_all)

text \<open>From now on the calls on the log's file fail as \<^verbatim>\<open>h\<close> says.\<close>

definition db_faults :: "(nat \<Rightarrow> nat option) \<Rightarrow> DB \<Rightarrow> DB" where
  "db_faults h db = db\<lparr>db_wal := (db_wal db)\<lparr>lg_f := (lg_f (db_wal db))\<lparr>f_fault := h\<rparr>\<rparr>\<rparr>"

lemma db_rel_armed:
  assumes rel: "db_rel wd u M db d" and "ready db"
  shows "\<exists>frs. db_armed wd u M frs (db_faults h db) (d\<lparr>dk_fault := f, dk_ffault := g\<rparr>)"
proof -
  from rel obtain ess L frs where R: "\<not> db_closed db" "mt_rel (db_mem db) L" "mem_entries L = replayed (frames_records frs)"
    "store_ok (wd_codec wd) (dk_content d) (db_manif db) ess" "fits_in u (db_manif db) ess (frames_records frs)"
    "log_open frs (db_manif db) u (db_wal db)" "M = view (table_entries ess @ [replayed (frames_records frs)])"
    "map Reader_Path (db_tables db) = map fm_Name (st_Files (mf_state (db_manif db)))"
    by (auto elim: db_relE)
  have c: "dk_content (d\<lparr>dk_fault := f, dk_ffault := g\<rparr>) = dk_content d" by (simp add: dk_content_def fun_eq_iff)
  have "db_data wd u M (frames_records frs) (db_faults h db) (d\<lparr>dk_fault := f, dk_ffault := g\<rparr>)"
    unfolding db_data_def shows_map_def c using R(2-5,7) by (auto simp: db_faults_def)
  moreover have "log_synced frs (db_wal (db_faults h db))"
    using R(6) assms(2) by (auto simp: db_faults_def log_synced_def log_open_def log_abs_def ready_def)
  ultimately show ?thesis using R(1,6,8) assms(2)
    by (intro exI [of _ frs]) (simp add: db_armed_def db_faults_def ready_def durable_def log_open_def seqs_below_def)
qed

lemma map_run_snoc: "snd (map_run (ops @ [op]) M) = snd (map_step op (snd (map_run ops M)))"
  by (induction ops arbitrary: M) (simp_all add: split_def)



end
