(* ===== verification/Lsmkv_Goroutines.thy ===== *)
theory Lsmkv_Goroutines imports Lsmkv_Threads Lsmkv_Crash begin

text \<open>
  The goroutines of one database, proved: the lock keeps its readers and its writer apart
  (\<^verbatim>\<open>mu_ok\<close>), and whatever the interleaving, the operations have the results they have on a map one
  after the other (\<^verbatim>\<open>data_ok\<close>).
\<close>

section \<open>Reading under the shared lock\<close>

text \<open>The relation of an open database with the contents of its tables and of its memtable.\<close>

definition rel_at ::
  "world \<Rightarrow> nat \<Rightarrow> (bytes \<Rightarrow> bytes option) \<Rightarrow> sst_Entry list list \<Rightarrow> Entry list \<Rightarrow> DB \<Rightarrow> disk \<Rightarrow> bool" where
  "rel_at wd u M ess L db d =
     (dk_reliable d \<and> dk_content d log_path \<noteq> None \<and> \<not> db_closed db \<and> lock_open (db_lock db) \<and>
      mt_rel (db_mem db) L \<and> list_all2 reader_of ess (db_tables db) \<and>
      map Reader_Path (db_tables db) = map fm_Name (st_Files (mf_state (db_manif db))) \<and>
      (\<exists>frs. mem_entries L = replayed (frames_records frs) \<and>
        store_ok (wd_codec wd) (dk_content d) (db_manif db) ess \<and>
        fits_in u (db_manif db) ess (frames_records frs) \<and> log_open frs (db_manif db) u (db_wal db) \<and>
        shows_map ess (frames_records frs) M))"

lemma db_rel_at: "db_rel wd u M db d \<longleftrightarrow> (\<exists>ess L. rel_at wd u M ess L db d)"
  unfolding db_rel_def rel_at_def by blast

lemma rel_at_mono:
  assumes "rel_at wd u M ess L db d" and "u \<le> v"
  shows "rel_at wd v M ess L db d"
proof -
  have "fits_in u m ess rs \<Longrightarrow> fits_in v m ess rs" for m rs using assms(2) unfolding fits_in_def by (meson order_trans)
  moreover have "log_open frs m u l \<Longrightarrow> log_open frs m v l" for frs m l
    using assms(2) unfolding log_open_def by (meson order_trans)
  ultimately show ?thesis using assms(1) unfolding rel_at_def by blast
qed

lemma rel_at_tables:
  assumes "rel_at wd u M ess L db d" and "list_all2 reader_of ess ts" and "map Reader_Path ts = map Reader_Path (db_tables db)"
  shows "rel_at wd u M ess L (db\<lparr>db_tables := ts\<rparr>) d"
  using assms by (simp add: rel_at_def)

lemma rel_at_view:
  assumes "rel_at wd u M ess L db d"
  shows "M k = (case mem_map L k of Some e \<Rightarrow> visible (Some (stored (to_sst e))) | None \<Rightarrow> visible (lookup (table_entries ess) k))"
    and "fold better (rev (map (find_key k) (table_entries ess))) None = lookup (table_entries ess) k"
proof -
  from assms obtain frs where R: "mem_entries L = replayed (frames_records frs)" "fits_in u (db_manif db) ess (frames_records frs)"
    "M = view (table_entries ess @ [replayed (frames_records frs)])" by (auto simp: rel_at_def shows_map_def)
  let ?L = "replayed (frames_records frs)"
  have ok: "versions_ok (table_entries ess) ?L" using R(2) by (simp add: fits_in_def)
  have fk: "find_key k ?L = map_option (\<lambda>e. stored (to_sst e)) (mem_map L k)" using find_key_mem [of k L] R(1) by simp
  show "M k = (case mem_map L k of Some e \<Rightarrow> visible (Some (stored (to_sst e))) | None \<Rightarrow> visible (lookup (table_entries ess) k))"
    using lookup_memtable [OF ok, of k] fk by (simp add: R(3) view_def lookup_tables split: option.splits)
  show "fold better (rev (map (find_key k) (table_entries ess))) None = lookup (table_entries ess) k"
    by (rule fold_better_lookup [OF versions_okD(2) [OF ok]])
qed

text \<open>Where a lookup stands.\<close>

fun task_ok :: "sst_Entry list list \<Rightarrow> Entry list \<Rightarrow> (bytes \<Rightarrow> bytes option) \<Rightarrow> db_op \<Rightarrow> task \<Rightarrow> bool" where
  "task_ok ess L M op (Start op') = (op' = op)"
| "task_ok ess L M op (Ask has k i best) =
     (op = (if has then OpHas k else OpGet k) \<and> mem_map L (sbytes k) = None \<and> i \<le> length ess \<and>
      fold better (rev (map (find_key (sbytes k)) (take i (table_entries ess)))) best = lookup (table_entries ess) (sbytes k))"
| "task_ok ess L M op (Ended r) = (r = fst (map_step op M))"
| "task_ok ess L M op _ = False"

lemma get_result_map:
  assumes "map_sum id sbytes r = got (M (sbytes k))"
  shows "get_result has r = fst (map_step (if has then OpHas k else OpGet k) M)"
  using assms by (cases r; cases "M (sbytes k)") (auto simp: get_result_def got_def)

lemma best_result_got: "map_sum id sbytes (best_result c) = got (visible c)"
  by (auto simp: best_result_def got_def visible_def sval_def split: option.splits)

lemma start_get_ok:
  assumes "rel_at wd u M ess L db d" and "start_get has k db = Some t"
  shows "task_ok ess L M (if has then OpHas k else OpGet k) t"
proof (cases "mem_map L (sbytes k)")
  case (Some e)
  have "t = Ended (get_result has (if e_Deleted e then Inl lsmkv_ErrNotFound else Inr (Clone (e_Value e))))"
    using assms mt.get_rel [of "db_mem db" L k] by (simp add: start_get_def rel_at_def Some)
  moreover have "M (sbytes k) = visible (Some (stored (to_sst e)))" using rel_at_view(1) [OF assms(1)] Some by simp
  ultimately show ?thesis
    by (simp only: task_ok.simps, intro get_result_map) (simp add: got_def visible_def to_sst_def sval_def stored_def)
next
  case None
  have "length ess = length (db_tables db)" using assms(1) by (auto simp: rel_at_def dest: list_all2_lengthD)
  moreover have "t = Ask has k (length (db_tables db)) None"
    using assms mt.get_rel [of "db_mem db" L k] by (simp add: start_get_def rel_at_def None)
  ultimately show ?thesis using None rel_at_view(2) [OF assms(1), of "sbytes k"] by simp
qed

lemma ask_ok:
  assumes rel: "rel_at wd u M ess L db d" and ok: "task_ok ess L M op (Ask has k (Suc i) best)"
  shows "\<exists>best' t. task_step wd (Ask has k (Suc i) best) db d = Some (Ask has k i best', db\<lparr>db_tables := (db_tables db)[i := t]\<rparr>, d) \<and>
    task_ok ess L M op (Ask has k i best') \<and> rel_at wd u M ess L (db\<lparr>db_tables := (db_tables db)[i := t]\<rparr>) d"
proof -
  let ?ts = "db_tables db" and ?key = "sbytes k"
  have r: "list_all2 reader_of ess ?ts" using rel by (simp add: rel_at_def)
  have i: "i < length ess" "i < length ?ts" using ok list_all2_lengthD [OF r] by simp_all
  have "reader_of (ess ! i) (?ts ! i)" using r i by (simp add: list_all2_conv_all_nth)
  then obtain t where t: "Reader_Get ?key (?ts ! i) = (Inr (found (find_key ?key (map stored (ess ! i)))), t)"
    "reader_of (ess ! i) t" "Reader_Path t = Reader_Path (?ts ! i)"
    using Reader_Get_of [of "ess ! i" "?ts ! i" ?key] by (auto simp: table_lookup_stored)
  have "list_all2 reader_of ess (?ts[i := t])" using r t(2) i by (auto simp: list_all2_conv_all_nth nth_list_update)
  moreover have "map Reader_Path (?ts[i := t]) = map Reader_Path ?ts" using t(3) i by (simp add: map_update list_update_same_conv)
  ultimately have rel': "rel_at wd u M ess L (db\<lparr>db_tables := ?ts[i := t]\<rparr>) d" by (rule rel_at_tables [OF rel])
  let ?c = "find_key ?key (map stored (ess ! i))"
  have "(if snd (found ?c) \<and> (case best of None \<Rightarrow> True | Some b \<Rightarrow> se_Seq (fst (found ?c)) > se_Seq b)
      then Some (fst (found ?c)) else best) = better ?c best"
    by (cases ?c; cases best) (simp_all add: found_def better_def)
  then have "task_step wd (Ask has k (Suc i) best) db d = Some (Ask has k i (better ?c best), db\<lparr>db_tables := ?ts[i := t]\<rparr>, d)"
    using t(1) by (cases "found ?c") (simp only: task_step.simps prod.case sum.case fst_conv snd_conv)
  moreover have "task_ok ess L M op (Ask has k i (better ?c best))"
    using ok i by (simp add: take_Suc_conv_app_nth)
  ultimately show ?thesis using rel' by blast
qed

lemma shared_step:
  assumes rel: "rel_at wd u M ess L db d" and "shared_op op" and ok: "task_ok ess L M op k"
    and s: "task_step wd k db d = Some (k', db', d')"
  shows "d' = d \<and> rel_at wd u M ess L db' d \<and> task_ok ess L M op k' \<and> db_opts db' = db_opts db \<and> db_wal db' = db_wal db"
proof (cases k)
  case (Start op')
  with ok assms(2) consider x where "k = Start (OpGet x)" "op = OpGet x" | x where "k = Start (OpHas x)" "op = OpHas x"
    by (cases op) auto
  then show ?thesis
    by cases (use s rel start_get_ok [OF rel] in \<open>fastforce split: option.splits\<close>)+
next
  case (Ask has x i best)
  show ?thesis
  proof (cases i)
    case 0
    with Ask ok have "map_sum id sbytes (best_result best) = got (M (sbytes x))"
      using rel_at_view(1) [OF rel, of "sbytes x"] by (simp add: best_result_got)
    from get_result_map [where M = M and k = x, OF this] Ask 0 ok s rel show ?thesis by auto
  next
    case (Suc j)
    with ask_ok [OF rel, of op has x j best] Ask ok s show ?thesis by auto
  qed
qed (use ok s in auto)

lemma DB_NewIterator_at:
  assumes rel: "rel_at wd u M ess L db d" and it: "DB_NewIterator db = Some (Inr it, db')"
  shows "rel_at wd u M ess L db' d \<and> lists_map (map item_pair (di_items it)) M \<and> db_opts db' = db_opts db \<and> db_wal db' = db_wal db"
proof -
  have "db_rel wd u M db d" using rel db_rel_at by blast
  from DB_NewIterator_rel [OF this] it have l: "lists_map (map item_pair (di_items it)) M" by auto
  have R: "list_all2 reader_of ess (db_tables db)" "mt_rel (db_mem db) L" using rel by (simp_all add: rel_at_def)
  obtain m ts where T: "collect_tables (db_tables db) (fold (\<lambda>e. cand_entry (to_sst e)) L []) = Some (Inr (m, ts))"
    "list_all2 reader_of ess ts" "map Reader_Path ts = map Reader_Path (db_tables db)" using collect_tables_of [OF R(1)] by blast
  then have "db' = db\<lparr>db_tables := ts\<rparr>"
    using it by (simp add: DB_NewIterator_def DB_collectMerged_def mt.snapshot_rel [OF R(2)])
  with rel_at_tables [OF rel T(2,3)] l show ?thesis by simp
qed

section \<open>The lock\<close>

fun reading :: "goroutine \<Rightarrow> bool" where
  "reading (Running op k) = shared_op op"
| "reading Collecting = True"
| "reading _ = False"

fun exclusive :: "goroutine \<Rightarrow> bool" where
  "exclusive (Running op k) = (\<not> shared_op op)"
| "exclusive _ = False"

fun owns_writer :: "goroutine \<Rightarrow> bool" where
  "owns_writer (Announced op) = True"
| "owns_writer g = exclusive g"

fun goroutine_ok :: "goroutine \<Rightarrow> bool" where
  "goroutine_ok (Queued (Call op)) = (op_plain op \<and> refused op = None)"
| "goroutine_ok (Announced op) = (op_plain op \<and> refused op = None \<and> \<not> shared_op op)"
| "goroutine_ok (Running op k) = (op_plain op \<and> refused op = None \<and> (\<forall>op'. k = Start op' \<longrightarrow> op' = op))"
| "goroutine_ok _ = True"

text \<open>The lock's readers are the goroutines that read and the iterators that are open; its writer is the
  one that waits for them or, when there are none, writes.\<close>

definition mu_ok :: "system \<Rightarrow> bool" where
  "mu_ok s =
     ((\<forall>t. count (rw_readers (sy_mu s)) t = length (sy_iters s t) + (if reading (sy_go s t) then 1 else 0)) \<and>
      (\<forall>t. rw_writer (sy_mu s) = Some t \<longleftrightarrow> owns_writer (sy_go s t)) \<and>
      (\<forall>t. exclusive (sy_go s t) \<longrightarrow> rw_readers (sy_mu s) = {#}) \<and>
      (\<forall>t. goroutine_ok (sy_go s t)))"

lemma mu_okD:
  assumes "mu_ok s"
  shows "count (rw_readers (sy_mu s)) t = length (sy_iters s t) + (if reading (sy_go s t) then 1 else 0)"
    and "rw_writer (sy_mu s) = Some t \<longleftrightarrow> owns_writer (sy_go s t)"
    and "exclusive (sy_go s t) \<Longrightarrow> rw_readers (sy_mu s) = {#}" and "goroutine_ok (sy_go s t)"
  using assms by (auto simp: mu_ok_def)

lemma mu_ok_new: "mu_ok (new_system db d)"
  by (simp add: mu_ok_def new_system_def)

lemma task_step_Start: "task_step wd k db d = Some (k', db', d') \<Longrightarrow> k' \<noteq> Start op"
  by (cases "(wd, k, db, d)" rule: task_step.cases)
    (auto simp: start_get_def Let_def split: if_splits option.splits prod.splits sum.splits bool.splits)

lemma mu_ok_client:
  assumes "client_step s s'" and ok: "mu_ok s"
  shows "mu_ok s'"
  using assms(1)
proof cases
  case (close_iterator t its it its')
  have "count (rw_readers (sy_mu s)) t = length (its @ it # its') + 0"
    using mu_okD(1) [OF ok, of t] close_iterator by simp
  then have "rw_readers (sy_mu s) \<noteq> {#}" by auto
  then have ne: "\<not> exclusive (sy_go s u)" for u using mu_okD(3) [OF ok] by blast
  show ?thesis using ok ne close_iterator by (auto simp: mu_ok_def)
qed (use ok in \<open>auto simp: mu_ok_def\<close>)

lemma exclusive_owns: "exclusive g \<Longrightarrow> owns_writer g"
  by (cases g) simp_all

lemma mu_ok_inner:
  assumes "inner_step wd s s'" and ok: "mu_ok s"
  shows "mu_ok s'"
  using assms(1)
proof cases
  case (rlock t c)
  have "\<not> exclusive (sy_go s u)" for u using mu_okD(2) [OF ok] rlock(4) exclusive_owns by fastforce
  then show ?thesis using ok rlock mu_okD(4) [OF ok, of t] by (cases c) (auto simp: mu_ok_def)
next
  case (announce t op)
  then show ?thesis using ok mu_okD(4) [OF ok, of t] mu_okD(2) [OF ok] by (auto simp: mu_ok_def)
next
  case (lock t op)
  then have nr: "\<not> reading (sy_go s u)" for u using mu_okD(1) [OF ok, of u] by (simp split: if_splits)
  show ?thesis using ok mu_okD(4) [OF ok, of t] lock nr by (auto simp: mu_ok_def)
next
  case (run t op k k' db d)
  then show ?thesis using ok mu_okD(3,4) [OF ok, of t] task_step_Start [OF run(3)] by (auto simp: mu_ok_def)
next
  case (return t op r)
  show ?thesis
  proof (cases "shared_op op")
    case True
    then have "t \<in># rw_readers (sy_mu s)" using mu_okD(1) [OF ok, of t] return by (simp flip: count_greater_zero_iff)
    then have ne: "\<not> exclusive (sy_go s u)" for u using mu_okD(3) [OF ok] by fastforce
    show ?thesis using ok return True ne by (auto simp: mu_ok_def unlock_def)
  next
    case False
    then have "rw_writer (sy_mu s) = Some t" using mu_okD(2) [OF ok, of t] return by simp
    then have "\<not> owns_writer (sy_go s u)" if "u \<noteq> t" for u using mu_okD(2) [OF ok, of u] that by simp
    then show ?thesis using ok return False exclusive_owns by (auto simp: mu_ok_def unlock_def)
  qed
next
  case (collect t it db)
  then show ?thesis using ok by (auto simp: mu_ok_def)
qed

lemma mu_ok_step: "go_step wd s s' \<Longrightarrow> mu_ok s \<Longrightarrow> mu_ok s'"
  by (auto simp: go_step_def intro: mu_ok_client mu_ok_inner)

lemma mu_ok_run:
  assumes "go_run wd s s'" and "mu_ok s"
  shows "mu_ok s'"
  using assms by (induction rule: rtranclp_induct) (auto intro: mu_ok_step)

section \<open>Results\<close>

text \<open>A history within the room of a session, the map it makes and the room it takes.\<close>

definition hist_ok :: "system \<Rightarrow> bool" where
  "hist_ok s = (list_all op_valid (hist_ops s) \<and> sum_list (map op_room (hist_ops s)) < 2 ^ 30)"

definition hist_map :: "system \<Rightarrow> bytes \<Rightarrow> bytes option" where
  "hist_map s = snd (map_run (hist_ops s) Map.empty)"

definition hist_room :: "system \<Rightarrow> nat" where
  "hist_room s = 1 + sum_list (map op_room (hist_ops s))"

text \<open>While no operation has the lock exclusively the database is related to the map of the history, and
  each lookup is right so far; an operation that has it exclusively comes to what it would come to if it
  were made at once on such a database.\<close>

definition shows_hist :: "world \<Rightarrow> system \<Rightarrow> bool" where
  "shows_hist wd s =
     (\<exists>ess L. rel_at wd (hist_room s) (hist_map s) ess L (sy_db s) (sy_disk s) \<and> ready (sy_db s) \<and>
       (\<forall>t op k. sy_go s t = Running op k \<longrightarrow> task_ok ess L (hist_map s) op k))"

definition writes_hist :: "world \<Rightarrow> string \<Rightarrow> system \<Rightarrow> db_op \<Rightarrow> task \<Rightarrow> bool" where
  "writes_hist wd dir s op k =
     (\<exists>db d. db_rel wd (hist_room s) (hist_map s) db d \<and> ready db \<and>
       finish wd dir k (sy_db s) (sy_disk s) = db_step wd dir op db d)"

definition data_ok :: "world \<Rightarrow> string \<Rightarrow> system \<Rightarrow> bool" where
  "data_ok wd dir s =
     (hist_results s = fst (map_run (hist_ops s) Map.empty) \<and>
      (\<forall>t. \<forall>it\<in>set (sy_iters s t). lists_map (map item_pair (di_items it)) (hist_map s)) \<and>
      ((\<forall>t. \<not> exclusive (sy_go s t)) \<longrightarrow> shows_hist wd s) \<and>
      (\<forall>t op k. sy_go s t = Running op k \<longrightarrow> \<not> shared_op op \<longrightarrow> writes_hist wd dir s op k))"

lemma data_okD:
  assumes "data_ok wd dir s"
  shows "hist_results s = fst (map_run (hist_ops s) Map.empty)"
    and "it \<in> set (sy_iters s t) \<Longrightarrow> lists_map (map item_pair (di_items it)) (hist_map s)"
    and "(\<And>t. \<not> exclusive (sy_go s t)) \<Longrightarrow> shows_hist wd s"
    and "sy_go s t = Running op k \<Longrightarrow> \<not> shared_op op \<Longrightarrow> writes_hist wd dir s op k"
  using assms unfolding data_ok_def by blast+

lemma data_ok_new:
  assumes "db_rel wd 1 Map.empty db d" and "ready db"
  shows "data_ok wd dir (new_system db d)"
  using assms
  by (auto simp: data_ok_def new_system_def hist_results_def hist_ops_def hist_map_def hist_room_def shows_hist_def db_rel_at)

text \<open>Steps that leave the history alone.\<close>

lemma hist_same:
  assumes "sy_hist s' = sy_hist s"
  shows "hist_ops s' = hist_ops s" "hist_results s' = hist_results s" "hist_map s' = hist_map s" "hist_room s' = hist_room s"
    "hist_ok s' = hist_ok s"
  using assms by (simp_all add: hist_ops_def hist_results_def hist_map_def hist_room_def hist_ok_def)

lemma map_run_snoc_fst: "fst (map_run (ops @ [op]) M) = fst (map_run ops M) @ [fst (map_step op (snd (map_run ops M)))]"
  by (induction ops arbitrary: M) (simp_all add: split_def)

text \<open>The history with one more operation.\<close>

lemma hist_snoc:
  assumes "sy_hist s' = sy_hist s @ [(t, op, r)]"
  shows "hist_ops s' = hist_ops s @ [op]" "hist_results s' = hist_results s @ [r]"
    "hist_map s' = snd (map_step op (hist_map s))" "hist_room s' = hist_room s + op_room op"
    "hist_ok s' \<Longrightarrow> hist_ok s \<and> op_valid op \<and> hist_room s + op_room op < 2 ^ 31"
  using assms by (simp_all add: hist_ops_def hist_results_def hist_map_def hist_room_def hist_ok_def map_run_snoc)

lemma results_snoc:
  assumes "data_ok wd dir s" and "sy_hist s' = sy_hist s @ [(t, op, r)]" and "r = fst (map_step op (hist_map s))"
  shows "hist_results s' = fst (map_run (hist_ops s') Map.empty)"
  using data_okD(1) [OF assms(1)] assms(3) by (simp add: hist_snoc(1,2) [OF assms(2)] map_run_snoc_fst hist_map_def)

text \<open>An operation that changes nothing in the map adds to the history.\<close>

lemma data_ok_snoc:
  assumes ok: "data_ok wd dir s" and h: "sy_hist s' = sy_hist s @ [(t, op, r)]" and r: "r = fst (map_step op (hist_map s))"
    and m: "snd (map_step op (hist_map s)) = hist_map s"
    and same: "sy_db s' = sy_db s" "sy_disk s' = sy_disk s" "sy_iters s' = sy_iters s"
    and go: "\<And>t op k. sy_go s' t = Running op k \<Longrightarrow> sy_go s t = Running op k"
    and ex: "\<And>t. exclusive (sy_go s t) \<Longrightarrow> exclusive (sy_go s' t)"
  shows "data_ok wd dir s'"
proof -
  note H = hist_snoc [OF h]
  have M: "hist_map s' = hist_map s" and u: "hist_room s \<le> hist_room s'" using H(3,4) m by simp_all
  have "shows_hist wd s'" if "\<And>t. \<not> exclusive (sy_go s' t)"
  proof -
    have "shows_hist wd s" using data_okD(3) [OF ok] ex that by blast
    then show ?thesis using go rel_at_mono [OF _ u] unfolding shows_hist_def M same by blast
  qed
  moreover have "writes_hist wd dir s' op k" if "sy_go s' t = Running op k" "\<not> shared_op op" for t op k
    using data_okD(4) [OF ok go [OF that(1)] that(2)] db_rel_mono [OF _ u] unfolding writes_hist_def M same by blast
  ultimately show ?thesis
    using results_snoc [OF ok h r] data_okD(2) [OF ok] unfolding data_ok_def M same by blast
qed

lemma refused_map:
  assumes "refused op = Some r" and "op_valid op"
  shows "r = fst (map_step op M)" "snd (map_step op M) = M"
  using assms by (cases op; auto split: if_splits)+

lemma shared_map: "shared_op op \<Longrightarrow> snd (map_step op M) = M"
  by (cases op) simp_all

text \<open>Steps that leave the history and the database alone: what begins then is a lookup.\<close>

lemma data_ok_same:
  assumes ok: "data_ok wd dir s" and h: "sy_hist s' = sy_hist s"
    and same: "sy_db s' = sy_db s" "sy_disk s' = sy_disk s" and its: "\<And>t. set (sy_iters s' t) \<subseteq> set (sy_iters s t)"
    and go: "\<And>t op k. sy_go s' t = Running op k \<Longrightarrow> sy_go s t = Running op k \<or> k = Start op \<and> shared_op op"
    and ex: "\<And>t. exclusive (sy_go s t) \<Longrightarrow> exclusive (sy_go s' t)"
  shows "data_ok wd dir s'"
proof -
  note H = hist_same [OF h]
  have "shows_hist wd s'" if "\<And>t. \<not> exclusive (sy_go s' t)"
  proof -
    have "shows_hist wd s" using data_okD(3) [OF ok] ex that by blast
    then show ?thesis using go unfolding shows_hist_def H same by (metis task_ok.simps(1))
  qed
  moreover have "writes_hist wd dir s' op k" if "sy_go s' t = Running op k" "\<not> shared_op op" for t op k
    using data_okD(4) [OF ok, of t op k] go [OF that(1)] that(2) unfolding writes_hist_def H same by blast
  ultimately show ?thesis
    using data_okD(1,2) [OF ok] its unfolding data_ok_def H by blast
qed

lemma data_ok_client:
  assumes "client_step s s'" and ok: "data_ok wd dir s" and h: "hist_ok s'"
  shows "data_ok wd dir s'"
  using assms(1)
proof cases
  case (refuse t op r)
  have s: "sy_hist s' = sy_hist s @ [(t, op, r)]" using refuse(1) by simp
  have v: "op_valid op" using hist_snoc(5) [OF s h] by simp
  show ?thesis
    by (rule data_ok_snoc [OF ok s refused_map(1) [OF refuse(3) v] refused_map(2) [OF refuse(3) v]])
      (simp_all add: refuse(1))
next
  case (call t op)
  show ?thesis by (rule data_ok_same [OF ok]) (use call in \<open>auto split: if_splits\<close>)
next
  case (call_iterator t)
  show ?thesis by (rule data_ok_same [OF ok]) (use call_iterator in \<open>auto split: if_splits\<close>)
next
  case (close_iterator t its it its')
  show ?thesis by (rule data_ok_same [OF ok]) (use close_iterator in \<open>auto split: if_splits\<close>)
qed

text \<open>While one goroutine reads, none writes.\<close>

lemma reading_excludes:
  assumes "mu_ok s" and "reading (sy_go s t)"
  shows "\<not> exclusive (sy_go s u)"
proof -
  have "count (rw_readers (sy_mu s)) t \<noteq> 0" using mu_okD(1) [OF assms(1), of t] assms(2) by simp
  then show ?thesis using mu_okD(3) [OF assms(1), of u] by auto
qed

text \<open>While one writes, nobody else is inside and no iterator is open.\<close>

lemma exclusive_alone:
  assumes "mu_ok s" and "exclusive (sy_go s t)"
  shows "sy_iters s u = []" and "\<not> reading (sy_go s u)" and "exclusive (sy_go s u) \<Longrightarrow> u = t"
proof -
  have "rw_readers (sy_mu s) = {#}" by (rule mu_okD(3) [OF assms])
  then show "sy_iters s u = []" "\<not> reading (sy_go s u)" using mu_okD(1) [OF assms(1), of u] by (simp_all split: if_splits)
  show "exclusive (sy_go s u) \<Longrightarrow> u = t"
    using mu_okD(2) [OF assms(1), of t] mu_okD(2) [OF assms(1), of u] assms(2) exclusive_owns by simp
qed

lemma data_ok_lock:
  assumes mu: "mu_ok s" and ok: "data_ok wd dir s" and g: "sy_go s t = Announced op" and r: "rw_readers (sy_mu s) = {#}"
  shows "data_ok wd dir (s\<lparr>sy_go := (sy_go s)(t := Running op (Start op))\<rparr>)" (is "data_ok wd dir ?s")
proof -
  have own: "rw_writer (sy_mu s) = Some t" using mu_okD(2) [OF mu, of t] g by simp
  have ne: "\<not> exclusive (sy_go s u)" for u
    using mu_okD(2) [OF mu, of u] own g exclusive_owns by (cases "u = t") auto
  have nr: "\<not> reading (sy_go s u)" for u using mu_okD(1) [OF mu, of u] r by (simp split: if_splits)
  have run: "sy_go s u \<noteq> Running op' k" for u op' k using ne [of u] nr [of u] by auto
  note H = hist_same [of ?s s, simplified]
  have "shows_hist wd s" by (rule data_okD(3) [OF ok ne])
  then have "writes_hist wd dir ?s op (Start op)" by (auto simp: writes_hist_def shows_hist_def db_rel_at H)
  moreover have "\<not> shared_op op" using mu_okD(4) [OF mu, of t] g by simp
  then have "exclusive (sy_go ?s t)" by simp
  ultimately show ?thesis
    using data_okD(1,2) [OF ok] run unfolding data_ok_def H by (auto split: if_splits)
qed

lemma data_ok_run:
  assumes mu: "mu_ok s" and ok: "data_ok wd dir s" and g: "sy_go s t = Running op k"
    and st: "task_step wd k (sy_db s) (sy_disk s) = Some (k', db, d)"
  shows "data_ok wd dir (s\<lparr>sy_db := db, sy_disk := d, sy_go := (sy_go s)(t := Running op k')\<rparr>)" (is "data_ok wd dir ?s")
proof -
  note H = hist_same [of ?s s, simplified]
  show ?thesis
  proof (cases "shared_op op")
    case True
    then have ne: "\<not> exclusive (sy_go s u)" for u using reading_excludes [OF mu, of t u] g by simp
    from data_okD(3) [OF ok ne] obtain ess L where
      S: "rel_at wd (hist_room s) (hist_map s) ess L (sy_db s) (sy_disk s)" "ready (sy_db s)"
      "\<And>t op k. sy_go s t = Running op k \<Longrightarrow> task_ok ess L (hist_map s) op k" unfolding shows_hist_def by blast
    from shared_step [OF S(1) True S(3) [OF g] st] S(2,3) have "shows_hist wd ?s"
      unfolding shows_hist_def H by (intro exI [of _ ess] exI [of _ L]) (auto simp: ready_def split: if_splits)
    then show ?thesis
      using data_okD(1,2) [OF ok] True ne unfolding data_ok_def H by (auto split: if_splits) (metis exclusive.simps(1))
  next
    case False
    have e: "exclusive (sy_go s t)" using g False by simp
    have alone: "sy_go s u \<noteq> Running op' k''" if "u \<noteq> t" for u op' k''
      using exclusive_alone(2,3) [OF mu e, of u] that by auto
    have "\<And>op'. k = Start op' \<Longrightarrow> refused op' = None" using mu_okD(4) [OF mu, of t] g by auto
    from task_step_finish [OF st this] data_okD(4) [OF ok g False] have "writes_hist wd dir ?s op k'"
      by (auto simp: writes_hist_def H)
    moreover have "exclusive (sy_go ?s t)" using False by simp
    ultimately show ?thesis
      using data_okD(1,2) [OF ok] alone unfolding data_ok_def H by (auto split: if_splits)
  qed
qed

lemma data_ok_return:
  assumes wd: "world_ok wd" and dir: "dir \<noteq> []" and mu: "mu_ok s" and ok: "data_ok wd dir s"
    and g: "sy_go s t = Running op (Ended r)" and h: "hist_ok s'"
    and s': "s' = s\<lparr>sy_mu := unlock t op (sy_mu s), sy_go := (sy_go s)(t := Idle), sy_hist := sy_hist s @ [(t, op, r)]\<rparr>"
  shows "data_ok wd dir s'"
proof -
  have hs: "sy_hist s' = sy_hist s @ [(t, op, r)]" using s' by simp
  note H = hist_snoc [OF hs]
  show ?thesis
  proof (cases "shared_op op")
    case True
    then have ne: "\<not> exclusive (sy_go s u)" for u using reading_excludes [OF mu, of t u] g by simp
    from data_okD(3) [OF ok ne] obtain ess L where "task_ok ess L (hist_map s) op (Ended r)"
      using g unfolding shows_hist_def by blast
    then have r: "r = fst (map_step op (hist_map s))" by simp
    show ?thesis
      by (rule data_ok_snoc [OF ok hs r shared_map [OF True]]) (use s' ne in \<open>auto split: if_splits\<close>)
  next
    case False
    have e: "exclusive (sy_go s t)" using g False by simp
    have alone: "sy_go s u \<noteq> Running op' k" if "u \<noteq> t" for u op' k
      using exclusive_alone(2,3) [OF mu e, of u] that by auto
    have none: "sy_iters s u = []" for u by (rule exclusive_alone(1) [OF mu e])
    from data_okD(4) [OF ok g False] obtain db d where
      W: "db_rel wd (hist_room s) (hist_map s) db d" "ready db" "Some (r, sy_db s, sy_disk s) = db_step wd dir op db d"
      by (auto simp: writes_hist_def)
    have v: "op_valid op" "hist_room s + op_room op < 2 ^ 31" using H(5) [OF h] by simp_all
    from db_step_map [OF wd dir W(1,2) v] W(3) have R: "r = fst (map_step op (hist_map s))"
      "db_rel wd (hist_room s + op_room op) (snd (map_step op (hist_map s))) (sy_db s) (sy_disk s)" "ready (sy_db s)" by auto
    have "shows_hist wd s'" unfolding shows_hist_def H(3,4) using R(2,3) alone by (auto simp: s' db_rel_at)
    moreover have "hist_results s' = fst (map_run (hist_ops s') Map.empty)" by (rule results_snoc [OF ok hs R(1)])
    moreover have "sy_iters s' u = []" "sy_go s' u \<noteq> Running op' k" for u op' k using none alone s' by (auto split: if_splits)
    ultimately show ?thesis by (auto simp: data_ok_def)
  qed
qed

lemma data_ok_collect:
  assumes mu: "mu_ok s" and ok: "data_ok wd dir s" and g: "sy_go s t = Collecting" and c: "DB_NewIterator (sy_db s) = Some (Inr it, db)"
  shows "data_ok wd dir (s\<lparr>sy_db := db, sy_go := (sy_go s)(t := Idle), sy_iters := (sy_iters s)(t := sy_iters s t @ [it])\<rparr>)"
    (is "data_ok wd dir ?s")
proof -
  note H = hist_same [of ?s s, simplified]
  have ne: "\<not> exclusive (sy_go s u)" for u using reading_excludes [OF mu, of t u] g by simp
  from data_okD(3) [OF ok ne] obtain ess L where
    S: "rel_at wd (hist_room s) (hist_map s) ess L (sy_db s) (sy_disk s)" "ready (sy_db s)"
    "\<And>t op k. sy_go s t = Running op k \<Longrightarrow> task_ok ess L (hist_map s) op k" unfolding shows_hist_def by blast
  note N = DB_NewIterator_at [OF S(1) c]
  have "shows_hist wd ?s"
    unfolding shows_hist_def H using N S(2,3) by (intro exI [of _ ess] exI [of _ L]) (auto simp: ready_def split: if_splits)
  then show ?thesis
    using data_okD(1,2) [OF ok] N ne unfolding data_ok_def H by (auto split: if_splits) (metis exclusive.simps(1))
qed

lemma data_ok_step:
  assumes "go_step wd s s'" and "world_ok wd" "dir \<noteq> []" and mu: "mu_ok s" and ok: "data_ok wd dir s" and h: "hist_ok s'"
  shows "data_ok wd dir s'"
proof (cases "client_step s s'")
  case False
  with assms(1) have "inner_step wd s s'" by (simp add: go_step_def)
  then show ?thesis
  proof cases
    case (rlock t c)
    show ?thesis by (rule data_ok_same [OF ok]) (use rlock in \<open>auto split: if_splits elim: call_shared.elims\<close>)
  next
    case (announce t op)
    show ?thesis by (rule data_ok_same [OF ok]) (use announce in \<open>auto split: if_splits\<close>)
  next
    case (return t op r)
    show ?thesis by (rule data_ok_return [OF assms(2,3) mu ok return(2) h return(1)])
  qed (use mu ok in \<open>auto intro: data_ok_lock data_ok_run data_ok_collect\<close>)
qed (use ok h data_ok_client in blast)

lemma hist_ok_back:
  assumes "go_step wd s s'" and "hist_ok s'"
  shows "hist_ok s"
proof -
  have "sy_hist s' = sy_hist s \<or> (\<exists>x. sy_hist s' = sy_hist s @ [x])"
    using assms(1) by (auto simp: go_step_def elim!: client_step.cases inner_step.cases)
  then show ?thesis using assms(2) hist_same(5) hist_snoc(5) by (metis prod_cases3)
qed

lemma data_ok_run_steps:
  assumes "go_run wd s s'" and "world_ok wd" "dir \<noteq> []" and "mu_ok s" and "data_ok wd dir s" and "hist_ok s'"
  shows "data_ok wd dir s'"
  using assms(1,6)
proof (induction rule: rtranclp_induct)
  case (step s1 s2)
  have "mu_ok s1" by (rule mu_ok_run [OF step.hyps(1) assms(4)])
  with step hist_ok_back [OF step.hyps(2)] data_ok_step [OF step.hyps(2) assms(2,3)] show ?case by blast
qed (rule assms(5))

end
