(* ===== verification/Lsmkv_Concurrent.thy ===== *)
theory Lsmkv_Concurrent imports Lsmkv_Goroutines begin

text \<open>
  What goroutines that share a database can rely on: their operations are linearizable, an open iterator
  shows the present contents, calls make progress, and the one way to wait for ever, an open iterator.
\<close>

section \<open>Running an operation alone\<close>

text \<open>Each step of an operation takes it nearer to its end.\<close>

fun task_rank :: "task \<Rightarrow> nat \<times> nat" where
  "task_rank (Start op) = (2, 0)"
| "task_rank (Put_mem k v seq) = (1, 1)"
| "task_rank (Delete_mem k seq) = (1, 1)"
| "task_rank (Write_mem seq es) = (1, length es + 1)"
| "task_rank Fill = (1, 0)"
| "task_rank (Ask has k i best) = (1, i + 1)"
| "task_rank (Ended r) = (0, 0)"

lemma task_step_rank:
  "task_step wd k db d = Some (k', db', d') \<Longrightarrow> (task_rank k', task_rank k) \<in> less_than <*lex*> less_than"
  by (cases "(wd, k, db, d)" rule: task_step.cases)
    (auto simp: start_get_def Let_def split: if_splits option.splits prod.splits sum.splits bool.splits)

lemma go_run_step: "go_run wd s s1 \<Longrightarrow> inner_step wd s1 s2 \<Longrightarrow> go_run wd s s2"
  by (meson go_step_def rtranclp.rtrancl_into_rtrancl)

lemma task_runs:
  assumes "sy_go s t = Running op k" and "goroutine_ok (sy_go s t)" and "finish wd dir k (sy_db s) (sy_disk s) = Some (r, db, d)"
  shows "go_run wd s (s\<lparr>sy_db := db, sy_disk := d, sy_go := (sy_go s)(t := Running op (Ended r))\<rparr>)"
  using assms
proof (induction "task_rank k" arbitrary: k s rule: wf_induct_rule [OF wf_lex_prod [OF wf_less_than wf_less_than]])
  case 1
  show ?case
  proof (cases "\<exists>r. k = Ended r")
    case True
    then have "k = Ended r" "db = sy_db s" "d = sy_disk s" using 1(4) by auto
    moreover from this have "(sy_go s)(t := Running op (Ended r)) = sy_go s" using 1(2) by (simp add: fun_upd_idem)
    ultimately show ?thesis by simp
  next
    case False
    have st: "k = Start op' \<Longrightarrow> op_plain op' \<and> refused op' = None" for op' using 1(2,3) by auto
    have "finish wd dir k (sy_db s) (sy_disk s) \<noteq> None" using 1(4) by simp
    from finish_step [OF this st] False obtain k1 db1 d1 where
      k1: "task_step wd k (sy_db s) (sy_disk s) = Some (k1, db1, d1)" by fastforce
    let ?s = "s\<lparr>sy_db := db1, sy_disk := d1, sy_go := (sy_go s)(t := Running op k1)\<rparr>"
    have i: "inner_step wd s ?s" by (rule inner_step.run [OF 1(2) k1])
    have g: "goroutine_ok (sy_go ?s t)" using 1(2,3) task_step_Start [OF k1] by auto
    have f: "finish wd dir k1 (sy_db ?s) (sy_disk ?s) = Some (r, db, d)"
      using task_step_finish [OF k1] st 1(4) by simp
    have "go_run wd ?s (?s\<lparr>sy_db := db, sy_disk := d, sy_go := (sy_go ?s)(t := Running op (Ended r))\<rparr>)"
      by (rule 1(1) [OF task_step_rank [OF k1] _ g f]) simp
    with rtranclp_trans [OF go_run_step [OF rtranclp.rtrancl_refl i]] show ?thesis by simp
  qed
qed

lemma refused_step: "refused op = Some r \<Longrightarrow> db_step wd dir op db d = Some (r, db, d)"
  by (cases op) (auto simp: DB_Put_def DB_Delete_def DB_Write_def finished_def split: if_splits)

text \<open>A call that finds the lock free comes to what the operation comes to.\<close>

lemma runs_alone:
  assumes "sy_go s t = Idle" and "op_plain op" and w: "rw_writer (sy_mu s) = None"
    and r: "\<not> shared_op op \<Longrightarrow> rw_readers (sy_mu s) = {#}" and op: "db_step wd dir op (sy_db s) (sy_disk s) = Some (x, db, d)"
  shows "go_run wd s (s\<lparr>sy_db := db, sy_disk := d, sy_hist := sy_hist s @ [(t, op, x)]\<rparr>)"
proof (cases "refused op")
  case (Some y)
  with refused_step [of op y wd dir "sy_db s" "sy_disk s"] op have "y = x" "db = sy_db s" "d = sy_disk s" by simp_all
  with client_step.refuse [OF assms(1) Some] show ?thesis by (simp add: go_step_def r_into_rtranclp)
next
  case None
  let ?q = "s\<lparr>sy_go := (sy_go s)(t := Queued (Call op))\<rparr>"
  have q: "go_run wd s ?q" using client_step.call [OF assms(1,2) None] by (simp add: go_step_def r_into_rtranclp)
  define mu where "mu = (if shared_op op then (sy_mu s)\<lparr>rw_readers := add_mset t (rw_readers (sy_mu s))\<rparr>
    else (sy_mu s)\<lparr>rw_writer := Some t\<rparr>)"
  let ?g = "\<lambda>k. (sy_go s)(t := Running op k)"
  have b: "go_run wd s (s\<lparr>sy_mu := mu, sy_go := ?g (Start op)\<rparr>)"
  proof (cases "shared_op op")
    case True
    then show ?thesis using go_run_step [OF q inner_step.rlock [of ?q t "Call op"]] w by (simp add: mu_def)
  next
    case False
    let ?a = "?q\<lparr>sy_mu := (sy_mu ?q)\<lparr>rw_writer := Some t\<rparr>, sy_go := (sy_go ?q)(t := Announced op)\<rparr>"
    have "go_run wd s ?a" using go_run_step [OF q inner_step.announce [of ?q t op]] w False by simp
    from go_run_step [OF this inner_step.lock [of ?a t op]] r [OF False] show ?thesis using False by (simp add: mu_def)
  qed
  let ?b = "s\<lparr>sy_mu := mu, sy_go := ?g (Start op)\<rparr>"
  have "go_run wd ?b (?b\<lparr>sy_db := db, sy_disk := d, sy_go := (sy_go ?b)(t := Running op (Ended x))\<rparr>)"
    by (rule task_runs [where k = "Start op" and dir = dir]) (use assms(2) None op in simp_all)
  then have e: "go_run wd s (s\<lparr>sy_mu := mu, sy_db := db, sy_disk := d, sy_go := ?g (Ended x)\<rparr>)" (is "go_run wd s ?e")
    using rtranclp_trans [OF b] by simp
  have "unlock t op mu = sy_mu s" using w by (simp add: unlock_def mu_def)
  moreover have "(sy_go s)(t := Idle) = sy_go s" using assms(1) by auto
  ultimately have "?e\<lparr>sy_mu := unlock t op (sy_mu ?e), sy_go := (sy_go ?e)(t := Idle), sy_hist := sy_hist ?e @ [(t, op, x)]\<rparr> =
      s\<lparr>sy_db := db, sy_disk := d, sy_hist := sy_hist s @ [(t, op, x)]\<rparr>" by simp
  with go_run_step [OF e inner_step.return [of ?e t op x]] show ?thesis by simp
qed

section \<open>Progress\<close>

lemma ready_mem_ok: "rel_at wd u M ess L db d \<Longrightarrow> mem_ok db"
  by (auto simp: rel_at_def mem_ok_def mt_ok_def)

lemma db_rel_mem_ok: "db_rel wd u M db d \<Longrightarrow> mem_ok db"
  using db_rel_at ready_mem_ok by blast

text \<open>Whoever is inside can go on.\<close>

lemma inside_moves:
  assumes mu: "mu_ok s" and ok: "data_ok wd dir s" and i: "reading (sy_go s t) \<or> exclusive (sy_go s t)"
  shows "\<exists>s'. inner_step wd s s'"
proof (cases "sy_go s t")
  case (Running op k)
  have g: "op_plain op" "refused op = None" "\<And>op'. k = Start op' \<Longrightarrow> op' = op" using mu_okD(4) [OF mu, of t] Running by auto
  have f: "finish wd dir k (sy_db s) (sy_disk s) \<noteq> None"
  proof (cases "shared_op op")
    case False
    from data_okD(4) [OF ok Running False] obtain db d where
      W: "db_rel wd (hist_room s) (hist_map s) db d" "finish wd dir k (sy_db s) (sy_disk s) = db_step wd dir op db d"
      by (auto simp: writes_hist_def)
    have "returns (db_step wd dir op db d)" by (rule db_step_returns [OF g(1) db_rel_mem_ok [OF W(1)]])
    then show ?thesis using W(2) by (auto simp: returns_def)
  next
    case True
    then have ne: "\<not> exclusive (sy_go s u)" for u using reading_excludes [OF mu, of t u] Running by simp
    from data_okD(3) [OF ok ne] obtain ess L where
      S: "rel_at wd (hist_room s) (hist_map s) ess L (sy_db s) (sy_disk s)" "task_ok ess L (hist_map s) op k"
      using Running unfolding shows_hist_def by blast
    show ?thesis
    proof (cases k)
      case (Start op')
      with g(3) have "k = Start op" by simp
      then show ?thesis using db_step_returns [OF g(1) ready_mem_ok [OF S(1)], of wd dir "sy_disk s"] by (auto simp: returns_def)
    qed (use S(2) in \<open>auto split: prod.splits\<close>)
  qed
  show ?thesis
  proof (cases "\<exists>r. k = Ended r")
    case True
    then show ?thesis using inner_step.return [of s t op] Running by blast
  next
    case False
    have "op_plain op' \<and> refused op' = None" if "k = Start op'" for op' using g that by simp
    from finish_step [OF f this] False obtain x where "task_step wd k (sy_db s) (sy_disk s) = Some x" by blast
    then show ?thesis using inner_step.run [OF Running] by (metis prod_cases3)
  qed
next
  case Collecting
  then have ne: "\<not> exclusive (sy_go s u)" for u using reading_excludes [OF mu, of t u] by simp
  from data_okD(3) [OF ok ne] obtain ess L where "rel_at wd (hist_room s) (hist_map s) ess L (sy_db s) (sy_disk s)"
    unfolding shows_hist_def by blast
  then have "db_rel wd (hist_room s) (hist_map s) (sy_db s) (sy_disk s)" using db_rel_at by blast
  from DB_NewIterator_rel [OF this] show ?thesis using inner_step.collect [OF Collecting] by blast
qed (use i in auto)

text \<open>Everybody who keeps the others out is itself waiting: a writer waits for iterators to be closed, and
  the goroutines that have them open wait for the writer.\<close>

definition deadlocked :: "system \<Rightarrow> bool" where
  "deadlocked s =
     ((\<exists>t op. sy_go s t = Announced op) \<and> (\<forall>t. \<not> reading (sy_go s t) \<and> \<not> exclusive (sy_go s t)) \<and>
      (\<exists>t. sy_iters s t \<noteq> []) \<and> (\<forall>t. sy_iters s t \<noteq> [] \<longrightarrow> sy_go s t \<noteq> Idle))"

lemma progress:
  assumes mu: "mu_ok s" and ok: "data_ok wd dir s" and "sy_go s t \<noteq> Idle"
  shows "(\<exists>s'. inner_step wd s s') \<or> (\<exists>u. sy_go s u = Idle \<and> sy_iters s u \<noteq> []) \<or> deadlocked s"
proof (cases "\<exists>u. reading (sy_go s u) \<or> exclusive (sy_go s u)")
  case True
  then show ?thesis using inside_moves [OF mu ok] by blast
next
  case no: False
  show ?thesis
  proof (cases "\<exists>u op. sy_go s u = Announced op")
    case True
    then obtain u op where u: "sy_go s u = Announced op" by blast
    show ?thesis
    proof (cases "rw_readers (sy_mu s) = {#}")
      case True
      with inner_step.lock [OF u] show ?thesis by blast
    next
      case False
      then obtain v where "v \<in># rw_readers (sy_mu s)" by blast
      then have "count (rw_readers (sy_mu s)) v \<noteq> 0" by simp
      then have "sy_iters s v \<noteq> []" using mu_okD(1) [OF mu, of v] no by (auto split: if_splits)
      then show ?thesis using no u unfolding deadlocked_def by blast
    qed
  next
    case False
    have "\<not> owns_writer (sy_go s u)" for u
    proof -
      have "\<not> reading (sy_go s u) \<and> \<not> exclusive (sy_go s u)" using no by blast
      with False show ?thesis by (cases "sy_go s u") auto
    qed
    then have w: "rw_writer (sy_mu s) = None" using mu_okD(2) [OF mu] by (cases "rw_writer (sy_mu s)") auto
    have "\<not> reading (sy_go s t) \<and> \<not> exclusive (sy_go s t)" using no by blast
    with assms(3) False obtain c where c: "sy_go s t = Queued c" by (cases "sy_go s t") auto
    show ?thesis
    proof (cases "call_shared c")
      case True
      then show ?thesis using inner_step.rlock [OF c True w] by blast
    next
      case False
      then obtain op where "c = Call op" "\<not> shared_op op" by (cases c) auto
      then show ?thesis using inner_step.announce [OF _ _ w] c by blast
    qed
  qed
qed

text \<open>A goroutine that waits to write while it has an iterator open waits for ever, and with it all that
  wait for the lock.\<close>

definition self_blocked :: "system \<Rightarrow> nat \<Rightarrow> bool" where
  "self_blocked s t = (owns_writer (sy_go s t) \<and> sy_iters s t \<noteq> [])"

lemma self_blocked_step:
  assumes mu: "mu_ok s" and b: "self_blocked s t" and st: "go_step wd s s'"
  shows "self_blocked s' t \<and> sy_go s' t = sy_go s t \<and> (\<forall>u c. sy_go s u = Queued c \<longrightarrow> sy_go s' u = Queued c)"
proof -
  have own: "rw_writer (sy_mu s) = Some t" using mu_okD(2) [OF mu, of t] b by (simp add: self_blocked_def)
  have its: "sy_iters s t \<noteq> []" using b by (simp add: self_blocked_def)
  then have rd: "rw_readers (sy_mu s) \<noteq> {#}" using mu_okD(1) [OF mu, of t] by auto
  have ne: "\<not> exclusive (sy_go s t)" using exclusive_alone(1) [OF mu, of t t] its by blast
  obtain op where a: "sy_go s t = Announced op" using b ne by (cases "sy_go s t") (auto simp: self_blocked_def)
  have keep: "self_blocked s' t \<and> sy_go s' t = sy_go s t \<and> (\<forall>u c. sy_go s u = Queued c \<longrightarrow> sy_go s' u = Queued c)"
    if "sy_go s' = (sy_go s)(v := g)" "v \<noteq> t" "\<And>c. sy_go s v \<noteq> Queued c" "sy_iters s' t = sy_iters s t" for v g
    using that b by (auto simp: self_blocked_def)
  have same: "self_blocked s' t \<and> sy_go s' t = sy_go s t \<and> (\<forall>u c. sy_go s u = Queued c \<longrightarrow> sy_go s' u = Queued c)"
    if "sy_go s' = sy_go s" "sy_iters s' t = sy_iters s t" using that b by (simp add: self_blocked_def)
  show ?thesis
    using st unfolding go_step_def
  proof
    assume "client_step s s'"
    then show ?thesis
    proof cases
      case (call v op') then show ?thesis using a by (intro keep [of v]) auto
    next
      case (refuse v op' r) then show ?thesis by (intro same) auto
    next
      case (call_iterator v) then show ?thesis using a by (intro keep [of v]) auto
    next
      case (close_iterator v xs it ys) then show ?thesis using a by (intro same) auto
    qed
  next
    assume "inner_step wd s s'"
    then show ?thesis
    proof cases
      case (rlock v c) then show ?thesis using own by simp
    next
      case (announce v op') then show ?thesis using own by simp
    next
      case (lock v op') then show ?thesis using rd by simp
    next
      case (run v op' k k' db d) then show ?thesis using a by (intro keep [of v]) auto
    next
      case (return v op' r) then show ?thesis using a by (intro keep [of v]) auto
    next
      case (collect v it db) then show ?thesis using a by (intro keep [of v]) auto
    qed
  qed
qed

lemma self_blocked_run:
  assumes "go_run wd s s'" and "mu_ok s" and "self_blocked s t"
  shows "self_blocked s' t \<and> sy_go s' t = sy_go s t \<and> (\<forall>u c. sy_go s u = Queued c \<longrightarrow> sy_go s' u = Queued c)"
  using assms(1)
proof (induction rule: rtranclp_induct)
  case (step s1 s2)
  with self_blocked_step [OF mu_ok_run [OF step.hyps(1) assms(2)], of t] show ?case by metis
qed (use assms(3) in simp)

section \<open>Calls return\<close>

text \<open>Every inner step takes one goroutine nearer to the end of its call.\<close>

fun go_rank :: "goroutine \<Rightarrow> nat \<times> nat" where
  "go_rank Idle = (0, 0)"
| "go_rank Collecting = (1, 0)"
| "go_rank (Running op k) = (Suc (fst (task_rank k)), snd (task_rank k))"
| "go_rank (Announced op) = (4, 0)"
| "go_rank (Queued c) = (5, 0)"

abbreviation rank_less :: "((nat \<times> nat) \<times> (nat \<times> nat)) set" where
  "rank_less \<equiv> less_than <*lex*> less_than"

definition callers :: "system \<Rightarrow> nat set" where
  "callers s = {t. sy_go s t \<noteq> Idle}"

lemma inner_step_rank:
  assumes "inner_step wd s s'"
  shows "\<exists>t g. t \<in> callers s \<and> sy_go s' = (sy_go s)(t := g) \<and> (go_rank g, go_rank (sy_go s t)) \<in> rank_less"
  using assms
proof cases
  case (rlock t c)
  then show ?thesis by (intro exI [of _ t] exI [of _ "inside c"]) (cases c; simp add: callers_def)
next
  case (announce t op)
  then show ?thesis by (intro exI [of _ t] exI [of _ "Announced op"]) (simp add: callers_def)
next
  case (lock t op)
  then show ?thesis by (intro exI [of _ t] exI [of _ "Running op (Start op)"]) (simp add: callers_def)
next
  case (run t op k k' db d)
  obtain a b a' b' where "task_rank k = (a, b)" "task_rank k' = (a', b')" by fastforce
  with run task_step_rank [OF run(3)] show ?thesis
    by (intro exI [of _ t] exI [of _ "Running op k'"]) (simp add: callers_def)
next
  case (return t op r)
  then show ?thesis by (intro exI [of _ t] exI [of _ Idle]) (simp add: callers_def)
next
  case (collect t it db)
  then show ?thesis by (intro exI [of _ t] exI [of _ Idle]) (simp add: callers_def)
qed

definition ranks :: "system \<Rightarrow> (nat \<times> nat) multiset" where
  "ranks s = image_mset (\<lambda>t. go_rank (sy_go s t)) (mset_set (callers s))"

lemma inner_step_ranks:
  assumes "inner_step wd s s'" and fin: "finite (callers s)"
  shows "(ranks s', ranks s) \<in> mult rank_less" and "finite (callers s')"
proof -
  from inner_step_rank [OF assms(1)] obtain t g where
    t: "t \<in> callers s" "sy_go s' = (sy_go s)(t := g)" "(go_rank g, go_rank (sy_go s t)) \<in> rank_less" by blast
  obtain B where B: "callers s = insert t B" "t \<notin> B" using t(1) by (meson mk_disjoint_insert)
  have fB: "finite B" using fin B(1) by simp
  have b: "callers s' = (if g = Idle then B else insert t B)" using B t(2) by (auto simp: callers_def)
  then show "finite (callers s')" using fB by simp
  let ?I = "image_mset (\<lambda>u. go_rank (sy_go s u)) (mset_set B)"
  have r: "ranks s = ?I + {#go_rank (sy_go s t)#}" using B fB by (simp add: ranks_def)
  have I: "image_mset (\<lambda>u. go_rank (sy_go s' u)) (mset_set B) = ?I"
    by (rule image_mset_cong) (use fB B(2) t(2) in auto)
  have "go_rank (sy_go s' t) = go_rank g" using t(2) by simp
  then have "ranks s' = ?I + (if g = Idle then {#} else {#go_rank g#})" using B(2) fB I by (simp add: ranks_def b)
  then show "(ranks s', ranks s) \<in> mult rank_less"
    unfolding r by (simp only:) (rule one_step_implies_mult; use t(3) in auto)
qed

lemma inner_steps_end: "finite (callers s) \<Longrightarrow> \<nexists>f. f 0 = s \<and> (\<forall>i. inner_step wd (f i) (f (Suc i)))"
proof
  assume fin: "finite (callers s)" and "\<exists>f. f 0 = s \<and> (\<forall>i. inner_step wd (f i) (f (Suc i)))"
  then obtain f where f: "f 0 = s" "\<And>i. inner_step wd (f i) (f (Suc i))" by blast
  have "finite (callers (f i))" for i by (induction i) (use f fin inner_step_ranks(2) in auto)
  then have "(ranks (f (Suc i)), ranks (f i)) \<in> mult rank_less" for i using inner_step_ranks(1) [OF f(2)] by blast
  then have "\<exists>g. \<forall>i. (g (Suc i), g i) \<in> mult rank_less" by (intro exI [of _ "\<lambda>i. ranks (f i)"]) simp
  moreover have "wf (mult rank_less)" by (intro wf_mult wf_lex_prod wf_less_than)
  ultimately show False unfolding wf_iff_no_infinite_down_chain by blast
qed

text \<open>The room that the calls under way will take.\<close>

fun go_ops :: "goroutine \<Rightarrow> db_op list" where
  "go_ops (Queued (Call op)) = [op]"
| "go_ops (Announced op) = [op]"
| "go_ops (Running op k) = [op]"
| "go_ops _ = []"

definition go_room :: "goroutine \<Rightarrow> nat" where
  "go_room g = sum_list (map op_room (go_ops g))"

definition calls_ok :: "system \<Rightarrow> bool" where
  "calls_ok s =
     (finite (callers s) \<and> list_all op_valid (hist_ops s) \<and> (\<forall>t. list_all op_valid (go_ops (sy_go s t))) \<and>
      sum_list (map op_room (hist_ops s)) + (\<Sum>t\<in>callers s. go_room (sy_go s t)) < 2 ^ 30)"

lemma calls_ok_hist: "calls_ok s \<Longrightarrow> hist_ok s"
  by (simp add: calls_ok_def hist_ok_def)

lemma calls_ok_go:
  assumes ok: "calls_ok s" and t: "t \<in> callers s" and go: "sy_go s' = (sy_go s)(t := g)"
    and ops: "hist_ops s' @ go_ops g = hist_ops s @ go_ops (sy_go s t)"
  shows "calls_ok s'"
proof -
  obtain B where B: "callers s = insert t B" "t \<notin> B" using t by (meson mk_disjoint_insert)
  have fin: "finite B" using ok B(1) by (simp add: calls_ok_def)
  have b: "callers s' = (if g = Idle then B else insert t B)" using B go by (auto simp: callers_def)
  have "(\<Sum>u\<in>B. go_room (sy_go s' u)) = (\<Sum>u\<in>B. go_room (sy_go s u))" by (rule sum.cong) (use B(2) go in auto)
  then have s': "(\<Sum>u\<in>callers s'. go_room (sy_go s' u)) = go_room g + (\<Sum>u\<in>B. go_room (sy_go s u))"
    using fin B(2) go by (simp add: b go_room_def)
  have s: "(\<Sum>u\<in>callers s. go_room (sy_go s u)) = go_room (sy_go s t) + (\<Sum>u\<in>B. go_room (sy_go s u))"
    using fin B by simp
  have "sum_list (map op_room (hist_ops s' @ go_ops g)) = sum_list (map op_room (hist_ops s @ go_ops (sy_go s t)))"
    "list_all op_valid (hist_ops s' @ go_ops g) = list_all op_valid (hist_ops s @ go_ops (sy_go s t))"
    by (simp_all only: ops)
  then show ?thesis
    using ok fin b go s s' by (auto simp: calls_ok_def go_room_def)
qed

lemma calls_ok_inner:
  assumes "inner_step wd s s'" and ok: "calls_ok s"
  shows "calls_ok s'"
  using assms(1)
proof cases
  case (rlock t c)
  then show ?thesis by (intro calls_ok_go [OF ok, of t s' "inside c"]) (cases c; simp add: callers_def hist_ops_def)+
next
  case (announce t op)
  then show ?thesis by (intro calls_ok_go [OF ok, of t s' "Announced op"]) (simp_all add: callers_def hist_ops_def)
next
  case (lock t op)
  then show ?thesis by (intro calls_ok_go [OF ok, of t s' "Running op (Start op)"]) (simp_all add: callers_def hist_ops_def)
next
  case (run t op k k' db d)
  then show ?thesis by (intro calls_ok_go [OF ok, of t s' "Running op k'"]) (simp_all add: callers_def hist_ops_def)
next
  case (return t op r)
  then show ?thesis by (intro calls_ok_go [OF ok, of t s' Idle]) (simp_all add: callers_def hist_ops_def)
next
  case (collect t it db)
  then show ?thesis by (intro calls_ok_go [OF ok, of t s' Idle]) (simp_all add: callers_def hist_ops_def)
qed

definition no_iterators :: "system \<Rightarrow> bool" where
  "no_iterators s = (\<forall>t. sy_iters s t = [] \<and> sy_go s t \<noteq> Collecting \<and> sy_go s t \<noteq> Queued Call_iterator)"

lemma no_iterators_inner:
  assumes "inner_step wd s s'" and ok: "no_iterators s"
  shows "no_iterators s'"
  using assms(1)
proof cases
  case (rlock t c)
  then show ?thesis using ok by (cases c) (auto simp: no_iterators_def)
qed (use ok in \<open>auto simp: no_iterators_def\<close>)

section \<open>Properties\<close>

text \<open>A database that was just opened.\<close>

definition opens :: "world \<Rightarrow> string \<Rightarrow> DbOptions option \<Rightarrow> disk \<Rightarrow> DB \<Rightarrow> disk \<Rightarrow> bool" where
  "opens wd dir opts d db d1 =
     (world_ok wd \<and> dir \<noteq> [] \<and> durable_opts opts \<and> dk_reliable d \<and> dk_content d = Map.empty \<and>
      DB_Open wd dir opts d = Some (Inr db, d1))"

lemma opens_rel:
  assumes "opens wd dir opts d db d1"
  shows "world_ok wd" "dir \<noteq> []" "db_rel wd 1 Map.empty db d1" "ready db"
proof -
  have S: "world_ok wd" "dir \<noteq> []" "durable_opts opts" "dk_reliable d" "dk_content d = Map.empty"
    "DB_Open wd dir opts d = Some (Inr db, d1)" using assms by (simp_all add: opens_def)
  then show "world_ok wd" "dir \<noteq> []" by simp_all
  have "dir_holds wd 1 Map.empty (dk_content d)" "dk_content d defaultLockName = None" using S(5) empty_dir by simp_all
  from reopen_rel [OF S(1,2,3) this(1) S(4) this(2)] S(6) show "db_rel wd 1 Map.empty db d1" "ready db"
    by (auto simp: opened_def)
qed

lemma run_data_ok:
  assumes "opens wd dir opts d db d1" and "go_run wd (new_system db d1) s" and "hist_ok s"
  shows "mu_ok s" and "data_ok wd dir s"
proof -
  note O = opens_rel [OF assms(1)]
  show "mu_ok s" by (rule mu_ok_run [OF assms(2) mu_ok_new])
  show "data_ok wd dir s" by (rule data_ok_run_steps [OF assms(2) O(1,2) mu_ok_new data_ok_new [OF O(3,4)] assms(3)])
qed

lemma example_opens: "\<exists>db d1. opens example_world ''/db'' None (disk_of []) db d1"
proof -
  have "session_ok example_world ''/db'' None [] (disk_of [])" by (rule example_session) simp_all
  from session_rel [OF this] show ?thesis using example_session [of "[]"]
    by (auto simp: opens_def session_ok_def db_session_def split: option.splits prod.splits sum.splits)
qed

text \<open>Example runs: where nobody writes, a goroutine can make an operation or open an iterator.\<close>

lemma quiet_rel:
  assumes "mu_ok s" and "data_ok wd dir s" and w: "rw_writer (sy_mu s) = None"
  shows "db_rel wd (hist_room s) (hist_map s) (sy_db s) (sy_disk s)"
proof -
  have "\<not> exclusive (sy_go s t)" for t using mu_okD(2) [OF assms(1), of t] w exclusive_owns by fastforce
  from data_okD(3) [OF assms(2) this] show ?thesis using db_rel_at by (auto simp: shows_hist_def)
qed

lemma runs_some:
  assumes "sy_go s t = Idle" and "op_plain op" and w: "rw_writer (sy_mu s) = None"
    and "\<not> shared_op op \<Longrightarrow> rw_readers (sy_mu s) = {#}" and "mu_ok s" "data_ok wd dir s"
  shows "\<exists>x db d. go_run wd s (s\<lparr>sy_db := db, sy_disk := d, sy_hist := sy_hist s @ [(t, op, x)]\<rparr>)"
  using db_step_returns [OF assms(2) db_rel_mem_ok [OF quiet_rel [OF assms(5,6) w]], of wd dir "sy_disk s"] runs_alone [OF assms(1-4)]
  unfolding returns_def by metis

lemma iterates_some:
  assumes t: "sy_go s t = Idle" and w: "rw_writer (sy_mu s) = None" and "mu_ok s" "data_ok wd dir s"
  shows "\<exists>it db. go_run wd s (s\<lparr>sy_mu := (sy_mu s)\<lparr>rw_readers := add_mset t (rw_readers (sy_mu s))\<rparr>, sy_db := db,
    sy_iters := (sy_iters s)(t := sy_iters s t @ [it])\<rparr>)"
proof -
  from DB_NewIterator_rel [OF quiet_rel [OF assms(3,4) w]] obtain it db where it: "DB_NewIterator (sy_db s) = Some (Inr it, db)" by blast
  let ?q = "s\<lparr>sy_go := (sy_go s)(t := Queued Call_iterator)\<rparr>"
  let ?r = "?q\<lparr>sy_mu := (sy_mu ?q)\<lparr>rw_readers := add_mset t (rw_readers (sy_mu ?q))\<rparr>, sy_go := (sy_go ?q)(t := inside Call_iterator)\<rparr>"
  let ?c = "?r\<lparr>sy_db := db, sy_go := (sy_go ?r)(t := Idle), sy_iters := (sy_iters ?r)(t := sy_iters ?r t @ [it])\<rparr>"
  have "go_run wd s ?q" using client_step.call_iterator [OF t] by (simp add: go_step_def r_into_rtranclp)
  from go_run_step [OF this inner_step.rlock [of ?q t Call_iterator]] have "go_run wd s ?r" using w by simp
  from go_run_step [OF this inner_step.collect [of ?r t it db]] have "go_run wd s ?c" using it by simp
  moreover have "(sy_go s)(t := Idle) = sy_go s" using t by auto
  ultimately show ?thesis by (intro exI [of _ it] exI [of _ db]) simp
qed

text \<open>C4: operations of goroutines are linearizable.  However the steps of any number of goroutines that share
  an open database interleave, the operations have the results that they have on a map when they are made
  one after the other in the order in which they return, and so as well the results that one goroutine
  alone gets; and an iterator, as long as it is open, lists what the database holds now.\<close>

theorem lsmkv_goroutines_linearize:
  assumes "opens wd dir opts d db d1" and "go_run wd (new_system db d1) s" and "hist_ok s"
  shows "hist_results s = fst (map_run (hist_ops s) Map.empty) \<and>
    (\<exists>db' d'. db_session wd dir opts (hist_ops s) d = Some (hist_results s, db', d')) \<and>
    (\<forall>t. \<forall>it\<in>set (sy_iters s t). lists_map (map item_pair (di_items it)) (snd (map_run (hist_ops s) Map.empty)))"
proof -
  note D = data_okD [OF run_data_ok(2) [OF assms]]
  have "session_ok wd dir opts (hist_ops s) d" using assms(1,3) by (simp add: session_ok_def opens_def hist_ok_def)
  from session_rel [OF this] D(1) have "\<exists>db' d'. db_session wd dir opts (hist_ops s) d = Some (hist_results s, db', d')" by auto
  with D(1,2) show ?thesis by (simp add: hist_map_def)
qed

theorem lsmkv_goroutines_linearize_witness:
  "\<exists>db d1 s it. opens example_world ''/db'' None (disk_of []) db d1 \<and> go_run example_world (new_system db d1) s \<and>
    sy_hist s = [(0, OpPut (Some [1]) (Some [10]), Done None), (2, OpGet (Some [1]), Found (Inr [10]))] \<and>
    sy_iters s 1 = [it] \<and> map_of (map item_pair (di_items it)) [1] = Some [10]"
proof -
  from example_opens obtain db d1 where o: "opens example_world ''/db'' None (disk_of []) db d1" by blast
  let ?s0 = "new_system db d1" and ?put = "OpPut (Some [1]) (Some [10])" and ?get = "OpGet (Some [1])"
  have "hist_ok ?s0" by (simp add: hist_ok_def hist_ops_def new_system_def)
  note 0 = run_data_ok [OF o rtranclp.rtrancl_refl this]
  from runs_some [OF _ _ _ _ 0, of 0 ?put] obtain x db2 d2 where
    r1: "go_run example_world ?s0 (?s0\<lparr>sy_db := db2, sy_disk := d2, sy_hist := [(0, ?put, x)]\<rparr>)" (is "go_run _ _ ?s1")
    by (auto simp: new_system_def)
  have "hist_ok ?s1" by (simp add: hist_ok_def hist_ops_def)
  note 1 = run_data_ok [OF o r1 this]
  from iterates_some [OF _ _ 1, of 1] obtain it db3 where
    i: "go_run example_world ?s1 (?s1\<lparr>sy_mu := \<lparr>rw_writer = None, rw_readers = {#1#}\<rparr>, sy_db := db3, sy_iters := (\<lambda>_. [])(1 := [it])\<rparr>)"
    (is "go_run _ _ ?s2") by (auto simp: new_system_def)
  note r2 = rtranclp_trans [OF r1 i]
  have "hist_ok ?s2" by (simp add: hist_ok_def hist_ops_def)
  note 2 = run_data_ok [OF o r2 this]
  from runs_some [OF _ _ _ _ 2, of 2 ?get] obtain y db4 d4 where
    g: "go_run example_world ?s2 (?s2\<lparr>sy_db := db4, sy_disk := d4, sy_hist := [(0, ?put, x), (2, ?get, y)]\<rparr>)"
    (is "go_run _ _ ?s3") by (auto simp: new_system_def)
  note r3 = rtranclp_trans [OF r2 g]
  have "hist_ok ?s3" by (simp add: hist_ok_def hist_ops_def)
  from lsmkv_goroutines_linearize [OF o r3 this] have
    "x = Done None" "y = Found (Inr [10])" "map_of (map item_pair (di_items it)) [1] = Some [10]"
    by (auto simp: hist_results_def hist_ops_def got_def lists_map_def split: prod.splits)
  with o r3 show ?thesis by (intro exI [of _ db] exI [of _ d1] exI [of _ ?s3] exI [of _ it]) simp
qed

text \<open>C5: calls return.  From any state that goroutines sharing a database can reach, the calls under way take
  finitely many steps, however they are scheduled; and where they can take no more, every call has
  returned, unless an iterator is open, which cannot be when none was opened or being opened.\<close>

theorem lsmkv_calls_return:
  assumes "opens wd dir opts d db d1" and "go_run wd (new_system db d1) s" and "calls_ok s"
  shows "(\<nexists>f. f 0 = s \<and> (\<forall>i. inner_step wd (f i) (f (Suc i)))) \<and>
    (\<forall>s'. (inner_step wd)\<^sup>*\<^sup>* s s' \<longrightarrow> (\<nexists>s''. inner_step wd s' s'') \<longrightarrow>
      (\<forall>t. sy_go s' t = Idle) \<or> \<not> no_iterators s \<and> (\<exists>u. sy_iters s' u \<noteq> []))"
proof -
  have "(\<forall>t. sy_go s' t = Idle) \<or> \<not> no_iterators s \<and> (\<exists>u. sy_iters s' u \<noteq> [])"
    if run: "(inner_step wd)\<^sup>*\<^sup>* s s'" and stop: "\<nexists>s''. inner_step wd s' s''" for s'
  proof -
    have "go_run wd s s' \<and> calls_ok s' \<and> (no_iterators s \<longrightarrow> no_iterators s')"
      using run by (induction rule: rtranclp_induct) (use assms(3) go_run_step calls_ok_inner no_iterators_inner in blast)+
    then have s': "go_run wd (new_system db d1) s'" "hist_ok s'" "no_iterators s \<longrightarrow> no_iterators s'"
      using assms(2) calls_ok_hist by (auto intro: rtranclp_trans)
    note R = run_data_ok [OF assms(1) s'(1,2)]
    show ?thesis
    proof (cases "\<forall>t. sy_go s' t = Idle")
      case False
      then obtain t where "sy_go s' t \<noteq> Idle" by blast
      from progress [OF R this] stop have "\<exists>u. sy_iters s' u \<noteq> []" by (auto simp: deadlocked_def)
      with s'(3) show ?thesis by (auto simp: no_iterators_def)
    qed simp
  qed
  moreover have "finite (callers s)" using assms(3) by (simp add: calls_ok_def)
  ultimately show ?thesis using inner_steps_end by blast
qed

text \<open>Two goroutines that have called, a third one idle.\<close>

lemma example_calls:
  assumes "\<forall>t. sy_go s t = Idle" and "op_plain op" "refused op = None" and "op_plain op'" "refused op' = None"
  shows "go_run wd s (s\<lparr>sy_go := (sy_go s)(0 := Queued (Call op), 1 := Queued (Call op'))\<rparr>)"
proof -
  let ?s1 = "s\<lparr>sy_go := (sy_go s)(0 := Queued (Call op))\<rparr>"
  have "go_step wd s ?s1" using client_step.call [of s 0 op] assms by (simp add: go_step_def)
  moreover have "go_step wd ?s1 (?s1\<lparr>sy_go := (sy_go ?s1)(1 := Queued (Call op'))\<rparr>)"
    using client_step.call [of ?s1 1 op'] assms by (simp add: go_step_def)
  ultimately have "go_run wd s (?s1\<lparr>sy_go := (sy_go ?s1)(1 := Queued (Call op'))\<rparr>)"
    by (rule rtranclp.rtrancl_into_rtrancl [OF r_into_rtranclp])
  then show ?thesis by simp
qed

theorem lsmkv_calls_return_witness:
  "\<exists>db d1 s. opens example_world ''/db'' None (disk_of []) db d1 \<and> go_run example_world (new_system db d1) s \<and>
    sy_go s 0 = Queued (Call (OpPut (Some [1]) (Some [10]))) \<and> sy_go s 1 = Queued (Call (OpGet (Some [1]))) \<and>
    (\<nexists>f. f 0 = s \<and> (\<forall>i. inner_step example_world (f i) (f (Suc i)))) \<and>
    (\<forall>s'. (inner_step example_world)\<^sup>*\<^sup>* s s' \<longrightarrow> (\<nexists>s''. inner_step example_world s' s'') \<longrightarrow> (\<forall>t. sy_go s' t = Idle))"
proof -
  from example_opens obtain db d1 where o: "opens example_world ''/db'' None (disk_of []) db d1" by blast
  let ?s0 = "new_system db d1" and ?put = "OpPut (Some [1]) (Some [10])" and ?get = "OpGet (Some [1])"
  let ?q = "?s0\<lparr>sy_go := (sy_go ?s0)(0 := Queued (Call ?put), 1 := Queued (Call ?get))\<rparr>"
  have r: "go_run example_world ?s0 ?q"
    using example_calls [of ?s0 ?put ?get example_world] by (simp add: new_system_def)
  have c: "callers ?q = {0, 1}" by (auto simp: callers_def new_system_def)
  have ok: "calls_ok ?q" unfolding calls_ok_def c by (auto simp: hist_ops_def new_system_def go_room_def)
  have n: "no_iterators ?q" by (auto simp: no_iterators_def new_system_def)
  from lsmkv_calls_return [OF o r ok] n o r show ?thesis
    by (intro exI [of _ db] exI [of _ d1] exI [of _ ?q]) auto
qed



end
