(* ===== verification/Lsmkv_Limits.thy ===== *)
theory Lsmkv_Limits imports Lsmkv_Correct begin

text \<open>
  What a batch with a nil key does to a database: the batch is accepted, and from then on no flush
  succeeds.
\<close>

lemma WriteFile_loop_nil:
  "\<exists>e\<in>set es. se_Key e = None \<Longrightarrow> \<exists>err w'. WriteFile_loop es w = (Some err, w')"
proof (induction es arbitrary: w)
  case (Cons e es)
  obtain x w1 where a: "Writer_Add e w = (x, w1)" by fastforce
  show ?case
  proof (cases x)
    case None
    with a have "se_Key e \<noteq> None" by (auto simp: Writer_Add_def split: if_splits)
    with Cons.prems Cons.IH [of w1] a None show ?thesis by simp
  qed (use a in simp)
qed simp

lemma dk_sst_WriteFile_nil:
  assumes "\<exists>e\<in>set es. se_Key e = None"
  shows "\<exists>err d'. dk_sst_WriteFile sz path es opts d = (Inl err, d')"
proof -
  obtain x d1 where c: "dk_Create path d = (x, d1)" by fastforce
  show ?thesis
  proof (cases x)
    case (Inr f)
    obtain err w where "WriteFile_loop es (sst_Create path opts f) = (Some err, w)" using WriteFile_loop_nil [OF assms] by blast
    with c Inr show ?thesis
      by (cases "Writer_Abort w") (auto simp: dk_sst_WriteFile_def sst_WriteFile_def)
  qed (use c in \<open>simp add: dk_sst_WriteFile_def\<close>)
qed

lemma flush_nil_key:
  assumes "mt_rel (db_mem db) L" and "e \<in> set L" and "e_Key e = None"
  shows "\<exists>err mf d'. DB_flushLocked wd db d = Some (Some err, db\<lparr>db_manif := mf\<rparr>, d')"
proof -
  have snap: "MemTable_Snapshot (db_mem db) = Some L" by (rule mt.snapshot_rel [OF assms(1)])
  obtain x mf d1 where A: "Manifest_AllocFileName (wd_codec wd) (db_manif db) d = ((x, mf), d1)" by (metis prod.exhaust)
  have "\<exists>e\<in>set (map to_sst L). se_Key e = None" using assms(2,3) by (auto simp: to_sst_def)
  from dk_sst_WriteFile_nil [OF this] obtain err d2 where
    "dk_sst_WriteFile (wd_sizing wd) (projr x) (map to_sst L) None d1 = (Inl err, d2)" by blast
  with A snap assms(2) show ?thesis by (cases x) (auto simp: DB_flushLocked_def Let_def split: prod.split)
qed

lemma mem_set_nil:
  assumes "\<forall>e\<in>set L. sbytes (e_Key e) \<noteq> []"
  shows "\<exists>e\<in>set (mem_set None v q dl L). e_Key e = None"
  using assms by (cases L) (auto simp: new_Entry_def)



end
