(* ===== verification/Wal_Faults.thy ===== *)
theory Wal_Faults imports Wal_Recovery begin

text \<open>
  Recovery under failing reads.  \<^verbatim>\<open>scanValidPrefix\<close> takes an error of the operating system for the
  end of the log, and \<^verbatim>\<open>recoverTail\<close> then truncates the file there.
\<close>

lemma frames_bytes_header: "frs \<noteq> [] \<Longrightarrow> headerSize \<le> length (frames_bytes frs)"
  by (cases frs) (simp_all add: length_frame_bytes)

lemma scan_read_error:
  assumes "f_fault f (f_tick f) = Some k" and "headerSize \<le> n"
  shows "scanValidPrefix_loop n 0 m f = (Inr (0, m), f\<lparr>f_tick := f_tick f + 1\<rparr>)"
  using assms by (subst scanValidPrefix_loop.simps) (simp add: f_readAt_def f_next_def)

text \<open>C21: one failing read loses the log.  A log whose frames are all intact and synced is opened; the
  first read of a frame header fails once, every other call succeeds.  \<^verbatim>\<open>Open\<close> reports success and has
  cut the file to nothing: all acknowledged records are gone.\<close>

theorem wal_read_error_drops_log:
  assumes "log_abs frs l" and "frs \<noteq> []" and "f_stable (lg_f l) = f_data (lg_f l)"
    and "f_data g = f_stable (lg_f l)" and "f_fault g = (\<lambda>_. None)(f_tick g + 1 := Some k)"
  shows "\<exists>l2. wal_Open g opts = Inr l2 \<and> log_abs [] l2 \<and> f_data (lg_f l2) = []"
proof -
  let ?n = "length (frames_bytes frs)"
  have d: "f_data g = frames_bytes frs" using assms(1,3,4) by (simp add: log_abs_def)
  have n: "headerSize \<le> ?n" by (rule frames_bytes_header [OF assms(2)])
  have pos: "0 < ?n" by (rule less_le_trans [OF _ n]) (simp add: headerSize_def)
  let ?g = "g\<lparr>f_tick := f_tick g + 1, f_pos := 0\<rparr>"
  have s: "scanValidPrefix ?n (g\<lparr>f_pos := 0\<rparr>) = (Inr (0, 0), ?g\<lparr>f_tick := f_tick g + 2\<rparr>)"
    using scan_read_error [of ?g k ?n 0] n assms(5) by (simp add: scanValidPrefix_def f_seek_def f_next_def)
  show ?thesis
    using pos assms(5)
    by (simp add: wal_Open_def Log_recoverTail_def Let_def d s f_truncate_def f_seek_def f_next_def log_abs_def)
qed

theorem wal_read_error_drops_log_witness:
  "\<exists>l1 l2. Log_AppendPut [107] [118] (new_log None) = ((1, None), l1)
    \<and> wal_Open ((os_file_of (f_stable (lg_f l1)))\<lparr>f_fault := (\<lambda>_. None)(1 := Some 0)\<rparr>) None = Inr l2
    \<and> f_data (lg_f l2) = []"
proof -
  have fr: "frame_ok (FPut 1 [107] [118])" by (rule frame_ok_small) simp
  obtain sq r l1 where a: "Log_AppendPut [107] [118] (new_log None) = ((sq, r), l1)" by (metis prod.exhaust)
  have e: "append_frame (FPut 1 [107] [118]) 1 ((new_log None)\<lparr>lg_nextSeq := 1\<rparr>) = ((sq, r), l1)"
    using a by (simp add: AppendPut_eq [of "[]"])
  have abs: "log_abs [] ((new_log None)\<lparr>lg_nextSeq := 1\<rparr>)" by simp
  note O = append_frame_outcome [OF e abs]
  from O(6) fr have r: "r = None" by simp
  from O(2) [OF r] have l1: "sq = 1" "log_abs [FPut 1 [107] [118]] l1" "f_stable (lg_f l1) = f_data (lg_f l1)"
    by (simp_all add: durable_def new_log_def WalOptions_normalize_def)
  from wal_read_error_drops_log [OF l1(2) _ l1(3), of "(os_file_of (f_stable (lg_f l1)))\<lparr>f_fault := (\<lambda>_. None)(1 := Some 0)\<rparr>" 0 None]
  obtain l2 where "wal_Open ((os_file_of (f_stable (lg_f l1)))\<lparr>f_fault := (\<lambda>_. None)(1 := Some 0)\<rparr>) None = Inr l2"
    "f_data (lg_f l2) = []" by auto
  with a r l1(1) show ?thesis by blast
qed

end
