(* ===== verification/Byteutil_Io.thy ===== *)
theory Byteutil_Io imports Byteutil Decoding begin

text \<open>
  The parts of \<^verbatim>\<open>internal/byteutil\<close> that rest on the standard library: \<^verbatim>\<open>ValidUTF8\<close> with
  \<^verbatim>\<open>utf8.Valid\<close>, \<^verbatim>\<open>ReadFullExact\<close> with \<^verbatim>\<open>io.ReadFull\<close> over a reader, and the \<^verbatim>\<open>Pool\<close> of
  buffers with \<^verbatim>\<open>sync.Pool\<close>.
\<close>

section \<open>UTF-8\<close>

text \<open>What the first byte of a character says: its number of bytes and the range of the second one.\<close>

definition utf8_first :: "nat \<Rightarrow> (nat \<times> nat \<times> nat) option" where
  "utf8_first b =
     (if b < 0x80 then Some (1, 0, 0)
      else if b < 0xC2 then None
      else if b < 0xE0 then Some (2, 0x80, 0xBF)
      else if b = 0xE0 then Some (3, 0xA0, 0xBF)
      else if b = 0xED then Some (3, 0x80, 0x9F)
      else if b < 0xF0 then Some (3, 0x80, 0xBF)
      else if b = 0xF0 then Some (4, 0x90, 0xBF)
      else if b < 0xF4 then Some (4, 0x80, 0xBF)
      else if b = 0xF4 then Some (4, 0x80, 0x8F)
      else None)"

function utf8_Valid :: "nat list \<Rightarrow> bool" where
  "utf8_Valid [] = True"
| "utf8_Valid (b # bs) =
     (case utf8_first b of
        None \<Rightarrow> False
      | Some (n, lo, hi) \<Rightarrow>
          if n = 1 then utf8_Valid bs
          else if length bs < n - 1 \<or> bs ! 0 < lo \<or> hi < bs ! 0 then False
          else if list_all (\<lambda>c. 0x80 \<le> c \<and> c \<le> 0xBF) (take (n - 2) (tl bs))
               then utf8_Valid (drop (n - 1) bs) else False)"
  by pat_completeness auto
termination
  by (relation "measure length") auto

definition ValidUTF8 :: "bytes \<Rightarrow> bool" where
  "ValidUTF8 b = utf8_Valid (map unat b)"

text \<open>The characters of Unicode that have an encoding, and their encoding.\<close>

definition scalar :: "nat \<Rightarrow> bool" where
  "scalar c = (c < 0xD800 \<or> 0xDFFF < c \<and> c < 0x110000)"

definition rune_bytes :: "nat \<Rightarrow> nat list" where
  "rune_bytes c =
     (if c < 0x80 then [c]
      else if c < 0x800 then [0xC0 + c div 64, 0x80 + c mod 64]
      else if c < 0x10000 then [0xE0 + c div 64 div 64, 0x80 + c div 64 mod 64, 0x80 + c mod 64]
      else [0xF0 + c div 64 div 64 div 64, 0x80 + c div 64 div 64 mod 64, 0x80 + c div 64 mod 64, 0x80 + c mod 64])"

lemma split64:
  obtains a d :: nat where "c = 64 * a + d" and "d < 64" and "c div 64 = a" and "c mod 64 = d"
  by (metis mult_div_mod_eq mod_less_divisor zero_less_numeral)

lemma join64: "e < 64 \<Longrightarrow> (64 * a + e) div 64 = a" "e < 64 \<Longrightarrow> (64 * a + e) mod 64 = e" for a e :: nat
  by (simp_all only: div_mult_self4 mod_mult_self4 mod_less div_less add_0_right add_0)

lemma utf8_Valid_rune:
  assumes "scalar c"
  shows "utf8_Valid (rune_bytes c @ bs) = utf8_Valid bs"
proof -
  obtain c1 d1 where r1: "c = 64 * c1 + d1" "d1 < 64" "c div 64 = c1" "c mod 64 = d1" by (rule split64)
  obtain c2 d2 where r2: "c1 = 64 * c2 + d2" "d2 < 64" "c1 div 64 = c2" "c1 mod 64 = d2" by (rule split64)
  obtain c3 d3 where r3: "c2 = 64 * c3 + d3" "d3 < 64" "c2 div 64 = c3" "c2 mod 64 = d3" by (rule split64)
  consider "c < 0x80" | "0x80 \<le> c" "c < 0x800" | "0x800 \<le> c" "c < 0x10000" | "0x10000 \<le> c" by linarith
  then show ?thesis
  proof cases
    case 1
    then show ?thesis by (simp add: rune_bytes_def utf8_first_def)
  next
    case 2
    then have "rune_bytes c = [0xC0 + c1, 0x80 + d1]" "utf8_first (0xC0 + c1) = Some (2, 0x80, 0xBF)"
      using r1(1,2) by (simp_all add: rune_bytes_def r1(3,4) utf8_first_def)
    then show ?thesis using r1(2) by simp
  next
    case 3
    then have e: "rune_bytes c = [0xE0 + c2, 0x80 + d2, 0x80 + d1]" by (simp add: rune_bytes_def r1(3,4) r2(3,4))
    have b: "c2 < 16" using 3 r1(1) r2(1) by linarith
    have x: "c2 = 0 \<Longrightarrow> 32 \<le> d2" "c2 = 13 \<Longrightarrow> d2 < 32" using 3 assms r1(1,2) r2(1,2) by (auto simp: scalar_def)
    show ?thesis using b x r1(2) r2(2) by (cases "c2 = 0"; cases "c2 = 13") (simp_all add: e utf8_first_def)
  next
    case 4
    then have e: "rune_bytes c = [0xF0 + c3, 0x80 + d3, 0x80 + d2, 0x80 + d1]"
      by (simp add: rune_bytes_def r1(3,4) r2(3,4) r3(3,4))
    have b: "c3 < 5" using assms r1(1) r2(1) r3(1) by (auto simp: scalar_def)
    have x: "c3 = 0 \<Longrightarrow> 16 \<le> d3" "c3 = 4 \<Longrightarrow> d3 < 16" using 4 assms r1(1,2) r2(1,2) r3(1) by (auto simp: scalar_def)
    show ?thesis using b x r1(2) r2(2) r3(2) by (cases "c3 = 0"; cases "c3 = 4") (simp_all add: e utf8_first_def)
  qed
qed

lemma rune_bytes_3:
  assumes "c = 64 * (64 * a + p) + q" and "p < 64" and "q < 64" and "0x800 \<le> c" and "c < 0x10000"
  shows "rune_bytes c = [0xE0 + a, 0x80 + p, 0x80 + q]"
proof -
  have "c div 64 = 64 * a + p" "c mod 64 = q" unfolding assms(1) by (rule join64 [OF assms(3)])+
  then show ?thesis using assms(4,5) by (simp only: rune_bytes_def join64 [OF assms(2)]) simp
qed

lemma rune_bytes_4:
  assumes "c = 64 * (64 * (64 * a + p) + q) + w" and "p < 64" and "q < 64" and "w < 64" and "0x10000 \<le> c"
  shows "rune_bytes c = [0xF0 + a, 0x80 + p, 0x80 + q, 0x80 + w]"
proof -
  have "c div 64 = 64 * (64 * a + p) + q" "c mod 64 = w" unfolding assms(1) by (rule join64 [OF assms(4)])+
  then show ?thesis using assms(5) by (simp only: rune_bytes_def join64 [OF assms(2)] join64 [OF assms(3)]) simp
qed

text \<open>What is accepted begins with the encoding of a character.\<close>

lemma utf8_Valid_starts:
  assumes "utf8_Valid (b # bs)" and "b < 256"
  shows "\<exists>c cs. scalar c \<and> b # bs = rune_bytes c @ cs \<and> utf8_Valid cs"
proof -
  obtain n lo hi where f: "utf8_first b = Some (n, lo, hi)" using assms(1) by (auto split: option.splits)
  consider "n = 1" | "n = 2" | "n = 3" | "n = 4" using f by (auto simp: utf8_first_def split: if_splits)
  then show ?thesis
  proof cases
    case 1
    then have "b < 0x80" using f by (auto simp: utf8_first_def split: if_splits)
    then show ?thesis using assms(1) f 1 by (intro exI [of _ b] exI [of _ bs]) (simp add: scalar_def rune_bytes_def)
  next
    case 2
    with assms(1) f obtain x cs where bs: "bs = x # cs" "lo \<le> x" "x \<le> hi" "utf8_Valid cs"
      by (cases bs) (auto split: if_splits)
    have r: "0xC2 \<le> b" "b < 0xE0" "lo = 0x80" "hi = 0xBF" using f 2 by (auto simp: utf8_first_def split: if_splits)
    let ?c = "64 * (b - 0xC0) + (x - 0x80)"
    have "x - 0x80 < 64" using bs(3) r(4) by simp
    then have "?c div 64 = b - 0xC0" "?c mod 64 = x - 0x80" by (simp_all only: join64)
    moreover have c: "0x80 \<le> ?c" "?c < 0x800" using r bs(2,3) by linarith+
    ultimately have "rune_bytes ?c = [b, x]" using r bs(2,3) by (simp add: rune_bytes_def)
    moreover have "scalar ?c" unfolding scalar_def using c(2) by linarith
    ultimately show ?thesis using bs by (intro exI [of _ ?c] exI [of _ cs]) simp
  next
    case 3
    with assms(1) f obtain x y cs where bs: "bs = x # y # cs" "lo \<le> x" "x \<le> hi" "0x80 \<le> y" "y \<le> 0xBF" "utf8_Valid cs"
      by (cases bs; cases "tl bs") (auto split: if_splits)
    have r: "0xE0 \<le> b" "b < 0xF0" "0x80 \<le> lo" "hi \<le> 0xBF" "b = 0xE0 \<Longrightarrow> 0xA0 \<le> lo" "b = 0xED \<Longrightarrow> hi \<le> 0x9F"
      using f 3 by (auto simp: utf8_first_def split: if_splits)
    have n: "x - 0x80 < 64" "y - 0x80 < 64" using bs(2-5) r(3,4) by linarith+
    obtain a p q where v: "b = 0xE0 + a" "x = 0x80 + p" "y = 0x80 + q" "p < 64" "q < 64"
      by (rule that [of "b - 0xE0" "x - 0x80" "y - 0x80"]) (use n r(1,3) bs(2,4) in linarith)+
    let ?c = "64 * (64 * a + p) + q"
    have "32 \<le> p \<or> 1 \<le> a" "a = 13 \<Longrightarrow> p < 32" using r(5,6) bs(2,3) v(1,2) by auto
    then have d: "32 \<le> p \<or> 1 \<le> a" "a < 13 \<or> a = 13 \<and> p < 32 \<or> 14 \<le> a" by linarith+
    moreover have "a < 16" using r(2) v(1) by simp
    ultimately have c: "0x800 \<le> ?c" "?c < 0x10000" using v(4,5) by auto
    have "?c < 0xD800 \<or> 0xDFFF < ?c" using d(2) v(4,5) by (elim disjE conjE) auto
    with c(2) have sc: "scalar ?c" unfolding scalar_def by linarith
    then have "rune_bytes ?c = [b, x, y]" using v c by (simp only: rune_bytes_3)
    then show ?thesis using bs sc by (intro exI [of _ ?c] exI [of _ cs]) simp
  next
    case 4
    with assms(1) f obtain x y z cs where bs: "bs = x # y # z # cs" "lo \<le> x" "x \<le> hi" "0x80 \<le> y" "y \<le> 0xBF"
      "0x80 \<le> z" "z \<le> 0xBF" "utf8_Valid cs"
      by (cases bs; cases "tl bs"; cases "tl (tl bs)") (auto split: if_splits)
    have r: "0xF0 \<le> b" "b \<le> 0xF4" "0x80 \<le> lo" "hi \<le> 0xBF" "b = 0xF0 \<Longrightarrow> 0x90 \<le> lo" "b = 0xF4 \<Longrightarrow> hi \<le> 0x8F"
      using f 4 by (auto simp: utf8_first_def split: if_splits)
    have n: "x - 0x80 < 64" "y - 0x80 < 64" "z - 0x80 < 64" using bs(2-7) r(3,4) by linarith+
    obtain a p q w where v: "b = 0xF0 + a" "x = 0x80 + p" "y = 0x80 + q" "z = 0x80 + w" "p < 64" "q < 64" "w < 64"
      by (rule that [of "b - 0xF0" "x - 0x80" "y - 0x80" "z - 0x80"]) (use n r(1,3) bs(2,4,6) in linarith)+
    let ?c = "64 * (64 * (64 * a + p) + q) + w"
    have "16 \<le> p \<or> 1 \<le> a" "a = 4 \<Longrightarrow> p < 16" "a \<le> 4" using r(2,5,6) bs(2,3) v(1,2) by auto
    then have "16 \<le> p \<or> 1 \<le> a" "p < 16 \<or> a < 4" "a \<le> 4" by linarith+
    then have c: "0x10000 \<le> ?c" "?c < 0x110000" using v(5-7) by auto
    then have "rune_bytes ?c = [b, x, y, z]" using v by (simp only: rune_bytes_4)
    moreover have "scalar ?c" unfolding scalar_def using c by linarith
    ultimately show ?thesis using bs by (intro exI [of _ ?c] exI [of _ cs]) simp
  qed
qed

lemma ValidUTF8_iff:
  "ValidUTF8 b \<longleftrightarrow> (\<exists>cs. list_all scalar cs \<and> map unat b = concat (map rune_bytes cs))"
proof
  have "utf8_Valid ns \<Longrightarrow> list_all (\<lambda>n. n < 256) ns \<Longrightarrow> \<exists>cs. list_all scalar cs \<and> ns = concat (map rune_bytes cs)" for ns
  proof (induction ns rule: length_induct)
    case (1 ns)
    show ?case
    proof (cases ns)
      case (Cons n ms)
      with "1.prems" obtain c ks where c: "scalar c" "ns = rune_bytes c @ ks" "utf8_Valid ks"
        using utf8_Valid_starts [of n ms] by auto
      have "rune_bytes c \<noteq> []" by (simp add: rune_bytes_def)
      with c(2) have "length ks < length ns" by simp
      moreover have "list_all (\<lambda>n. n < 256) ks" using "1.prems"(2) c(2) by simp
      ultimately obtain cs where "list_all scalar cs" "ks = concat (map rune_bytes cs)" using "1.IH" c(3) by blast
      with c(1,2) show ?thesis by (intro exI [of _ "c # cs"]) simp
    qed (auto intro: exI [of _ "[]"])
  qed
  moreover have "list_all (\<lambda>n. n < 256) (map unat b)"
    using unsigned_less [where 'b = 8 and 'a = nat] by (auto simp: list_all_iff)
  ultimately show "ValidUTF8 b \<Longrightarrow> \<exists>cs. list_all scalar cs \<and> map unat b = concat (map rune_bytes cs)"
    by (simp add: ValidUTF8_def)
  have "list_all scalar cs \<Longrightarrow> utf8_Valid (concat (map rune_bytes cs))" for cs
    by (induction cs) (simp_all add: utf8_Valid_rune)
  then show "\<exists>cs. list_all scalar cs \<and> map unat b = concat (map rune_bytes cs) \<Longrightarrow> ValidUTF8 b"
    by (auto simp: ValidUTF8_def)
qed

section \<open>Pool\<close>

text \<open>
  \<^verbatim>\<open>sync.Pool\<close> promises no order: \<^verbatim>\<open>Get\<close> takes out some item of the pool or calls \<^verbatim>\<open>New\<close>, as
  the argument \<^verbatim>\<open>choice\<close> says, and the run-time may drop items whenever it wants.
\<close>

record Pool =
  pl_capHint :: int
  pl_items :: "Buffer list"

definition NewPool :: "int \<Rightarrow> Pool" where
  "NewPool capHint = \<lparr>pl_capHint = capHint, pl_items = []\<rparr>"

definition pool_get :: "nat option \<Rightarrow> Pool \<Rightarrow> Buffer \<times> Pool" where
  "pool_get choice p =
     (case choice of
        Some i \<Rightarrow>
          if i < length (pl_items p)
          then (pl_items p ! i, p\<lparr>pl_items := take i (pl_items p) @ drop (i + 1) (pl_items p)\<rparr>)
          else (NewBuffer (pl_capHint p), p)
      | None \<Rightarrow> (NewBuffer (pl_capHint p), p))"

definition Pool_Get :: "nat option \<Rightarrow> Pool \<Rightarrow> Buffer \<times> Pool" where
  "Pool_Get choice p = (case pool_get choice p of (b, p) \<Rightarrow> (Buffer_Reset b, p))"

definition Pool_Put :: "Buffer option \<Rightarrow> Pool \<Rightarrow> Pool" where
  "Pool_Put b p =
     (case b of
        None \<Rightarrow> p
      | Some b \<Rightarrow>
          if Buffer_Cap b > 2 ^ 20 then p
          else let b = Buffer_Reset b in p\<lparr>pl_items := pl_items p @ [b]\<rparr>)"

definition DefaultPool :: Pool where "DefaultPool = NewPool 4096"

text \<open>A pool keeps no buffer of more than a mebibyte, and what \<^verbatim>\<open>Get\<close> returns is empty.\<close>

definition pool_ok :: "Pool \<Rightarrow> bool" where
  "pool_ok p = list_all (\<lambda>b. cs_data b = [] \<and> cs_cap b \<le> 2 ^ 20) (pl_items p)"

lemma pool_ok_ops:
  "pool_ok (NewPool c)"
  "pool_ok p \<Longrightarrow> pool_ok (Pool_Put b p)"
  "pool_ok p \<Longrightarrow> pool_ok (p\<lparr>pl_items := nths (pl_items p) keep\<rparr>)"
  "pool_ok p \<Longrightarrow> Pool_Get choice p = (x, p') \<Longrightarrow>
     pool_ok p' \<and> pl_capHint p' = pl_capHint p \<and> cs_data x = [] \<and> cs_cap x \<le> max (2 ^ 20) (nat (pl_capHint p))"
  by (auto simp: pool_ok_def NewPool_def Pool_Put_def Pool_Get_def pool_get_def Buffer_Reset_def Buffer_Cap_def NewBuffer_def
      Let_def list_all_iff le_max_iff_disj split: option.splits if_splits dest!: in_set_takeD in_set_dropD dest: notin_set_nthsI)

section \<open>ReadFullExact\<close>

text \<open>
  An \<^verbatim>\<open>io.Reader\<close> is a function that is asked for some number of bytes and gives those it read and
  an error or none; its documentation promises that they are not more than were asked for.
  \<^verbatim>\<open>io.ReadFull\<close> calls it until it has them all; \<^verbatim>\<open>None\<close> is a reader that keeps giving nothing.
\<close>

partial_function (option) ReadFull_loop ::
  "(nat \<Rightarrow> 's \<Rightarrow> (bytes \<times> error option) \<times> 's) \<Rightarrow> nat \<Rightarrow> bytes \<Rightarrow> 's \<Rightarrow> ((bytes \<times> error option) \<times> 's) option" where
  "ReadFull_loop read n buf s =
     (if length buf < n then
        (case read (n - length buf) s of
           ((p, Some e), s) \<Rightarrow> Some ((buf @ p, Some e), s)
         | ((p, None), s) \<Rightarrow> ReadFull_loop read n (buf @ p) s)
      else Some ((buf, None), s))"

definition io_ReadFull ::
  "(nat \<Rightarrow> 's \<Rightarrow> (bytes \<times> error option) \<times> 's) \<Rightarrow> nat \<Rightarrow> 's \<Rightarrow> ((bytes \<times> error option) \<times> 's) option" where
  "io_ReadFull read n s =
     (case ReadFull_loop read n [] s of
        None \<Rightarrow> None
      | Some ((buf, err), s) \<Rightarrow>
          Some ((buf,
            if n \<le> length buf then None
            else if buf \<noteq> [] \<and> err = Some io_EOF then Some io_ErrUnexpectedEOF else err), s))"

definition ReadFullExact ::
  "(nat \<Rightarrow> 's \<Rightarrow> (bytes \<times> error option) \<times> 's) \<Rightarrow> int \<Rightarrow> 's \<Rightarrow> ((error + bytes) \<times> 's) option" where
  "ReadFullExact read n s =
     (if n < 0 then Some (Inl byteutil_ErrOverflow, s)
      else if \<not> make_ok (nat n) 1 then Some (Inl Panic, s)
      else case io_ReadFull read (nat n) s of
             None \<Rightarrow> None
           | Some ((buf, Some e), s) \<Rightarrow> Some (Inl e, s)
           | Some ((buf, None), s) \<Rightarrow> Some (Inr buf, s))"

text \<open>A reader of a string of bytes: it gives some of what is left, and \<^verbatim>\<open>io.EOF\<close> at the end.\<close>

locale bytes_reader =
  fixes read :: "nat \<Rightarrow> 's \<Rightarrow> (bytes \<times> error option) \<times> 's" and rest :: "'s \<Rightarrow> bytes"
  assumes read_end: "rest s = [] \<Longrightarrow> read n s = (([], Some io_EOF), s)"
    and read_some: "rest s \<noteq> [] \<Longrightarrow> 0 < n \<Longrightarrow>
      \<exists>k s'. read n s = ((take k (rest s), None), s') \<and> 0 < k \<and> k \<le> n \<and> k \<le> length (rest s) \<and> rest s' = drop k (rest s)"
begin

lemma loop_reads:
  "\<exists>s'. ReadFull_loop read n buf s =
      Some ((buf @ take (n - length buf) (rest s), if n \<le> length buf + length (rest s) then None else Some io_EOF), s') \<and>
    rest s' = drop (n - length buf) (rest s)"
proof (induction "length (rest s)" arbitrary: buf s rule: less_induct)
  case less
  show ?case
  proof (cases "length buf < n \<and> rest s \<noteq> []")
    case True
    then obtain k s1 where s1: "read (n - length buf) s = ((take k (rest s), None), s1)" "0 < k" "k \<le> n - length buf"
      "k \<le> length (rest s)" "rest s1 = drop k (rest s)" using read_some [of s "n - length buf"] by auto
    then have "length (rest s1) < length (rest s)" by simp
    have n: "n - length buf = k + (n - (length buf + k))" using s1(3) by simp
    have l: "length (buf @ take k (rest s)) = length buf + k" using s1(4) by simp
    have t: "take k (rest s) @ take (n - (length buf + k)) (rest s1) = take (n - length buf) (rest s)"
      by (subst n) (simp only: s1(5) take_add)
    have d: "drop (n - (length buf + k)) (rest s1) = drop (n - length buf) (rest s)"
      "n \<le> length buf + k + length (rest s1) \<longleftrightarrow> n \<le> length buf + length (rest s)"
      by (subst n, simp add: s1(5) add.commute) (use s1(4,5) in auto)
    from less [OF \<open>length (rest s1) < _\<close>, of "buf @ take k (rest s)"] obtain s' where
      "ReadFull_loop read n (buf @ take k (rest s)) s1 =
         Some ((buf @ take (n - length buf) (rest s), if n \<le> length buf + length (rest s) then None else Some io_EOF), s')"
      "rest s' = drop (n - length buf) (rest s)" unfolding l d append_assoc t by blast
    then show ?thesis using s1(1) True by (subst ReadFull_loop.simps) auto
  next
    case False
    then show ?thesis using read_end [of s] by (subst ReadFull_loop.simps) auto
  qed
qed

lemma ReadFullExact_reads:
  assumes "0 \<le> n" and "make_ok (nat n) 1"
  shows "\<exists>s'. ReadFullExact read n s =
      Some (if nat n \<le> length (rest s) then Inr (take (nat n) (rest s))
            else if rest s = [] then Inl io_EOF else Inl io_ErrUnexpectedEOF, s') \<and> rest s' = drop (nat n) (rest s)"
  using loop_reads [of "nat n" "[]" s] assms by (auto simp: ReadFullExact_def io_ReadFull_def)

end

definition sr_reader :: "nat \<Rightarrow> SliceReader \<Rightarrow> (bytes \<times> error option) \<times> SliceReader" where
  "sr_reader n r = (case SliceReader_Read n r of (Inl e, r) \<Rightarrow> (([], Some e), r) | (Inr p, r) \<Rightarrow> ((p, None), r))"

interpretation sr: bytes_reader sr_reader sr_remaining
proof unfold_locales
  fix r :: SliceReader and n :: nat
  show "sr_remaining r = [] \<Longrightarrow> sr_reader n r = (([], Some io_EOF), r)"
    by (simp add: sr_reader_def SliceReader_Read_def sr_remaining_def)
  assume "sr_remaining r \<noteq> []" and "0 < n"
  then show "\<exists>k r'. sr_reader n r = ((take k (sr_remaining r), None), r') \<and> 0 < k \<and> k \<le> n \<and>
      k \<le> length (sr_remaining r) \<and> sr_remaining r' = drop k (sr_remaining r)"
    by (intro exI [of _ "min n (length (sr_remaining r))"])
      (auto simp: sr_reader_def SliceReader_Read_def sr_remaining_def Let_def add.commute min_def)
qed

end
